(* ===== verification/Prelude.thy ===== *)
theory Prelude
  imports Main "HOL-Library.Code_Target_Nat" "HOL-Library.Sublist" "HOL-Library.Char_ord" "HOL-Library.List_Lexorder"
begin

text \<open>
  Shared vocabulary of the development: the error values of
  did-hosting-common/src/server/error.rs, the combinators of Rust's Result, the
  string operations of the Rust standard library that the sources use (strings are
  lists of bytes, as a Rust str is), and saturating / checked u64 arithmetic.
  The collections declared here gather the rewrite rules that the component
  theories share.
\<close>

named_theorems ks_simps \<open>equations of the key-value store operations\<close>
named_theorems res_simps \<open>case analysis of fallible computations\<close>

section \<open>Errors and fallible computations\<close>

text \<open>The variants of AppError that the modelled code constructs; a variant keeps
  the discriminants that callers switch on (kinds, agent-name errors) and drops
  the message text.\<close>

datatype validation_kind = InvalidLog | InvalidPath | InvalidWitness | OtherValidation

datatype agent_name_error =
    NameReserved | NameTaken | NameNotFound | NotDisabled | AlreadyDisabled | AlsoKnownAsMismatch

datatype app_error =
    ConfigError
  | Store
  | Serialization
  | Internal
  | NotFound
  | Conflict
  | Authentication
  | Unauthorized
  | Forbidden
  | StepUpRequired
  | Validation validation_kind
  | QuotaExceeded
  | RateLimited nat
  | AgentName agent_name_error
  | DomainDisabled

type_synonym 'a res = "app_error + 'a"

definition and_then :: "'e + 'a \<Rightarrow> ('a \<Rightarrow> 'e + 'b) \<Rightarrow> 'e + 'b" where
  "and_then m f = (case m of Inl e \<Rightarrow> Inl e | Inr x \<Rightarrow> f x)"

definition ok_or :: "'e \<Rightarrow> 'a option \<Rightarrow> 'e + 'a" where
  "ok_or e x = (case x of None \<Rightarrow> Inl e | Some v \<Rightarrow> Inr v)"

definition check :: "bool \<Rightarrow> 'e \<Rightarrow> 'e + unit" where
  "check b e = (if b then Inr () else Inl e)"

definition is_ok :: "'e + 'a \<Rightarrow> bool" where
  "is_ok r = (case r of Inl _ \<Rightarrow> False | Inr _ \<Rightarrow> True)"

lemma and_then_simps [simp]:
  "and_then (Inl e) f = Inl e" "and_then (Inr x) f = f x"
  by (simp_all add: and_then_def)

lemma ok_or_simps [simp]:
  "ok_or e None = Inl e" "ok_or e (Some v) = Inr v"
  by (simp_all add: ok_or_def)

lemma check_simps [simp]:
  "check True e = Inr ()" "check False e = Inl e"
  by (simp_all add: check_def)

lemma is_ok_simps [simp]: "\<not> is_ok (Inl e)" "is_ok (Inr x)"
  by (simp_all add: is_ok_def)

lemma and_then_Inr [res_simps]:
  "and_then m f = Inr y \<longleftrightarrow> (\<exists>x. m = Inr x \<and> f x = Inr y)"
  by (cases m) auto

lemma and_then_Inl [res_simps]:
  "and_then m f = Inl e \<longleftrightarrow> m = Inl e \<or> (\<exists>x. m = Inr x \<and> f x = Inl e)"
  by (cases m) auto

lemma check_Inr [res_simps]: "check b e = Inr u \<longleftrightarrow> b"
  by (simp add: check_def)

lemma check_Inl [res_simps]: "check b e = Inl e' \<longleftrightarrow> \<not> b \<and> e' = e"
  by (auto simp: check_def)

lemma ok_or_Inr [res_simps]: "ok_or e x = Inr v \<longleftrightarrow> x = Some v"
  by (cases x) auto

lemma ok_or_Inl [res_simps]: "ok_or e x = Inl e' \<longleftrightarrow> x = None \<and> e' = e"
  by (cases x) auto

lemma is_ok_iff: "is_ok r \<longleftrightarrow> (\<exists>x. r = Inr x)"
  by (cases r) auto

lemma is_ok_and_then [simp]:
  "is_ok (and_then m f) \<longleftrightarrow> (\<exists>x. m = Inr x \<and> is_ok (f x))"
  by (cases m) auto

lemma is_ok_check [simp]: "is_ok (check b e) = b"
  by (simp add: check_def)

section \<open>Strings\<close>

definition is_lower :: "char \<Rightarrow> bool" where
  "is_lower c \<longleftrightarrow> CHR ''a'' \<le> c \<and> c \<le> CHR ''z''"

definition is_upper :: "char \<Rightarrow> bool" where
  "is_upper c \<longleftrightarrow> CHR ''A'' \<le> c \<and> c \<le> CHR ''Z''"

definition is_digit :: "char \<Rightarrow> bool" where
  "is_digit c \<longleftrightarrow> CHR ''0'' \<le> c \<and> c \<le> CHR ''9''"

definition is_alnum :: "char \<Rightarrow> bool" where
  "is_alnum c \<longleftrightarrow> is_lower c \<or> is_upper c \<or> is_digit c"

definition is_ascii_control :: "char \<Rightarrow> bool" where
  "is_ascii_control c \<longleftrightarrow> c < CHR '' '' \<or> c = CHR 0x7F"

definition to_lower_char :: "char \<Rightarrow> char" where
  "to_lower_char c = (if is_upper c then char_of (of_char c + (32::nat)) else c)"

definition to_ascii_lowercase :: "string \<Rightarrow> string" where
  "to_ascii_lowercase s = map to_lower_char s"

definition eq_ignore_ascii_case :: "string \<Rightarrow> string \<Rightarrow> bool" where
  "eq_ignore_ascii_case s t \<longleftrightarrow> to_ascii_lowercase s = to_ascii_lowercase t"

text \<open>str::split on a single character: a string with n separators has n + 1 parts.\<close>

fun split_on :: "char \<Rightarrow> string \<Rightarrow> string list" where
  "split_on c [] = [[]]"
| "split_on c (x # xs) =
    (if x = c then [] # split_on c xs
     else case split_on c xs of [] \<Rightarrow> [[x]] | p # ps \<Rightarrow> (x # p) # ps)"

text \<open>str::split_once and str::rsplit_once.\<close>

definition split_once :: "char \<Rightarrow> string \<Rightarrow> (string \<times> string) option" where
  "split_once c s = (if c \<in> set s
     then Some (takeWhile (\<lambda>x. x \<noteq> c) s, drop (Suc (length (takeWhile (\<lambda>x. x \<noteq> c) s))) s)
     else None)"

definition rsplit_once :: "char \<Rightarrow> string \<Rightarrow> (string \<times> string) option" where
  "rsplit_once c s = map_option (\<lambda>(a, b). (rev b, rev a)) (split_once c (rev s))"

fun join_with :: "string \<Rightarrow> string list \<Rightarrow> string" where
  "join_with sep [] = []"
| "join_with sep [p] = p"
| "join_with sep (p # q # ps) = p @ sep @ join_with sep (q # ps)"

definition strip_prefix_str :: "string \<Rightarrow> string \<Rightarrow> string option" where
  "strip_prefix_str p s = (if prefix p s then Some (drop (length p) s) else None)"

definition strip_suffix_str :: "string \<Rightarrow> string \<Rightarrow> string option" where
  "strip_suffix_str p s = (if suffix p s then Some (take (length s - length p) s) else None)"

text \<open>The encodings of the characters with the Unicode White_Space property, which
  str::trim removes at both ends.\<close>

definition white_space :: "string list" where
  "white_space =
    [ [CHR 0x09], [CHR 0x0A], [CHR 0x0B], [CHR 0x0C], [CHR 0x0D], [CHR 0x20],
      [CHR 0xC2, CHR 0x85], [CHR 0xC2, CHR 0xA0], [CHR 0xE1, CHR 0x9A, CHR 0x80],
      [CHR 0xE2, CHR 0x80, CHR 0x80], [CHR 0xE2, CHR 0x80, CHR 0x81],
      [CHR 0xE2, CHR 0x80, CHR 0x82], [CHR 0xE2, CHR 0x80, CHR 0x83],
      [CHR 0xE2, CHR 0x80, CHR 0x84], [CHR 0xE2, CHR 0x80, CHR 0x85],
      [CHR 0xE2, CHR 0x80, CHR 0x86], [CHR 0xE2, CHR 0x80, CHR 0x87],
      [CHR 0xE2, CHR 0x80, CHR 0x88], [CHR 0xE2, CHR 0x80, CHR 0x89],
      [CHR 0xE2, CHR 0x80, CHR 0x8A], [CHR 0xE2, CHR 0x80, CHR 0xA8],
      [CHR 0xE2, CHR 0x80, CHR 0xA9], [CHR 0xE2, CHR 0x80, CHR 0xAF],
      [CHR 0xE2, CHR 0x81, CHR 0x9F], [CHR 0xE3, CHR 0x80, CHR 0x80] ]"

fun strip_all :: "nat \<Rightarrow> string list \<Rightarrow> string \<Rightarrow> string" where
  "strip_all 0 ws s = s"
| "strip_all (Suc n) ws s = (case find (\<lambda>w. prefix w s) ws of
      None \<Rightarrow> s
    | Some w \<Rightarrow> strip_all n ws (drop (length w) s))"

text \<open>Each round removes at least one byte, so as many rounds as the string has
  bytes reach the fixed point.\<close>

definition trim_start :: "string \<Rightarrow> string" where
  "trim_start s = strip_all (length s) white_space s"

definition trim_end :: "string \<Rightarrow> string" where
  "trim_end s = rev (strip_all (length s) (map rev white_space) (rev s))"

definition trim :: "string \<Rightarrow> string" where
  "trim s = trim_end (trim_start s)"

text \<open>str::lines: a line ends at a line feed, a carriage return just before it belongs
  to the terminator, and a final unterminated line counts when it is not empty.\<close>

definition strip_cr :: "string \<Rightarrow> string" where
  "strip_cr l = (if l \<noteq> [] \<and> last l = CHR 0x0D then butlast l else l)"

definition str_lines :: "string \<Rightarrow> string list" where
  "str_lines s = (let ps = split_on (CHR 0x0A) s
     in map strip_cr (butlast ps) @ (if last ps = [] then [] else [last ps]))"

text \<open>str::replace of one character by another.\<close>

definition replace_char :: "char \<Rightarrow> char \<Rightarrow> string \<Rightarrow> string" where
  "replace_char a b s = map (\<lambda>c. if c = a then b else c) s"

lemma split_on_not_Nil [simp]: "split_on c s \<noteq> []"
  by (induction s) (auto split: list.splits)

lemma split_on_no_sep: "c \<notin> set s \<Longrightarrow> split_on c s = [s]"
  by (induction s) auto

lemma split_on_parts: "p \<in> set (split_on c s) \<Longrightarrow> c \<notin> set p"
  by (induction s arbitrary: p) (auto split: if_splits list.splits)

lemma split_on_chars: "p \<in> set (split_on c s) \<Longrightarrow> set p \<subseteq> set s"
proof (induction s arbitrary: p)
  case (Cons x xs)
  show ?case
  proof (cases "x = c")
    case True
    then show ?thesis using Cons by auto
  next
    case False
    then obtain q qs where "split_on c xs = q # qs" by (cases "split_on c xs") auto
    then show ?thesis using Cons False by auto blast
  qed
qed auto

lemma chars_of_split_on: "x \<in> set s \<Longrightarrow> x \<noteq> c \<Longrightarrow> \<exists>p \<in> set (split_on c s). x \<in> set p"
proof (induction s)
  case (Cons y ys)
  obtain q qs where "split_on c ys = q # qs" by (cases "split_on c ys") auto
  then show ?case using Cons by auto
qed auto

lemma split_on_append_sep: "split_on c (a @ c # b) = split_on c a @ split_on c b"
  by (induction a) (auto split: list.splits)

lemma str_lines_append:
  "str_lines (a @ CHR 0x0A # b) = map strip_cr (split_on (CHR 0x0A) a) @ str_lines b"
  by (simp add: str_lines_def Let_def split_on_append_sep butlast_append)

lemma join_split_on: "join_with [c] (split_on c s) = s"
proof (induction s)
  case (Cons x xs)
  obtain q qs where q: "split_on c xs = q # qs" by (cases "split_on c xs") auto
  then show ?case using Cons by (cases qs) auto
qed auto

lemma split_once_Some:
  "split_once c s = Some (a, b) \<longleftrightarrow> s = a @ c # b \<and> c \<notin> set a"
proof
  assume "split_once c s = Some (a, b)"
  then have "c \<in> set s" and a: "a = takeWhile (\<lambda>x. x \<noteq> c) s" and b: "b = drop (Suc (length a)) s"
    by (auto simp: split_once_def split: if_splits)
  then obtain u v where "s = u @ c # v" "c \<notin> set u" by (meson split_list_first)
  moreover then have "takeWhile (\<lambda>x. x \<noteq> c) s = u"
    by (auto simp: takeWhile_tail takeWhile_append2)
  ultimately show "s = a @ c # b \<and> c \<notin> set a" using a b by auto
next
  assume h: "s = a @ c # b \<and> c \<notin> set a"
  then have "takeWhile (\<lambda>x. x \<noteq> c) s = a"
    by (auto simp: takeWhile_tail takeWhile_append2)
  then show "split_once c s = Some (a, b)" using h by (simp add: split_once_def)
qed

lemma split_once_None: "split_once c s = None \<longleftrightarrow> c \<notin> set s"
  by (simp add: split_once_def)

lemma strip_prefix_Some: "strip_prefix_str p s = Some t \<longleftrightarrow> s = p @ t"
  by (auto simp: strip_prefix_str_def prefix_def)

lemma prefix_append_same [simp]: "prefix (p @ a) (p @ b) = prefix a b"
  by (simp add: prefix_def)

lemma find_mem: "find P xs = Some x \<Longrightarrow> x \<in> set xs \<and> P x"
  by (induction xs) (auto split: if_splits)

lemma set_map_filter: "y \<in> set (List.map_filter f xs) \<longleftrightarrow> (\<exists>x \<in> set xs. f x = Some y)"
  by (induction xs) (auto simp: List.map_filter_simps split: option.splits)

lemma split_on_join:
  "ls \<noteq> [] \<Longrightarrow> \<forall>l \<in> set ls. c \<notin> set l \<Longrightarrow> split_on c (join_with [c] ls) = ls"
proof (induction "[c]" ls rule: join_with.induct)
  case (3 p q ps)
  then show ?case using split_on_append_sep[of c p "join_with [c] (q # ps)"] by (simp add: split_on_no_sep)
qed (simp_all add: split_on_no_sep)

lemma strip_all_fuel:
  "[] \<notin> set ws \<Longrightarrow> length s \<le> n \<Longrightarrow> strip_all (Suc n) ws s = strip_all n ws s"
proof (induction n arbitrary: s)
  case 0
  then have "find (\<lambda>w. prefix w s) ws = None" by (auto simp: find_None_iff)
  then show ?case by simp
next
  case (Suc n)
  show ?case
  proof (cases "find (\<lambda>w. prefix w s) ws")
    case (Some w)
    then have "w \<noteq> []" using find_mem[OF Some] Suc.prems(1) by auto
    then have "length (drop (length w) s) \<le> n" using Suc.prems(2) by (cases w) auto
    then show ?thesis using Some Suc.IH[OF Suc.prems(1), of "drop (length w) s"] by simp
  qed simp
qed

lemma strip_all_Nil: "[] \<notin> set ws \<Longrightarrow> strip_all n ws [] = []"
proof (cases n)
  case (Suc k)
  assume "[] \<notin> set ws"
  then have "find (\<lambda>w. prefix w []) ws = None" by (auto simp: find_None_iff)
  then show ?thesis using Suc by simp
qed simp

lemma strip_all_snoc:
  assumes "\<And>w. w \<in> set ws \<Longrightarrow> w \<noteq> [] \<and> (c \<in> set w \<longrightarrow> w = [c])"
  shows "strip_all n ws (s @ [c]) = strip_all n ws s @ [c]
    \<or> strip_all n ws s = [] \<and> strip_all n ws (s @ [c]) = []"
proof (induction n arbitrary: s)
  case (Suc n)
  have n: "[] \<notin> set ws" using assms by blast
  show ?case
  proof (cases "s = []")
    case True
    show ?thesis
    proof (cases "find (\<lambda>w. prefix w [c]) ws")
      case (Some w)
      then have "w = [c]" using find_mem[OF Some] n by (auto simp: prefix_Cons)
      then show ?thesis using True Some strip_all_Nil[OF n] strip_all_Nil[OF n, of "Suc n"]
        by (simp del: strip_all.simps(2) add: strip_all.simps(2)[of n ws "[c]"])
    qed (use True strip_all_Nil[OF n, of "Suc n"] in simp)
  next
    case False
    have e: "w \<in> set ws \<Longrightarrow> prefix w (s @ [c]) = prefix w s" for w
      using assms[of w] False by auto
    have f: "find (\<lambda>w. prefix w (s @ [c])) ws = find (\<lambda>w. prefix w s) ws"
      using e by (intro find_cong) auto
    show ?thesis
    proof (cases "find (\<lambda>w. prefix w s) ws")
      case (Some w)
      then have "length w \<le> length s" using find_mem[OF Some] prefix_length_le by auto
      then show ?thesis using f Some Suc.IH[of "drop (length w) s"] by simp
    qed (use f in simp)
  qed
qed simp

lemma white_space_CR: "w \<in> set white_space \<Longrightarrow> w \<noteq> [] \<and> (CHR 0x0D \<in> set w \<longrightarrow> w = [CHR 0x0D])"
  by (auto simp: white_space_def)

lemma trim_end_CR: "trim_end (s @ [CHR 0x0D]) = trim_end s"
proof -
  let ?ws = "map rev white_space"
  have "find (\<lambda>w. prefix w (CHR 0x0D # rev s)) ?ws \<noteq> None"
    by (auto simp: find_None_iff white_space_def)
  then obtain w where w: "find (\<lambda>w. prefix w (CHR 0x0D # rev s)) ?ws = Some w" by blast
  then have "w = [CHR 0x0D]" using find_mem[OF w] by (auto simp: white_space_def)
  then show ?thesis using w by (simp add: trim_end_def)
qed

lemma trim_strip_cr:
  assumes "trim l \<noteq> []"
  shows "trim (strip_cr l) = trim l"
proof (cases "l \<noteq> [] \<and> last l = CHR 0x0D")
  case True
  then obtain t where l: "l = t @ [CHR 0x0D]" by (metis append_butlast_last_id)
  have "[] \<notin> set white_space" using white_space_CR by blast
  then have "trim_start l = trim_start t @ [CHR 0x0D] \<or> trim_start l = []"
    using strip_all_snoc[of white_space "CHR 0x0D" "Suc (length t)" t] white_space_CR
      strip_all_fuel[of white_space t "length t"]
    by (auto simp: trim_start_def l simp del: strip_all.simps)
  then have "trim l = trim t" using assms trim_end_CR[of "trim_start t"]
    by (auto simp: trim_def trim_end_def)
  then show ?thesis by (simp add: strip_cr_def l)
qed (auto simp: strip_cr_def)

section \<open>Unsigned 64-bit arithmetic\<close>

text \<open>u64 values are natural numbers below u64_lim; saturating and checked
  operations are written out where the sources use them.\<close>

definition u64_lim :: nat where
  "u64_lim = 18446744073709551616"

definition u64_max :: nat where
  "u64_max = 18446744073709551615"

definition saturating_add :: "nat \<Rightarrow> nat \<Rightarrow> nat" where
  "saturating_add a b = min (a + b) u64_max"

definition saturating_mul :: "nat \<Rightarrow> nat \<Rightarrow> nat" where
  "saturating_mul a b = min (a * b) u64_max"

definition checked_mul :: "nat \<Rightarrow> nat \<Rightarrow> nat option" where
  "checked_mul a b = (if a * b < u64_lim then Some (a * b) else None)"

definition checked_add :: "nat \<Rightarrow> nat \<Rightarrow> nat option" where
  "checked_add a b = (if a + b < u64_lim then Some (a + b) else None)"

section \<open>Decimal numbers\<close>

definition digit_char :: "nat \<Rightarrow> char" where
  "digit_char d = char_of (48 + d)"

definition digit_val :: "char \<Rightarrow> nat" where
  "digit_val c = of_char c - 48"

text \<open>The Display form of an unsigned integer.\<close>

fun show_nat :: "nat \<Rightarrow> string" where
  "show_nat n = (if n < 10 then [digit_char n] else show_nat (n div 10) @ [digit_char (n mod 10)])"

declare show_nat.simps [simp del]

definition digits_val :: "string \<Rightarrow> nat" where
  "digits_val ds = foldl (\<lambda>a c. a * 10 + digit_val c) 0 ds"

text \<open>FromStr of the unsigned integer types: an optional plus sign, then at least one
  digit, and a value below the bound of the type.\<close>

definition parse_uint :: "nat \<Rightarrow> string \<Rightarrow> nat option" where
  "parse_uint lim s =
    (let ds = (case strip_prefix_str ''+'' s of Some r \<Rightarrow> r | None \<Rightarrow> s)
     in if ds \<noteq> [] \<and> list_all is_digit ds \<and> digits_val ds < lim then Some (digits_val ds) else None)"

lemma digits_val_snoc: "digits_val (ds @ [c]) = digits_val ds * 10 + digit_val c"
  by (simp add: digits_val_def)

lemma digit_char_val [simp]: "d < 10 \<Longrightarrow> digit_val (digit_char d) = d"
  by (simp add: digit_val_def digit_char_def)

lemma digit_char_is_digit [simp]: "d < 10 \<Longrightarrow> is_digit (digit_char d)"
  by (simp add: is_digit_def digit_char_def less_eq_char_def)

lemma digits_val_show: "digits_val (show_nat n) = n"
proof (induction n rule: show_nat.induct)
  case (1 n)
  then show ?case
    by (subst show_nat.simps) (auto simp: digits_val_snoc digits_val_def)
qed

lemma show_nat_digits: "list_all is_digit (show_nat n)"
proof (induction n rule: show_nat.induct)
  case (1 n)
  then show ?case by (subst show_nat.simps) auto
qed

lemma show_nat_not_Nil [simp]: "show_nat n \<noteq> []"
  by (subst show_nat.simps) auto

lemma show_nat_inj: "show_nat m = show_nat n \<longleftrightarrow> m = n"
  by (metis digits_val_show)

lemma plus_not_digit: "\<not> is_digit (CHR ''+'')"
  by code_simp

lemma parse_show: "n < lim \<Longrightarrow> parse_uint lim (show_nat n) = Some n"
proof -
  assume n: "n < lim"
  have "hd (show_nat n) \<noteq> CHR ''+''"
    using show_nat_digits[of n] plus_not_digit by (cases "show_nat n") auto
  then have "strip_prefix_str ''+'' (show_nat n) = None"
    by (cases "show_nat n") (auto simp: strip_prefix_str_def)
  then show ?thesis using n by (simp add: parse_uint_def show_nat_digits digits_val_show)
qed

lemma saturating_add_mono: "a \<le> a' \<Longrightarrow> saturating_add a b \<le> saturating_add a' b"
  by (simp add: saturating_add_def)

lemma saturating_add_exact: "a + b < u64_lim \<Longrightarrow> saturating_add a b = a + b"
  by (simp add: saturating_add_def u64_lim_def u64_max_def)

end
