(* ===== verification/Mnemonic.thy ===== *)
theory Mnemonic
  imports Prelude
begin

text \<open>
  The name grammar of did-hosting-common/src/server/mnemonic.rs: path segments,
  custom paths, mnemonics, did:webs mnemonics and agent names. The lemmas give the
  grammar as a predicate on the segments and show that the kinds of names cannot be
  confused with each other.
\<close>

definition RESERVED_NAMES :: "string list" where
  "RESERVED_NAMES =
    [''.well-known'', ''api'', ''auth'', ''dids'', ''stats'', ''acl'', ''health'']"

definition RESERVED_AGENT_NAMES :: "string list" where
  "RESERVED_AGENT_NAMES =
    [''abuse'', ''admin'', ''administrator'', ''api'', ''help'', ''hostmaster'', ''info'',
     ''postmaster'', ''root'', ''security'', ''support'', ''sysadmin'', ''webmaster'',
     ''well-known'']"

definition ROOT_DID_MNEMONIC :: string where
  "ROOT_DID_MNEMONIC = ''.well-known''"

definition path_err :: app_error where
  "path_err = Validation InvalidPath"

definition validate_segment :: "string \<Rightarrow> unit res" where
  "validate_segment seg =
    (if length seg < 2 \<or> 63 < length seg then Inl path_err
     else if \<not> list_all (\<lambda>c. is_lower c \<or> is_digit c \<or> c = CHR ''-'') seg then Inl path_err
     else if \<not> is_alnum (hd seg) \<or> \<not> is_alnum (last seg) then Inl path_err
     else Inr ())"

text \<open>The loops over the segments: at_first is the loop index being 0.\<close>

fun validate_path_segments :: "bool \<Rightarrow> string list \<Rightarrow> unit res" where
  "validate_path_segments at_first [] = Inr ()"
| "validate_path_segments at_first (seg # segs) =
    (if seg = [] then Inl path_err
     else and_then (validate_segment seg) (\<lambda>_.
       if at_first \<and> seg \<in> set RESERVED_NAMES then Inl path_err
       else validate_path_segments False segs))"

definition validate_custom_path :: "string \<Rightarrow> unit res" where
  "validate_custom_path path =
    (if path = [] then Inl path_err
     else if 255 < length path then Inl path_err
     else if hd path = CHR ''/'' \<or> last path = CHR ''/'' then Inl path_err
     else validate_path_segments True (split_on (CHR ''/'') path))"

definition validate_mnemonic :: "string \<Rightarrow> unit res" where
  "validate_mnemonic mnemonic =
    (if mnemonic = ''.well-known'' then Inr () else validate_custom_path mnemonic)"

definition validate_aid_segment :: "string \<Rightarrow> unit res" where
  "validate_aid_segment aid =
    (if length aid < 4 \<or> 63 < length aid then Inl path_err
     else if \<not> list_all (\<lambda>c. is_alnum c \<or> c = CHR ''-'' \<or> c = CHR ''_'') aid then Inl path_err
     else Inr ())"

definition validate_webs_mnemonic :: "string \<Rightarrow> unit res" where
  "validate_webs_mnemonic mnemonic =
    (if mnemonic = [] then Inl path_err
     else if 255 < length mnemonic then Inl path_err
     else if hd mnemonic = CHR ''/'' \<or> last mnemonic = CHR ''/'' then Inl path_err
     else if mnemonic = ROOT_DID_MNEMONIC then Inl path_err
     else let segments = split_on (CHR ''/'') mnemonic;
              aid = last segments; leading = butlast segments
          in and_then (validate_path_segments True leading) (\<lambda>_.
             and_then (validate_aid_segment aid) (\<lambda>_.
             if leading = [] \<and> aid \<in> set RESERVED_NAMES then Inl path_err else Inr ())))"

text \<open>Removing one leading at sign, as strip_prefix followed by unwrap_or does.\<close>

definition bare_name :: "string \<Rightarrow> string" where
  "bare_name name = (case strip_prefix_str ''@'' name of Some r \<Rightarrow> r | None \<Rightarrow> name)"

definition validate_agent_name :: "string \<Rightarrow> unit res" where
  "validate_agent_name name0 =
    (let name = bare_name name0
     in if name = [] then Inr ()
        else and_then (validate_segment name) (\<lambda>_.
          if name \<in> set RESERVED_AGENT_NAMES then Inl (AgentName NameReserved) else Inr ()))"

definition validate_agent_name_binding :: "string \<Rightarrow> string \<Rightarrow> unit res" where
  "validate_agent_name_binding name mnemonic =
    and_then (validate_agent_name name) (\<lambda>_.
      if bare_name name = [] \<and> mnemonic \<noteq> ROOT_DID_MNEMONIC then Inl (AgentName NameReserved)
      else Inr ())"

section \<open>The grammar as a predicate\<close>

definition seg_char :: "char \<Rightarrow> bool" where
  "seg_char c \<longleftrightarrow> is_lower c \<or> is_digit c \<or> c = CHR ''-''"

definition segment_ok :: "string \<Rightarrow> bool" where
  "segment_ok seg \<longleftrightarrow> 2 \<le> length seg \<and> length seg \<le> 63 \<and> list_all seg_char seg
     \<and> hd seg \<noteq> CHR ''-'' \<and> last seg \<noteq> CHR ''-''"

lemma dash_not_alnum: "\<not> is_alnum (CHR ''-'')"
  by code_simp

lemma seg_char_alnum: "seg_char c \<Longrightarrow> is_alnum c \<longleftrightarrow> c \<noteq> CHR ''-''"
  using dash_not_alnum by (auto simp: seg_char_def is_alnum_def)

lemma validate_segment_ok: "is_ok (validate_segment seg) \<longleftrightarrow> segment_ok seg"
proof (cases "2 \<le> length seg \<and> list_all seg_char seg")
  case True
  then have "seg \<noteq> []" by auto
  then have "seg_char (hd seg)" "seg_char (last seg)"
    using True by (auto simp: list_all_iff)
  then show ?thesis
    using True by (auto simp: validate_segment_def segment_ok_def seg_char_alnum
        seg_char_def[symmetric])
qed (auto simp: validate_segment_def segment_ok_def seg_char_def[symmetric, abs_def])

lemma validate_segment_Inr: "validate_segment seg = Inr u \<longleftrightarrow> segment_ok seg"
  using validate_segment_ok[of seg] by (auto simp: is_ok_iff)

lemma validate_path_segments_ok:
  "is_ok (validate_path_segments b segs) \<longleftrightarrow>
     list_all segment_ok segs \<and> (b \<longrightarrow> segs \<noteq> [] \<longrightarrow> hd segs \<notin> set RESERVED_NAMES)"
proof (induction b segs rule: validate_path_segments.induct)
  case (2 at_first seg segs)
  then show ?case
    by (cases "segment_ok seg") (auto simp: validate_segment_Inr segment_ok_def)
qed simp

lemma segment_ok_not_Nil: "segment_ok seg \<Longrightarrow> seg \<noteq> []"
  by (auto simp: segment_ok_def)

lemma segment_chars: "segment_ok seg \<Longrightarrow> c \<in> set seg \<Longrightarrow> seg_char c"
  by (auto simp: segment_ok_def list_all_iff)

lemma split_hd_sep: "split_on c (c # s) = [] # split_on c s"
  by simp

lemma split_on_snoc_sep: "split_on c (s @ [c]) = split_on c s @ [[]]"
  by (induction s) (auto split: list.splits)

lemma last_split_sep: "s \<noteq> [] \<Longrightarrow> last s = c \<Longrightarrow> last (split_on c s) = []"
  using split_on_snoc_sep[of c "butlast s"] by (metis append_butlast_last_id last_snoc)

lemma hd_split_sep: "s \<noteq> [] \<Longrightarrow> hd s = c \<Longrightarrow> hd (split_on c s) = []"
  by (cases s) auto

lemma validate_custom_path_ok:
  "is_ok (validate_custom_path p) \<longleftrightarrow> length p \<le> 255
     \<and> list_all segment_ok (split_on (CHR ''/'') p)
     \<and> hd (split_on (CHR ''/'') p) \<notin> set RESERVED_NAMES"
proof -
  have e: "hd p \<noteq> CHR ''/'' \<and> last p \<noteq> CHR ''/'' \<and> p \<noteq> []"
    if l: "list_all segment_ok (split_on (CHR ''/'') p)"
  proof -
    have s: "\<And>q. q \<in> set (split_on (CHR ''/'') p) \<Longrightarrow> q \<noteq> []"
      using l segment_ok_not_Nil by (auto simp: list_all_iff)
    have n: "p \<noteq> []" using s by auto
    then show ?thesis
      using s last_split_sep[OF n] hd_split_sep[OF n]
      by (metis hd_in_set last_in_set split_on_not_Nil)
  qed
  then show ?thesis
    by (auto simp: validate_custom_path_def validate_path_segments_ok)
qed

lemma custom_path_chars:
  assumes "is_ok (validate_custom_path p)" "c \<in> set p"
  shows "seg_char c \<or> c = CHR ''/''"
proof (cases "c = CHR ''/''")
  case False
  then obtain q where q: "q \<in> set (split_on (CHR ''/'') p)" "c \<in> set q"
    using chars_of_split_on assms(2) by blast
  then have "segment_ok q" using assms(1) by (auto simp: validate_custom_path_ok list_all_iff)
  then show ?thesis using q(2) segment_chars by blast
qed simp

lemma mnemonic_ok_iff:
  "is_ok (validate_mnemonic m) \<longleftrightarrow> m = ROOT_DID_MNEMONIC \<or> is_ok (validate_custom_path m)"
  by (simp add: validate_mnemonic_def ROOT_DID_MNEMONIC_def)

lemma seg_char_facts:
  "\<not> seg_char (CHR ''@'')" "\<not> seg_char (CHR ''.'')" "\<not> seg_char (CHR '':'')"
  "\<not> seg_char (CHR ''/'')" "\<not> seg_char (CHR ''_'')" "\<not> seg_char (CHR ''%'')"
  by code_simp+

lemma seg_char_not_upper: "is_upper c \<Longrightarrow> \<not> seg_char c"
proof
  assume u: "is_upper c" and s: "seg_char c"
  have "CHR ''Z'' < CHR ''a''" "CHR ''9'' < CHR ''A''" "\<not> is_upper (CHR ''-'')" by code_simp+
  then show False
    using u s unfolding is_upper_def seg_char_def is_lower_def is_digit_def
    by (metis leD order.strict_trans1 order.strict_trans2)
qed

lemma mnemonic_chars:
  assumes "is_ok (validate_mnemonic m)" "c \<in> set m"
  shows "seg_char c \<or> c = CHR ''/'' \<or> c = CHR ''.''"
proof (cases "m = ROOT_DID_MNEMONIC")
  case True
  have "list_all (\<lambda>c. seg_char c \<or> c = CHR ''/'' \<or> c = CHR ''.'') ROOT_DID_MNEMONIC"
    by code_simp
  then show ?thesis using assms(2) True by (auto simp: list_all_iff)
next
  case False
  then show ?thesis using assms custom_path_chars by (auto simp: mnemonic_ok_iff)
qed

lemma validate_agent_name_ok:
  "is_ok (validate_agent_name n) \<longleftrightarrow>
     bare_name n = [] \<or> (segment_ok (bare_name n) \<and> bare_name n \<notin> set RESERVED_AGENT_NAMES)"
  by (auto simp: validate_agent_name_def Let_def validate_segment_Inr)

text \<open>A did:webs mnemonic with an upper-case letter in its AID is never a mnemonic in
  the sense of @validate_mnemonic: the two grammars differ exactly on such slots.\<close>

lemma upper_not_mnemonic:
  "c \<in> set m \<Longrightarrow> is_upper c \<Longrightarrow> \<not> is_ok (validate_mnemonic m)"
proof
  assume "c \<in> set m" "is_upper c" "is_ok (validate_mnemonic m)"
  then have "seg_char c \<or> c = CHR ''/'' \<or> c = CHR ''.''" using mnemonic_chars by blast
  moreover have "\<not> is_upper (CHR ''/'')" "\<not> is_upper (CHR ''.'')" by code_simp+
  ultimately show False using \<open>is_upper c\<close> seg_char_not_upper by auto
qed

section \<open>Properties\<close>

text \<open>C7: A custom path is accepted exactly when it has at most 255 bytes, every part between
  slashes is a well-formed segment and the first is not a reserved route name; in particular
  the explicit checks for an empty path, edge slashes and empty segments are implied.\<close>

theorem custom_path_grammar:
  "is_ok (validate_custom_path p) \<longleftrightarrow> length p \<le> 255
     \<and> list_all segment_ok (split_on (CHR ''/'') p)
     \<and> hd (split_on (CHR ''/'') p) \<notin> set RESERVED_NAMES"
  by (rule validate_custom_path_ok)

text \<open>An accepted mnemonic is a non-empty lower-case string without the characters that
  separate the parts of a storage key or of an identifier, so it can neither be an agent-name
  route nor forge another slot's key.\<close>

theorem mnemonic_key_safe:
  assumes "is_ok (validate_mnemonic m)"
  shows "m \<noteq> [] \<and> CHR '':'' \<notin> set m \<and> CHR ''@'' \<notin> set m \<and> CHR ''%'' \<notin> set m
    \<and> (\<forall>c \<in> set m. \<not> is_upper c)"
proof -
  have n: "m \<noteq> []" using assms by (auto simp: validate_mnemonic_def validate_custom_path_def)
  have k: "seg_char c \<or> c = CHR ''/'' \<or> c = CHR ''.''" if "c \<in> set m" for c
    using mnemonic_chars[OF assms that] .
  show ?thesis using n k seg_char_facts upper_not_mnemonic assms by blast
qed

theorem mnemonic_key_safe_witness: "CHR '':'' \<notin> set ''tenant-a/one''"
proof -
  have "is_ok (validate_mnemonic ''tenant-a/one'')" by code_simp
  then show ?thesis using mnemonic_key_safe by blast
qed

text \<open>A name may be bound to a slot exactly when it is a well-formed, unreserved segment, or
  it is the community name and the slot is the root DID; a name written with its at sign is
  never a mnemonic.\<close>

theorem agent_name_binding_iff:
  "(is_ok (validate_agent_name_binding n m) \<longleftrightarrow>
     (bare_name n = [] \<and> m = ROOT_DID_MNEMONIC) \<or>
     (segment_ok (bare_name n) \<and> bare_name n \<notin> set RESERVED_AGENT_NAMES))
   \<and> \<not> is_ok (validate_mnemonic (CHR ''@'' # n))"
proof
  have "bare_name n \<noteq> []" if "segment_ok (bare_name n)" using that segment_ok_not_Nil by blast
  then show "is_ok (validate_agent_name_binding n m) \<longleftrightarrow>
     (bare_name n = [] \<and> m = ROOT_DID_MNEMONIC) \<or>
     (segment_ok (bare_name n) \<and> bare_name n \<notin> set RESERVED_AGENT_NAMES)"
    using validate_agent_name_ok[of n]
    by (cases "validate_agent_name n") (auto simp: validate_agent_name_binding_def)
  show "\<not> is_ok (validate_mnemonic (CHR ''@'' # n))"
    using mnemonic_chars[of "CHR ''@'' # n" "CHR ''@''"] seg_char_facts by auto
qed

end
