(* ===== verification/KvStore.thy ===== *)
theory KvStore
  imports Prelude
begin

text \<open>
  The keyspaces of did-hosting-common/src/server/store: byte-string keys, values
  read back as written, prefix scans in key order (the order of the fjall
  backend), atomic take and counter increment, and write batches. A keyspace is a
  list of rows in ascending key order. The locale keyspace states what the
  components rely on; it is interpreted on these definitions. Storage failures
  (AppError::Store) and undecodable rows are not modelled: every operation succeeds.
\<close>

type_synonym 'v ks = "(string \<times> 'v) list"

section \<open>Operations (KeyspaceOps of the fjall backend)\<close>

definition ks_get :: "'v ks \<Rightarrow> string \<Rightarrow> 'v option" where
  "ks_get s k = map_of s k"

definition ks_put :: "string \<Rightarrow> 'v \<Rightarrow> 'v ks \<Rightarrow> 'v ks" where
  "ks_put k v s = filter (\<lambda>row. fst row < k) s @ (k, v) # filter (\<lambda>row. k < fst row) s"

definition ks_del :: "string \<Rightarrow> 'v ks \<Rightarrow> 'v ks" where
  "ks_del k s = filter (\<lambda>row. fst row \<noteq> k) s"

definition ks_has :: "'v ks \<Rightarrow> string \<Rightarrow> bool" where
  "ks_has s k = (ks_get s k \<noteq> None)"

definition ks_scan :: "string \<Rightarrow> 'v ks \<Rightarrow> (string \<times> 'v) list" where
  "ks_scan p s = filter (\<lambda>row. prefix p (fst row)) s"

text \<open>take_raw_atomic: read and remove in one step; at most one caller sees the value.\<close>

definition ks_take :: "string \<Rightarrow> 'v ks \<Rightarrow> 'v option \<times> 'v ks" where
  "ks_take k s = (case ks_get s k of None \<Rightarrow> (None, s) | Some v \<Rightarrow> (Some v, ks_del k s))"

definition ks_ok :: "'v ks \<Rightarrow> bool" where
  "ks_ok s \<longleftrightarrow> sorted_wrt (<) (map fst s)"

text \<open>A batch of writes, committed in the order in which they were staged.\<close>

datatype 'v ks_write = Put string 'v | Del string

fun apply_write :: "'v ks \<Rightarrow> 'v ks_write \<Rightarrow> 'v ks" where
  "apply_write s (Put k v) = ks_put k v s"
| "apply_write s (Del k) = ks_del k s"

definition ks_commit :: "'v ks_write list \<Rightarrow> 'v ks \<Rightarrow> 'v ks" where
  "ks_commit ws s = foldl apply_write s ws"

section \<open>Counters (incr_raw)\<close>

text \<open>A counter is stored as eight big-endian bytes; anything else reads as 0.\<close>

fun bytes_to_nat :: "nat \<Rightarrow> string \<Rightarrow> nat" where
  "bytes_to_nat acc [] = acc"
| "bytes_to_nat acc (b # bs) = bytes_to_nat (acc * 256 + of_char b) bs"

definition decode_counter :: "string \<Rightarrow> nat" where
  "decode_counter bs = (if length bs = 8 then bytes_to_nat 0 bs else 0)"

fun nat_to_bytes :: "nat \<Rightarrow> nat \<Rightarrow> string" where
  "nat_to_bytes 0 n = []"
| "nat_to_bytes (Suc w) n = nat_to_bytes w (n div 256) @ [char_of (n mod 256)]"

definition encode_counter :: "nat \<Rightarrow> string" where
  "encode_counter n = nat_to_bytes 8 n"

definition ks_incr :: "string \<Rightarrow> string ks \<Rightarrow> nat \<times> string ks" where
  "ks_incr k s =
    (let next = saturating_add (case ks_get s k of None \<Rightarrow> 0 | Some b \<Rightarrow> decode_counter b) 1
     in (next, ks_put k (encode_counter next) s))"

section \<open>The interface\<close>

lemma map_of_filter_key: "map_of (filter (\<lambda>row. P (fst row)) s) k = (if P k then map_of s k else None)"
  by (induction s) auto

lemma sorted_filter_keys:
  "sorted_wrt (<) (map fst s) \<Longrightarrow> sorted_wrt (<) (map fst (filter P s))"
  by (simp add: sorted_wrt_map sorted_wrt_filter)

locale keyspace =
  fixes get :: "'s \<Rightarrow> string \<Rightarrow> 'v option"
    and put :: "string \<Rightarrow> 'v \<Rightarrow> 's \<Rightarrow> 's"
    and del :: "string \<Rightarrow> 's \<Rightarrow> 's"
    and scan :: "string \<Rightarrow> 's \<Rightarrow> (string \<times> 'v) list"
    and inv :: "'s \<Rightarrow> bool"
  assumes inv_put: "inv s \<Longrightarrow> inv (put k v s)"
    and inv_del: "inv s \<Longrightarrow> inv (del k s)"
    and get_put: "inv s \<Longrightarrow> get (put k v s) j = (if j = k then Some v else get s j)"
    and get_del: "inv s \<Longrightarrow> get (del k s) j = (if j = k then None else get s j)"
    and scan_set: "inv s \<Longrightarrow> set (scan p s) = {(k, v). prefix p k \<and> get s k = Some v}"
    and scan_sorted: "inv s \<Longrightarrow> sorted_wrt (<) (map fst (scan p s))"
begin

lemma scan_mem: "inv s \<Longrightarrow> (k, v) \<in> set (scan p s) \<longleftrightarrow> prefix p k \<and> get s k = Some v"
  by (simp add: scan_set)

lemma scan_distinct: "inv s \<Longrightarrow> distinct (map fst (scan p s))"
  using scan_sorted[of s p] by (induction "map fst (scan p s)") (auto simp: strict_sorted_iff)

text \<open>A scan is determined by what lookups return.\<close>

lemma sorted_rows_eq:
  fixes xs ys :: "(string \<times> 'v) list"
  assumes "sorted_wrt (<) (map fst xs)" "sorted_wrt (<) (map fst ys)" "set xs = set ys"
  shows "xs = ys"
proof -
  have k: "map fst xs = map fst ys"
    using assms by (intro strict_sorted_equal) (auto simp: strict_sorted_iff)
  have d: "distinct (map fst xs)" using assms(1) by (simp add: strict_sorted_iff)
  have "\<And>i. i < length xs \<Longrightarrow> xs ! i = ys ! i"
  proof -
    fix i assume i: "i < length xs"
    then have l: "length ys = length xs" using k by (metis length_map)
    then have "ys ! i \<in> set xs" using i assms(3) by (metis nth_mem)
    moreover have "fst (ys ! i) = fst (xs ! i)" using k i l by (metis nth_map)
    ultimately show "xs ! i = ys ! i"
      using d i by (metis eq_key_imp_eq_value nth_mem prod.collapse)
  qed
  then show ?thesis using k by (metis length_map nth_equalityI)
qed

lemma scan_cong:
  assumes "inv s" "inv t" "\<And>k. prefix p k \<Longrightarrow> get s k = get t k"
  shows "scan p s = scan p t"
  using assms by (intro sorted_rows_eq) (auto simp: scan_sorted scan_set)

lemma scan_put_other:
  "inv s \<Longrightarrow> \<not> prefix p k \<Longrightarrow> scan p (put k v s) = scan p s"
  by (intro scan_cong) (auto simp: inv_put get_put)

lemma scan_del_other:
  "inv s \<Longrightarrow> \<not> prefix p k \<Longrightarrow> scan p (del k s) = scan p s"
  by (intro scan_cong) (auto simp: inv_del get_del)

lemma scan_del:
  "inv s \<Longrightarrow> scan p (del k s) = filter (\<lambda>row. fst row \<noteq> k) (scan p s)"
  by (intro sorted_rows_eq)
     (auto simp: inv_del scan_sorted sorted_filter_keys scan_set get_del split: if_splits)

lemma put_then_scan_mem:
  "inv s \<Longrightarrow> prefix p k \<Longrightarrow> (k, v) \<in> set (scan p (put k v s))"
  by (simp add: scan_set inv_put get_put)

lemma put_idem_get: "inv s \<Longrightarrow> get s k = Some v \<Longrightarrow> get (put k v s) j = get s j"
  by (simp add: get_put)

end

text \<open>A keyspace whose rows carry their own identity: each row is stored under the key
  of its identifying field, all keys share a prefix, and listing the rows means scanning
  that prefix. The ACL, the assignments, the purge queue, the registry and the watcher
  and witness stores all follow this contract.\<close>

locale keyed_rows = keyspace get put del scan inv
  for get :: "'s \<Rightarrow> string \<Rightarrow> 'v option"
    and put :: "string \<Rightarrow> 'v \<Rightarrow> 's \<Rightarrow> 's"
    and del :: "string \<Rightarrow> 's \<Rightarrow> 's"
    and scan :: "string \<Rightarrow> 's \<Rightarrow> (string \<times> 'v) list"
    and inv :: "'s \<Rightarrow> bool" +
  fixes key :: "string \<Rightarrow> string"
    and pfx :: string
    and ident :: "'v \<Rightarrow> string"
  assumes key_eq: "key a = key b \<longleftrightarrow> a = b"
    and key_pfx: "prefix pfx (key a)"
begin

definition keyed :: "'s \<Rightarrow> bool" where
  "keyed s \<longleftrightarrow> inv s \<and> (\<forall>j v. get s j = Some v \<longrightarrow> j = key (ident v))"

lemma keyed_inv: "keyed s \<Longrightarrow> inv s"
  by (simp add: keyed_def)

lemma keyed_put: "keyed s \<Longrightarrow> keyed (put (key (ident v)) v s)"
  by (auto simp: keyed_def inv_put get_put split: if_splits)

lemma keyed_del: "keyed s \<Longrightarrow> keyed (del j s)"
  by (auto simp: keyed_def inv_del get_del split: if_splits)

lemma get_ident: "keyed s \<Longrightarrow> get s (key a) = Some v \<Longrightarrow> ident v = a"
  by (metis keyed_def key_eq)

lemma listed_iff:
  "keyed s \<Longrightarrow> v \<in> snd ` set (scan pfx s) \<longleftrightarrow> get s (key (ident v)) = Some v"
proof -
  assume k: "keyed s"
  have "v \<in> snd ` set (scan pfx s) \<longleftrightarrow> (\<exists>j. prefix pfx j \<and> get s j = Some v)"
    using scan_set[OF keyed_inv[OF k], of pfx] by force
  then show ?thesis using k key_pfx by (metis keyed_def)
qed

lemma listed_distinct:
  assumes "keyed s"
  shows "distinct (map ident (map snd (scan pfx s)))"
proof -
  have i: "inv s" and k: "\<And>j v. get s j = Some v \<Longrightarrow> j = key (ident v)"
    using assms by (auto simp: keyed_def)
  have "map fst (scan pfx s) = map key (map ident (map snd (scan pfx s)))"
    using k by (auto simp: scan_set[OF i])
  then show ?thesis using scan_distinct[OF i, of pfx] by (metis distinct_map)
qed

lemma listed_put_mem:
  assumes "keyed s"
  shows "w \<in> snd ` set (scan pfx (put (key (ident v)) v s)) \<longleftrightarrow>
    (w = v \<or> (ident w \<noteq> ident v \<and> w \<in> snd ` set (scan pfx s)))"
  using keyed_put[OF assms] assms
  by (auto simp: listed_iff get_put keyed_inv key_eq)

lemma listed_del_mem:
  assumes "keyed s"
  shows "w \<in> snd ` set (scan pfx (del (key a) s)) \<longleftrightarrow> ident w \<noteq> a \<and> w \<in> snd ` set (scan pfx s)"
  using keyed_del[OF assms] assms
  by (auto simp: listed_iff get_del keyed_inv key_eq)

end

lemma ks_get_put [ks_simps]: "ks_get (ks_put k v s) j = (if j = k then Some v else ks_get s j)"
  using map_of_filter_key[of "\<lambda>i. i < k" s j] map_of_filter_key[of "\<lambda>i. k < i" s j]
  by (auto simp: ks_get_def ks_put_def map_add_def split: option.splits)

lemma ks_get_del [ks_simps]: "ks_get (ks_del k s) j = (if j = k then None else ks_get s j)"
  using map_of_filter_key[of "\<lambda>i. i \<noteq> k" s j] by (simp add: ks_get_def ks_del_def)

lemma ks_ok_put [ks_simps]: "ks_ok s \<Longrightarrow> ks_ok (ks_put k v s)"
  by (auto simp: ks_ok_def ks_put_def sorted_wrt_append sorted_filter_keys)

lemma ks_ok_del [ks_simps]: "ks_ok s \<Longrightarrow> ks_ok (ks_del k s)"
  by (simp add: ks_ok_def ks_del_def sorted_filter_keys)

lemma ks_ok_Nil [simp]: "ks_ok []"
  by (simp add: ks_ok_def)

lemma ks_ok_distinct: "ks_ok s \<Longrightarrow> distinct (map fst s)"
  by (simp add: ks_ok_def strict_sorted_iff)

interpretation rows: keyspace ks_get ks_put ks_del ks_scan ks_ok
proof (unfold_locales, goal_cases)
  case (5 s p)
  then show ?case using ks_ok_distinct[OF 5] by (auto simp: ks_scan_def ks_get_def)
qed (simp_all add: ks_simps, simp add: ks_scan_def ks_ok_def sorted_filter_keys)

lemma ks_has_iff [ks_simps]: "ks_has s k \<longleftrightarrow> (\<exists>v. ks_get s k = Some v)"
  by (auto simp: ks_has_def)

lemma ks_get_Nil [simp]: "ks_get [] k = None"
  by (simp add: ks_get_def)

lemma ks_ok_commit: "ks_ok s \<Longrightarrow> ks_ok (ks_commit ws s)"
proof (induction ws arbitrary: s)
  case (Cons w ws)
  then show ?case by (cases w) (simp_all add: ks_commit_def ks_simps)
qed (simp add: ks_commit_def)

lemma ks_commit_simps [ks_simps]:
  "ks_commit [] s = s"
  "ks_commit (Put k v # ws) s = ks_commit ws (ks_put k v s)"
  "ks_commit (Del k # ws) s = ks_commit ws (ks_del k s)"
  by (simp_all add: ks_commit_def)

lemma ks_commit_append: "ks_commit (ws @ vs) s = ks_commit vs (ks_commit ws s)"
  by (simp add: ks_commit_def)

fun write_key :: "'v ks_write \<Rightarrow> string" where
  "write_key (Put k v) = k"
| "write_key (Del k) = k"

lemma ks_get_commit_other:
  "k \<notin> write_key ` set ws \<Longrightarrow> ks_get (ks_commit ws s) k = ks_get s k"
proof (induction ws arbitrary: s)
  case (Cons w ws)
  then show ?case by (cases w) (auto simp: ks_commit_def ks_simps)
qed (simp add: ks_commit_def)

lemma ks_get_commit_cong:
  "ks_get s k = ks_get t k \<Longrightarrow> ks_get (ks_commit ws s) k = ks_get (ks_commit ws t) k"
proof (induction ws arbitrary: s t)
  case (Cons w ws)
  then show ?case by (cases w) (auto simp: ks_commit_def ks_simps intro!: Cons.IH)
qed (simp add: ks_commit_def)

lemma ks_get_commit_dels:
  "ks_get (ks_commit (map Del ds) s) k = (if k \<in> set ds then None else ks_get s k)"
  by (induction ds arbitrary: s) (auto simp: ks_simps)

text \<open>Scans as queues: a write behind the last row appends, a write to a present row replaces.\<close>

lemma scan_put_last:
  assumes "prefix p k" "\<And>j v. (j, v) \<in> set (ks_scan p s) \<Longrightarrow> j < k"
  shows "ks_scan p (ks_put k v s) = ks_scan p s @ [(k, v)]"
proof -
  have "filter (\<lambda>row. prefix p (fst row)) (filter (\<lambda>row. fst row < k) s) = ks_scan p s"
    unfolding ks_scan_def filter_filter using assms(2) by (intro filter_cong) (auto simp: ks_scan_def)
  moreover have "filter (\<lambda>row. prefix p (fst row)) (filter (\<lambda>row. k < fst row) s) = []"
    using assms(2) by (fastforce simp: filter_empty_conv ks_scan_def)
  ultimately show ?thesis using assms(1) by (simp add: ks_scan_def ks_put_def)
qed

lemma scan_put_present:
  assumes "ks_ok s" "ks_get s k \<noteq> None"
  shows "ks_scan p (ks_put k v s) = map (\<lambda>(j, w). if j = k then (k, v) else (j, w)) (ks_scan p s)"
proof (rule rows.sorted_rows_eq)
  have f: "map fst (map (\<lambda>(j, w). if j = k then (k, v) else (j, w)) xs) = map fst xs" for xs :: "(string \<times> 'a) list"
    by (induction xs) auto
  show "sorted_wrt (<) (map fst (map (\<lambda>(j, w). if j = k then (k, v) else (j, w)) (ks_scan p s)))"
    unfolding f using rows.scan_sorted[OF assms(1)] .
  show "sorted_wrt (<) (map fst (ks_scan p (ks_put k v s)))"
    using assms(1) by (intro rows.scan_sorted) (simp add: ks_simps)
  show "set (ks_scan p (ks_put k v s)) = set (map (\<lambda>(j, w). if j = k then (k, v) else (j, w)) (ks_scan p s))"
    using assms by (auto simp: rows.scan_set ks_simps image_iff split: if_splits)
qed

lemma ks_take_Some:
  "ks_take k s = (Some v, t) \<longleftrightarrow> ks_get s k = Some v \<and> t = ks_del k s"
  by (auto simp: ks_take_def split: option.splits)

lemma ks_take_None: "ks_take k s = (None, t) \<longleftrightarrow> ks_get s k = None \<and> t = s"
  by (auto simp: ks_take_def split: option.splits)

lemma bytes_to_nat_append: "bytes_to_nat a (xs @ [b]) = bytes_to_nat a xs * 256 + of_char b"
  by (induction xs arbitrary: a) auto

lemma length_nat_to_bytes [simp]: "length (nat_to_bytes w n) = w"
  by (induction w arbitrary: n) auto

lemma bytes_of_nat: "bytes_to_nat 0 (nat_to_bytes w n) = n mod 256 ^ w"
proof (induction w arbitrary: n)
  case (Suc w)
  have "n mod 256 ^ Suc w = n div 256 mod 256 ^ w * 256 + n mod 256"
    by (simp add: mod_mult2_eq mult.commute)
  then show ?case by (simp add: bytes_to_nat_append Suc)
qed simp

lemma decode_encode: "n < u64_lim \<Longrightarrow> decode_counter (encode_counter n) = n"
  by (simp add: decode_counter_def encode_counter_def bytes_of_nat u64_lim_def)

end
