(* ===== verification/Domains.thy ===== *)
theory Domains
  imports KvStore
begin

text \<open>
  The domain registry of did-hosting-common/src/server/domain (types.rs, scope.rs,
  normalize.rs, store.rs, seed.rs), the grace-period purge queue of
  did-hosting-common/src/server/pending_purge.rs, and the domain handlers of
  did-hosting-control/src/control_tasks/domain.rs that drive them. The host parser of
  the url crate and the URL parser are parameters (parse_host, parse_url).
\<close>

section \<open>Domain scopes of ACL entries (scope.rs)\<close>

datatype domain_scope =
    ScopeAll
  | ScopeAllowed "string list"
  | ScopeAllowedWithDefault "string list" string

definition new_allowed_with_default :: "string list \<Rightarrow> string \<Rightarrow> unit + domain_scope" where
  "new_allowed_with_default domains dflt =
    (if domains = [] then Inl ()
     else if dflt \<notin> set domains then Inl ()
     else Inr (ScopeAllowedWithDefault domains dflt))"

fun scope_allows :: "domain_scope \<Rightarrow> string \<Rightarrow> bool" where
  "scope_allows ScopeAll d = True"
| "scope_allows (ScopeAllowed ds) d = (d \<in> set ds)"
| "scope_allows (ScopeAllowedWithDefault ds _) d = (d \<in> set ds)"

fun scope_default_domain :: "domain_scope \<Rightarrow> string option" where
  "scope_default_domain (ScopeAllowedWithDefault _ dflt) = Some dflt"
| "scope_default_domain ScopeAll = None"
| "scope_default_domain (ScopeAllowed _) = None"

datatype domain_resolve_error = NoDefault

definition resolve_request_domain ::
  "string option \<Rightarrow> domain_scope \<Rightarrow> string option \<Rightarrow> domain_resolve_error + string" where
  "resolve_request_domain request_domain caller_scope system_default =
    (case request_domain of
       Some (c # cs) \<Rightarrow> Inr (c # cs)
     | _ \<Rightarrow> (case scope_default_domain caller_scope of
         Some d \<Rightarrow> Inr d
       | None \<Rightarrow> (case (caller_scope, system_default) of
           (ScopeAll, Some d) \<Rightarrow> Inr d
         | _ \<Rightarrow> Inl NoDefault)))"

section \<open>Domain records (types.rs)\<close>

datatype domain_url_scheme = Https | Http

datatype domain_status = Active | Disabled

record domain_branding =
  display_name :: "string option"
  logo_url :: "string option"
  tos_url :: "string option"
  contact_email :: "string option"

record domain_quota =
  max_dids_in_domain :: "nat option"
  max_total_size_in_domain :: "nat option"

record domain_entry =
  dom_name :: string
  dom_label :: "string option"
  dom_scheme :: domain_url_scheme
  dom_status :: domain_status
  dom_created_at :: nat
  dom_default_domain :: bool
  dom_branding :: "domain_branding option"
  dom_witnesses :: "string list option"
  dom_watchers :: "string list option"
  dom_quota :: "domain_quota option"
  dom_well_known_enabled :: bool
  dom_disabled_at :: "nat option"
  dom_purge_at :: "nat option"

section \<open>Names (normalize.rs)\<close>

datatype host = HostDomain string | HostIpv4 | HostIpv6

abbreviation invalid :: app_error where "invalid \<equiv> Validation OtherValidation"

definition split_host_port :: "string \<Rightarrow> (string \<times> nat option) res" where
  "split_host_port h0 = (case rsplit_once (CHR '':'') h0 of
     None \<Rightarrow> Inr (h0, None)
   | Some (h, p) \<Rightarrow>
       if h = [] \<or> p = [] then Inl invalid
       else (case parse_uint 65536 p of
           None \<Rightarrow> Inl invalid
         | Some n \<Rightarrow> if n = 0 then Inl invalid else Inr (h, Some n)))"

definition normalize_host :: "(string \<Rightarrow> host option) \<Rightarrow> string \<Rightarrow> string res" where
  "normalize_host parse_host h0 =
    and_then (split_host_port h0) (\<lambda>(host_part, port).
      case parse_host host_part of
        None \<Rightarrow> Inl invalid
      | Some (HostDomain s) \<Rightarrow>
          if \<not> list_all (\<lambda>c. is_lower c \<or> is_digit c \<or> c = CHR ''-'' \<or> c = CHR ''.'') s
          then Inl invalid
          else Inr (case port of Some p \<Rightarrow> s @ '':'' @ show_nat p | None \<Rightarrow> s)
      | Some HostIpv4 \<Rightarrow> Inl invalid
      | Some HostIpv6 \<Rightarrow> Inl invalid)"

definition path_char_ok :: "char \<Rightarrow> bool" where
  "path_char_ok c \<longleftrightarrow> is_lower c \<or> is_digit c \<or> c \<in> set ''-_./''"

definition normalize_path :: "string \<Rightarrow> string res" where
  "normalize_path path =
    (if path = [] then Inl invalid
     else if hd path = CHR ''/'' \<or> last path = CHR ''/'' then Inl invalid
     else if sublist ''//'' path then Inl invalid
     else if \<not> list_all path_char_ok path then Inl invalid
     else Inr path)"

definition normalize_domain_name :: "(string \<Rightarrow> host option) \<Rightarrow> string \<Rightarrow> string res" where
  "normalize_domain_name parse_host input =
    (if input = [] then Inl invalid
     else if 253 < length input then Inl invalid
     else if trim input \<noteq> input then Inl invalid
     else if hd input = CHR ''/'' \<or> last input = CHR ''/'' then Inl invalid
     else
       and_then (case split_once (CHR ''/'') input of
           None \<Rightarrow> normalize_host parse_host input
         | Some (h, p) \<Rightarrow>
             and_then (normalize_host parse_host h) (\<lambda>hn.
             and_then (normalize_path p) (\<lambda>pn. Inr (hn @ ''/'' @ pn))))
         (\<lambda>canonical. if canonical \<noteq> input then Inl invalid else Inr canonical))"

lemma normalize_id: "normalize_domain_name ph n = Inr c \<Longrightarrow> c = n"
  by (auto simp: normalize_domain_name_def res_simps split: if_splits)

section \<open>Pending purges (pending_purge.rs)\<close>

record pending_purge =
  pp_domain :: string
  pp_scheduled_at :: nat
  pp_grace_seconds :: nat
  pp_reason :: string
  pp_scheduled_by :: string

definition pending_key :: "string \<Rightarrow> string" where
  "pending_key d = ''pending_purges:'' @ d"

datatype schedule_outcome = Created pending_purge | Replaced pending_purge pending_purge

datatype cancel_outcome = Removed pending_purge | Missing

definition pp_schedule ::
  "string \<Rightarrow> nat \<Rightarrow> nat \<Rightarrow> string \<Rightarrow> string \<Rightarrow> pending_purge ks \<Rightarrow> schedule_outcome \<times> pending_purge ks" where
  "pp_schedule domain scheduled_at grace reason by_did s =
    (let new = \<lparr>pp_domain = domain, pp_scheduled_at = scheduled_at, pp_grace_seconds = grace,
                pp_reason = reason, pp_scheduled_by = by_did\<rparr>;
         outcome = (case ks_get s (pending_key domain) of
             Some previous \<Rightarrow> Replaced previous new
           | None \<Rightarrow> Created new)
     in (outcome, ks_put (pending_key domain) new s))"

definition pp_cancel :: "string \<Rightarrow> pending_purge ks \<Rightarrow> cancel_outcome \<times> pending_purge ks" where
  "pp_cancel domain s = (case ks_get s (pending_key domain) of
     None \<Rightarrow> (Missing, s)
   | Some existing \<Rightarrow> (Removed existing, ks_del (pending_key domain) s))"

definition pp_get :: "string \<Rightarrow> pending_purge ks \<Rightarrow> pending_purge option" where
  "pp_get domain s = ks_get s (pending_key domain)"

definition pp_list :: "pending_purge ks \<Rightarrow> pending_purge list" where
  "pp_list s = map snd (ks_scan ''pending_purges:'' s)"

definition is_ripe :: "pending_purge \<Rightarrow> nat \<Rightarrow> bool" where
  "is_ripe p now = (saturating_add (pp_scheduled_at p) (pp_grace_seconds p) \<le> now)"

definition grace_unit :: "string \<Rightarrow> nat option" where
  "grace_unit u =
    (if u \<in> {'''', ''s'', ''sec'', ''secs'', ''second'', ''seconds''} then Some 1
     else if u \<in> {''m'', ''min'', ''mins'', ''minute'', ''minutes''} then Some 60
     else if u \<in> {''h'', ''hr'', ''hrs'', ''hour'', ''hours''} then Some (60 * 60)
     else if u \<in> {''d'', ''day'', ''days''} then Some (24 * 60 * 60)
     else None)"

definition parse_grace_string :: "string \<Rightarrow> nat option" where
  "parse_grace_string s =
    (let trimmed = trim s; digits = takeWhile is_digit trimmed;
         unit = to_ascii_lowercase (trim (dropWhile is_digit trimmed))
     in if trimmed = [] then None
        else if digits = [] then None
        else case parse_uint u64_lim digits of
            None \<Rightarrow> None
          | Some n \<Rightarrow> (case grace_unit unit of
              None \<Rightarrow> None
            | Some m \<Rightarrow> checked_mul n m))"

section \<open>The domain store (store.rs)\<close>

record domain_store =
  domains :: "domain_entry ks"
  meta :: "string ks"
  purges :: "pending_purge ks"

definition META_DEFAULT_DOMAIN_KEY :: string where
  "META_DEFAULT_DOMAIN_KEY = ''default_domain''"

definition DISABLE_PURGE_REASON :: string where
  "DISABLE_PURGE_REASON = ''disable-grace''"

type_synonym host_parser = "string \<Rightarrow> host option"

definition create_domain :: "host_parser \<Rightarrow> domain_entry \<Rightarrow> domain_store \<Rightarrow> domain_store res" where
  "create_domain ph entry st =
    and_then (normalize_domain_name ph (dom_name entry)) (\<lambda>canonical.
      if canonical \<noteq> dom_name entry then Inl invalid
      else if ks_has (domains st) canonical then Inl Conflict
      else Inr (st\<lparr>domains := ks_put canonical entry (domains st)\<rparr>))"

definition get_domain :: "host_parser \<Rightarrow> string \<Rightarrow> domain_store \<Rightarrow> domain_entry option res" where
  "get_domain ph name st =
    and_then (normalize_domain_name ph name) (\<lambda>canonical. Inr (ks_get (domains st) canonical))"

definition list_domains :: "domain_store \<Rightarrow> domain_entry list" where
  "list_domains st = map snd (ks_scan [] (domains st))"

definition update_domain ::
  "host_parser \<Rightarrow> string \<Rightarrow> domain_entry \<Rightarrow> domain_store \<Rightarrow> domain_store res" where
  "update_domain ph name new_entry st =
    and_then (normalize_domain_name ph name) (\<lambda>canonical.
      if dom_name new_entry \<noteq> canonical then Inl invalid
      else if \<not> ks_has (domains st) canonical then Inl NotFound
      else Inr (st\<lparr>domains := ks_put canonical new_entry (domains st)\<rparr>))"

definition get_default_domain :: "domain_store \<Rightarrow> string option" where
  "get_default_domain st = ks_get (meta st) META_DEFAULT_DOMAIN_KEY"

definition disable_domain ::
  "host_parser \<Rightarrow> string \<Rightarrow> nat \<Rightarrow> nat \<Rightarrow> string \<Rightarrow> domain_store \<Rightarrow> domain_store res" where
  "disable_domain ph name now grace by_did st =
    and_then (normalize_domain_name ph name) (\<lambda>canonical.
      if get_default_domain st = Some canonical then Inl Conflict
      else and_then (and_then (get_domain ph canonical st) (ok_or NotFound)) (\<lambda>entry0.
        let entry = entry0\<lparr>dom_status := Disabled, dom_disabled_at := Some now,
                           dom_purge_at := Some (saturating_add now grace)\<rparr>
        in Inr (st\<lparr>domains := ks_put canonical entry (domains st),
                   purges := snd (pp_schedule canonical now grace DISABLE_PURGE_REASON by_did
                                   (purges st))\<rparr>)))"

definition enable_domain :: "host_parser \<Rightarrow> string \<Rightarrow> domain_store \<Rightarrow> domain_store res" where
  "enable_domain ph name st =
    and_then (normalize_domain_name ph name) (\<lambda>canonical.
      and_then (and_then (get_domain ph canonical st) (ok_or NotFound)) (\<lambda>entry0.
        let entry = entry0\<lparr>dom_status := Active, dom_disabled_at := None, dom_purge_at := None\<rparr>
        in Inr (st\<lparr>domains := ks_put canonical entry (domains st),
                   purges := snd (pp_cancel canonical (purges st))\<rparr>)))"

definition delete_domain_record :: "host_parser \<Rightarrow> string \<Rightarrow> domain_store \<Rightarrow> domain_store res" where
  "delete_domain_record ph name st =
    and_then (normalize_domain_name ph name) (\<lambda>canonical.
      if get_default_domain st = Some canonical then Inl Conflict
      else if \<not> ks_has (domains st) canonical then Inl NotFound
      else Inr (st\<lparr>domains := ks_del canonical (domains st)\<rparr>))"

text \<open>The loop of set_default_domain over the listed entries.\<close>

fun sync_default_flags :: "string \<Rightarrow> domain_entry list \<Rightarrow> domain_entry ks \<Rightarrow> domain_entry ks" where
  "sync_default_flags canonical [] s = s"
| "sync_default_flags canonical (e # es) s =
    sync_default_flags canonical es
      (if dom_default_domain e \<noteq> (dom_name e = canonical)
       then ks_put (dom_name e) (e\<lparr>dom_default_domain := (dom_name e = canonical)\<rparr>) s
       else s)"

definition set_default_domain :: "host_parser \<Rightarrow> string \<Rightarrow> domain_store \<Rightarrow> domain_store res" where
  "set_default_domain ph name st =
    and_then (normalize_domain_name ph name) (\<lambda>canonical.
      and_then (and_then (get_domain ph canonical st) (ok_or NotFound)) (\<lambda>entry.
        if dom_status entry \<noteq> Active then Inl Conflict
        else Inr (st\<lparr>meta := ks_put META_DEFAULT_DOMAIN_KEY canonical (meta st),
                     domains := sync_default_flags canonical (list_domains st) (domains st)\<rparr>)))"

end
