(* ===== verification/DomainTasks.thy ===== *)
theory DomainTasks
  imports Domains
begin

text \<open>
  First-boot seeding (domain/seed.rs), the domain handlers of the control plane
  (did-hosting-control/src/control_tasks/domain.rs) and its purge sweep
  (did-hosting-control/src/purge_sweep.rs) as steps on the domain store, and the
  invariant they keep: names are canonical, the default names an active domain, and
  a domain has a purge row exactly while it is disabled.
\<close>

section \<open>First boot (seed.rs)\<close>

datatype seed_tier = AlreadySeeded | FromBootstrapDomains | FromLegacyPublicUrl | NoSeed

record seed_outcome =
  seed_tier_of :: seed_tier
  seed_final_count :: nat
  seed_default :: "string option"

definition host_from_public_url ::
  "(string \<Rightarrow> (string option \<times> nat option) option) \<Rightarrow> string \<Rightarrow> string option" where
  "host_from_public_url parse_url url = (case parse_url url of
     None \<Rightarrow> None
   | Some (None, _) \<Rightarrow> None
   | Some (Some h, port) \<Rightarrow>
       Some (case port of Some p \<Rightarrow> to_ascii_lowercase h @ '':'' @ show_nat p
             | None \<Rightarrow> to_ascii_lowercase h))"

definition new_entry :: "string \<Rightarrow> string option \<Rightarrow> nat \<Rightarrow> bool \<Rightarrow> domain_entry" where
  "new_entry name label now is_default =
    \<lparr>dom_name = name, dom_label = label, dom_scheme = Https, dom_status = Active,
     dom_created_at = now, dom_default_domain = is_default, dom_branding = None,
     dom_witnesses = None, dom_watchers = None, dom_quota = None,
     dom_well_known_enabled = False, dom_disabled_at = None, dom_purge_at = None\<rparr>"

definition seed_entry ::
  "host_parser \<Rightarrow> nat \<Rightarrow> string \<Rightarrow> bool \<Rightarrow> domain_store \<Rightarrow> unit res \<times> domain_store" where
  "seed_entry ph now name is_default st =
    (case normalize_domain_name ph name of
       Inl e \<Rightarrow> (Inl e, st)
     | Inr canonical \<Rightarrow>
         (case create_domain ph (new_entry canonical None now is_default) st of
            Inl e \<Rightarrow> (Inl e, st)
          | Inr st1 \<Rightarrow>
              if is_default then
                (case set_default_domain ph canonical st1 of
                   Inl e \<Rightarrow> (Inl e, st1)
                 | Inr st2 \<Rightarrow> (Inr (), st2))
              else (Inr (), st1)))"

fun seed_others ::
  "host_parser \<Rightarrow> nat \<Rightarrow> string list \<Rightarrow> domain_store \<Rightarrow> unit res \<times> domain_store" where
  "seed_others ph now [] st = (Inr (), st)"
| "seed_others ph now (d # ds) st =
    (case seed_entry ph now d False st of
       (Inl e, st1) \<Rightarrow> (Inl e, st1)
     | (Inr _, st1) \<Rightarrow> seed_others ph now ds st1)"

definition seed_domains_first_boot ::
  "host_parser \<Rightarrow> (string \<Rightarrow> (string option \<times> nat option) option) \<Rightarrow> nat \<Rightarrow> string list
     \<Rightarrow> string option \<Rightarrow> domain_store \<Rightarrow> seed_outcome res \<times> domain_store" where
  "seed_domains_first_boot ph parse_url now bootstrap legacy_url st =
    (if list_domains st \<noteq> [] then
       (Inr \<lparr>seed_tier_of = AlreadySeeded, seed_final_count = length (list_domains st),
             seed_default = get_default_domain st\<rparr>, st)
     else case bootstrap of
       first # others \<Rightarrow>
         (case seed_entry ph now first True st of
            (Inl e, st1) \<Rightarrow> (Inl e, st1)
          | (Inr _, st1) \<Rightarrow>
              (case seed_others ph now others st1 of
                 (Inl e, st2) \<Rightarrow> (Inl e, st2)
               | (Inr _, st2) \<Rightarrow>
                   (and_then (normalize_domain_name ph first) (\<lambda>d.
                      Inr \<lparr>seed_tier_of = FromBootstrapDomains,
                           seed_final_count = length (list_domains st2), seed_default = Some d\<rparr>),
                    st2)))
     | [] \<Rightarrow>
         (case Option.bind legacy_url (host_from_public_url parse_url) of
            Some h \<Rightarrow>
              (case seed_entry ph now h True st of
                 (Inl e, st1) \<Rightarrow> (Inl e, st1)
               | (Inr _, st1) \<Rightarrow>
                   (and_then (normalize_domain_name ph h) (\<lambda>d.
                      Inr \<lparr>seed_tier_of = FromLegacyPublicUrl, seed_final_count = 1,
                           seed_default = Some d\<rparr>), st1))
          | None \<Rightarrow>
              (Inr \<lparr>seed_tier_of = NoSeed, seed_final_count = 0, seed_default = None\<rparr>, st)))"

section \<open>Handlers (control_tasks/domain.rs)\<close>

datatype declared_code =
    InvalidName | DomainExists | UnknownDomain | IsDefault | DomainIsDisabled | NotDisabled

datatype task_error = Declared declared_code | PermissionDenied | App app_error

record auth_claims =
  auth_did :: string
  auth_acr :: string

text \<open>What a handler queues for the servers: an upsert of the entry for every server,
  or a purge for every server that hosts the domain.\<close>

datatype domain_fanout = FanUpsert domain_entry | FanPurge string

type_synonym 'a task_step = "(task_error + 'a) \<times> domain_fanout list \<times> domain_store"

definition lift_app :: "'a res \<Rightarrow> task_error + 'a" where
  "lift_app r = (case r of Inl e \<Rightarrow> Inl (App e) | Inr x \<Rightarrow> Inr x)"

definition canonical_name :: "host_parser \<Rightarrow> string \<Rightarrow> declared_code \<Rightarrow> task_error + string" where
  "canonical_name ph name unknown = (case normalize_domain_name ph name of
     Inl _ \<Rightarrow> Inl (Declared unknown) | Inr c \<Rightarrow> Inr c)"

definition existing_domain ::
  "host_parser \<Rightarrow> string \<Rightarrow> declared_code \<Rightarrow> domain_store \<Rightarrow> task_error + domain_entry" where
  "existing_domain ph name unknown st =
    and_then (lift_app (get_domain ph name st)) (ok_or (Declared unknown))"

text \<open>Finish a handler: re-read the entry and queue its upsert.\<close>

definition finish_with_upsert ::
  "host_parser \<Rightarrow> string \<Rightarrow> declared_code \<Rightarrow> domain_store \<Rightarrow> domain_entry task_step" where
  "finish_with_upsert ph name unknown st =
    (case existing_domain ph name unknown st of
       Inl e \<Rightarrow> (Inl e, [], st)
     | Inr entry \<Rightarrow> (Inr entry, [FanUpsert entry], st))"

definition task_create ::
  "host_parser \<Rightarrow> nat \<Rightarrow> (task_error + auth_claims) \<Rightarrow> string \<Rightarrow> string option \<Rightarrow> bool
     \<Rightarrow> domain_store \<Rightarrow> domain_entry task_step" where
  "task_create ph now admin name0 label set_as_default st =
    (case and_then admin (\<lambda>_. canonical_name ph name0 InvalidName) of
       Inl e \<Rightarrow> (Inl e, [], st)
     | Inr name \<Rightarrow>
         (case create_domain ph (new_entry name label now False) st of
            Inl Conflict \<Rightarrow> (Inl (Declared DomainExists), [], st)
          | Inl e \<Rightarrow> (Inl (App e), [], st)
          | Inr st1 \<Rightarrow>
              if set_as_default then
                (case set_default_domain ph name st1 of
                   Inl e \<Rightarrow> (Inl (App e), [], st1)
                 | Inr st2 \<Rightarrow> finish_with_upsert ph name InvalidName st2)
              else finish_with_upsert ph name InvalidName st1))"

definition task_update ::
  "host_parser \<Rightarrow> (task_error + auth_claims) \<Rightarrow> string \<Rightarrow> string option
     \<Rightarrow> domain_store \<Rightarrow> domain_entry task_step" where
  "task_update ph admin name0 label st =
    (case and_then admin (\<lambda>_. and_then (canonical_name ph name0 UnknownDomain) (\<lambda>name.
            and_then (existing_domain ph name UnknownDomain st) (\<lambda>entry. Inr (name, entry)))) of
       Inl e \<Rightarrow> (Inl e, [], st)
     | Inr (name, entry0) \<Rightarrow>
         let entry = (case label of Some l \<Rightarrow> entry0\<lparr>dom_label := Some l\<rparr> | None \<Rightarrow> entry0)
         in (case update_domain ph name entry st of
               Inl e \<Rightarrow> (Inl (App e), [], st)
             | Inr st1 \<Rightarrow> (Inr entry, [FanUpsert entry], st1)))"

definition task_set_state ::
  "host_parser \<Rightarrow> nat \<Rightarrow> string \<Rightarrow> (task_error + auth_claims) \<Rightarrow> string \<Rightarrow> domain_status
     \<Rightarrow> domain_store \<Rightarrow> domain_entry task_step" where
  "task_set_state ph now grace_cfg admin name0 want st =
    (case and_then admin (\<lambda>auth. and_then (canonical_name ph name0 UnknownDomain) (\<lambda>name.
            and_then (existing_domain ph name UnknownDomain st) (\<lambda>_. Inr (auth, name)))) of
       Inl e \<Rightarrow> (Inl e, [], st)
     | Inr (auth, name) \<Rightarrow>
         (case want of
            Active \<Rightarrow>
              (case enable_domain ph name st of
                 Inl e \<Rightarrow> (Inl (App e), [], st)
               | Inr st1 \<Rightarrow> finish_with_upsert ph name UnknownDomain st1)
          | Disabled \<Rightarrow>
              (case parse_grace_string grace_cfg of
                 None \<Rightarrow> (Inl (App Internal), [], st)
               | Some grace \<Rightarrow>
                   (case disable_domain ph name now grace (auth_did auth) st of
                      Inl Conflict \<Rightarrow> (Inl (Declared IsDefault), [], st)
                    | Inl e \<Rightarrow> (Inl (App e), [], st)
                    | Inr st1 \<Rightarrow> finish_with_upsert ph name UnknownDomain st1))))"

definition task_set_default ::
  "host_parser \<Rightarrow> (task_error + auth_claims) \<Rightarrow> string \<Rightarrow> domain_store
     \<Rightarrow> domain_entry task_step" where
  "task_set_default ph admin name0 st =
    (case and_then admin (\<lambda>_. and_then (canonical_name ph name0 UnknownDomain) (\<lambda>name.
            and_then (existing_domain ph name UnknownDomain st) (\<lambda>_. Inr name))) of
       Inl e \<Rightarrow> (Inl e, [], st)
     | Inr name \<Rightarrow>
         (case set_default_domain ph name st of
            Inl Conflict \<Rightarrow> (Inl (Declared DomainIsDisabled), [], st)
          | Inl e \<Rightarrow> (Inl (App e), [], st)
          | Inr st1 \<Rightarrow> finish_with_upsert ph name UnknownDomain st1))"

definition task_purge ::
  "host_parser \<Rightarrow> (task_error + auth_claims) \<Rightarrow> string \<Rightarrow> bool \<Rightarrow> domain_store
     \<Rightarrow> string task_step" where
  "task_purge ph admin name0 purge_servers st =
    (case and_then admin (\<lambda>auth.
            and_then (check (auth_acr auth = ''aal2'') (App StepUpRequired)) (\<lambda>_.
            and_then (canonical_name ph name0 UnknownDomain) (\<lambda>name.
            and_then (existing_domain ph name UnknownDomain st) (\<lambda>entry.
            and_then (check (dom_status entry \<noteq> Active) (Declared NotDisabled)) (\<lambda>_.
            and_then (check (get_default_domain st \<noteq> Some name) (Declared IsDefault)) (\<lambda>_.
            Inr name)))))) of
       Inl e \<Rightarrow> (Inl e, [], st)
     | Inr name \<Rightarrow>
         let fan = (if purge_servers then [FanPurge name] else [])
         in (case delete_domain_record ph name st of
               Inl e \<Rightarrow> (Inl (App e), fan, st)
             | Inr st1 \<Rightarrow>
                 (Inr name, fan, st1\<lparr>purges := snd (pp_cancel name (purges st1))\<rparr>)))"

section \<open>The control plane's purge sweep (purge_sweep.rs)\<close>

fun sweep_rows ::
  "host_parser \<Rightarrow> nat \<Rightarrow> pending_purge list \<Rightarrow> nat \<Rightarrow> domain_store \<Rightarrow> nat \<times> domain_store" where
  "sweep_rows ph now [] purged st = (purged, st)"
| "sweep_rows ph now (p # ps) purged st =
    (if \<not> is_ripe p now then sweep_rows ph now ps purged st
     else if pp_reason p \<noteq> DISABLE_PURGE_REASON then sweep_rows ph now ps purged st
     else case delete_domain_record ph (pp_domain p) st of
         Inl _ \<Rightarrow> sweep_rows ph now ps purged st
       | Inr st1 \<Rightarrow> sweep_rows ph now ps (purged + 1)
                      (st1\<lparr>purges := snd (pp_cancel (pp_domain p) (purges st1))\<rparr>))"

definition control_sweep_once :: "host_parser \<Rightarrow> nat \<Rightarrow> domain_store \<Rightarrow> nat \<times> domain_store" where
  "control_sweep_once ph now st = sweep_rows ph now (pp_list (purges st)) 0 st"

section \<open>The invariant of the domain store\<close>

definition store_ok :: "domain_store \<Rightarrow> bool" where
  "store_ok st \<longleftrightarrow> ks_ok (domains st) \<and> ks_ok (meta st) \<and> ks_ok (purges st)"

definition names_ok :: "host_parser \<Rightarrow> domain_store \<Rightarrow> bool" where
  "names_ok ph st \<longleftrightarrow> (\<forall>k e. ks_get (domains st) k = Some e \<longrightarrow>
     dom_name e = k \<and> normalize_domain_name ph k = Inr k)"

definition default_ok :: "domain_store \<Rightarrow> bool" where
  "default_ok st \<longleftrightarrow> (\<forall>d. get_default_domain st = Some d \<longrightarrow>
     (\<exists>e. ks_get (domains st) d = Some e \<and> dom_status e = Active))"

text \<open>A purge row that belongs to a disabled entry: same domain, same clock.\<close>

definition row_matches :: "domain_entry \<Rightarrow> pending_purge \<Rightarrow> bool" where
  "row_matches e p \<longleftrightarrow> pp_domain p = dom_name e \<and> pp_reason p = DISABLE_PURGE_REASON
     \<and> dom_disabled_at e = Some (pp_scheduled_at p)
     \<and> dom_purge_at e = Some (saturating_add (pp_scheduled_at p) (pp_grace_seconds p))"

definition purge_ok_at :: "domain_store \<Rightarrow> string \<Rightarrow> bool" where
  "purge_ok_at st k = (case ks_get (domains st) k of
     None \<Rightarrow> pp_get k (purges st) = None
   | Some e \<Rightarrow> (case dom_status e of
       Active \<Rightarrow> pp_get k (purges st) = None \<and> dom_disabled_at e = None \<and> dom_purge_at e = None
     | Disabled \<Rightarrow> (\<exists>p. pp_get k (purges st) = Some p \<and> row_matches e p)))"

definition rows_keyed :: "domain_store \<Rightarrow> bool" where
  "rows_keyed st \<longleftrightarrow> (\<forall>j p. ks_get (purges st) j = Some p \<longrightarrow> j = pending_key (pp_domain p))"

definition domain_inv :: "host_parser \<Rightarrow> domain_store \<Rightarrow> bool" where
  "domain_inv ph st \<longleftrightarrow> store_ok st \<and> names_ok ph st \<and> default_ok st
     \<and> (\<forall>k. purge_ok_at st k) \<and> rows_keyed st"

lemmas domain_inv_unfold =
  domain_inv_def store_ok_def names_ok_def default_ok_def rows_keyed_def get_default_domain_def

lemma pending_key_inj [simp]: "pending_key a = pending_key b \<longleftrightarrow> a = b"
  by (simp add: pending_key_def)

lemma pp_schedule_rows:
  "snd (pp_schedule d at grace reason by_did s) =
     ks_put (pending_key d) \<lparr>pp_domain = d, pp_scheduled_at = at, pp_grace_seconds = grace,
       pp_reason = reason, pp_scheduled_by = by_did\<rparr> s"
  by (simp add: pp_schedule_def Let_def)

lemma pp_cancel_rows: "ks_get (snd (pp_cancel d s)) j = (if j = pending_key d then None else ks_get s j)"
  by (auto simp: pp_cancel_def ks_simps split: option.splits)

lemma pp_cancel_ok: "ks_ok s \<Longrightarrow> ks_ok (snd (pp_cancel d s))"
  by (auto simp: pp_cancel_def ks_simps split: option.splits)

lemmas pp_rows = pp_schedule_rows pp_cancel_rows pp_cancel_ok pp_get_def

text \<open>Inversion of the store operations: what a successful call did.\<close>

lemma get_domain_Inr:
  "get_domain ph n st = Inr r \<longleftrightarrow> normalize_domain_name ph n = Inr n \<and> r = ks_get (domains st) n"
  using normalize_id[of ph n] by (auto simp: get_domain_def res_simps)

lemma create_domain_Inr:
  "create_domain ph e st = Inr st' \<longleftrightarrow> normalize_domain_name ph (dom_name e) = Inr (dom_name e)
     \<and> ks_get (domains st) (dom_name e) = None
     \<and> st' = st\<lparr>domains := ks_put (dom_name e) e (domains st)\<rparr>"
  using normalize_id[of ph "dom_name e"]
  by (auto simp: create_domain_def res_simps ks_has_def split: if_splits)

lemma update_domain_Inr:
  "update_domain ph n e st = Inr st' \<longleftrightarrow> normalize_domain_name ph n = Inr n \<and> dom_name e = n
     \<and> ks_get (domains st) n \<noteq> None \<and> st' = st\<lparr>domains := ks_put n e (domains st)\<rparr>"
  using normalize_id[of ph n]
  by (auto simp: update_domain_def res_simps ks_has_def split: if_splits)

lemma disable_domain_Inr:
  "disable_domain ph n now grace by_did st = Inr st' \<longleftrightarrow>
     normalize_domain_name ph n = Inr n \<and> get_default_domain st \<noteq> Some n \<and>
     (\<exists>e. ks_get (domains st) n = Some e \<and>
        st' = st\<lparr>domains := ks_put n (e\<lparr>dom_status := Disabled, dom_disabled_at := Some now,
                   dom_purge_at := Some (saturating_add now grace)\<rparr>) (domains st),
                 purges := snd (pp_schedule n now grace DISABLE_PURGE_REASON by_did (purges st))\<rparr>)"
  using normalize_id[of ph n]
  by (fastforce simp: disable_domain_def res_simps get_domain_Inr Let_def split: if_splits)

lemma enable_domain_Inr:
  "enable_domain ph n st = Inr st' \<longleftrightarrow> normalize_domain_name ph n = Inr n \<and>
     (\<exists>e. ks_get (domains st) n = Some e \<and>
        st' = st\<lparr>domains := ks_put n (e\<lparr>dom_status := Active, dom_disabled_at := None,
                   dom_purge_at := None\<rparr>) (domains st),
                 purges := snd (pp_cancel n (purges st))\<rparr>)"
  using normalize_id[of ph n]
  by (fastforce simp: enable_domain_def res_simps get_domain_Inr Let_def)

lemma delete_domain_Inr:
  "delete_domain_record ph n st = Inr st' \<longleftrightarrow> normalize_domain_name ph n = Inr n
     \<and> get_default_domain st \<noteq> Some n \<and> ks_get (domains st) n \<noteq> None
     \<and> st' = st\<lparr>domains := ks_del n (domains st)\<rparr>"
  using normalize_id[of ph n]
  by (auto simp: delete_domain_record_def res_simps ks_has_def split: if_splits)

lemma set_default_Inr:
  "set_default_domain ph n st = Inr st' \<longleftrightarrow> normalize_domain_name ph n = Inr n
     \<and> (\<exists>e. ks_get (domains st) n = Some e \<and> dom_status e = Active)
     \<and> st' = st\<lparr>meta := ks_put META_DEFAULT_DOMAIN_KEY n (meta st),
                domains := sync_default_flags n (list_domains st) (domains st)\<rparr>"
  using normalize_id[of ph n]
  by (fastforce simp: set_default_domain_def res_simps get_domain_Inr split: if_splits)

lemma flag_same: "(e::domain_entry)\<lparr>dom_default_domain := dom_default_domain e\<rparr> = e"
  by simp

lemma sync_get:
  assumes "distinct (map dom_name es)" "\<And>e. e \<in> set es \<Longrightarrow> ks_get s (dom_name e) = Some e"
  shows "ks_get (sync_default_flags c es s) k =
    (if k \<in> dom_name ` set es then map_option (\<lambda>e. e\<lparr>dom_default_domain := (k = c)\<rparr>) (ks_get s k)
     else ks_get s k)"
  using assms
proof (induction es arbitrary: s)
  case (Cons e es)
  define s' where "s' = (if dom_default_domain e \<noteq> (dom_name e = c)
       then ks_put (dom_name e) (e\<lparr>dom_default_domain := (dom_name e = c)\<rparr>) s else s)"
  have e: "ks_get s (dom_name e) = Some e" using Cons.prems(2) by simp
  have g: "ks_get s' j = (if j = dom_name e then Some (e\<lparr>dom_default_domain := (dom_name e = c)\<rparr>)
      else ks_get s j)" for j
  proof (cases "dom_default_domain e = (dom_name e = c)")
    case True
    then show ?thesis using e flag_same[of e] by (auto simp: s'_def)
  qed (simp add: ks_simps s'_def)
  have "ks_get (sync_default_flags c es s') k =
    (if k \<in> dom_name ` set es then map_option (\<lambda>e. e\<lparr>dom_default_domain := (k = c)\<rparr>) (ks_get s' k)
     else ks_get s' k)"
  proof (rule Cons.IH)
    show "distinct (map dom_name es)" using Cons.prems(1) by simp
    fix e' assume e': "e' \<in> set es"
    then have "dom_name e' \<noteq> dom_name e" using Cons.prems(1) by (metis distinct.simps(2) image_eqI
          list.simps(9) list.set_map)
    then show "ks_get s' (dom_name e') = Some e'" using Cons.prems(2) e' by (simp only: g) simp
  qed
  moreover have "sync_default_flags c (e # es) s = sync_default_flags c es s'"
    by (simp add: s'_def)
  ultimately show ?case using Cons.prems(1) e by (auto simp: g)
qed simp

lemma sync_ok: "ks_ok s \<Longrightarrow> ks_ok (sync_default_flags c es s)"
  by (induction es arbitrary: s) (auto simp: ks_simps)

lemma list_domains_mem:
  "ks_ok (domains st) \<Longrightarrow> e \<in> set (list_domains st) \<longleftrightarrow> (\<exists>k. ks_get (domains st) k = Some e)"
  by (force simp: list_domains_def rows.scan_set)

lemma names_list:
  assumes "ks_ok (domains st)" "names_ok ph st"
  shows "map dom_name (list_domains st) = map fst (ks_scan [] (domains st))"
  using assms by (auto simp: list_domains_def names_ok_def rows.scan_set)

lemma set_default_get:
  assumes "ks_ok (domains st)" "names_ok ph st"
  shows "ks_get (sync_default_flags c (list_domains st) (domains st)) k =
    map_option (\<lambda>e. e\<lparr>dom_default_domain := (k = c)\<rparr>) (ks_get (domains st) k)"
proof -
  have d: "distinct (map dom_name (list_domains st))"
    using names_list[OF assms] rows.scan_distinct[OF assms(1)] by simp
  have m: "ks_get (domains st) (dom_name e) = Some e" if "e \<in> set (list_domains st)" for e
    using that assms by (auto simp: list_domains_mem names_ok_def)
  have "k \<in> dom_name ` set (list_domains st) \<longleftrightarrow> ks_get (domains st) k \<noteq> None"
    using assms m by (force simp: list_domains_mem names_ok_def)
  then show ?thesis using sync_get[OF d m] by auto
qed

section \<open>Every operation keeps the invariant\<close>

lemma create_keeps:
  assumes "domain_inv ph st" "create_domain ph e st = Inr st'" "dom_status e = Active"
    "dom_disabled_at e = None" "dom_purge_at e = None"
  shows "domain_inv ph st'"
proof -
  have p: "purge_ok_at st' k" for k
    using assms by (cases "k = dom_name e")
      (auto simp: domain_inv_def create_domain_Inr purge_ok_at_def ks_simps
        split: option.splits domain_status.splits dest!: spec[of _ k])
  show ?thesis using assms p
    by (auto simp: domain_inv_unfold create_domain_Inr ks_simps)
qed

lemma update_label_keeps:
  assumes "domain_inv ph st" "update_domain ph n e' st = Inr st'"
    "ks_get (domains st) n = Some e" "dom_name e' = dom_name e" "dom_status e' = dom_status e"
    "dom_disabled_at e' = dom_disabled_at e" "dom_purge_at e' = dom_purge_at e"
  shows "domain_inv ph st'"
proof -
  have p: "purge_ok_at st' k" for k
    using assms by (cases "k = n")
      (auto simp: domain_inv_def update_domain_Inr purge_ok_at_def ks_simps row_matches_def
        split: option.splits domain_status.splits dest!: spec[of _ k])
  show ?thesis using assms p
    by (auto simp: domain_inv_unfold update_domain_Inr ks_simps)
qed

lemma disable_keeps:
  assumes "domain_inv ph st" "disable_domain ph n now grace by_did st = Inr st'"
  shows "domain_inv ph st'"
proof -
  have p: "purge_ok_at st' k" for k
    using assms by (cases "k = n")
      (auto simp: domain_inv_def disable_domain_Inr purge_ok_at_def ks_simps row_matches_def pp_rows
        names_ok_def split: option.splits domain_status.splits dest!: spec[of _ k])
  show ?thesis using assms p
    by (auto simp: domain_inv_unfold disable_domain_Inr ks_simps pp_rows split: if_splits)
qed

lemma enable_keeps:
  assumes "domain_inv ph st" "enable_domain ph n st = Inr st'"
  shows "domain_inv ph st'"
proof -
  have p: "purge_ok_at st' k" for k
    using assms by (cases "k = n")
      (auto simp: domain_inv_def enable_domain_Inr purge_ok_at_def ks_simps row_matches_def pp_rows
        names_ok_def split: option.splits domain_status.splits dest!: spec[of _ k])
  show ?thesis using assms p
    by (auto simp: domain_inv_unfold enable_domain_Inr ks_simps pp_rows split: if_splits)
qed

lemma delete_cancel_keeps:
  assumes "domain_inv ph st" "delete_domain_record ph n st = Inr st1"
  shows "domain_inv ph (st1\<lparr>purges := snd (pp_cancel n (purges st1))\<rparr>)"
proof -
  let ?st = "st1\<lparr>purges := snd (pp_cancel n (purges st1))\<rparr>"
  have p: "purge_ok_at ?st k" for k
    using assms by (cases "k = n")
      (auto simp: domain_inv_def delete_domain_Inr purge_ok_at_def ks_simps pp_rows
        split: option.splits domain_status.splits dest!: spec[of _ k])
  show ?thesis using assms p
    by (auto simp: domain_inv_unfold delete_domain_Inr ks_simps pp_rows split: if_splits)
qed

lemma set_default_keeps:
  assumes "domain_inv ph st" "set_default_domain ph n st = Inr st'"
  shows "domain_inv ph st'"
proof -
  have o: "ks_ok (domains st)" "names_ok ph st"
    using assms(1) by (auto simp: domain_inv_def store_ok_def)
  have g: "ks_get (domains st') k = map_option (\<lambda>e. e\<lparr>dom_default_domain := (k = n)\<rparr>)
      (ks_get (domains st) k)" for k
    using assms(2) set_default_get[OF o] by (auto simp: set_default_Inr)
  have m: "purges st' = purges st" "meta st' = ks_put META_DEFAULT_DOMAIN_KEY n (meta st)"
      "ks_ok (domains st')"
    using assms(2) o by (auto simp: set_default_Inr sync_ok)
  obtain e0 where e0: "ks_get (domains st) n = Some e0" "dom_status e0 = Active"
    using assms(2) by (auto simp: set_default_Inr)
  have p: "purge_ok_at st' k" for k
  proof -
    have "purge_ok_at st k" using assms(1) by (simp add: domain_inv_def)
    then show ?thesis by (cases "ks_get (domains st) k")
      (auto simp: purge_ok_at_def g m row_matches_def split: domain_status.splits)
  qed
  show ?thesis using assms(1) p
    by (auto simp: domain_inv_unfold g m e0 ks_simps split: if_splits)
qed

section \<open>The sweep under the invariant\<close>

lemma purge_row_domain:
  assumes "domain_inv ph st" "pp_get k (purges st) = Some p"
  shows "\<exists>e. ks_get (domains st) k = Some e \<and> dom_status e = Disabled \<and> row_matches e p
    \<and> pp_domain p = k"
proof -
  have "purge_ok_at st k" "rows_keyed st" using assms(1) by (auto simp: domain_inv_def)
  moreover from this have "pp_domain p = k"
    using assms(2) by (metis pending_key_inj pp_get_def rows_keyed_def)
  ultimately show ?thesis using assms(2)
    by (auto simp: purge_ok_at_def split: option.splits domain_status.splits)
qed

lemma disabled_deletable:
  assumes "domain_inv ph st" "ks_get (domains st) k = Some e" "dom_status e = Disabled"
  shows "delete_domain_record ph k st = Inr (st\<lparr>domains := ks_del k (domains st)\<rparr>)"
  using assms by (auto simp: delete_domain_Inr domain_inv_def names_ok_def default_ok_def)

lemma sweep_rows_exact:
  assumes "domain_inv ph st" "distinct (map pp_domain ps)"
    "\<And>p. p \<in> set ps \<Longrightarrow> pp_get (pp_domain p) (purges st) = Some p"
  shows "domain_inv ph (snd (sweep_rows ph now ps n st))
    \<and> ks_get (domains (snd (sweep_rows ph now ps n st))) k =
        (if \<exists>p \<in> set ps. pp_domain p = k \<and> is_ripe p now then None else ks_get (domains st) k)
    \<and> fst (sweep_rows ph now ps n st) = n + length (filter (\<lambda>p. is_ripe p now) ps)"
  using assms
proof (induction ps arbitrary: n st)
  case (Cons p ps)
  obtain e where e: "ks_get (domains st) (pp_domain p) = Some e" "dom_status e = Disabled"
      "row_matches e p"
    using purge_row_domain[OF Cons.prems(1)] Cons.prems(3) by fastforce
  show ?case
  proof (cases "is_ripe p now")
    case False
    then show ?thesis using Cons by auto
  next
    case True
    define st1 where "st1 = st\<lparr>domains := ks_del (pp_domain p) (domains st),
      purges := snd (pp_cancel (pp_domain p) (purges st))\<rparr>"
    have d: "delete_domain_record ph (pp_domain p) st
        = Inr (st\<lparr>domains := ks_del (pp_domain p) (domains st)\<rparr>)"
      by (rule disabled_deletable[OF Cons.prems(1) e(1,2)])
    have r: "sweep_rows ph now (p # ps) n st = sweep_rows ph now ps (n + 1) st1"
      using True e(3) d by (simp add: st1_def row_matches_def)
    have i: "domain_inv ph st1" using delete_cancel_keeps[OF Cons.prems(1) d] by (simp add: st1_def)
    have "pp_get (pp_domain q) (purges st1) = Some q" if "q \<in> set ps" for q
    proof -
      have "pp_domain q \<noteq> pp_domain p" using Cons.prems(2) that
        by (metis distinct.simps(2) image_eqI list.simps(9) list.set_map)
      then show ?thesis using Cons.prems(3) that by (auto simp: st1_def pp_rows)
    qed
    then have "domain_inv ph (snd (sweep_rows ph now ps (n + 1) st1))
      \<and> ks_get (domains (snd (sweep_rows ph now ps (n + 1) st1))) k =
        (if \<exists>p \<in> set ps. pp_domain p = k \<and> is_ripe p now then None else ks_get (domains st1) k)
      \<and> fst (sweep_rows ph now ps (n + 1) st1) = n + 1 + length (filter (\<lambda>p. is_ripe p now) ps)"
      using Cons.prems(2) by (intro Cons.IH i) auto
    moreover have "ks_get (domains st1) k = (if k = pp_domain p then None else ks_get (domains st) k)"
      by (simp add: st1_def ks_simps)
    ultimately show ?thesis using True unfolding r by auto
  qed
qed simp

lemma pp_list_rows:
  assumes "domain_inv ph st"
  shows "distinct (map pp_domain (pp_list (purges st)))"
    "p \<in> set (pp_list (purges st)) \<longleftrightarrow> pp_get (pp_domain p) (purges st) = Some p"
proof -
  let ?rows = "ks_scan ''pending_purges:'' (purges st)"
  have o: "ks_ok (purges st)" and k: "rows_keyed st"
    using assms by (auto simp: domain_inv_def store_ok_def)
  have "map fst ?rows = map (pending_key \<circ> pp_domain \<circ> snd) ?rows"
    using k by (auto simp: rows.scan_set[OF o] rows_keyed_def)
  then have "distinct (map (pending_key \<circ> pp_domain \<circ> snd) ?rows)"
    using rows.scan_distinct[OF o] by metis
  moreover have "map (pending_key \<circ> pp_domain \<circ> snd) ?rows = map pending_key (map pp_domain (pp_list (purges st)))"
    by (simp add: pp_list_def)
  ultimately show "distinct (map pp_domain (pp_list (purges st)))" by (metis distinct_map)
  show "p \<in> set (pp_list (purges st)) \<longleftrightarrow> pp_get (pp_domain p) (purges st) = Some p"
  proof -
    have "p \<in> set (pp_list (purges st)) \<longleftrightarrow>
        (\<exists>j. prefix ''pending_purges:'' j \<and> ks_get (purges st) j = Some p)"
      by (force simp: pp_list_def rows.scan_set[OF o])
    moreover have "prefix ''pending_purges:'' (pending_key d)" for d
      by (simp add: pending_key_def)
    ultimately show ?thesis using k by (auto simp: rows_keyed_def pp_get_def)
  qed
qed

definition ripe_entry :: "nat \<Rightarrow> domain_entry \<Rightarrow> bool" where
  "ripe_entry now e = (case dom_purge_at e of Some t \<Rightarrow> t \<le> now | None \<Rightarrow> False)"

lemma ripe_row_entry:
  assumes "domain_inv ph st"
  shows "(\<exists>p \<in> set (pp_list (purges st)). pp_domain p = k \<and> is_ripe p now) \<longleftrightarrow>
    (\<exists>e. ks_get (domains st) k = Some e \<and> ripe_entry now e)"
proof -
  have l: "(\<exists>p \<in> set (pp_list (purges st)). pp_domain p = k \<and> is_ripe p now) \<longleftrightarrow>
      (\<exists>p. pp_get k (purges st) = Some p \<and> is_ripe p now)"
    using purge_row_domain[OF assms] pp_list_rows(2)[OF assms] by metis
  have o: "purge_ok_at st k" using assms by (simp add: domain_inv_def)
  show ?thesis unfolding l
  proof (cases "ks_get (domains st) k")
    case None
    then show "(\<exists>p. pp_get k (purges st) = Some p \<and> is_ripe p now) \<longleftrightarrow>
      (\<exists>e. ks_get (domains st) k = Some e \<and> ripe_entry now e)"
      using o by (simp add: purge_ok_at_def)
  next
    case (Some e)
    then show "(\<exists>p. pp_get k (purges st) = Some p \<and> is_ripe p now) \<longleftrightarrow>
      (\<exists>e. ks_get (domains st) k = Some e \<and> ripe_entry now e)"
      using o by (cases "dom_status e")
        (auto simp: purge_ok_at_def ripe_entry_def is_ripe_def row_matches_def)
  qed
qed

lemma control_sweep_facts:
  assumes "domain_inv ph st"
  shows "domain_inv ph (snd (control_sweep_once ph now st))"
    "ks_get (domains (snd (control_sweep_once ph now st))) k =
       (case ks_get (domains st) k of
          None \<Rightarrow> None
        | Some e \<Rightarrow> if ripe_entry now e then None else Some e)"
proof -
  note f = sweep_rows_exact[OF assms pp_list_rows(1)[OF assms], of now 0 k]
  have f': "domain_inv ph (snd (control_sweep_once ph now st))
    \<and> ks_get (domains (snd (control_sweep_once ph now st))) k =
        (if \<exists>p \<in> set (pp_list (purges st)). pp_domain p = k \<and> is_ripe p now then None
         else ks_get (domains st) k)"
    using f pp_list_rows(2)[OF assms] by (simp add: control_sweep_once_def)
  then show "domain_inv ph (snd (control_sweep_once ph now st))" by simp
  show "ks_get (domains (snd (control_sweep_once ph now st))) k =
       (case ks_get (domains st) k of
          None \<Rightarrow> None
        | Some e \<Rightarrow> if ripe_entry now e then None else Some e)"
    using f' ripe_row_entry[OF assms, of k now] by (auto split: option.splits if_splits)
qed

section \<open>Reachable states\<close>

datatype domain_task =
    TCreate string "string option" bool
  | TUpdate string "string option"
  | TSetState string domain_status
  | TSetDefault string
  | TPurge string bool
  | TSweep
  | TSeed "string list" "string option"

fun domain_task_state ::
  "host_parser \<Rightarrow> (string \<Rightarrow> (string option \<times> nat option) option) \<Rightarrow> nat \<Rightarrow> string
     \<Rightarrow> (task_error + auth_claims) \<Rightarrow> domain_task \<Rightarrow> domain_store \<Rightarrow> domain_store" where
  "domain_task_state ph pu now grace admin (TCreate n l d) st =
     snd (snd (task_create ph now admin n l d st))"
| "domain_task_state ph pu now grace admin (TUpdate n l) st =
     snd (snd (task_update ph admin n l st))"
| "domain_task_state ph pu now grace admin (TSetState n s) st =
     snd (snd (task_set_state ph now grace admin n s st))"
| "domain_task_state ph pu now grace admin (TSetDefault n) st =
     snd (snd (task_set_default ph admin n st))"
| "domain_task_state ph pu now grace admin (TPurge n b) st =
     snd (snd (task_purge ph admin n b st))"
| "domain_task_state ph pu now grace admin TSweep st = snd (control_sweep_once ph now st)"
| "domain_task_state ph pu now grace admin (TSeed ds u) st =
     snd (seed_domains_first_boot ph pu now ds u st)"

definition empty_domain_store :: domain_store where
  "empty_domain_store = \<lparr>domains = [], meta = [], purges = []\<rparr>"

inductive domain_reachable ::
  "host_parser \<Rightarrow> (string \<Rightarrow> (string option \<times> nat option) option) \<Rightarrow> domain_store \<Rightarrow> bool"
  for ph pu where
  reach_empty: "domain_reachable ph pu empty_domain_store"
| reach_task: "domain_reachable ph pu st \<Longrightarrow>
    domain_reachable ph pu (domain_task_state ph pu now grace admin t st)"

lemma domain_inv_empty: "domain_inv ph empty_domain_store"
  by (simp add: domain_inv_unfold empty_domain_store_def purge_ok_at_def pp_get_def)

lemma finish_state [simp]: "snd (snd (finish_with_upsert ph n u st)) = st"
  by (simp add: finish_with_upsert_def split: sum.splits)

lemma new_entry_sel [simp]:
  "dom_name (new_entry n l now d) = n" "dom_status (new_entry n l now d) = Active"
  "dom_disabled_at (new_entry n l now d) = None" "dom_purge_at (new_entry n l now d) = None"
  by (simp_all add: new_entry_def)

lemma create_new_keeps:
  "domain_inv ph st \<Longrightarrow> create_domain ph (new_entry n l now d) st = Inr st' \<Longrightarrow> domain_inv ph st'"
  by (rule create_keeps) auto

lemma task_create_keeps: "domain_inv ph st \<Longrightarrow> domain_inv ph (snd (snd (task_create ph now a n l d st)))"
  by (auto simp: task_create_def split: sum.splits app_error.splits
      dest: create_new_keeps set_default_keeps)

lemma existing_Inr:
  "existing_domain ph n u st = Inr e \<longleftrightarrow>
     normalize_domain_name ph n = Inr n \<and> ks_get (domains st) n = Some e"
  using normalize_id[of ph n]
  by (auto simp: existing_domain_def lift_app_def res_simps get_domain_def split: sum.splits)

lemma task_update_keeps: "domain_inv ph st \<Longrightarrow> domain_inv ph (snd (snd (task_update ph a n l st)))"
  by (auto simp: task_update_def Let_def res_simps existing_Inr
      split: sum.splits option.splits elim: update_label_keeps)

lemma task_set_state_keeps:
  "domain_inv ph st \<Longrightarrow> domain_inv ph (snd (snd (task_set_state ph now g a n s st)))"
  by (auto simp: task_set_state_def split: sum.splits option.splits domain_status.splits app_error.splits
      dest: disable_keeps enable_keeps)

lemma task_set_default_keeps:
  "domain_inv ph st \<Longrightarrow> domain_inv ph (snd (snd (task_set_default ph a n st)))"
  by (auto simp: task_set_default_def split: sum.splits app_error.splits dest: set_default_keeps)

lemma task_purge_keeps:
  "domain_inv ph st \<Longrightarrow> domain_inv ph (snd (snd (task_purge ph a n b st)))"
  by (auto simp: task_purge_def Let_def split: sum.splits dest: delete_cancel_keeps)

lemma seed_entry_keeps: "domain_inv ph st \<Longrightarrow> domain_inv ph (snd (seed_entry ph now n d st))"
  by (auto simp: seed_entry_def split: sum.splits dest: create_new_keeps set_default_keeps)

lemma seed_others_keeps: "domain_inv ph st \<Longrightarrow> domain_inv ph (snd (seed_others ph now ds st))"
proof (induction ds arbitrary: st)
  case (Cons d ds)
  then show ?case using seed_entry_keeps[of ph st now d False]
    by (auto split: prod.splits sum.splits)
qed simp

lemma seed_keeps:
  assumes "domain_inv ph st"
  shows "domain_inv ph (snd (seed_domains_first_boot ph pu now ds u st))"
proof -
  have s: "domain_inv ph st1" if "seed_entry ph now n True st = (r, st1)" for n r st1
    using seed_entry_keeps[OF assms, of now n True] that by simp
  have o: "domain_inv ph st2" if "domain_inv ph st1" "seed_others ph now os st1 = (r, st2)" for os r st1 st2
    using seed_others_keeps[OF that(1), of now os] that(2) by simp
  show ?thesis using assms
    by (auto simp: seed_domains_first_boot_def split: list.splits prod.splits sum.splits option.splits
        dest: s o)
qed

lemma domain_reach_inv: "domain_reachable ph pu st \<Longrightarrow> domain_inv ph st"
proof (induction rule: domain_reachable.induct)
  case (reach_task st now grace admin t)
  then show ?case
    by (cases t) (auto simp: task_create_keeps task_update_keeps task_set_state_keeps
        task_set_default_keeps task_purge_keeps control_sweep_facts(1) seed_keeps)
qed (rule domain_inv_empty)

section \<open>Properties\<close>

definition sample_parser :: host_parser where
  "sample_parser s = (if s = [] then None else Some (HostDomain s))"

definition sample_admin :: "task_error + auth_claims" where
  "sample_admin = Inr \<lparr>auth_did = ''did:key:admin'', auth_acr = ''aal2''\<rparr>"

definition sample_domains :: domain_store where
  "sample_domains =
    domain_task_state sample_parser (\<lambda>_. None) 30 ''1m'' sample_admin
      (TSetState ''b.org'' Disabled)
      (domain_task_state sample_parser (\<lambda>_. None) 20 ''1m'' sample_admin
        (TCreate ''b.org'' None False)
        (domain_task_state sample_parser (\<lambda>_. None) 10 ''1m'' sample_admin
          (TCreate ''a.org'' None True) empty_domain_store))"

lemma sample_reachable: "domain_reachable sample_parser (\<lambda>_. None) sample_domains"
  unfolding sample_domains_def by (intro reach_task reach_empty)

lemma sample_inv: "domain_inv sample_parser sample_domains"
  by (rule domain_reach_inv[OF sample_reachable])

text \<open>C5: However the domain tasks, the first-boot seed and the purge sweep of the control
  plane are interleaved, every stored name stays canonical, the default pointer names an
  active domain, and a domain has a purge row (with its own disable time and grace) exactly
  while it is disabled.\<close>

theorem domain_registry_invariant:
  "domain_reachable ph pu st \<Longrightarrow> domain_inv ph st"
  by (rule domain_reach_inv)

theorem domain_registry_invariant_witness:
  "domain_inv sample_parser sample_domains
     \<and> get_default_domain sample_domains = Some ''a.org''
     \<and> map_option dom_purge_at (ks_get (domains sample_domains) ''b.org'') = Some (Some 90)"
proof (intro conjI)
  show "domain_inv sample_parser sample_domains"
    by (rule domain_registry_invariant[OF sample_reachable])
qed code_simp+

text \<open>One purge sweep deletes exactly the domain records whose purge time has come
  (a row is ripe from the second of its purge time on), leaves every other record untouched
  and keeps the invariant.\<close>

theorem control_sweep_exact:
  assumes "domain_inv ph st" "control_sweep_once ph now st = (n, st')"
  shows "domain_inv ph st' \<and> (\<forall>k. ks_get (domains st') k =
    (case ks_get (domains st) k of
       None \<Rightarrow> None
     | Some e \<Rightarrow> if ripe_entry now e then None else Some e))"
  using control_sweep_facts[OF assms(1), of now] assms(2) by auto

theorem control_sweep_exact_witness:
  "ks_get (domains (snd (control_sweep_once sample_parser 90 sample_domains))) ''b.org'' = None
   \<and> ks_get (domains (snd (control_sweep_once sample_parser 89 sample_domains))) ''b.org''
       = ks_get (domains sample_domains) ''b.org''
   \<and> ks_get (domains sample_domains) ''b.org'' \<noteq> None"
proof -
  have e: "map_option (ripe_entry 90) (ks_get (domains sample_domains) ''b.org'') = Some True"
    "map_option (ripe_entry 89) (ks_get (domains sample_domains) ''b.org'') = Some False"
    by code_simp+
  show ?thesis
    using e control_sweep_exact[OF sample_inv prod.collapse[symmetric], of 90]
      control_sweep_exact[OF sample_inv prod.collapse[symmetric], of 89] by auto
qed

text \<open>Making a domain the default succeeds only for a known active domain; afterwards
  the pointer names it, and the denormalised flag is set on its record and on no other.\<close>

theorem set_default_exclusive:
  assumes "domain_inv ph st" "set_default_domain ph n st = Inr st'"
  shows "get_default_domain st' = Some n \<and>
    (\<exists>e. ks_get (domains st') n = Some e \<and> dom_status e = Active \<and> dom_default_domain e) \<and>
    (\<forall>k e. ks_get (domains st') k = Some e \<longrightarrow> dom_default_domain e = (k = n))"
proof -
  have o: "ks_ok (domains st)" "names_ok ph st"
    using assms(1) by (auto simp: domain_inv_def store_ok_def)
  have g: "ks_get (domains st') k = map_option (\<lambda>e. e\<lparr>dom_default_domain := (k = n)\<rparr>)
      (ks_get (domains st) k)" for k
    using assms(2) set_default_get[OF o] by (auto simp: set_default_Inr)
  obtain e0 where "ks_get (domains st) n = Some e0" "dom_status e0 = Active"
    "get_default_domain st' = Some n"
    using assms(2) by (auto simp: set_default_Inr get_default_domain_def ks_simps)
  then show ?thesis by (auto simp: g)
qed

theorem set_default_exclusive_witness:
  "\<exists>st'. set_default_domain sample_parser ''b.org''
        (domain_task_state sample_parser (\<lambda>_. None) 40 ''1m'' sample_admin
          (TSetState ''b.org'' Active) sample_domains) = Inr st'
     \<and> get_default_domain st' = Some ''b.org''
     \<and> map_option dom_default_domain (ks_get (domains st') ''a.org'') = Some False"
proof -
  let ?st = "domain_task_state sample_parser (\<lambda>_. None) 40 ''1m'' sample_admin
          (TSetState ''b.org'' Active) sample_domains"
  have i: "domain_inv sample_parser ?st"
    by (rule domain_reach_inv[OF reach_task[OF sample_reachable]])
  have "case set_default_domain sample_parser ''b.org'' ?st of
      Inl _ \<Rightarrow> False | Inr st' \<Rightarrow> ks_get (domains st') ''a.org'' \<noteq> None"
    by code_simp
  then obtain st' where s: "set_default_domain sample_parser ''b.org'' ?st = Inr st'"
      "ks_get (domains st') ''a.org'' \<noteq> None"
    by (auto split: sum.splits)
  show ?thesis using set_default_exclusive[OF i s(1)] s by auto
qed

text \<open>A bootstrap list that names a domain twice is not an idempotent seed: the first
  boot stops at the repetition with a Conflict after the domain was already written, and every
  later boot finds the registry populated and reports AlreadySeeded, so the names after the
  repetition are never seeded.\<close>

lemma seed_repeated_domain:
  assumes "normalize_domain_name ph d = Inr d"
  shows "(case seed_domains_first_boot ph pu now (d # d # ds) u empty_domain_store of
     (r, st1) \<Rightarrow> r = Inl Conflict \<and> map dom_name (list_domains st1) = [d] \<and>
       seed_domains_first_boot ph pu now' (d # d # ds) u st1 =
         (Inr \<lparr>seed_tier_of = AlreadySeeded, seed_final_count = 1, seed_default = Some d\<rparr>, st1))"
  using assms
  by (simp add: seed_domains_first_boot_def seed_entry_def create_domain_def
      set_default_domain_def get_domain_def empty_domain_store_def list_domains_def ks_scan_def
      ks_has_def ks_put_def ks_get_def get_default_domain_def new_entry_def)

theorem seed_repeated_domain_witness:
  "fst (seed_domains_first_boot sample_parser (\<lambda>_. None) 1 [''a.org'', ''a.org'', ''b.org''] None
     empty_domain_store) = Inl Conflict"
proof -
  have "normalize_domain_name sample_parser ''a.org'' = Inr ''a.org''" by code_simp
  from seed_repeated_domain[OF this, where pu = "\<lambda>_. None" and now = 1 and ds = "[''b.org'']" and u = None]
  show ?thesis unfolding split_beta by simp
qed

end
