(* ===== verification/Acl.thy ===== *)
theory Acl
  imports Domains
begin

text \<open>
  The access control list of did-hosting-common/src/server/acl.rs and the five acl
  trust-task handlers of did-hosting-common/src/server/trust_tasks/handlers (grant,
  change-role, revoke, list, show), with the wire entry of trust_tasks/entry.rs. The
  guard of the trust_tasks_rs crate (reject_last_authority), its DID parser and the
  cursor encoding are parameters. A handler returns the local entry its response
  projects; the document envelope is left out.
\<close>

section \<open>Entries (acl.rs)\<close>

datatype role = Admin | Owner | Service

definition role_name :: "role \<Rightarrow> string" where
  "role_name r = (case r of Admin \<Rightarrow> ''admin'' | Owner \<Rightarrow> ''owner'' | Service \<Rightarrow> ''service'')"

definition role_from_str :: "string \<Rightarrow> role res" where
  "role_from_str s =
    (if s = ''admin'' then Inr Admin else if s = ''owner'' then Inr Owner
     else if s = ''service'' then Inr Service else Inl invalid)"

record acl_entry =
  acl_did :: string
  acl_role :: role
  acl_label :: "string option"
  acl_created_at :: nat
  acl_max_total_size :: "nat option"
  acl_max_did_count :: "nat option"
  acl_domains :: domain_scope

definition effective_max_total_size :: "acl_entry \<Rightarrow> nat \<Rightarrow> nat" where
  "effective_max_total_size e dflt = (case acl_max_total_size e of Some n \<Rightarrow> n | None \<Rightarrow> dflt)"

definition effective_max_did_count :: "acl_entry \<Rightarrow> nat \<Rightarrow> nat" where
  "effective_max_did_count e dflt = (case acl_max_did_count e of Some n \<Rightarrow> n | None \<Rightarrow> dflt)"

type_synonym acl = "acl_entry ks"

definition acl_key :: "string \<Rightarrow> string" where
  "acl_key did = ''acl:'' @ did"

definition MAX_DID_LEN :: nat where
  "MAX_DID_LEN = 2048"

definition validate_did_format :: "string \<Rightarrow> string res" where
  "validate_did_format did =
    (let trimmed = trim did
     in if trimmed = [] then Inl invalid
        else if MAX_DID_LEN < length trimmed then Inl invalid
        else if \<not> prefix ''did:'' trimmed then Inl invalid
        else if list_ex is_ascii_control trimmed then Inl invalid
        else Inr trimmed)"

definition get_acl_entry :: "acl \<Rightarrow> string \<Rightarrow> acl_entry option" where
  "get_acl_entry a did = ks_get a (acl_key did)"

definition store_acl_entry :: "acl_entry \<Rightarrow> acl \<Rightarrow> acl" where
  "store_acl_entry e a = ks_put (acl_key (acl_did e)) e a"

definition delete_acl_entry :: "string \<Rightarrow> acl \<Rightarrow> acl" where
  "delete_acl_entry did a = ks_del (acl_key did) a"

definition list_acl_entries :: "acl \<Rightarrow> acl_entry list" where
  "list_acl_entries a = map snd (ks_scan ''acl:'' a)"

definition count_all_scoped_owners :: "acl \<Rightarrow> nat" where
  "count_all_scoped_owners a =
    length (filter (\<lambda>e. acl_role e = Owner \<and> acl_domains e = ScopeAll) (list_acl_entries a))"

definition seed_provisioning_vta_acl :: "nat \<Rightarrow> string \<Rightarrow> acl \<Rightarrow> bool \<times> acl" where
  "seed_provisioning_vta_acl now vta_did a =
    (if get_acl_entry a vta_did \<noteq> None then (False, a)
     else (True, store_acl_entry
       \<lparr>acl_did = vta_did, acl_role = Admin, acl_label = Some ''provisioning VTA'',
        acl_created_at = now, acl_max_total_size = None, acl_max_did_count = None,
        acl_domains = ScopeAll\<rparr> a))"

definition check_acl :: "acl \<Rightarrow> string \<Rightarrow> role res" where
  "check_acl a did =
    (if 512 < length did then Inl invalid
     else case get_acl_entry a did of
         Some e \<Rightarrow> Inr (acl_role e)
       | None \<Rightarrow> Inl Forbidden)"

section \<open>The wire entry (trust_tasks/entry.rs, ext.rs)\<close>

record webvh_ext =
  ext_max_total_size :: "nat option"
  ext_max_did_count :: "nat option"
  ext_domains :: domain_scope

text \<open>The vnd.affinidi.webvh namespace of a wire entry: absent, present but not of the
  expected shape, or decoded.\<close>

datatype ext_slot = ExtAbsent | ExtMalformed | ExtPresent webvh_ext

record spec_acl_entry =
  sp_subject :: string
  sp_role :: string
  sp_scopes :: "string list"
  sp_label :: "string option"
  sp_created_at :: "int option"
  sp_ext :: ext_slot

definition epoch_to_datetime :: "(int \<Rightarrow> int option) \<Rightarrow> nat \<Rightarrow> int option" where
  "epoch_to_datetime timestamp_opt n = (if n = 0 then None else timestamp_opt (int n))"

definition from_local :: "(int \<Rightarrow> int option) \<Rightarrow> acl_entry \<Rightarrow> spec_acl_entry" where
  "from_local timestamp_opt e =
    \<lparr>sp_subject = acl_did e, sp_role = role_name (acl_role e), sp_scopes = [],
     sp_label = acl_label e,
     sp_created_at = epoch_to_datetime timestamp_opt (acl_created_at e),
     sp_ext = ExtPresent \<lparr>ext_max_total_size = acl_max_total_size e,
                ext_max_did_count = acl_max_did_count e, ext_domains = acl_domains e\<rparr>\<rparr>"

definition into_local :: "nat \<Rightarrow> spec_acl_entry \<Rightarrow> acl_entry res" where
  "into_local created_at_fallback sp =
    and_then (role_from_str (sp_role sp)) (\<lambda>role.
    and_then (case sp_ext sp of
        ExtMalformed \<Rightarrow> Inl invalid
      | ExtPresent w \<Rightarrow> Inr (ext_max_total_size w, ext_max_did_count w, ext_domains w)
      | ExtAbsent \<Rightarrow> if role = Admin \<or> role = Service then Inr (None, None, ScopeAll)
                    else Inl invalid)
      (\<lambda>(size, count, scope).
        Inr \<lparr>acl_did = sp_subject sp, acl_role = role, acl_label = sp_label sp,
             acl_created_at = (case sp_created_at sp of Some t \<Rightarrow> nat (max t 0)
                               | None \<Rightarrow> created_at_fallback),
             acl_max_total_size = size, acl_max_did_count = count, acl_domains = scope\<rparr>))"

section \<open>Handlers\<close>

datatype acl_reject =
    PermDenied
  | MalformedRequest
  | RoleNotRecognized
  | StateMismatch
  | RoleChangeRequired
  | LastAuthority
  | SubjectNotPresent

type_synonym 'a acl_step = "(acl_reject + 'a) \<times> acl"

definition require_admin :: "acl \<Rightarrow> string option \<Rightarrow> acl_reject + string" where
  "require_admin a issuer = (case issuer of
     None \<Rightarrow> Inl PermDenied
   | Some caller \<Rightarrow> (case check_acl a caller of
       Inr Admin \<Rightarrow> Inr caller
     | _ \<Rightarrow> Inl PermDenied))"

subsection \<open>acl/grant/0.1 (grant.rs)\<close>

text \<open>Steps 1 to 3: authorisation, translation and the shape checks.\<close>

definition grant_proposed ::
  "(string \<Rightarrow> bool) \<Rightarrow> string option \<Rightarrow> spec_acl_entry \<Rightarrow> acl \<Rightarrow> acl_reject + acl_entry" where
  "grant_proposed is_did issuer entry a =
    and_then (require_admin a issuer) (\<lambda>_.
      case into_local 0 entry of
        Inl _ \<Rightarrow> Inl MalformedRequest
      | Inr proposed \<Rightarrow>
          if \<not> is_did (acl_did proposed) then Inl MalformedRequest
          else if sp_scopes entry \<noteq> [] then Inl MalformedRequest
          else Inr proposed)"

definition grant_merged :: "acl_entry \<Rightarrow> acl_entry \<Rightarrow> acl_entry" where
  "grant_merged current proposed =
    \<lparr>acl_did = acl_did current, acl_role = acl_role current,
     acl_label = acl_label proposed, acl_created_at = acl_created_at current,
     acl_max_total_size = acl_max_total_size proposed,
     acl_max_did_count = acl_max_did_count proposed,
     acl_domains = acl_domains proposed\<rparr>"

definition grant_handle ::
  "(string \<Rightarrow> bool) \<Rightarrow> nat \<Rightarrow> string option \<Rightarrow> spec_acl_entry \<Rightarrow> acl \<Rightarrow> acl_entry acl_step" where
  "grant_handle is_did now issuer entry a =
    (case grant_proposed is_did issuer entry a of
       Inl e \<Rightarrow> (Inl e, a)
     | Inr proposed \<Rightarrow>
         (case get_acl_entry a (acl_did proposed) of
            Some current \<Rightarrow>
              if acl_role current = acl_role proposed then
                let merged = grant_merged current proposed
                in if acl_label merged \<noteq> acl_label current
                      \<or> acl_max_total_size merged \<noteq> acl_max_total_size current
                      \<or> acl_max_did_count merged \<noteq> acl_max_did_count current
                      \<or> acl_domains merged \<noteq> acl_domains current
                   then (Inr merged, store_acl_entry merged a)
                   else (Inr merged, a)
              else (Inl RoleChangeRequired, a)
          | None \<Rightarrow>
              let entry1 = proposed\<lparr>acl_created_at := now\<rparr>
              in (Inr entry1, store_acl_entry entry1 a)))"

subsection \<open>acl/change-role/0.1 (change_role.rs)\<close>

definition role_rank :: "role \<Rightarrow> nat" where
  "role_rank r = (case r of Service \<Rightarrow> 0 | Owner \<Rightarrow> 1 | Admin \<Rightarrow> 2)"

definition is_strict_promotion :: "role \<Rightarrow> role \<Rightarrow> bool" where
  "is_strict_promotion from to = (role_rank from < role_rank to)"

definition parse_role :: "string \<Rightarrow> acl_reject + role" where
  "parse_role s = (case role_from_str s of Inr r \<Rightarrow> Inr r | Inl _ \<Rightarrow> Inl RoleNotRecognized)"

text \<open>Steps 1 to 4: authorisation, role vocabulary, self-promotion guard, state check.\<close>

definition change_role_checks ::
  "string option \<Rightarrow> string \<Rightarrow> string \<Rightarrow> string \<Rightarrow> acl \<Rightarrow> acl_reject + (role \<times> role \<times> acl_entry)" where
  "change_role_checks issuer subject from_s to_s a =
    and_then (require_admin a issuer) (\<lambda>caller.
    and_then (parse_role from_s) (\<lambda>from_role.
    and_then (parse_role to_s) (\<lambda>to_role.
      if caller = subject \<and> is_strict_promotion from_role to_role then Inl PermDenied
      else case get_acl_entry a subject of
          None \<Rightarrow> Inl StateMismatch
        | Some entry \<Rightarrow>
            if acl_role entry \<noteq> from_role then Inl StateMismatch
            else Inr (from_role, to_role, entry))))"

definition change_role_handle ::
  "string option \<Rightarrow> string \<Rightarrow> string \<Rightarrow> string \<Rightarrow> acl \<Rightarrow> acl_entry acl_step" where
  "change_role_handle issuer subject from_s to_s a =
    (case change_role_checks issuer subject from_s to_s a of
       Inl e \<Rightarrow> (Inl e, a)
     | Inr (from_role, to_role, entry) \<Rightarrow>
         if from_role = to_role then (Inr entry, a)
         else if from_role = Admin \<and> to_role \<noteq> Admin \<and>
                 filter (\<lambda>e. acl_role e = Admin \<and> acl_did e \<noteq> subject) (list_acl_entries a) = []
         then (Inl LastAuthority, a)
         else let entry1 = entry\<lparr>acl_role := to_role\<rparr> in (Inr entry1, store_acl_entry entry1 a))"

subsection \<open>acl/revoke/0.1 (revoke.rs)\<close>

datatype scope_reduction =
    EntryRemoved
  | Narrowed domain_scope
  | NoOp
  | ScopeReduceOnAll

fun parse_domain_scopes :: "string list \<Rightarrow> acl_reject + string list" where
  "parse_domain_scopes [] = Inr []"
| "parse_domain_scopes (item # items) =
    (case strip_prefix_str ''domain:'' item of
       Some name \<Rightarrow> if name \<noteq> [] then
                      and_then (parse_domain_scopes items) (\<lambda>ns. Inr (name # ns))
                    else Inl MalformedRequest
     | None \<Rightarrow> Inl MalformedRequest)"

fun apply_scope_reduction :: "domain_scope \<Rightarrow> string list \<Rightarrow> scope_reduction" where
  "apply_scope_reduction ScopeAll remove = ScopeReduceOnAll"
| "apply_scope_reduction (ScopeAllowed doms) remove =
    (let kept = filter (\<lambda>d. d \<notin> set remove) doms;
         dropped = filter (\<lambda>d. d \<in> set remove) doms
     in if dropped = [] then NoOp
        else if kept = [] then EntryRemoved
        else Narrowed (ScopeAllowed kept))"
| "apply_scope_reduction (ScopeAllowedWithDefault doms dflt) remove =
    (let kept = filter (\<lambda>d. d \<notin> set remove) doms;
         dropped = filter (\<lambda>d. d \<in> set remove) doms
     in if dropped = [] then NoOp
        else if kept = [] then EntryRemoved
        else if dflt \<in> set kept then Narrowed (ScopeAllowedWithDefault kept dflt)
        else Narrowed (ScopeAllowed kept))"

type_synonym authority_guard =
  "acl_entry list \<Rightarrow> (acl_entry \<Rightarrow> bool) \<Rightarrow> (acl_entry \<Rightarrow> bool) \<Rightarrow> bool"

definition revoke_handle ::
  "authority_guard \<Rightarrow> string option \<Rightarrow> string \<Rightarrow> string list \<Rightarrow> acl \<Rightarrow> acl_entry option acl_step" where
  "revoke_handle rejects_last issuer subject scopes a =
    (case (case issuer of
             None \<Rightarrow> Inl PermDenied
           | Some caller \<Rightarrow>
               if caller = subject then Inr caller else require_admin a issuer) of
       Inl e \<Rightarrow> (Inl e, a)
     | Inr _ \<Rightarrow>
         (case get_acl_entry a subject of
            None \<Rightarrow> (Inl SubjectNotPresent, a)
          | Some existing \<Rightarrow>
              if scopes = [] then
                if rejects_last (list_acl_entries a) (\<lambda>e. acl_role e = Admin)
                     (\<lambda>e. acl_did e = subject)
                then (Inl LastAuthority, a)
                else (Inr None, delete_acl_entry subject a)
              else (case parse_domain_scopes scopes of
                  Inl e \<Rightarrow> (Inl e, a)
                | Inr remove \<Rightarrow>
                    (case apply_scope_reduction (acl_domains existing) remove of
                       EntryRemoved \<Rightarrow> (Inr None, delete_acl_entry subject a)
                     | Narrowed scope \<Rightarrow>
                         let updated = existing\<lparr>acl_domains := scope\<rparr>
                         in (Inr (Some updated), store_acl_entry updated a)
                     | NoOp \<Rightarrow> (Inr (Some existing), a)
                     | ScopeReduceOnAll \<Rightarrow> (Inl MalformedRequest, a)))))"

subsection \<open>acl/show/0.1 (show.rs)\<close>

definition show_handle :: "string option \<Rightarrow> string \<Rightarrow> acl \<Rightarrow> acl_reject + acl_entry option" where
  "show_handle issuer subject a = (case issuer of
     None \<Rightarrow> Inl PermDenied
   | Some caller \<Rightarrow>
       and_then (if caller = subject then Inr caller else require_admin a issuer)
         (\<lambda>_. Inr (get_acl_entry a subject)))"

subsection \<open>acl/list/0.1 (list.rs)\<close>

definition DEFAULT_PAGE_SIZE :: nat where "DEFAULT_PAGE_SIZE = 50"
definition MAX_PAGE_SIZE :: nat where "MAX_PAGE_SIZE = 500"

definition entry_has_scope :: "acl_entry \<Rightarrow> string \<Rightarrow> bool" where
  "entry_has_scope e want = (case strip_prefix_str ''domain:'' want of
     Some d \<Rightarrow> (case acl_domains e of
         ScopeAll \<Rightarrow> True
       | ScopeAllowed ds \<Rightarrow> d \<in> set ds
       | ScopeAllowedWithDefault ds _ \<Rightarrow> d \<in> set ds)
   | None \<Rightarrow> False)"

record list_request =
  lr_cursor :: "string option"
  lr_page_size :: "nat option"
  lr_role :: "string option"
  lr_scope :: "string option"
  lr_subject_prefix :: "string option"

record list_page =
  pg_entries :: "acl_entry list"
  pg_cursor :: "string option"
  pg_truncated :: bool

definition list_filter :: "list_request \<Rightarrow> acl_entry \<Rightarrow> bool" where
  "list_filter rq e \<longleftrightarrow>
     (case lr_role rq of Some want \<Rightarrow> role_name (acl_role e) = want | None \<Rightarrow> True)
   \<and> (case lr_scope rq of Some want \<Rightarrow> entry_has_scope e want | None \<Rightarrow> True)
   \<and> (case lr_subject_prefix rq of Some want \<Rightarrow> prefix want (acl_did e) | None \<Rightarrow> True)"

definition page_limit :: "list_request \<Rightarrow> nat" where
  "page_limit rq = (case lr_page_size rq of Some n \<Rightarrow> min n MAX_PAGE_SIZE | None \<Rightarrow> DEFAULT_PAGE_SIZE)"

definition list_handle ::
  "(string \<Rightarrow> string) \<Rightarrow> (string \<Rightarrow> string option) \<Rightarrow> string option \<Rightarrow> list_request \<Rightarrow> acl
     \<Rightarrow> acl_reject + list_page" where
  "list_handle encode_cursor decode_cursor issuer rq a =
    and_then (require_admin a issuer) (\<lambda>_.
    and_then (case lr_cursor rq of
        None \<Rightarrow> Inr None
      | Some c \<Rightarrow> (case decode_cursor c of
          None \<Rightarrow> Inl MalformedRequest | Some did \<Rightarrow> Inr (Some did))) (\<lambda>last_seen.
    let page_size = page_limit rq;
        ordered = sort_key acl_did (filter (list_filter rq) (list_acl_entries a));
        rest = (case last_seen of
            Some did \<Rightarrow> dropWhile (\<lambda>e. acl_did e \<le> did) ordered
          | None \<Rightarrow> ordered);
        looked = take (page_size + 1) rest;
        has_more = page_size < length looked;
        page = take page_size looked
    in Inr \<lparr>pg_entries = page,
            pg_cursor = (if has_more \<and> page \<noteq> [] then Some (encode_cursor (acl_did (last page)))
                         else None),
            pg_truncated = has_more\<rparr>))"

section \<open>The ACL as a keyed store\<close>

interpretation aclr: keyed_rows ks_get ks_put ks_del ks_scan ks_ok acl_key "''acl:''" acl_did
  by unfold_locales (auto simp: acl_key_def)

definition acl_ok :: "acl \<Rightarrow> bool" where
  "acl_ok a \<longleftrightarrow> aclr.keyed a"

definition has_admin :: "acl \<Rightarrow> bool" where
  "has_admin a \<longleftrightarrow> (\<exists>e \<in> set (list_acl_entries a). acl_role e = Admin)"

lemma acl_listed: "acl_ok a \<Longrightarrow> e \<in> set (list_acl_entries a) \<longleftrightarrow> get_acl_entry a (acl_did e) = Some e"
  using aclr.listed_iff by (simp add: acl_ok_def list_acl_entries_def get_acl_entry_def)

lemma acl_listed_distinct: "acl_ok a \<Longrightarrow> distinct (map acl_did (list_acl_entries a))"
  using aclr.listed_distinct by (simp add: acl_ok_def list_acl_entries_def)

lemma acl_get_did: "acl_ok a \<Longrightarrow> get_acl_entry a d = Some e \<Longrightarrow> acl_did e = d"
  using aclr.get_ident by (simp add: acl_ok_def get_acl_entry_def)

lemma acl_ok_store [intro]: "acl_ok a \<Longrightarrow> acl_ok (store_acl_entry e a)"
  by (simp add: acl_ok_def store_acl_entry_def aclr.keyed_put)

lemma acl_ok_delete [intro]: "acl_ok a \<Longrightarrow> acl_ok (delete_acl_entry d a)"
  by (simp add: acl_ok_def delete_acl_entry_def aclr.keyed_del)

lemma acl_get_store:
  "get_acl_entry (store_acl_entry e a) d = (if d = acl_did e then Some e else get_acl_entry a d)"
  by (simp add: get_acl_entry_def store_acl_entry_def ks_simps aclr.key_eq)

lemma acl_get_delete:
  "get_acl_entry (delete_acl_entry d0 a) d = (if d = d0 then None else get_acl_entry a d)"
  by (simp add: get_acl_entry_def delete_acl_entry_def ks_simps aclr.key_eq)

lemmas acl_gets = acl_get_store acl_get_delete

lemma has_admin_iff:
  "acl_ok a \<Longrightarrow> has_admin a \<longleftrightarrow> (\<exists>d e. get_acl_entry a d = Some e \<and> acl_role e = Admin)"
  using acl_listed acl_get_did unfolding has_admin_def by metis

lemma acl_ok_Nil [simp]: "acl_ok []"
  by (simp add: acl_ok_def aclr.keyed_def)

lemma require_admin_Inr:
  "require_admin a issuer = Inr caller \<longleftrightarrow>
     issuer = Some caller \<and> length caller \<le> 512 \<and>
     (\<exists>e. get_acl_entry a caller = Some e \<and> acl_role e = Admin)"
  by (auto simp: require_admin_def check_acl_def split: option.splits sum.splits role.splits)

section \<open>What each handler does to the store\<close>

lemma grant_effect:
  assumes "acl_ok a" "grant_handle is_did now issuer entry a = (r, a')"
  shows "a' = a \<or> (\<exists>e caller. r = Inr e \<and> require_admin a issuer = Inr caller
     \<and> a' = store_acl_entry e a \<and> acl_did e = sp_subject entry
     \<and> (\<forall>old. get_acl_entry a (acl_did e) = Some old \<longrightarrow>
          acl_role e = acl_role old \<and> acl_created_at e = acl_created_at old))"
proof (cases "grant_proposed is_did issuer entry a")
  case (Inl e)
  then show ?thesis using assms(2) by (simp add: grant_handle_def)
next
  case (Inr p)
  then obtain caller where c: "require_admin a issuer = Inr caller" and p: "into_local 0 entry = Inr p"
    by (auto simp: grant_proposed_def res_simps split: sum.splits if_splits)
  have d: "acl_did p = sp_subject entry"
    using p by (cases "sp_ext entry") (auto simp: into_local_def res_simps split: if_splits)
  show ?thesis
  proof (cases "get_acl_entry a (acl_did p)")
    case None
    then show ?thesis using assms(2) c d by (auto simp: grant_handle_def Inr Let_def)
  next
    case (Some cur)
    then have "acl_did cur = acl_did p" using acl_get_did[OF assms(1)] by blast
    then show ?thesis using assms(2) c d Some
      by (auto simp: grant_handle_def Inr grant_merged_def Let_def split: if_splits)
  qed
qed

lemma role_rank_inj: "role_rank r = role_rank r' \<longleftrightarrow> r = r'"
  by (cases r; cases r') (simp_all add: role_rank_def)

lemma change_role_effect:
  assumes "change_role_handle issuer subject from_s to_s a = (r, a')"
  shows "a' = a \<or> (\<exists>e caller to. r = Inr (e\<lparr>acl_role := to\<rparr>) \<and> require_admin a issuer = Inr caller
     \<and> get_acl_entry a subject = Some e \<and> acl_role e \<noteq> to
     \<and> a' = store_acl_entry (e\<lparr>acl_role := to\<rparr>) a
     \<and> (caller = subject \<longrightarrow> role_rank to < role_rank (acl_role e))
     \<and> (acl_role e = Admin \<longrightarrow>
          (\<exists>x \<in> set (list_acl_entries a). acl_role x = Admin \<and> acl_did x \<noteq> subject)))"
proof (cases "change_role_checks issuer subject from_s to_s a")
  case (Inl e)
  then show ?thesis using assms by (simp add: change_role_handle_def)
next
  case (Inr t)
  obtain fr tt entry where t: "t = (fr, tt, entry)" by (cases t)
  obtain caller f g where s: "require_admin a issuer = Inr caller"
      "(if caller = subject \<and> is_strict_promotion f g then Inl PermDenied
      else case get_acl_entry a subject of
          None \<Rightarrow> Inl StateMismatch
        | Some entry \<Rightarrow> if acl_role entry \<noteq> f then Inl StateMismatch else Inr (f, g, entry))
       = Inr (fr, tt, entry)"
    using Inr unfolding change_role_checks_def t and_then_Inr by blast
  have c: "require_admin a issuer = Inr caller"
      "caller = subject \<longrightarrow> \<not> is_strict_promotion fr tt"
      "get_acl_entry a subject = Some entry" "acl_role entry = fr"
    using s by (auto split: if_split_asm option.split_asm)
  have k: "caller = subject \<longrightarrow> fr \<noteq> tt \<longrightarrow> role_rank tt < role_rank fr"
    using c(2) role_rank_inj[of fr tt] by (auto simp: is_strict_promotion_def)
  have h: "(r, a') = (if fr = tt then (Inr entry, a)
         else if fr = Admin \<and> tt \<noteq> Admin \<and>
                 filter (\<lambda>e. acl_role e = Admin \<and> acl_did e \<noteq> subject) (list_acl_entries a) = []
         then (Inl LastAuthority, a)
         else (Inr (entry\<lparr>acl_role := tt\<rparr>), store_acl_entry (entry\<lparr>acl_role := tt\<rparr>) a))"
    using assms unfolding change_role_handle_def Inr t Let_def by simp
  show ?thesis
  proof (cases "a' = a")
    case False
    then have n: "fr \<noteq> tt" "r = Inr (entry\<lparr>acl_role := tt\<rparr>)"
      "a' = store_acl_entry (entry\<lparr>acl_role := tt\<rparr>) a"
      "fr = Admin \<longrightarrow> (\<exists>x \<in> set (list_acl_entries a). acl_role x = Admin \<and> acl_did x \<noteq> subject)"
      using h by (auto simp: filter_empty_conv split: if_split_asm)
    show ?thesis
      by (intro disjI2 exI[of _ entry] exI[of _ caller] exI[of _ tt]) (use n c k in auto)
  qed simp
qed

lemma revoke_effect:
  assumes "revoke_handle rl issuer subject scopes a = (r, a')"
  shows "a' = a \<or> (\<exists>e. get_acl_entry a subject = Some e
     \<and> (issuer = Some subject \<or> (\<exists>caller. require_admin a issuer = Inr caller))
     \<and> ((scopes = [] \<and> \<not> rl (list_acl_entries a) (\<lambda>e. acl_role e = Admin) (\<lambda>e. acl_did e = subject)
            \<and> r = Inr None \<and> a' = delete_acl_entry subject a)
       \<or> (\<exists>remove. scopes \<noteq> [] \<and> parse_domain_scopes scopes = Inr remove
            \<and> apply_scope_reduction (acl_domains e) remove = EntryRemoved
            \<and> r = Inr None \<and> a' = delete_acl_entry subject a)
       \<or> (\<exists>remove scope. scopes \<noteq> [] \<and> parse_domain_scopes scopes = Inr remove
            \<and> apply_scope_reduction (acl_domains e) remove = Narrowed scope
            \<and> r = Inr (Some (e\<lparr>acl_domains := scope\<rparr>))
            \<and> a' = store_acl_entry (e\<lparr>acl_domains := scope\<rparr>) a)))"
proof (cases issuer)
  case None
  then show ?thesis using assms by (simp add: revoke_handle_def)
next
  case (Some caller)
  then show ?thesis
    using assms
    by (fastforce simp: revoke_handle_def Let_def split: if_splits sum.splits option.splits scope_reduction.splits)
qed

section \<open>Administrators\<close>

text \<open>What the guard of the trust_tasks_rs crate documents: it rejects a removal that
  takes the last holder of the protected authority, and accepts one that leaves another.\<close>

definition last_authority_guard :: "authority_guard \<Rightarrow> bool" where
  "last_authority_guard rl \<longleftrightarrow> (\<forall>es auth removed.
     ((\<exists>e \<in> set es. auth e \<and> removed e) \<and> \<not> (\<exists>e \<in> set es. auth e \<and> \<not> removed e) \<longrightarrow> rl es auth removed)
   \<and> ((\<exists>e \<in> set es. auth e \<and> \<not> removed e) \<longrightarrow> \<not> rl es auth removed))"

lemma guard_leaves:
  assumes "last_authority_guard rl" "\<not> rl es auth removed" "\<exists>e \<in> set es. auth e"
  shows "\<exists>e \<in> set es. auth e \<and> \<not> removed e"
  using assms(1)[unfolded last_authority_guard_def, THEN spec[of _ es], THEN spec[of _ auth],
      THEN spec[of _ removed]] assms(2,3) by blast

definition sample_guard :: authority_guard where
  "sample_guard es auth removed = (list_ex (\<lambda>e. auth e \<and> removed e) es
     \<and> \<not> list_ex (\<lambda>e. auth e \<and> \<not> removed e) es)"

lemma sample_guard_ok: "last_authority_guard sample_guard"
  by (auto simp: last_authority_guard_def sample_guard_def list_ex_iff)

lemma has_admin_store:
  assumes "acl_ok a" "has_admin a"
    "acl_role e = Admin \<or> (\<exists>x \<in> set (list_acl_entries a). acl_role x = Admin \<and> acl_did x \<noteq> acl_did e)"
  shows "has_admin (store_acl_entry e a)"
  using assms acl_ok_store[OF assms(1)]
  by (auto simp: has_admin_iff acl_gets acl_listed)

lemma has_admin_delete:
  assumes "acl_ok a" "x \<in> set (list_acl_entries a)" "acl_role x = Admin" "acl_did x \<noteq> d"
  shows "has_admin (delete_acl_entry d a)"
  using assms acl_ok_delete[OF assms(1)] by (auto simp: has_admin_iff acl_gets acl_listed)

lemma has_admin_keep_role:
  assumes "acl_ok a" "has_admin a" "\<And>old. get_acl_entry a (acl_did e) = Some old \<Longrightarrow> acl_role e = acl_role old"
  shows "has_admin (store_acl_entry e a)"
proof -
  obtain x where x: "x \<in> set (list_acl_entries a)" "acl_role x = Admin"
    using assms(2) by (auto simp: has_admin_def)
  then show ?thesis
    using assms by (intro has_admin_store) (auto simp: acl_listed)
qed

lemma grant_keeps_admin:
  "acl_ok a \<Longrightarrow> has_admin a \<Longrightarrow> has_admin (snd (grant_handle is_did now issuer entry a))"
  using grant_effect[of a is_did now issuer entry] has_admin_keep_role[of a]
  by (metis prod.collapse)

lemma change_role_keeps_admin:
  assumes "acl_ok a" "has_admin a"
  shows "has_admin (snd (change_role_handle issuer subject f t a))"
proof -
  obtain r a' where h: "change_role_handle issuer subject f t a = (r, a')" by fastforce
  from change_role_effect[OF h] show ?thesis
  proof (elim disjE exE conjE)
    fix e caller to
    assume e: "get_acl_entry a subject = Some e" "a' = store_acl_entry (e\<lparr>acl_role := to\<rparr>) a"
      "acl_role e = Admin \<longrightarrow> (\<exists>x \<in> set (list_acl_entries a). acl_role x = Admin \<and> acl_did x \<noteq> subject)"
    have d: "acl_did e = subject" using acl_get_did[OF assms(1) e(1)] .
    obtain x where x: "x \<in> set (list_acl_entries a)" "acl_role x = Admin"
      using assms(2) by (auto simp: has_admin_def)
    have "\<exists>x \<in> set (list_acl_entries a). acl_role x = Admin \<and> acl_did x \<noteq> subject"
      using e x acl_listed[OF assms(1)] by fastforce
    then show ?thesis using assms d unfolding h e(2) by (auto intro!: has_admin_store)
  qed (simp add: assms h)
qed

lemma revoke_all_keeps_admin:
  assumes "acl_ok a" "has_admin a" "last_authority_guard rl"
  shows "has_admin (snd (revoke_handle rl issuer subject [] a))"
proof -
  obtain r a' where h: "revoke_handle rl issuer subject [] a = (r, a')" by fastforce
  have "a' = a \<or> (\<not> rl (list_acl_entries a) (\<lambda>e. acl_role e = Admin) (\<lambda>e. acl_did e = subject)
      \<and> a' = delete_acl_entry subject a)"
    using revoke_effect[OF h] by auto
  then show ?thesis
  proof (elim disjE conjE)
    assume d: "\<not> rl (list_acl_entries a) (\<lambda>e. acl_role e = Admin) (\<lambda>e. acl_did e = subject)"
      "a' = delete_acl_entry subject a"
    have "\<exists>x \<in> set (list_acl_entries a). acl_role x = Admin \<and> acl_did x \<noteq> subject"
      using guard_leaves[OF assms(3) d(1)] assms(2) by (auto simp: has_admin_def)
    then show ?thesis using has_admin_delete[OF assms(1)] unfolding h d(2) by auto
  qed (use assms h in simp_all)
qed

section \<open>Paging\<close>

text \<open>A consumer that follows the cursor: one list call per element of states, which is
  the ACL at the time of that call. The flag says that the last call returned no cursor.\<close>

fun walk_pages ::
  "(string \<Rightarrow> string) \<Rightarrow> (string \<Rightarrow> string option) \<Rightarrow> string option \<Rightarrow> list_request \<Rightarrow> acl list
     \<Rightarrow> acl_entry list \<times> bool" where
  "walk_pages enc dec issuer rq [] = ([], False)"
| "walk_pages enc dec issuer rq (a # states) =
    (case list_handle enc dec issuer rq a of
       Inl _ \<Rightarrow> ([], False)
     | Inr pg \<Rightarrow>
         (case pg_cursor pg of
            None \<Rightarrow> (pg_entries pg, True)
          | Some c \<Rightarrow>
              let (es, fin) = walk_pages enc dec issuer (rq\<lparr>lr_cursor := Some c\<rparr>) states
              in (pg_entries pg @ es, fin)))"

definition cursor_bound :: "(string \<Rightarrow> string option) \<Rightarrow> list_request \<Rightarrow> string option" where
  "cursor_bound dec rq = (case lr_cursor rq of None \<Rightarrow> None | Some c \<Rightarrow> dec c)"

definition above :: "string option \<Rightarrow> string \<Rightarrow> bool" where
  "above b d = (case b of None \<Rightarrow> True | Some l \<Rightarrow> l < d)"

text \<open>The matching entries after the cursor, in subject order.\<close>

definition remaining :: "list_request \<Rightarrow> string option \<Rightarrow> acl \<Rightarrow> acl_entry list" where
  "remaining rq b a =
    filter (\<lambda>e. above b (acl_did e)) (sort_key acl_did (filter (list_filter rq) (list_acl_entries a)))"

definition strictly_ordered :: "acl_entry list \<Rightarrow> bool" where
  "strictly_ordered es = sorted_wrt (<) (map acl_did es)"

lemma dropWhile_le_filter:
  "sorted (map f xs) \<Longrightarrow> dropWhile (\<lambda>x. f x \<le> l) xs = filter (\<lambda>x. (l::'a::linorder) < f x) xs"
proof (induction xs)
  case (Cons x xs)
  then show ?case
  proof (cases "f x \<le> l")
    case False
    then have "\<forall>y \<in> set xs. l < f y" using Cons.prems by auto
    then have "filter (\<lambda>x. l < f x) xs = xs" by (simp add: filter_id_conv)
    then show ?thesis using False by simp
  qed auto
qed simp

lemma remaining_mem:
  "e \<in> set (remaining rq b a) \<longleftrightarrow> e \<in> set (list_acl_entries a) \<and> list_filter rq e \<and> above b (acl_did e)"
  by (auto simp: remaining_def)

lemma remaining_ordered:
  assumes "acl_ok a"
  shows "strictly_ordered (remaining rq b a)"
proof -
  let ?m = "filter (list_filter rq) (list_acl_entries a)"
  have "distinct (map acl_did ?m)" using acl_listed_distinct[OF assms] by (simp add: distinct_map_filter)
  then have "distinct (map acl_did (sort_key acl_did ?m))"
    by (metis distinct_map set_sort distinct_sort)
  moreover have "sorted (map acl_did (sort_key acl_did ?m))" by simp
  ultimately have "sorted_wrt (<) (map acl_did (sort_key acl_did ?m))"
    by (simp add: strict_sorted_iff)
  then show ?thesis
    by (simp add: strictly_ordered_def remaining_def sorted_wrt_map sorted_wrt_filter)
qed

lemma list_handle_Inr:
  "list_handle enc dec issuer rq a = Inr pg \<longleftrightarrow>
     (\<exists>caller. require_admin a issuer = Inr caller)
   \<and> (case lr_cursor rq of None \<Rightarrow> True | Some c \<Rightarrow> dec c \<noteq> None)
   \<and> (let rest = remaining rq (cursor_bound dec rq) a; n = page_limit rq
      in pg = \<lparr>pg_entries = take n rest,
          pg_cursor = (if n < length rest \<and> take n rest \<noteq> []
                       then Some (enc (acl_did (last (take n rest)))) else None),
          pg_truncated = (n < length rest)\<rparr>)"
proof -
  have t: "take n (take (n + 1) xs) = take n xs" "n < length (take (n + 1) xs) \<longleftrightarrow> n < length xs"
    for n and xs :: "acl_entry list"
    by auto
  show ?thesis
  proof (cases "lr_cursor rq")
    case None
    then show ?thesis
      unfolding list_handle_def Let_def t and_then_Inr
      by (auto simp: remaining_def cursor_bound_def above_def)
  next
    case (Some c)
    then show ?thesis
      unfolding list_handle_def Let_def t and_then_Inr
      by (cases "dec c") (auto simp: remaining_def cursor_bound_def above_def dropWhile_le_filter)
  qed
qed

lemma ordered_take_last:
  assumes "strictly_ordered es" "0 < n" "es \<noteq> []" "e \<in> set es"
  shows "e \<in> set (take n es) \<or> acl_did (last (take n es)) < acl_did e"
proof -
  have ne: "take n es \<noteq> []" using assms(2,3) by simp
  have "strictly_ordered (take n es @ drop n es)" using assms(1) by simp
  then have "\<forall>x \<in> set (take n es). \<forall>y \<in> set (drop n es). acl_did x < acl_did y"
    by (simp only: strictly_ordered_def map_append sorted_wrt_append) auto
  moreover have "e \<in> set (take n es) \<union> set (drop n es)"
    using assms(4) by (metis append_take_drop_id set_append)
  ultimately show ?thesis using ne by auto
qed

lemma strictly_ordered_append:
  "strictly_ordered (xs @ ys) \<longleftrightarrow> strictly_ordered xs \<and> strictly_ordered ys
     \<and> (\<forall>x \<in> set xs. \<forall>y \<in> set ys. acl_did x < acl_did y)"
  by (auto simp: strictly_ordered_def sorted_wrt_append)

lemma strictly_ordered_last:
  "strictly_ordered xs \<Longrightarrow> x \<in> set xs \<Longrightarrow> acl_did x \<le> acl_did (last xs)"
proof (induction xs)
  case (Cons y ys)
  then show ?case
    by (cases "ys = []") (auto simp: strictly_ordered_def intro: less_imp_le dest: last_in_set)
qed simp

lemma walk_pages_spec:
  assumes "walk_pages enc dec issuer rq states = (es, fin)" "\<forall>a \<in> set states. acl_ok a"
    "0 < page_limit rq" "\<And>d. dec (enc d) = Some d"
  shows "strictly_ordered es
    \<and> (\<forall>e \<in> set es. list_filter rq e \<and> above (cursor_bound dec rq) (acl_did e)
          \<and> (\<exists>a \<in> set states. e \<in> set (list_acl_entries a)))
    \<and> (fin \<longrightarrow> (\<forall>e. list_filter rq e \<longrightarrow> above (cursor_bound dec rq) (acl_did e) \<longrightarrow>
          (\<forall>a \<in> set states. e \<in> set (list_acl_entries a)) \<longrightarrow> e \<in> set es))"
  using assms
proof (induction states arbitrary: rq es fin)
  case Nil
  then show ?case by (auto simp: strictly_ordered_def)
next
  case (Cons a states)
  show ?case
  proof (cases "list_handle enc dec issuer rq a")
    case (Inl x)
    then show ?thesis using Cons.prems(1) by (auto simp: strictly_ordered_def)
  next
    case (Inr pg)
    let ?rest = "remaining rq (cursor_bound dec rq) a" and ?n = "page_limit rq"
    have o: "strictly_ordered ?rest" using remaining_ordered Cons.prems(2) by simp
    have pg: "pg_entries pg = take ?n ?rest"
      "pg_cursor pg = (if ?n < length ?rest \<and> take ?n ?rest \<noteq> []
          then Some (enc (acl_did (last (take ?n ?rest)))) else None)"
      using Inr by (auto simp: list_handle_Inr Let_def)
    have tk: "\<And>e. e \<in> set (take ?n ?rest) \<Longrightarrow> e \<in> set ?rest" by (rule in_set_takeD)
    have so: "strictly_ordered (take ?n ?rest)"
      using o by (metis append_take_drop_id strictly_ordered_append)
    show ?thesis
    proof (cases "pg_cursor pg")
      case None
      then have "take ?n ?rest = ?rest"
        using pg(2) Cons.prems(3) by (cases "?n < length ?rest") (auto split: if_splits)
      then have "es = ?rest" using Cons.prems(1) None Inr pg(1) by simp
      then show ?thesis using o remaining_mem by auto
    next
      case (Some c)
      let ?l = "acl_did (last (take ?n ?rest))"
      have c: "c = enc ?l" "take ?n ?rest \<noteq> []" using pg(2) Some by (auto split: if_splits)
      let ?rq = "rq\<lparr>lr_cursor := Some c\<rparr>"
      obtain es2 where w: "walk_pages enc dec issuer ?rq states = (es2, fin)"
          and es: "es = take ?n ?rest @ es2"
        using Cons.prems(1) Inr Some pg(1) by (auto simp: Let_def split: prod.splits)
      have b: "cursor_bound dec ?rq = Some ?l" using c(1) Cons.prems(4) by (simp add: cursor_bound_def)
      have f: "list_filter ?rq = list_filter rq" "page_limit ?rq = page_limit rq"
        by (auto simp: list_filter_def page_limit_def fun_eq_iff)
      have IH: "strictly_ordered es2
        \<and> (\<forall>e \<in> set es2. list_filter rq e \<and> ?l < acl_did e
            \<and> (\<exists>a \<in> set states. e \<in> set (list_acl_entries a)))
        \<and> (fin \<longrightarrow> (\<forall>e. list_filter rq e \<longrightarrow> ?l < acl_did e \<longrightarrow>
              (\<forall>a \<in> set states. e \<in> set (list_acl_entries a)) \<longrightarrow> e \<in> set es2))"
        using Cons.IH[OF w] Cons.prems unfolding b f above_def by simp
      have ll: "above (cursor_bound dec rq) ?l" using tk[OF last_in_set[OF c(2)]] by (simp add: remaining_mem)
      have ab: "above (cursor_bound dec rq) d" if "?l < d" for d
        using ll that by (auto simp: above_def split: option.splits)
      have "strictly_ordered es"
        unfolding es strictly_ordered_append
        using so IH strictly_ordered_last[OF so] by (meson le_less_trans)
      moreover have "\<forall>e \<in> set es. list_filter rq e \<and> above (cursor_bound dec rq) (acl_did e)
          \<and> (\<exists>a \<in> set (a # states). e \<in> set (list_acl_entries a))"
        using tk IH ab by (auto simp: es remaining_mem)
      moreover have "e \<in> set es" if "fin" "list_filter rq e" "above (cursor_bound dec rq) (acl_did e)"
          "\<forall>a \<in> set (a # states). e \<in> set (list_acl_entries a)" for e
      proof -
        have "e \<in> set ?rest" using that by (simp add: remaining_mem)
        then have "e \<in> set (take ?n ?rest) \<or> ?l < acl_did e"
          using ordered_take_last[OF o Cons.prems(3)] c(2) by fastforce
        then show ?thesis using IH that by (auto simp: es)
      qed
      ultimately show ?thesis by blast
    qed
  qed
qed

lemma remaining_shrinks:
  assumes "e \<in> set (remaining rq b a)" "acl_did e = l"
  shows "length (remaining rq (Some l) a) < length (remaining rq b a)"
proof -
  have ab: "above b d" if "l < d" for d
    using assms that by (auto simp: remaining_mem above_def split: option.splits)
  have "remaining rq (Some l) a = filter (\<lambda>e. l < acl_did e) (remaining rq b a)"
    using ab by (auto simp: remaining_def above_def intro!: filter_cong)
  then show ?thesis using assms by (auto intro!: length_filter_less[of e])
qed

lemma walk_finishes:
  assumes "acl_ok a" "require_admin a issuer = Inr caller" "0 < page_limit rq"
    "\<And>d. dec (enc d) = Some d" "lr_cursor rq = None \<or> (\<exists>d. lr_cursor rq = Some (enc d))"
    "length (remaining rq (cursor_bound dec rq) a) < N"
  shows "snd (walk_pages enc dec issuer rq (replicate N a))"
  using assms
proof (induction N arbitrary: rq)
  case (Suc N)
  let ?rest = "remaining rq (cursor_bound dec rq) a" and ?n = "page_limit rq"
  obtain pg where pg: "list_handle enc dec issuer rq a = Inr pg"
    "pg_cursor pg = (if ?n < length ?rest \<and> take ?n ?rest \<noteq> []
          then Some (enc (acl_did (last (take ?n ?rest)))) else None)"
    using Suc.prems(2,4,5) by (fastforce simp: list_handle_Inr Let_def)
  show ?case
  proof (cases "pg_cursor pg")
    case (Some c)
    let ?l = "last (take ?n ?rest)" and ?rq = "rq\<lparr>lr_cursor := Some c\<rparr>"
    have c: "c = enc (acl_did ?l)" "take ?n ?rest \<noteq> []" using pg(2) Some by (auto split: if_splits)
    have m: "?l \<in> set ?rest" using last_in_set[OF c(2)] by (rule in_set_takeD)
    have r: "remaining ?rq (cursor_bound dec ?rq) a = remaining rq (Some (acl_did ?l)) a"
    proof -
      have "list_filter ?rq = list_filter rq" by (auto simp: list_filter_def fun_eq_iff)
      moreover have "cursor_bound dec ?rq = Some (acl_did ?l)"
        using Suc.prems(4) c(1) by (simp add: cursor_bound_def)
      ultimately show ?thesis by (simp only: remaining_def)
    qed
    have "snd (walk_pages enc dec issuer ?rq (replicate N a))"
    proof (rule Suc.IH)
      show "length (remaining ?rq (cursor_bound dec ?rq) a) < N"
        using remaining_shrinks[OF m refl] Suc.prems(6) unfolding r by linarith
    qed (use Suc.prems c in \<open>auto simp: page_limit_def\<close>)
    then show ?thesis using pg(1) Some by (auto simp: Let_def split: prod.splits)
  qed (use pg in simp)
qed simp

section \<open>Properties\<close>

datatype acl_task =
    GrantTask spec_acl_entry
  | ChangeRoleTask string string string
  | RevokeTask string "string list"

fun acl_task_state ::
  "(string \<Rightarrow> bool) \<Rightarrow> authority_guard \<Rightarrow> nat \<Rightarrow> string option \<Rightarrow> acl_task \<Rightarrow> acl \<Rightarrow> acl" where
  "acl_task_state is_did rl now issuer (GrantTask entry) a =
     snd (grant_handle is_did now issuer entry a)"
| "acl_task_state is_did rl now issuer (ChangeRoleTask subject f t) a =
     snd (change_role_handle issuer subject f t a)"
| "acl_task_state is_did rl now issuer (RevokeTask subject scopes) a =
     snd (revoke_handle rl issuer subject scopes a)"

fun task_subject :: "acl_task \<Rightarrow> string" where
  "task_subject (GrantTask entry) = sp_subject entry"
| "task_subject (ChangeRoleTask subject f t) = subject"
| "task_subject (RevokeTask subject scopes) = subject"

fun reduces_scope :: "acl_task \<Rightarrow> bool" where
  "reduces_scope (RevokeTask subject scopes) = (scopes \<noteq> [])"
| "reduces_scope (GrantTask entry) = False"
| "reduces_scope (ChangeRoleTask subject f t) = False"

definition run_acl_tasks ::
  "(string \<Rightarrow> bool) \<Rightarrow> authority_guard \<Rightarrow> (nat \<times> string option \<times> acl_task) list \<Rightarrow> acl \<Rightarrow> acl" where
  "run_acl_tasks is_did rl ts a =
    foldl (\<lambda>a (now, issuer, t). acl_task_state is_did rl now issuer t a) a ts"

lemma acl_task_ok:
  assumes "acl_ok a"
  shows "acl_ok (acl_task_state is_did rl now issuer t a)"
proof (cases t)
  case (GrantTask e)
  show ?thesis
    using grant_effect[OF assms prod.collapse[symmetric], of is_did now issuer e] assms
    by (auto simp: GrantTask)
next
  case (ChangeRoleTask s f g)
  show ?thesis
    using change_role_effect[OF prod.collapse[symmetric], of issuer s f g a] assms
    by (auto simp: ChangeRoleTask)
next
  case (RevokeTask s sc)
  show ?thesis
    using revoke_effect[OF prod.collapse[symmetric], of rl issuer s sc a] assms
    by (auto simp: RevokeTask)
qed

lemma acl_task_admin:
  "acl_ok a \<Longrightarrow> has_admin a \<Longrightarrow> last_authority_guard rl \<Longrightarrow> \<not> reduces_scope t \<Longrightarrow>
   has_admin (acl_task_state is_did rl now issuer t a)"
  by (cases t) (auto simp: grant_keeps_admin change_role_keeps_admin revoke_all_keeps_admin)

definition sample_acl :: acl where
  "sample_acl = store_acl_entry
     \<lparr>acl_did = ''did:b'', acl_role = Owner, acl_label = None, acl_created_at = 2,
      acl_max_total_size = None, acl_max_did_count = Some 3,
      acl_domains = ScopeAllowedWithDefault [''x.org'', ''y.org''] ''x.org''\<rparr>
    (store_acl_entry
     \<lparr>acl_did = ''did:a'', acl_role = Admin, acl_label = None, acl_created_at = 1,
      acl_max_total_size = None, acl_max_did_count = None, acl_domains = ScopeAllowed [''x.org'']\<rparr> [])"

lemma sample_acl_ok: "acl_ok sample_acl" "has_admin sample_acl"
proof -
  show o: "acl_ok sample_acl" unfolding sample_acl_def by (intro acl_ok_store acl_ok_Nil)
  show "has_admin sample_acl" unfolding has_admin_iff[OF o]
    by (rule exI[of _ "''did:a''"]) (simp add: sample_acl_def acl_gets)
qed

text \<open>C1: Over any sequence of grants, role changes and full revocations, by any callers and
  with any outcomes, an ACL that has an administrator keeps one.\<close>

theorem acl_keeps_an_admin:
  assumes "acl_ok a" "has_admin a" "last_authority_guard rl"
    "\<forall>(now, issuer, t) \<in> set ts. \<not> reduces_scope t"
  shows "acl_ok (run_acl_tasks is_did rl ts a) \<and> has_admin (run_acl_tasks is_did rl ts a)"
  using assms
proof (induction ts arbitrary: a)
  case (Cons x xs)
  obtain now issuer t where x: "x = (now, issuer, t)" by (cases x)
  show ?case
    using Cons.prems(4) Cons.IH[of "acl_task_state is_did rl now issuer t a"]
      acl_task_ok[OF Cons.prems(1)] acl_task_admin[OF Cons.prems(1,2,3)] Cons.prems(3)
    by (auto simp: run_acl_tasks_def x)
qed (simp add: run_acl_tasks_def)

theorem acl_keeps_an_admin_witness:
  "has_admin (run_acl_tasks (\<lambda>_. True) sample_guard
     [(5, Some ''did:a'', RevokeTask ''did:a'' []),
      (6, Some ''did:a'', ChangeRoleTask ''did:a'' ''admin'' ''owner''),
      (7, Some ''did:b'', RevokeTask ''did:b'' [])] sample_acl)
   \<and> fst (revoke_handle sample_guard (Some ''did:a'') ''did:a'' [] sample_acl) = Inl LastAuthority"
proof (intro conjI)
  show "has_admin (run_acl_tasks (\<lambda>_. True) sample_guard
     [(5, Some ''did:a'', RevokeTask ''did:a'' []),
      (6, Some ''did:a'', ChangeRoleTask ''did:a'' ''admin'' ''owner''),
      (7, Some ''did:b'', RevokeTask ''did:b'' [])] sample_acl)"
    by (rule acl_keeps_an_admin[THEN conjunct2]) (auto simp: sample_acl_ok sample_guard_ok)
qed code_simp

text \<open>A revocation that names scopes is not covered by the last-administrator guard: the
  only administrator, with one allowed domain, can be removed by revoking that domain, and the
  ACL is then without administrators.\<close>

lemma scope_revoke_can_drop_last_admin:
  assumes "acl_ok a" "get_acl_entry a s = Some e" "acl_role e = Admin"
    "acl_domains e = ScopeAllowed [d]" "d \<noteq> []"
    "\<forall>x \<in> set (list_acl_entries a). acl_role x = Admin \<longrightarrow> acl_did x = s"
  shows "has_admin a \<and>
    (case revoke_handle rl (Some s) s [''domain:'' @ d] a of
       (r, a') \<Rightarrow> r = Inr None \<and> \<not> has_admin a')"
proof -
  have p: "parse_domain_scopes [''domain:'' @ d] = Inr [d]"
    using assms(5) by (simp add: strip_prefix_str_def)
  have r: "revoke_handle rl (Some s) s [''domain:'' @ d] a = (Inr None, delete_acl_entry s a)"
    using assms(2,4) p by (simp add: revoke_handle_def)
  have "\<not> has_admin (delete_acl_entry s a)"
  proof
    assume "has_admin (delete_acl_entry s a)"
    then obtain x y where y: "get_acl_entry (delete_acl_entry s a) x = Some y" "acl_role y = Admin"
      using has_admin_iff[OF acl_ok_delete[OF assms(1)]] by blast
    then have "x \<noteq> s" "get_acl_entry a x = Some y" by (auto simp: acl_gets split: if_splits)
    moreover then have "acl_did y = x" using acl_get_did[OF assms(1)] by blast
    ultimately show False using assms(6) y(2) acl_listed[OF assms(1)] by metis
  qed
  moreover have "has_admin a" using assms(2,3) has_admin_iff[OF assms(1)] by blast
  ultimately show ?thesis using r by simp
qed

theorem scope_revoke_can_drop_last_admin_witness:
  "\<not> has_admin (snd (revoke_handle sample_guard (Some ''did:a'') ''did:a'' [''domain:x.org''] sample_acl))"
proof -
  have g: "map_option acl_role (get_acl_entry sample_acl ''did:a'') = Some Admin"
    "map_option acl_domains (get_acl_entry sample_acl ''did:a'') = Some (ScopeAllowed [''x.org''])"
    "list_all (\<lambda>x. acl_role x = Admin \<longrightarrow> acl_did x = ''did:a'') (list_acl_entries sample_acl)"
    by code_simp+
  then obtain e where e: "get_acl_entry sample_acl ''did:a'' = Some e" "acl_role e = Admin"
    "acl_domains e = ScopeAllowed [''x.org'']" by auto
  show ?thesis
    using scope_revoke_can_drop_last_admin[OF sample_acl_ok(1) e, of sample_guard] g(3)
    by (auto simp: list_all_iff split: prod.splits)
qed

text \<open>C2: A task changes at most the row of its subject, and only when the caller is an
  administrator of the ACL as it stands, or the subject revoking itself; a caller can lower
  its own role but never raise it.\<close>

theorem acl_task_authorised:
  assumes "acl_ok a"
    "get_acl_entry (acl_task_state is_did rl now issuer t a) d \<noteq> get_acl_entry a d"
  shows "d = task_subject t \<and> (\<exists>caller. issuer = Some caller
    \<and> ((\<exists>e. get_acl_entry a caller = Some e \<and> acl_role e = Admin)
         \<or> (caller = d \<and> (\<exists>scopes. t = RevokeTask d scopes)))
    \<and> (caller = d \<longrightarrow> (\<forall>e e'. get_acl_entry a d = Some e \<longrightarrow>
          get_acl_entry (acl_task_state is_did rl now issuer t a) d = Some e' \<longrightarrow>
          role_rank (acl_role e') \<le> role_rank (acl_role e))))"
proof (cases t)
  case (GrantTask entry)
  note h = grant_effect[OF assms(1) prod.collapse[symmetric], of is_did now issuer entry]
  obtain e caller where e: "require_admin a issuer = Inr caller" "acl_did e = sp_subject entry"
    "snd (grant_handle is_did now issuer entry a) = store_acl_entry e a"
    "\<forall>old. get_acl_entry a (acl_did e) = Some old \<longrightarrow> acl_role e = acl_role old"
    using h assms(2) by (auto simp: GrantTask)
  then show ?thesis
    using assms(2) by (auto simp: GrantTask acl_gets require_admin_Inr split: if_splits)
next
  case (ChangeRoleTask subject f g)
  note h = change_role_effect[OF prod.collapse[symmetric], of issuer subject f g a]
  obtain e caller to_role where e: "require_admin a issuer = Inr caller"
    "get_acl_entry a subject = Some e"
    "snd (change_role_handle issuer subject f g a) = store_acl_entry (e\<lparr>acl_role := to_role\<rparr>) a"
    "caller = subject \<longrightarrow> role_rank to_role < role_rank (acl_role e)"
    using h assms(2) by (auto simp: ChangeRoleTask)
  moreover have "acl_did e = subject" using acl_get_did[OF assms(1) e(2)] .
  ultimately show ?thesis
    using assms(2) by (auto simp: ChangeRoleTask acl_gets require_admin_Inr split: if_splits)
next
  case (RevokeTask subject scopes)
  note h = revoke_effect[OF prod.collapse[symmetric], of rl issuer subject scopes a]
  have c: "issuer = Some subject \<or> (\<exists>caller. require_admin a issuer = Inr caller)"
    "(snd (revoke_handle rl issuer subject scopes a) = delete_acl_entry subject a
      \<or> (\<exists>e scope. get_acl_entry a subject = Some e \<and>
            snd (revoke_handle rl issuer subject scopes a) = store_acl_entry (e\<lparr>acl_domains := scope\<rparr>) a))"
    using h assms(2) by (auto simp: RevokeTask)
  have n: "acl_did e = subject" if "get_acl_entry a subject = Some e" for e
    using acl_get_did[OF assms(1) that] .
  have d: "d = subject" using c(2) n assms(2) by (auto simp: RevokeTask acl_gets split: if_splits)
  have k: "role_rank (acl_role e') \<le> role_rank (acl_role e)"
    if "get_acl_entry a d = Some e"
      "get_acl_entry (acl_task_state is_did rl now issuer t a) d = Some e'" for e e'
    using c(2) n that by (auto simp: RevokeTask acl_gets split: if_splits)
  show ?thesis using c(1) d k by (auto simp: RevokeTask require_admin_Inr)
qed

theorem acl_task_authorised_witness:
  "\<exists>caller. Some ''did:a'' = Some caller \<and> ''did:b'' = task_subject (RevokeTask ''did:b'' [])
     \<and> get_acl_entry (acl_task_state (\<lambda>_. True) sample_guard 5 (Some ''did:a'')
          (RevokeTask ''did:b'' []) sample_acl) ''did:b'' = None"
proof -
  have e: "get_acl_entry (acl_task_state (\<lambda>_. True) sample_guard 5 (Some ''did:a'')
          (RevokeTask ''did:b'' []) sample_acl) ''did:b'' = None"
    "get_acl_entry sample_acl ''did:b'' \<noteq> None" by code_simp+
  then have "get_acl_entry (acl_task_state (\<lambda>_. True) sample_guard 5 (Some ''did:a'')
          (RevokeTask ''did:b'' []) sample_acl) ''did:b'' \<noteq> get_acl_entry sample_acl ''did:b''"
    by metis
  from acl_task_authorised[OF sample_acl_ok(1) this] e(1) show ?thesis by blast
qed



text \<open>Reducing a scope removes exactly the named domains: the narrowed scope allows what
  was allowed and not named, keeps the default exactly while it is still allowed, and is never
  empty; the entry is dropped only when everything it allowed was named.\<close>

theorem scope_reduction_exact:
  "(case apply_scope_reduction s rm of
      Narrowed s' \<Rightarrow> (\<forall>d. scope_allows s' d = (scope_allows s d \<and> d \<notin> set rm))
        \<and> (\<exists>d. scope_allows s' d)
        \<and> scope_default_domain s' = (case scope_default_domain s of
             Some d \<Rightarrow> if scope_allows s' d then Some d else None | None \<Rightarrow> None)
    | EntryRemoved \<Rightarrow> s \<noteq> ScopeAll \<and> (\<forall>d. scope_allows s d \<longrightarrow> d \<in> set rm)
    | NoOp \<Rightarrow> s \<noteq> ScopeAll \<and> (\<forall>d \<in> set rm. \<not> scope_allows s d)
    | ScopeReduceOnAll \<Rightarrow> s = ScopeAll)"
proof (cases s)
  case (ScopeAllowed ds)
  then show ?thesis by (auto simp: Let_def filter_empty_conv)
next
  case (ScopeAllowedWithDefault ds dflt)
  then show ?thesis by (auto simp: Let_def filter_empty_conv)
qed simp

theorem scope_reduction_exact_witness:
  "apply_scope_reduction (ScopeAllowedWithDefault [''a'', ''b''] ''a'') [''a''] = Narrowed (ScopeAllowed [''b''])
   \<and> \<not> scope_allows (ScopeAllowed [''b'']) ''a''"
  using scope_reduction_exact[of "ScopeAllowedWithDefault [''a'', ''b''] ''a''" "[''a'']"] by simp



end
