(* ===== verification/Safety.thy ===== *)
theory Safety
  imports Acl DomainTasks Mnemonic
begin

text \<open>
  The method layer of did-hosting-common/src/method (identifier parsing, resolution
  URLs, document updates of did:webvh and did:web), the identifier construction of
  did.rs, and the domain safety checks of did-hosting-common/src/server/domain/safety.rs
  that guard every DID write and every resolution. The did:webs parser and the JSON
  parser are parameters; whether did:webs is compiled in is the option on its parser.
\<close>

section \<open>Identifiers (method/parse.rs, webvh.rs, web.rs, mod.rs)\<close>

datatype method_error = Malformed | MethodMismatch | MethodValidation

definition parse_did_method :: "string \<Rightarrow> method_error + string" where
  "parse_did_method did = (case strip_prefix_str ''did:'' did of
     None \<Rightarrow> Inl Malformed
   | Some after \<Rightarrow> (case split_once (CHR '':'') after of
       None \<Rightarrow> Inl Malformed
     | Some (m, rest) \<Rightarrow>
         if m = [] \<or> rest = [] then Inl Malformed
         else if \<not> list_all (\<lambda>c. is_lower c \<or> is_digit c) m then Inl Malformed
         else Inr m))"

datatype did_method = Webvh | Web | Webs

record parsed_did =
  pd_method :: did_method
  pd_scid :: "string option"
  pd_domain :: string
  pd_path :: string

definition webvh_parse_identifier :: "string \<Rightarrow> method_error + parsed_did" where
  "webvh_parse_identifier did = (case strip_prefix_str ''did:webvh:'' did of
     None \<Rightarrow> Inl MethodMismatch
   | Some rest \<Rightarrow>
       let (scid, rest1) = (case split_once (CHR '':'') rest of
             Some (a, b) \<Rightarrow> (a, Some b) | None \<Rightarrow> (rest, None))
       in if scid = [] then Inl Malformed
          else (case rest1 of
              None \<Rightarrow> Inl Malformed
            | Some r \<Rightarrow>
                let (hst, path) = (case split_once (CHR '':'') r of
                      Some (a, b) \<Rightarrow> (a, b) | None \<Rightarrow> (r, []))
                in if hst = [] then Inl Malformed
                   else Inr \<lparr>pd_method = Webvh, pd_scid = Some scid, pd_domain = hst,
                             pd_path = path\<rparr>))"

definition web_parse_identifier :: "string \<Rightarrow> method_error + parsed_did" where
  "web_parse_identifier did = (case strip_prefix_str ''did:web:'' did of
     None \<Rightarrow> Inl MethodMismatch
   | Some rest \<Rightarrow>
       let (hst, path) = (case split_once (CHR '':'') rest of
             Some (a, b) \<Rightarrow> (a, b) | None \<Rightarrow> (rest, []))
       in if hst = [] then Inl Malformed
          else Inr \<lparr>pd_method = Web, pd_scid = None, pd_domain = hst, pd_path = path\<rparr>)"

type_synonym webs_parser = "(string \<Rightarrow> parsed_did option) option"

definition method_by_name :: "webs_parser \<Rightarrow> string \<Rightarrow> did_method option" where
  "method_by_name webs name =
    (if name = ''webvh'' then Some Webvh
     else if name = ''web'' then Some Web
     else if name = ''webs'' \<and> webs \<noteq> None then Some Webs
     else None)"

definition parse_identifier :: "webs_parser \<Rightarrow> did_method \<Rightarrow> string \<Rightarrow> method_error + parsed_did" where
  "parse_identifier webs m did = (case m of
     Webvh \<Rightarrow> webvh_parse_identifier did
   | Web \<Rightarrow> web_parse_identifier did
   | Webs \<Rightarrow> ok_or Malformed (Option.bind webs (\<lambda>p. p did)))"

definition webvh_resolution_url :: "string \<Rightarrow> string \<Rightarrow> string" where
  "webvh_resolution_url hst mnemonic =
    (if mnemonic = [] \<or> mnemonic = ''.well-known''
     then ''https://'' @ hst @ ''/.well-known/did.jsonl''
     else ''https://'' @ hst @ ''/'' @ replace_char (CHR '':'') (CHR ''/'') mnemonic @ ''/did.jsonl'')"

definition web_resolution_url :: "string \<Rightarrow> string \<Rightarrow> string" where
  "web_resolution_url hst mnemonic =
    (if mnemonic = [] \<or> mnemonic = ''__root''
     then ''https://'' @ hst @ ''/.well-known/did.json''
     else ''https://'' @ hst @ ''/'' @ replace_char (CHR '':'') (CHR ''/'') mnemonic @ ''/did.json'')"

section \<open>Document updates (webvh.rs, web.rs)\<close>

definition webvh_validate :: "(string \<Rightarrow> bool) \<Rightarrow> (string \<Rightarrow> bool) \<Rightarrow> string \<Rightarrow> method_error + unit" where
  "webvh_validate utf8 json_ok bytes =
    (if \<not> utf8 bytes then Inl MethodValidation
     else check (list_all (\<lambda>l. trim l = [] \<or> json_ok l) (str_lines bytes)) MethodValidation)"

definition is_ascii_whitespace :: "char \<Rightarrow> bool" where
  "is_ascii_whitespace c \<longleftrightarrow> c \<in> {CHR 0x09, CHR 0x0A, CHR 0x0C, CHR 0x0D, CHR 0x20}"

definition webvh_apply_update ::
  "(string \<Rightarrow> bool) \<Rightarrow> (string \<Rightarrow> bool) \<Rightarrow> string option \<Rightarrow> string \<Rightarrow> method_error + string" where
  "webvh_apply_update utf8 json_ok existing new_data =
    (let old = (case existing of Some b \<Rightarrow> b | None \<Rightarrow> []);
         out = (if old \<noteq> [] \<and> last old \<noteq> CHR 0x0A then old @ [CHR 0x0A] else old) @ new_data
     in if list_all is_ascii_whitespace new_data then Inl MethodValidation
        else and_then (webvh_validate utf8 json_ok new_data) (\<lambda>_. Inr out))"

text \<open>The id member of a JSON document: None when the bytes are not JSON or the member is
  missing or not a string.\<close>

definition web_validate :: "(string \<Rightarrow> string option) \<Rightarrow> string \<Rightarrow> method_error + unit" where
  "web_validate json_id bytes = (case json_id bytes of
     None \<Rightarrow> Inl MethodValidation
   | Some did \<Rightarrow>
       if \<not> prefix ''did:web:'' did then Inl MethodValidation
       else and_then (web_parse_identifier did) (\<lambda>_. Inr ()))"

definition web_apply_update ::
  "(string \<Rightarrow> string option) \<Rightarrow> string option \<Rightarrow> string \<Rightarrow> method_error + string" where
  "web_apply_update json_id existing new_data =
    (if new_data = [] then Inl MethodValidation
     else and_then (web_validate json_id new_data) (\<lambda>_. Inr new_data))"

section \<open>Host encoding (did.rs) and decoding (safety.rs)\<close>

definition encode_host ::
  "(string \<Rightarrow> (string option \<times> nat option) option) \<Rightarrow> string \<Rightarrow> string option" where
  "encode_host parse_url url = (case parse_url url of
     Some (Some h, port) \<Rightarrow> Some (case port of Some p \<Rightarrow> h @ ''%3A'' @ show_nat p | None \<Rightarrow> h)
   | _ \<Rightarrow> None)"

definition build_did_web_id ::
  "(string \<Rightarrow> (string option \<times> nat option) option) \<Rightarrow> string \<Rightarrow> string \<Rightarrow> string option" where
  "build_did_web_id parse_url url mnemonic = (case encode_host parse_url url of
     None \<Rightarrow> None
   | Some h \<Rightarrow>
       if mnemonic = ''.well-known'' then Some (''did:web:'' @ h)
       else Some (''did:web:'' @ h @ '':'' @ replace_char (CHR ''/'') (CHR '':'') mnemonic))"

definition hex_digit :: "char \<Rightarrow> nat option" where
  "hex_digit c =
    (if is_digit c then Some (of_char c - 48)
     else if CHR ''a'' \<le> c \<and> c \<le> CHR ''f'' then Some (of_char c - 87)
     else if CHR ''A'' \<le> c \<and> c \<le> CHR ''F'' then Some (of_char c - 55)
     else None)"

fun percent_decode_bytes :: "string \<Rightarrow> string option" where
  "percent_decode_bytes [] = Some []"
| "percent_decode_bytes (c # cs) =
    (if c = CHR ''%'' then
       (case cs of
          a # b # rest \<Rightarrow>
            (case (hex_digit a, hex_digit b) of
               (Some hi, Some lo) \<Rightarrow>
                 map_option (\<lambda>out. char_of (hi * 16 + lo) # out) (percent_decode_bytes rest)
             | _ \<Rightarrow> None)
        | _ \<Rightarrow> None)
     else map_option (\<lambda>out. c # out) (percent_decode_bytes cs))"

text \<open>Well-formed UTF-8, as String::from_utf8 decides it.\<close>

definition cont_byte :: "nat \<Rightarrow> bool" where
  "cont_byte b \<longleftrightarrow> 128 \<le> b \<and> b \<le> 191"

fun utf8_valid :: "nat list \<Rightarrow> bool" where
  "utf8_valid [] = True"
| "utf8_valid [a] = (a < 128)"
| "utf8_valid (a # b # r) =
    (if a < 128 then utf8_valid (b # r)
     else if 194 \<le> a \<and> a \<le> 223 then cont_byte b \<and> utf8_valid r
     else (case r of
         [] \<Rightarrow> False
       | c # r' \<Rightarrow>
           if 224 \<le> a \<and> a \<le> 239 then
             cont_byte b \<and> cont_byte c \<and> (a = 224 \<longrightarrow> 160 \<le> b) \<and> (a = 237 \<longrightarrow> b \<le> 159)
             \<and> utf8_valid r'
           else (case r' of
               [] \<Rightarrow> False
             | d # r'' \<Rightarrow>
                 240 \<le> a \<and> a \<le> 244 \<and> cont_byte b \<and> cont_byte c \<and> cont_byte d
                 \<and> (a = 240 \<longrightarrow> 144 \<le> b) \<and> (a = 244 \<longrightarrow> b \<le> 143) \<and> utf8_valid r'')))"

definition percent_decode_to_string :: "string \<Rightarrow> string option" where
  "percent_decode_to_string s = (case percent_decode_bytes s of
     None \<Rightarrow> None
   | Some out \<Rightarrow> if utf8_valid (map of_char out) then Some out else None)"

definition extract_did_host :: "webs_parser \<Rightarrow> string \<Rightarrow> string res" where
  "extract_did_host webs did = (case parse_did_method did of
     Inl _ \<Rightarrow> Inl invalid
   | Inr name \<Rightarrow> (case method_by_name webs name of
       None \<Rightarrow> Inl invalid
     | Some m \<Rightarrow> (case parse_identifier webs m did of
         Inl _ \<Rightarrow> Inl invalid
       | Inr p \<Rightarrow> Inr (case percent_decode_to_string (pd_domain p) of
                         Some h \<Rightarrow> h | None \<Rightarrow> pd_domain p))))"

section \<open>Checks (safety.rs)\<close>

definition assert_host_is_active_domain :: "host_parser \<Rightarrow> domain_store \<Rightarrow> string \<Rightarrow> unit res" where
  "assert_host_is_active_domain ph st h =
    and_then (get_domain ph h st) (\<lambda>r.
      case r of
        None \<Rightarrow> Inl invalid
      | Some e \<Rightarrow> if dom_status e \<noteq> Active then Inl invalid else Inr ())"

definition assert_acl_allows_host :: "acl_entry \<Rightarrow> string \<Rightarrow> unit res" where
  "assert_acl_allows_host e h =
    (if acl_role e = Admin \<or> acl_role e = Service then Inr ()
     else if scope_allows (acl_domains e) h then Inr ()
     else Inl Forbidden)"

definition assert_did_host_allowed ::
  "host_parser \<Rightarrow> webs_parser \<Rightarrow> domain_store \<Rightarrow> acl_entry \<Rightarrow> string \<Rightarrow> unit res" where
  "assert_did_host_allowed ph webs st e did =
    and_then (extract_did_host webs did) (\<lambda>h.
    and_then (assert_host_is_active_domain ph st h) (\<lambda>_.
    and_then (assert_acl_allows_host e h) (\<lambda>_. Inr ())))"

definition assert_request_host_matches_did :: "webs_parser \<Rightarrow> string \<Rightarrow> string \<Rightarrow> unit res" where
  "assert_request_host_matches_did webs request_host did = (case extract_did_host webs did of
     Inl _ \<Rightarrow> Inl NotFound
   | Inr embedded \<Rightarrow>
       if eq_ignore_ascii_case request_host embedded then Inr () else Inl NotFound)"

definition assert_domain_active_for_resolution ::
  "host_parser \<Rightarrow> domain_store \<Rightarrow> string \<Rightarrow> unit res" where
  "assert_domain_active_for_resolution ph st h =
    and_then (get_domain ph h st) (\<lambda>r.
      case r of
        None \<Rightarrow> Inl NotFound
      | Some e \<Rightarrow> if dom_status e = Active then Inr () else Inl DomainDisabled)"

definition assert_did_host_allowed_when_domains_configured ::
  "host_parser \<Rightarrow> webs_parser \<Rightarrow> domain_store \<Rightarrow> acl_entry \<Rightarrow> string \<Rightarrow> unit res" where
  "assert_did_host_allowed_when_domains_configured ph webs st e did =
    (if ks_scan [] (domains st) = [] then Inr ()
     else assert_did_host_allowed ph webs st e did)"

definition assert_resolution_allowed ::
  "host_parser \<Rightarrow> webs_parser \<Rightarrow> domain_store \<Rightarrow> string option \<Rightarrow> string \<Rightarrow> unit res" where
  "assert_resolution_allowed ph webs st request_host did =
    (if ks_scan [] (domains st) = [] then Inr ()
     else case request_host of
         None \<Rightarrow> Inl NotFound
       | Some h \<Rightarrow>
           and_then (assert_request_host_matches_did webs h did) (\<lambda>_.
             assert_domain_active_for_resolution ph st h))"

section \<open>Lemmas\<close>

definition host_char :: "char \<Rightarrow> bool" where
  "host_char c \<longleftrightarrow> is_lower c \<or> is_digit c \<or> c = CHR ''-'' \<or> c = CHR ''.''"

lemma host_char_facts: "\<not> host_char (CHR ''%'')" "\<not> host_char (CHR '':'')"
  by code_simp+

lemma digit_host_char: "list_all is_digit s \<Longrightarrow> list_all host_char s"
  by (auto simp: list_all_iff host_char_def)

lemma ascii_of_host: "host_char c \<Longrightarrow> (of_char c :: nat) < 128"
proof -
  have a: "(of_char (CHR ''z'') :: nat) = 122" "(of_char (CHR ''9'') :: nat) = 57"
    "(of_char (CHR ''-'') :: nat) < 128" "(of_char (CHR ''.'') :: nat) < 128" by simp_all
  assume "host_char c"
  then show ?thesis using a by (auto simp: host_char_def is_lower_def is_digit_def less_eq_char_def)
qed

lemma utf8_ascii: "\<forall>b \<in> set bs. b < 128 \<Longrightarrow> utf8_valid bs"
  by (induction bs rule: utf8_valid.induct) auto

lemma decode_plain: "CHR ''%'' \<notin> set s \<Longrightarrow> percent_decode_bytes s = Some s"
  by (induction s) auto

lemma decode_append_plain:
  "CHR ''%'' \<notin> set a \<Longrightarrow> percent_decode_bytes (a @ b) = map_option (\<lambda>o'. a @ o') (percent_decode_bytes b)"
proof (induction a)
  case Nil
  then show ?case by (cases "percent_decode_bytes b") auto
next
  case (Cons c cs)
  then show ?case by (cases "percent_decode_bytes b") auto
qed

lemma decode_port:
  assumes "CHR ''%'' \<notin> set p"
  shows "percent_decode_bytes (''%3A'' @ p) = Some ('':'' @ p)"
proof -
  have "hex_digit (CHR ''3'') = Some 3" "hex_digit (CHR ''A'') = Some 10"
    "char_of (3 * 16 + 10 :: nat) = CHR '':''" by code_simp+
  then show ?thesis using assms by (simp add: decode_plain)
qed

lemma host_no_special: "list_all host_char h \<Longrightarrow> CHR ''%'' \<notin> set h \<and> CHR '':'' \<notin> set h"
  using host_char_facts by (auto simp: list_all_iff)

lemma show_nat_host: "list_all host_char (show_nat n)"
  using digit_host_char[OF show_nat_digits] .

lemma decode_encoded_host:
  assumes "list_all host_char h"
  shows "percent_decode_to_string (case port of Some p \<Rightarrow> h @ ''%3A'' @ show_nat p | None \<Rightarrow> h)
    = Some (case port of Some p \<Rightarrow> h @ '':'' @ show_nat p | None \<Rightarrow> h)"
proof -
  have a: "\<forall>c \<in> set h. (of_char c :: nat) < 128" using assms ascii_of_host by (auto simp: list_all_iff)
  have b: "\<forall>c \<in> set (show_nat p). (of_char c :: nat) < 128" for p
    using show_nat_host[of p] ascii_of_host by (auto simp: list_all_iff)
  have n: "CHR ''%'' \<notin> set h" "CHR ''%'' \<notin> set (show_nat p)" for p
    using host_no_special assms show_nat_host by blast+
  have u: "utf8_valid (map of_char (h @ '':'' @ show_nat p))" for p
    using a b by (intro utf8_ascii) auto
  have d: "percent_decode_bytes (h @ ''%3A'' @ show_nat p) = Some (h @ '':'' @ show_nat p)" for p
    using decode_append_plain[OF n(1)] decode_port[OF n(2)] by simp
  show ?thesis
  proof (cases port)
    case None
    then show ?thesis using a n by (simp add: percent_decode_to_string_def decode_plain utf8_ascii)
  next
    case (Some p)
    then show ?thesis using d[of p] u[of p] by (simp add: percent_decode_to_string_def)
  qed
qed

lemma encoded_host_no_colon:
  "list_all host_char h \<Longrightarrow> CHR '':'' \<notin> set (case port of Some p \<Rightarrow> h @ ''%3A'' @ show_nat p | None \<Rightarrow> h)"
  using host_no_special[of h] host_no_special[OF show_nat_host] by (auto split: option.splits)

lemma parse_method_web: "rest \<noteq> [] \<Longrightarrow> parse_did_method (''did:web:'' @ rest) = Inr ''web''"
proof -
  assume r: "rest \<noteq> []"
  have "strip_prefix_str ''did:'' (''did:web:'' @ rest) = Some (''web:'' @ rest)"
    by (simp add: strip_prefix_Some)
  moreover have "split_once (CHR '':'') (''web:'' @ rest) = Some (''web'', rest)"
    by (simp add: split_once_Some)
  moreover have "list_all (\<lambda>c. is_lower c \<or> is_digit c) ''web''" by code_simp
  ultimately show ?thesis using r by (simp add: parse_did_method_def)
qed

lemma web_parse_host:
  assumes "CHR '':'' \<notin> set hst" "hst \<noteq> []"
  shows "web_parse_identifier (''did:web:'' @ hst) =
      Inr \<lparr>pd_method = Web, pd_scid = None, pd_domain = hst, pd_path = []\<rparr>"
    "web_parse_identifier (''did:web:'' @ hst @ '':'' @ path) =
      Inr \<lparr>pd_method = Web, pd_scid = None, pd_domain = hst, pd_path = path\<rparr>"
proof -
  have a: "strip_prefix_str ''did:web:'' (''did:web:'' @ x) = Some x" for x
    by (simp add: strip_prefix_Some)
  have b: "split_once (CHR '':'') hst = None" "split_once (CHR '':'') (hst @ '':'' @ path) = Some (hst, path)"
    using assms(1) by (simp_all add: split_once_None split_once_Some)
  show "web_parse_identifier (''did:web:'' @ hst) =
      Inr \<lparr>pd_method = Web, pd_scid = None, pd_domain = hst, pd_path = []\<rparr>"
    unfolding web_parse_identifier_def a using b(1) assms(2) by simp
  show "web_parse_identifier (''did:web:'' @ hst @ '':'' @ path) =
      Inr \<lparr>pd_method = Web, pd_scid = None, pd_domain = hst, pd_path = path\<rparr>"
    unfolding web_parse_identifier_def a using b(2) assms(2) by simp
qed

section \<open>Properties\<close>

text \<open>The identifier built for a server URL carries the host that the domain registry
  stores for that URL: percent-encoding the port and decoding it again give back the literal
  host and port, so a DID minted by the server passes the host checks of its own domain.\<close>

theorem minted_host_is_domain:
  assumes "parse_url url = Some (Some h, port)" "list_all host_char h" "h \<noteq> []"
    "to_ascii_lowercase h = h"
  shows "\<exists>did. build_did_web_id parse_url url mnemonic = Some did
    \<and> (\<exists>d. host_from_public_url parse_url url = Some d \<and> extract_did_host webs did = Inr d)"
proof -
  let ?enc = "case port of Some p \<Rightarrow> h @ ''%3A'' @ show_nat p | None \<Rightarrow> h"
  let ?lit = "case port of Some p \<Rightarrow> h @ '':'' @ show_nat p | None \<Rightarrow> h"
  have e: "encode_host parse_url url = Some ?enc" using assms(1) by (simp add: encode_host_def)
  have l: "host_from_public_url parse_url url = Some ?lit"
    using assms(1,4) by (simp add: host_from_public_url_def split: option.splits)
  have c: "CHR '':'' \<notin> set ?enc" "?enc \<noteq> []"
    using encoded_host_no_colon[OF assms(2)] assms(3) by (auto split: option.splits)
  have x: "extract_did_host webs (''did:web:'' @ ?enc @ rest) = Inr ?lit"
    if "web_parse_identifier (''did:web:'' @ ?enc @ rest) =
      Inr \<lparr>pd_method = Web, pd_scid = None, pd_domain = ?enc, pd_path = path\<rparr>" for rest path
  proof -
    have "parse_did_method (''did:web:'' @ ?enc @ rest) = Inr ''web''"
      using c(2) by (intro parse_method_web) simp
    moreover have "parse_identifier webs Web (''did:web:'' @ ?enc @ rest) =
        Inr \<lparr>pd_method = Web, pd_scid = None, pd_domain = ?enc, pd_path = path\<rparr>"
      unfolding parse_identifier_def using that by simp
    ultimately show ?thesis using decode_encoded_host[OF assms(2), of port]
      by (simp only: extract_did_host_def sum.case method_by_name_def) simp
  qed
  show ?thesis
  proof (cases "mnemonic = ''.well-known''")
    case True
    have "extract_did_host webs (''did:web:'' @ ?enc) = Inr ?lit"
      using x[of "[]" "[]"] web_parse_host(1)[OF c] by simp
    then show ?thesis using e l True by (simp add: build_did_web_id_def)
  next
    case False
    let ?p = "replace_char (CHR ''/'') (CHR '':'') mnemonic"
    have "extract_did_host webs (''did:web:'' @ ?enc @ '':'' @ ?p) = Inr ?lit"
      using x[of "'':'' @ ?p" ?p] web_parse_host(2)[OF c] by simp
    then show ?thesis using e l False by (simp add: build_did_web_id_def)
  qed
qed

theorem minted_host_is_domain_witness:
  "\<exists>did. build_did_web_id (\<lambda>_. Some (Some ''localhost'', Some 8534)) ''http://localhost:8534'' ''a/b'' = Some did
    \<and> (\<exists>d. host_from_public_url (\<lambda>_. Some (Some ''localhost'', Some 8534)) ''http://localhost:8534'' = Some d
         \<and> extract_did_host None did = Inr d)"
  by (rule minted_host_is_domain[where h = "''localhost''" and port = "Some 8534"]) (simp | code_simp)+

text \<open>A DID write passes the host check exactly when the identifier names a configured,
  active domain and the caller is an administrator or service account, or its scope allows
  that domain.\<close>

theorem did_host_allowed_iff:
  assumes "domain_inv ph st"
  shows "assert_did_host_allowed ph webs st entry did = Inr () \<longleftrightarrow>
    (\<exists>h e. extract_did_host webs did = Inr h \<and> ks_get (domains st) h = Some e \<and> dom_status e = Active
       \<and> (acl_role entry \<noteq> Owner \<or> scope_allows (acl_domains entry) h))"
proof -
  have n: "normalize_domain_name ph h = Inr h" if "ks_get (domains st) h = Some e" for h e
    using assms that by (auto simp: domain_inv_def names_ok_def)
  have r: "acl_role entry \<noteq> Owner \<longleftrightarrow> acl_role entry = Admin \<or> acl_role entry = Service"
    by (cases "acl_role entry") auto
  have a: "assert_host_is_active_domain ph st h = Inr () \<longleftrightarrow>
      (\<exists>e. ks_get (domains st) h = Some e \<and> dom_status e = Active)" for h
    using n[of h] by (cases "ks_get (domains st) h")
      (auto simp: assert_host_is_active_domain_def res_simps get_domain_Inr)
  have b: "assert_acl_allows_host entry h = Inr () \<longleftrightarrow>
      (acl_role entry \<noteq> Owner \<or> scope_allows (acl_domains entry) h)" for h
    unfolding r by (auto simp: assert_acl_allows_host_def)
  show ?thesis by (auto simp: assert_did_host_allowed_def res_simps a b)
qed

theorem did_host_allowed_iff_witness:
  "assert_did_host_allowed sample_parser None sample_domains
     \<lparr>acl_did = ''did:o'', acl_role = Owner, acl_label = None, acl_created_at = 0,
      acl_max_total_size = None, acl_max_did_count = None, acl_domains = ScopeAllowed [''a.org'']\<rparr>
     ''did:web:a.org:x'' = Inr ()"
proof -
  have e: "extract_did_host None ''did:web:a.org:x'' = Inr ''a.org''"
    "map_option dom_status (ks_get (domains sample_domains) ''a.org'') = Some Active" by code_simp+
  then show ?thesis by (subst did_host_allowed_iff[OF sample_inv]) auto
qed

text \<open>C6: Once any domain is configured, a document is served only to a request whose host is
  the host embedded in the DID (up to ASCII case) and whose domain is active; a request without
  a resolvable host is always refused.\<close>

theorem resolution_allowed_sound:
  assumes "assert_resolution_allowed ph webs st request_host did = Inr ()"
    "ks_get (domains st) k = Some e0" "ks_ok (domains st)"
  shows "\<exists>h emb e. request_host = Some h \<and> extract_did_host webs did = Inr emb
    \<and> eq_ignore_ascii_case h emb \<and> ks_get (domains st) h = Some e \<and> dom_status e = Active"
proof -
  have "ks_scan [] (domains st) \<noteq> []"
    using assms(2) rows.scan_mem[OF assms(3), of k e0 "[]"] by auto
  then show ?thesis
    using assms(1)
    by (auto simp: assert_resolution_allowed_def assert_request_host_matches_did_def
        assert_domain_active_for_resolution_def res_simps get_domain_Inr
        split: option.splits sum.splits if_splits)
qed

theorem resolution_allowed_sound_witness:
  "\<exists>h emb e. Some ''a.org'' = Some h \<and> extract_did_host None ''did:web:a.org:x'' = Inr emb
    \<and> eq_ignore_ascii_case h emb \<and> ks_get (domains sample_domains) h = Some e \<and> dom_status e = Active"
proof -
  have r: "assert_resolution_allowed sample_parser None sample_domains (Some ''a.org'') ''did:web:a.org:x'' = Inr ()"
    "ks_get (domains sample_domains) ''a.org'' \<noteq> None" by code_simp+
  then obtain e0 where e0: "ks_get (domains sample_domains) ''a.org'' = Some e0" by auto
  have "ks_ok (domains sample_domains)" using sample_inv by (simp add: domain_inv_def store_ok_def)
  from resolution_allowed_sound[OF r(1) e0 this] show ?thesis .
qed

text \<open>Updating a did:webvh log only appends: the stored bytes stay a prefix and every
  line of the old log is followed by the lines of the new entry, whether or not the old log
  ended in a line feed.\<close>

theorem webvh_update_appends:
  assumes "webvh_apply_update utf8 json_ok (Some old) new = Inr out" "old \<noteq> []"
    "last old \<noteq> CHR 0x0D"
  shows "prefix old out \<and> suffix new out \<and> str_lines out = str_lines old @ str_lines new"
proof (cases "last old = CHR 0x0A")
  case True
  then obtain b where b: "old = b @ [CHR 0x0A]" using assms(2) by (metis append_butlast_last_id)
  then have o: "out = b @ CHR 0x0A # new"
    using assms(1) by (auto simp: webvh_apply_update_def Let_def res_simps split: if_splits)
  have "str_lines old = map strip_cr (split_on (CHR 0x0A) b)"
    using str_lines_append[of b "[]"] by (simp add: b str_lines_def)
  then show ?thesis using str_lines_append[of b new] by (simp add: o b suffix_def)
next
  case False
  then have o: "out = old @ CHR 0x0A # new"
    using assms(1,2) by (auto simp: webvh_apply_update_def Let_def res_simps split: if_splits)
  define ps where "ps = split_on (CHR 0x0A) old"
  have ne: "ps \<noteq> []" by (simp add: ps_def)
  have j: "join_with [CHR 0x0A] ps = old" by (simp add: ps_def join_split_on)
  have l: "last ps \<noteq> []" and c: "last (last ps) \<noteq> CHR 0x0D"
  proof -
    have "\<exists>pre. old = pre @ last ps \<and> (pre = [] \<or> last pre = CHR 0x0A)"
      using ne j
    proof (induction ps arbitrary: old)
      case (Cons p ps)
      show ?case
      proof (cases ps)
        case (Cons q qs)
        then obtain pre where "join_with [CHR 0x0A] ps = pre @ last ps"
            "pre = [] \<or> last pre = CHR 0x0A" using Cons.IH by blast
        then show ?thesis using Cons Cons.prems
          by (intro exI[of _ "p @ CHR 0x0A # pre"]) auto
      qed (use Cons.prems in auto)
    qed simp
    then obtain pre where pre: "old = pre @ last ps" "pre = [] \<or> last pre = CHR 0x0A" by blast
    then show "last ps \<noteq> []" using assms(2) False by auto
    then show "last (last ps) \<noteq> CHR 0x0D" using pre(1) assms(3) by (metis last_appendR)
  qed
  have "map strip_cr ps = map strip_cr (butlast ps @ [last ps])" using ne by simp
  moreover have "strip_cr (last ps) = last ps" using c by (simp add: strip_cr_def)
  ultimately have "map strip_cr ps = map strip_cr (butlast ps) @ [last ps]" by simp
  then show ?thesis
    using str_lines_append[of old new] l by (simp add: o str_lines_def Let_def ps_def suffix_def)
qed

theorem webvh_update_appends_witness:
  "str_lines ''ab'' @ str_lines ''c'' = str_lines (''ab'' @ CHR 0x0A # ''c'')"
proof -
  have "webvh_apply_update (\<lambda>_. True) (\<lambda>_. True) (Some ''ab'') ''c'' = Inr (''ab'' @ CHR 0x0A # ''c'')"
    by code_simp
  from webvh_update_appends[OF this] show ?thesis by simp
qed

end
