(* ===== verification/DidLog.thy ===== *)
theory DidLog
  imports Safety
begin

text \<open>
  did:webvh logs and publications: the log functions of did-hosting-common/src/did_ops.rs,
  the method detection of method/mod.rs, the did:webs wrapper of method/webs.rs and the
  publication front of method/publication.rs. The JSON parser and serialiser, the log-entry
  verifier of the didwebvh_rs crate, the KERI crate and the agent-name parser are parameters,
  gathered in the record log_lib; a failed Result<_, String> is None (or False).
\<close>

section \<open>JSON values (serde_json::Value)\<close>

datatype json =
    JNull
  | JBool bool
  | JInt int
  | JFloat string
  | JStr string
  | JArr "json list"
  | JObj "(string \<times> json) list"

definition json_get :: "string \<Rightarrow> json \<Rightarrow> json option" where
  "json_get k v = (case v of JObj members \<Rightarrow> map_of members k | _ \<Rightarrow> None)"

definition json_str :: "json \<Rightarrow> string option" where
  "json_str v = (case v of JStr s \<Rightarrow> Some s | _ \<Rightarrow> None)"

definition json_array :: "json \<Rightarrow> json list option" where
  "json_array v = (case v of JArr xs \<Rightarrow> Some xs | _ \<Rightarrow> None)"

definition json_bool :: "json \<Rightarrow> bool option" where
  "json_bool v = (case v of JBool b \<Rightarrow> Some b | _ \<Rightarrow> None)"

definition json_u64 :: "json \<Rightarrow> nat option" where
  "json_u64 v = (case v of JInt i \<Rightarrow> if 0 \<le> i \<and> i < int u64_lim then Some (nat i) else None | _ \<Rightarrow> None)"

definition get_str :: "string \<Rightarrow> json \<Rightarrow> string option" where
  "get_str k v = Option.bind (json_get k v) json_str"

definition get_array :: "string \<Rightarrow> json \<Rightarrow> json list option" where
  "get_array k v = Option.bind (json_get k v) json_array"

definition get_bool :: "string \<Rightarrow> json \<Rightarrow> bool" where
  "get_bool k v = (Option.bind (json_get k v) json_bool = Some True)"

section \<open>External code\<close>

text \<open>'e is a log entry of the didwebvh_rs crate together with its validated parameters, 'p a
  collection of witness proofs, 'k a parsed key event log of the KERI crate.\<close>

record ('e, 'p, 'k) log_lib =
  json_parse :: "string \<Rightarrow> json option"
  json_show :: "json \<Rightarrow> string"
  agent_parse :: "string \<Rightarrow> (string \<times> string) option"
  entry_parse :: "string \<Rightarrow> nat option \<Rightarrow> 'e option"
  entry_spec :: "'e \<Rightarrow> nat"
  entry_number :: "'e \<Rightarrow> nat option"
  entry_id :: "'e \<Rightarrow> string"
  entry_verify :: "'e option \<Rightarrow> 'e \<Rightarrow> 'e option"
  entry_witnesses :: "'e \<Rightarrow> string list option"
  entry_deactivates :: "'e \<Rightarrow> bool"
  entry_scid :: "'e \<Rightarrow> string option"
  entry_show :: "'e \<Rightarrow> string option"
  proofs_parse :: "string \<Rightarrow> 'p option"
  proofs_none :: "'p"
  proofs_state :: "nat \<Rightarrow> 'p \<Rightarrow> bool \<times> 'p"
  proofs_meet :: "'p \<Rightarrow> nat \<Rightarrow> 'e \<Rightarrow> bool"
  proof_method :: "json \<Rightarrow> string option"
  proof_ok :: "'e \<Rightarrow> json \<Rightarrow> bool"
  witness_key :: "string \<Rightarrow> string"
  chain_validate :: "'p option \<Rightarrow> 'e list \<Rightarrow> ('e list \<times> bool) option"
  entry_threshold :: "'e \<Rightarrow> nat option"
  kels_parse :: "string \<Rightarrow> 'k option"
  kels_inception :: "'k \<Rightarrow> bool"
  kels_state :: "'k \<Rightarrow> string \<Rightarrow> (string \<times> nat) option"
  webs_aid :: "string \<Rightarrow> string option"
  webs_document :: "string \<Rightarrow> string \<Rightarrow> json option"

section \<open>Log lines and structural validation (did_ops.rs)\<close>

definition MAX_LOG_ENTRIES :: nat where
  "MAX_LOG_ENTRIES = 10000"

definition nonblank_lines :: "string \<Rightarrow> string list" where
  "nonblank_lines s = filter (\<lambda>l. trim l \<noteq> []) (str_lines s)"

definition last_line :: "string \<Rightarrow> string option" where
  "last_line s = (let ls = nonblank_lines s in if ls = [] then None else Some (last ls))"

definition last_state :: "('e, 'p, 'k) log_lib \<Rightarrow> string \<Rightarrow> json option" where
  "last_state lib s = Option.bind (last_line s) (\<lambda>l. Option.bind (json_parse lib l) (json_get ''state''))"

definition extract_did_id :: "('e, 'p, 'k) log_lib \<Rightarrow> string \<Rightarrow> string option" where
  "extract_did_id lib s = (case Option.bind (last_state lib s) (get_str ''id'') of
     Some i \<Rightarrow> if prefix ''did:webvh:'' i then Some i else None
   | None \<Rightarrow> None)"

definition validate_did_jsonl :: "('e, 'p, 'k) log_lib \<Rightarrow> string \<Rightarrow> bool" where
  "validate_did_jsonl lib content \<longleftrightarrow>
     content \<noteq> [] \<and> nonblank_lines content \<noteq> []
     \<and> length (nonblank_lines content) \<le> MAX_LOG_ENTRIES
     \<and> list_all (\<lambda>l. entry_parse lib (trim l) None \<noteq> None) (nonblank_lines content)
     \<and> (case extract_did_id lib content of Some i \<Rightarrow> prefix ''did:webvh:'' i | None \<Rightarrow> False)"

section \<open>The chain check (parse_and_verify_chain)\<close>

text \<open>The entries are parsed in order, each under the version of its predecessor, then verified
  in order, each against its verified predecessor.\<close>

fun parse_entries :: "('e, 'p, 'k) log_lib \<Rightarrow> nat option \<Rightarrow> string list \<Rightarrow> 'e list option" where
  "parse_entries lib v [] = Some []"
| "parse_entries lib v (l # ls) = (case entry_parse lib (trim l) v of
     None \<Rightarrow> None
   | Some e \<Rightarrow> if entry_number lib e = None then None
       else map_option (\<lambda>es. e # es) (parse_entries lib (Some (entry_spec lib e)) ls))"

fun verify_entries :: "('e, 'p, 'k) log_lib \<Rightarrow> 'e option \<Rightarrow> 'e list \<Rightarrow> 'e list option" where
  "verify_entries lib prev [] = Some []"
| "verify_entries lib prev (e # es) = (case entry_verify lib prev e of
     None \<Rightarrow> None
   | Some e' \<Rightarrow> map_option (\<lambda>r. e' # r) (verify_entries lib (Some e') es))"

definition parse_and_verify_chain :: "('e, 'p, 'k) log_lib \<Rightarrow> string \<Rightarrow> 'e list option" where
  "parse_and_verify_chain lib content =
    (if \<not> validate_did_jsonl lib content then None
     else Option.bind (parse_entries lib None (nonblank_lines content)) (verify_entries lib None))"

text \<open>The number of an entry that was parsed; parsing required it to be present.\<close>

definition number_of :: "('e, 'p, 'k) log_lib \<Rightarrow> 'e \<Rightarrow> nat" where
  "number_of lib e = (case entry_number lib e of Some n \<Rightarrow> n | None \<Rightarrow> 0)"

definition witnessed :: "('e, 'p, 'k) log_lib \<Rightarrow> 'e \<Rightarrow> bool" where
  "witnessed lib e \<longleftrightarrow> entry_witnesses lib e \<noteq> None"

definition witness_text :: "string option \<Rightarrow> string option" where
  "witness_text w = (case w of Some s \<Rightarrow> if trim s = [] then None else Some s | None \<Rightarrow> None)"

definition verify_did_log_for_publish ::
  "('e, 'p, 'k) log_lib \<Rightarrow> string \<Rightarrow> string option \<Rightarrow> nat \<Rightarrow> bool" where
  "verify_did_log_for_publish lib content wtext previously = (case parse_and_verify_chain lib content of
     None \<Rightarrow> False
   | Some es \<Rightarrow>
       let n = min previously (length es); old = take n es
       in if n = 0 \<or> \<not> list_ex (witnessed lib) old then True
          else let highest = number_of lib (last old)
          in (case (case witness_text wtext of
                Some raw \<Rightarrow> proofs_parse lib raw | None \<Rightarrow> Some (proofs_none lib)) of
              None \<Rightarrow> False
            | Some ps \<Rightarrow> (case proofs_state lib highest ps of
                (fine, ps') \<Rightarrow> fine \<and> list_all (proofs_meet lib ps' highest) old)))"

definition verify_witness_proof_for_version ::
  "('e, 'p, 'k) log_lib \<Rightarrow> string \<Rightarrow> string \<Rightarrow> json \<Rightarrow> bool" where
  "verify_witness_proof_for_version lib content version_id proof = (case proof_method lib proof of
     None \<Rightarrow> False
   | Some vm \<Rightarrow> (case parse_and_verify_chain lib content of
       None \<Rightarrow> False
     | Some vs \<Rightarrow> (case find (\<lambda>e. entry_id lib e = version_id) vs of
         None \<Rightarrow> False
       | Some e \<Rightarrow> (case entry_witnesses lib e of
           None \<Rightarrow> False
         | Some ws \<Rightarrow> list_ex (\<lambda>w. witness_key lib w = vm) ws \<and> proof_ok lib e proof))))"

text \<open>The check of a node that serves a log it did not author (verify_did_log_chain): the crate
  validates all entries with the supplied proofs, and the result says whether the current
  parameters configure witnesses.\<close>

definition verify_did_log_chain :: "('e, 'p, 'k) log_lib \<Rightarrow> string \<Rightarrow> string option \<Rightarrow> bool option" where
  "verify_did_log_chain lib content wtext =
    (if \<not> validate_did_jsonl lib content then None
     else case parse_entries lib None (nonblank_lines content) of
       None \<Rightarrow> None
     | Some es \<Rightarrow>
         (case (case witness_text wtext of
               Some raw \<Rightarrow> map_option Some (proofs_parse lib raw) | None \<Rightarrow> Some None) of
            None \<Rightarrow> None
          | Some ps \<Rightarrow> (case chain_validate lib ps es of
              Some (vs, True) \<Rightarrow> Some (vs \<noteq> [] \<and>
                (case entry_threshold lib (last vs) of Some t \<Rightarrow> 0 < t | None \<Rightarrow> False))
            | _ \<Rightarrow> None)))"

definition verify_did_log_proofs :: "('e, 'p, 'k) log_lib \<Rightarrow> string \<Rightarrow> bool" where
  "verify_did_log_proofs lib content \<longleftrightarrow> verify_did_log_chain lib content None \<noteq> None"

definition verify_did_log_and_witness_proofs ::
  "('e, 'p, 'k) log_lib \<Rightarrow> string \<Rightarrow> string option \<Rightarrow> bool" where
  "verify_did_log_and_witness_proofs lib content wtext = (case verify_did_log_chain lib content wtext of
     None \<Rightarrow> False
   | Some w \<Rightarrow> \<not> (w \<and> witness_text wtext = None))"

section \<open>What may be served (servable_did_log)\<close>

text \<open>Inl: an entry failed to verify before a witness check stopped the walk. Inr: the entries
  before the first one whose witness threshold is not met.\<close>

fun servable_walk ::
  "('e, 'p, 'k) log_lib \<Rightarrow> 'p \<Rightarrow> nat \<Rightarrow> 'e option \<Rightarrow> 'e list \<Rightarrow> unit + 'e list" where
  "servable_walk lib ps highest prev [] = Inr []"
| "servable_walk lib ps highest prev (e # es) = (case entry_verify lib prev e of
     None \<Rightarrow> Inl ()
   | Some e' \<Rightarrow>
       if witnessed lib e' \<and> \<not> proofs_meet lib ps highest e' then Inr []
       else and_then (servable_walk lib ps highest (Some e') es) (\<lambda>r. Inr (e' # r)))"

definition served_proofs :: "('e, 'p, 'k) log_lib \<Rightarrow> string option \<Rightarrow> nat \<Rightarrow> 'p" where
  "served_proofs lib wtext highest = snd (proofs_state lib highest
     (case Option.bind (witness_text wtext) (proofs_parse lib) of Some ps \<Rightarrow> ps | None \<Rightarrow> proofs_none lib))"

definition servable_did_log :: "('e, 'p, 'k) log_lib \<Rightarrow> string \<Rightarrow> string option \<Rightarrow> string option" where
  "servable_did_log lib content wtext =
    (if \<not> validate_did_jsonl lib content then Some content
     else case parse_entries lib None (nonblank_lines content) of
       None \<Rightarrow> Some content
     | Some es \<Rightarrow>
         if es = [] then Some content
         else let highest = number_of lib (last es)
         in (case servable_walk lib (served_proofs lib wtext highest) highest None es of
             Inl _ \<Rightarrow> Some content
           | Inr served \<Rightarrow>
               if length served = length es then Some content
               else if served = [] then None
               else Some (join_with [CHR 0x0A] (List.map_filter (entry_show lib) served))))"

section \<open>Witnessing (verify_log_for_witnessing)\<close>

datatype witness_log_refusal = InvalidLog_refusal | VersionNotLast string | Deactivated | NotListed

record witnessed_log =
  wl_scid :: string
  wl_version_ids :: "string list"

definition position :: "('a \<Rightarrow> bool) \<Rightarrow> 'a list \<Rightarrow> nat option" where
  "position P xs = (if list_ex P xs then Some (length (takeWhile (\<lambda>x. \<not> P x) xs)) else None)"

definition names_witness :: "('e, 'p, 'k) log_lib \<Rightarrow> string \<Rightarrow> 'e \<Rightarrow> bool" where
  "names_witness lib did e = (case entry_witnesses lib e of
     None \<Rightarrow> False
   | Some ws \<Rightarrow> list_ex (\<lambda>w. w = did \<or> ''did:key:'' @ w = did) ws)"

definition verify_log_for_witnessing ::
  "('e, 'p, 'k) log_lib \<Rightarrow> string \<Rightarrow> string \<Rightarrow> string \<Rightarrow> witness_log_refusal + witnessed_log" where
  "verify_log_for_witnessing lib content version_id did =
    (if \<not> validate_did_jsonl lib content then Inl InvalidLog_refusal
     else case parse_entries lib None (nonblank_lines content) of
       None \<Rightarrow> Inl InvalidLog_refusal
     | Some es \<Rightarrow>
         let deact = position (entry_deactivates lib) es;
             through = (case deact of Some d \<Rightarrow> d + 1 | None \<Rightarrow> length es)
         in (case verify_entries lib None (take through es) of
             None \<Rightarrow> Inl InvalidLog_refusal
           | Some vs \<Rightarrow>
               let all_es = vs @ drop through es
               in if all_es = [] then Inl InvalidLog_refusal
                  else if entry_id lib (last all_es) \<noteq> version_id
                  then Inl (VersionNotLast (entry_id lib (last all_es)))
                  else if (case deact of Some d \<Rightarrow> d < length es - 1 | None \<Rightarrow> False) then Inl Deactivated
                  else if \<not> names_witness lib did (last all_es) then Inl NotListed
                  else (case entry_scid lib (last all_es) of
                      None \<Rightarrow> Inl InvalidLog_refusal
                    | Some s \<Rightarrow> Inr \<lparr>wl_scid = s, wl_version_ids = map (entry_id lib) all_es\<rparr>)))"

section \<open>Append-only histories (verify_log_extends)\<close>

definition log_entries :: "string \<Rightarrow> string list" where
  "log_entries s = filter (\<lambda>l. l \<noteq> []) (map trim (str_lines s))"

definition line_deactivates :: "(string \<Rightarrow> json option) \<Rightarrow> string \<Rightarrow> bool" where
  "line_deactivates parse l =
    (case Option.bind (parse l) (json_get ''parameters'') of
       Some ps \<Rightarrow> get_bool ''deactivated'' ps
     | None \<Rightarrow> False)"

definition verify_log_extends :: "(string \<Rightarrow> json option) \<Rightarrow> string option \<Rightarrow> string \<Rightarrow> bool" where
  "verify_log_extends parse previous new_log = (case previous of
     None \<Rightarrow> True
   | Some p \<Rightarrow>
       let old = log_entries p; fresh = log_entries new_log
       in if length fresh < length old \<or> take (length old) fresh \<noteq> old then False
          else \<not> (list_ex (line_deactivates parse) old \<and> length fresh \<noteq> length old))"

section \<open>Reading a stored log (extract_log_metadata, parse_log_entries, extract_did_web_document)\<close>

record log_metadata =
  lm_log_entry_count :: nat
  lm_latest_version_id :: "string option"
  lm_latest_version_time :: "string option"
  lm_method :: "string option"
  lm_portable :: bool
  lm_pre_rotation :: bool
  lm_deactivated :: bool
  lm_ttl :: "nat option"
  lm_witnesses :: bool
  lm_witness_count :: nat
  lm_witness_threshold :: nat
  lm_watchers :: bool
  lm_watcher_count :: nat
  lm_watcher_urls :: "string list"

definition no_metadata :: "nat \<Rightarrow> log_metadata" where
  "no_metadata n = \<lparr>lm_log_entry_count = n, lm_latest_version_id = None, lm_latest_version_time = None,
     lm_method = None, lm_portable = False, lm_pre_rotation = False, lm_deactivated = False,
     lm_ttl = None, lm_witnesses = False, lm_witness_count = 0, lm_witness_threshold = 0,
     lm_watchers = False, lm_watcher_count = 0, lm_watcher_urls = []\<rparr>"

definition as_u32 :: "nat \<Rightarrow> nat" where
  "as_u32 n = n mod 2 ^ 32"

definition add_witness_metadata :: "json \<Rightarrow> log_metadata \<Rightarrow> log_metadata" where
  "add_witness_metadata params m = (case json_get ''witness'' params of
     None \<Rightarrow> m
   | Some w \<Rightarrow>
       let threshold = (case Option.bind (json_get ''threshold'' w) json_u64 of Some t \<Rightarrow> as_u32 t | None \<Rightarrow> 0);
           n = (case get_array ''witnesses'' w of Some a \<Rightarrow> as_u32 (length a) | None \<Rightarrow> 0)
       in if 0 < n
          then m\<lparr>lm_witnesses := True, lm_witness_count := n, lm_witness_threshold := threshold\<rparr> else m)"

definition add_watcher_metadata :: "json \<Rightarrow> log_metadata \<Rightarrow> log_metadata" where
  "add_watcher_metadata params m = (case get_array ''watchers'' params of
     Some arr \<Rightarrow> if arr = [] then m else m\<lparr>lm_watchers := True,
       lm_watcher_count := as_u32 (length arr), lm_watcher_urls := List.map_filter json_str arr\<rparr>
   | None \<Rightarrow> m)"

definition extract_log_metadata :: "(string \<Rightarrow> json option) \<Rightarrow> string \<Rightarrow> log_metadata" where
  "extract_log_metadata parse s =
    (let ls = str_lines s; m = no_metadata (length ls)
     in if ls = [] then m
        else case parse (last ls) of
          None \<Rightarrow> m
        | Some e \<Rightarrow>
            let m1 = m\<lparr>lm_latest_version_id := get_str ''versionId'' e,
                  lm_latest_version_time := get_str ''versionTime'' e\<rparr>
            in (case json_get ''parameters'' e of
                None \<Rightarrow> m1
              | Some ps \<Rightarrow> add_watcher_metadata ps (add_witness_metadata ps (m1
                  \<lparr>lm_method := get_str ''method'' ps, lm_portable := get_bool ''portable'' ps,
                   lm_pre_rotation := (case get_array ''nextKeyHashes'' ps of Some a \<Rightarrow> a \<noteq> [] | None \<Rightarrow> False),
                   lm_deactivated := get_bool ''deactivated'' ps,
                   lm_ttl := map_option as_u32 (Option.bind (json_get ''ttl'' ps) json_u64)\<rparr>))))"

record log_entry_info =
  li_version_id :: "string option"
  li_version_time :: "string option"
  li_state :: "json option"
  li_parameters :: "json option"

definition parse_log_entries :: "(string \<Rightarrow> json option) \<Rightarrow> string \<Rightarrow> log_entry_info list" where
  "parse_log_entries parse s = List.map_filter (\<lambda>l. map_option (\<lambda>v.
      \<lparr>li_version_id = get_str ''versionId'' v, li_version_time = get_str ''versionTime'' v,
       li_state = json_get ''state'' v, li_parameters = json_get ''parameters'' v\<rparr>) (parse l))
     (nonblank_lines s)"

text \<open>str::replace of a non-empty pattern: the non-overlapping occurrences from the left.\<close>

function replace_str :: "string \<Rightarrow> string \<Rightarrow> string \<Rightarrow> string" where
  "replace_str a b s =
    (if a = [] \<or> s = [] then s
     else if prefix a s then b @ replace_str a b (drop (length a) s)
     else hd s # replace_str a b (tl s))"
  by pat_completeness auto
termination
  by (relation "measure (\<lambda>(a, b, s). length s)") (auto simp: prefix_def)

declare replace_str.simps [simp del]

definition extract_did_web_document ::
  "(string \<Rightarrow> json option) \<Rightarrow> (json \<Rightarrow> string) \<Rightarrow> string \<Rightarrow> string \<Rightarrow> string option" where
  "extract_did_web_document parse show_json s expected =
    (let ls = str_lines s in
     if ls = [] then None
     else case Option.bind (parse (last ls)) (json_get ''state'') of
       None \<Rightarrow> None
     | Some state \<Rightarrow> (case get_str ''id'' state of
           None \<Rightarrow> None
         | Some webvh_id \<Rightarrow>
             if \<not> prefix ''did:webvh:'' webvh_id then None
             else (case get_array ''alsoKnownAs'' state of
                 None \<Rightarrow> None
               | Some names \<Rightarrow>
                   if list_ex (\<lambda>v. json_str v = Some expected) names
                   then Some (replace_str webvh_id expected (show_json state)) else None)))"

section \<open>Documents (service_types_from_doc, agent_names_from_document)\<close>

definition push_new :: "string list \<Rightarrow> string \<Rightarrow> string list" where
  "push_new out t = (if t = [] \<or> t \<in> set out then out else out @ [t])"

definition is_implicit_webvh_service :: "string \<Rightarrow> bool" where
  "is_implicit_webvh_service i \<longleftrightarrow> suffix ''#whois'' i \<or> suffix ''#files'' i"

definition service_types_of :: "json \<Rightarrow> string list" where
  "service_types_of svc =
    (if is_implicit_webvh_service (case get_str ''id'' svc of Some i \<Rightarrow> i | None \<Rightarrow> []) then []
     else case json_get ''type'' svc of
       Some (JStr t) \<Rightarrow> [t]
     | Some (JArr ts) \<Rightarrow> List.map_filter json_str ts
     | _ \<Rightarrow> [])"

definition service_types_from_doc :: "json \<Rightarrow> string list" where
  "service_types_from_doc doc = (case get_array ''service'' doc of
     None \<Rightarrow> []
   | Some svcs \<Rightarrow> foldl push_new [] (concat (map service_types_of svcs)))"

definition agent_names_from_document ::
  "(string \<Rightarrow> (string \<times> string) option) \<Rightarrow> json \<Rightarrow> string \<Rightarrow> string list" where
  "agent_names_from_document parse_name doc domain = (case get_array ''alsoKnownAs'' doc of
     None \<Rightarrow> []
   | Some es \<Rightarrow> foldl (\<lambda>names e. case parse_name e of
         None \<Rightarrow> names
       | Some (authority, local_name) \<Rightarrow>
           if authority \<noteq> domain \<or> local_name \<in> set names then names else names @ [local_name])
       [] (List.map_filter json_str es))"

section \<open>did:webs streams (method/webs.rs)\<close>

definition webs_validate :: "('e, 'p, 'k) log_lib \<Rightarrow> string \<Rightarrow> bool" where
  "webs_validate lib bytes \<longleftrightarrow> \<not> list_all is_ascii_whitespace bytes
     \<and> (case kels_parse lib bytes of Some ks \<Rightarrow> kels_inception lib ks | None \<Rightarrow> False)"

definition webs_verify_artifacts :: "('e, 'p, 'k) log_lib \<Rightarrow> string \<Rightarrow> string \<Rightarrow> method_error + json" where
  "webs_verify_artifacts lib did bytes = (case webs_aid lib did of
     None \<Rightarrow> Inl Malformed
   | Some _ \<Rightarrow> ok_or MethodValidation (webs_document lib did bytes))"

definition webs_verify_continuation ::
  "('e, 'p, 'k) log_lib \<Rightarrow> string \<Rightarrow> string \<Rightarrow> string \<Rightarrow> method_error + unit" where
  "webs_verify_continuation lib did existing fresh = (case webs_aid lib did of
     None \<Rightarrow> Inl Malformed
   | Some aid \<Rightarrow>
       (case Option.bind (kels_parse lib existing) (\<lambda>ks. kels_state lib ks aid) of
          None \<Rightarrow> Inr ()
        | Some (old_prefix, old_sn) \<Rightarrow>
            (case Option.bind (kels_parse lib fresh) (\<lambda>ks. kels_state lib ks aid) of
               None \<Rightarrow> Inl MethodValidation
             | Some (new_prefix, new_sn) \<Rightarrow>
                 if new_prefix \<noteq> old_prefix then Inl MethodValidation
                 else if new_sn < old_sn then Inl MethodValidation
                 else Inr ())))"

section \<open>Publications (method/mod.rs detect_method, method/publication.rs)\<close>

record publication =
  pub_method :: did_method
  pub_did :: "string option"
  pub_document :: "json option"
  pub_content :: string

definition utf8_text :: "string \<Rightarrow> bool" where
  "utf8_text bytes = utf8_valid (map of_char bytes)"

text \<open>String::from_utf8_lossy: every maximal ill-formed part becomes U+FFFD. The step returns
  whether the head of the bytes is a well-formed character and how many bytes it takes.\<close>

definition utf8_second_ok :: "nat \<Rightarrow> nat \<Rightarrow> bool" where
  "utf8_second_ok a b \<longleftrightarrow> cont_byte b \<and> (a = 224 \<longrightarrow> 160 \<le> b) \<and> (a = 237 \<longrightarrow> b \<le> 159)
     \<and> (a = 240 \<longrightarrow> 144 \<le> b) \<and> (a = 244 \<longrightarrow> b \<le> 143)"

definition utf8_step :: "nat list \<Rightarrow> bool \<times> nat" where
  "utf8_step bs = (case bs of
     [] \<Rightarrow> (True, 0)
   | a # r \<Rightarrow>
       if a < 128 then (True, 1)
       else if a < 194 \<or> 244 < a then (False, 1)
       else (case r of
           [] \<Rightarrow> (False, 1)
         | b # r1 \<Rightarrow>
             if \<not> utf8_second_ok a b then (False, 1)
             else if a < 224 then (True, 2)
             else (case r1 of
                 [] \<Rightarrow> (False, 2)
               | c # r2 \<Rightarrow>
                   if \<not> cont_byte c then (False, 2)
                   else if a < 240 then (True, 3)
                   else (case r2 of
                       [] \<Rightarrow> (False, 3)
                     | d # r3 \<Rightarrow> if cont_byte d then (True, 4) else (False, 3)))))"

lemma utf8_step_pos: "bs \<noteq> [] \<Longrightarrow> 0 < snd (utf8_step bs)"
  by (cases bs) (auto simp: utf8_step_def split: list.splits)

function utf8_lossy :: "string \<Rightarrow> string" where
  "utf8_lossy s =
    (if s = [] then []
     else let (fine, n) = utf8_step (map of_char s)
     in (if fine then take n s else [CHR 0xEF, CHR 0xBF, CHR 0xBD]) @ utf8_lossy (drop n s))"
  by pat_completeness auto
termination
proof (relation "measure length", goal_cases)
  case (2 s x fine n)
  then have "0 < n" using utf8_step_pos[of "map of_char s"] by (metis list.map_disc_iff snd_conv)
  then show ?case using 2(1) by (simp add: in_measure)
qed simp

declare utf8_lossy.simps [simp del]

definition detect_method :: "bool \<Rightarrow> ('e, 'p, 'k) log_lib \<Rightarrow> string \<Rightarrow> did_method option" where
  "detect_method webs_on lib bytes =
    (if utf8_text bytes \<and> (case nonblank_lines bytes of
          [] \<Rightarrow> False
        | l # _ \<Rightarrow> (case json_parse lib l of Some v \<Rightarrow> json_get ''versionId'' v \<noteq> None | None \<Rightarrow> False))
     then Some Webvh
     else if webs_on \<and> webs_validate lib bytes then Some Webs
     else if (case Option.bind (json_parse lib bytes) (get_str ''id'') of
          Some i \<Rightarrow> prefix ''did:web:'' i | None \<Rightarrow> False)
     then Some Web
     else None)"

definition verify_webvh ::
  "('e, 'p, 'k) log_lib \<Rightarrow> string \<Rightarrow> string option \<Rightarrow> string option
   \<Rightarrow> method_error + publication" where
  "verify_webvh lib content existing existing_witness =
    (let previously = (case existing of Some b \<Rightarrow> length (nonblank_lines (utf8_lossy b)) | None \<Rightarrow> 0)
     in if \<not> utf8_text content then Inl MethodValidation
        else if \<not> verify_did_log_for_publish lib content (map_option utf8_lossy existing_witness) previously
        then Inl MethodValidation
        else Inr \<lparr>pub_method = Webvh, pub_did = extract_did_id lib content,
                  pub_document = last_state lib content, pub_content = content\<rparr>)"

definition verify_web :: "('e, 'p, 'k) log_lib \<Rightarrow> string \<Rightarrow> method_error + publication" where
  "verify_web lib content =
    and_then (web_validate (\<lambda>b. Option.bind (json_parse lib b) (get_str ''id'')) content) (\<lambda>_.
      case json_parse lib content of
        None \<Rightarrow> Inl MethodValidation
      | Some doc \<Rightarrow> Inr \<lparr>pub_method = Web, pub_did = get_str ''id'' doc,
                        pub_document = Some doc, pub_content = content\<rparr>)"

definition replace_colon :: "string \<Rightarrow> string" where
  "replace_colon s = concat (map (\<lambda>c. if c = CHR '':'' then ''%3A'' else [c]) s)"

definition webs_did :: "string \<Rightarrow> string \<Rightarrow> string" where
  "webs_did domain mnemonic =
    ''did:webs:'' @ replace_colon domain @ '':'' @ replace_char (CHR ''/'') (CHR '':'') mnemonic"

definition verify_webs ::
  "('e, 'p, 'k) log_lib \<Rightarrow> string \<Rightarrow> string \<Rightarrow> string \<Rightarrow> string option \<Rightarrow> method_error + publication" where
  "verify_webs lib domain mnemonic content existing =
    (if domain = [] then Inl MethodValidation
     else let did = webs_did domain mnemonic
     in and_then (case existing of
           Some old \<Rightarrow> if old = [] then Inr () else webs_verify_continuation lib did old content
         | None \<Rightarrow> Inr ()) (\<lambda>_.
        and_then (webs_verify_artifacts lib did content) (\<lambda>doc.
        Inr \<lparr>pub_method = Webs, pub_did = Some did, pub_document = Some doc, pub_content = content\<rparr>)))"

definition verify_publication ::
  "bool \<Rightarrow> ('e, 'p, 'k) log_lib \<Rightarrow> string \<Rightarrow> string \<Rightarrow> string
   \<Rightarrow> string option \<Rightarrow> string option \<Rightarrow> method_error + publication" where
  "verify_publication webs_on lib domain mnemonic content existing existing_witness =
    (case detect_method webs_on lib content of
       None \<Rightarrow> Inl Malformed
     | Some Webvh \<Rightarrow> verify_webvh lib content existing existing_witness
     | Some Web \<Rightarrow> verify_web lib content
     | Some Webs \<Rightarrow> verify_webs lib domain mnemonic content existing)"

definition method_name :: "did_method \<Rightarrow> string" where
  "method_name m = (case m of Webvh \<Rightarrow> ''webvh'' | Web \<Rightarrow> ''web'' | Webs \<Rightarrow> ''webs'')"

definition publication_services :: "publication \<Rightarrow> string list option" where
  "publication_services p = map_option service_types_from_doc (pub_document p)"

definition publication_agent_names :: "('e, 'p, 'k) log_lib \<Rightarrow> publication \<Rightarrow> string \<Rightarrow> string list" where
  "publication_agent_names lib p domain = (case pub_document p of
     Some doc \<Rightarrow> agent_names_from_document (agent_parse lib) doc domain | None \<Rightarrow> [])"

section \<open>Lemmas\<close>

lemma utf8_step_valid:
  assumes "utf8_valid bs" "bs \<noteq> []"
  shows "fst (utf8_step bs) \<and> utf8_valid (drop (snd (utf8_step bs)) bs)"
proof -
  obtain a r where bs: "bs = a # r" using assms(2) by (cases bs) auto
  consider "a < 128" | "194 \<le> a" "a \<le> 223" | "224 \<le> a" "a \<le> 239" | "240 \<le> a" "a \<le> 244"
    | "128 \<le> a" "a < 194" | "244 < a" by linarith
  then show ?thesis
  proof cases
    case 1
    then show ?thesis using assms(1) by (cases r) (simp_all add: bs utf8_step_def)
  next
    case 2
    then obtain b r1 where r: "r = b # r1" using assms(1) by (cases r) (auto simp: bs)
    then have "cont_byte b" "utf8_valid r1" using assms(1) 2 by (simp_all add: bs)
    then show ?thesis using 2 by (simp add: bs r utf8_step_def utf8_second_ok_def)
  next
    case 3
    then obtain b r1 where r: "r = b # r1" using assms(1) by (cases r) (auto simp: bs)
    then obtain c r2 where r1: "r1 = c # r2" using assms(1) 3 by (cases r1) (auto simp: bs)
    then show ?thesis using assms(1) 3 by (simp add: bs r utf8_step_def utf8_second_ok_def)
  next
    case 4
    then obtain b r1 where r: "r = b # r1" using assms(1) by (cases r) (auto simp: bs)
    then obtain c r2 where r1: "r1 = c # r2" using assms(1) 4 by (cases r1) (auto simp: bs)
    then obtain d r3 where r2: "r2 = d # r3" using assms(1) 4 by (cases r2) (auto simp: bs r)
    then show ?thesis using assms(1) 4 by (simp add: bs r r1 utf8_step_def utf8_second_ok_def)
  next
    case 5
    then have False using assms(1) by (cases r; cases "tl r"; cases "tl (tl r)") (auto simp: bs)
    then show ?thesis ..
  next
    case 6
    then have False using assms(1) by (cases r; cases "tl r"; cases "tl (tl r)") (auto simp: bs)
    then show ?thesis ..
  qed
qed

lemma utf8_lossy_id: "utf8_text s \<Longrightarrow> utf8_lossy s = s"
proof (induction s rule: utf8_lossy.induct)
  case (1 s)
  show ?case
  proof (cases "s = []")
    case False
    obtain f n where u: "utf8_step (map of_char s) = (f, n)" by force
    have "f \<and> utf8_valid (drop n (map of_char s))"
      using utf8_step_valid[of "map of_char s"] 1(2) False u by (simp add: utf8_text_def)
    then have "utf8_lossy (drop n s) = drop n s" and f: f
      using 1(1)[OF False u[symmetric] refl] by (simp_all add: utf8_text_def drop_map)
    then show ?thesis using False u by (subst utf8_lossy.simps) simp
  qed (simp add: utf8_lossy.simps)
qed

lemma parse_entries_length: "parse_entries lib v ls = Some es \<Longrightarrow> length es = length ls"
  by (induction ls arbitrary: v es) (auto split: option.splits if_splits)

lemma verify_entries_length: "verify_entries lib prev es = Some vs \<Longrightarrow> length vs = length es"
  by (induction es arbitrary: prev vs) (auto split: option.splits)

lemma verify_entries_take:
  "verify_entries lib prev es = Some vs \<Longrightarrow> verify_entries lib prev (take n es) = Some (take n vs)"
proof (induction es arbitrary: prev vs n)
  case (Cons e es)
  then show ?case by (cases n) (auto split: option.splits)
qed simp

lemma servable_walk_verified:
  "verify_entries lib prev es = Some vs \<Longrightarrow>
    servable_walk lib ps h prev es = Inr (takeWhile (\<lambda>e. witnessed lib e \<longrightarrow> proofs_meet lib ps h e) vs)"
  by (induction es arbitrary: prev vs) (auto split: option.splits)

lemma chain_parts:
  assumes "parse_and_verify_chain lib content = Some vs"
  shows "validate_did_jsonl lib content"
    "\<exists>es. parse_entries lib None (nonblank_lines content) = Some es \<and> verify_entries lib None es = Some vs"
    "length vs = length (nonblank_lines content)" "vs \<noteq> []"
  using assms
  by (auto simp: parse_and_verify_chain_def validate_did_jsonl_def Option.bind_eq_Some_conv
      dest!: parse_entries_length verify_entries_length split: if_splits)

lemma foldl_push_names:
  "set (foldl (\<lambda>names e. case f e of None \<Rightarrow> names
       | Some (a, l) \<Rightarrow> if a \<noteq> d \<or> l \<in> set names then names else names @ [l]) acc es)
     = set acc \<union> {l. \<exists>e \<in> set es. f e = Some (d, l)}
   \<and> (distinct acc \<longrightarrow> distinct (foldl (\<lambda>names e. case f e of None \<Rightarrow> names
       | Some (a, l) \<Rightarrow> if a \<noteq> d \<or> l \<in> set names then names else names @ [l]) acc es))"
proof (induction es arbitrary: acc)
  case (Cons e es)
  show ?case
  proof (cases "f e")
    case None
    then show ?thesis using Cons[of acc] by auto
  next
    case (Some p)
    then obtain a l where p: "f e = Some (a, l)" by (cases p) auto
    then show ?thesis using Cons[of acc] Cons[of "acc @ [l]"] by auto
  qed
qed simp

lemma extends_step:
  assumes "verify_log_extends parse (Some p) q"
  shows "prefix (log_entries p) (log_entries q)"
    "list_ex (line_deactivates parse) (log_entries p) \<Longrightarrow> log_entries q = log_entries p"
proof -
  have t: "take (length (log_entries p)) (log_entries q) = log_entries p"
    "length (log_entries p) \<le> length (log_entries q)"
    "list_ex (line_deactivates parse) (log_entries p) \<Longrightarrow> length (log_entries q) = length (log_entries p)"
    using assms by (auto simp: verify_log_extends_def Let_def split: if_splits)
  show "prefix (log_entries p) (log_entries q)" using t(1) by (metis take_is_prefix)
  show "list_ex (line_deactivates parse) (log_entries p) \<Longrightarrow> log_entries q = log_entries p"
    using t by simp
qed

text \<open>A sequence of logs, each accepted as the successor of the one before.\<close>

fun accepted_history :: "(string \<Rightarrow> json option) \<Rightarrow> string list \<Rightarrow> bool" where
  "accepted_history parse (p # q # rest) \<longleftrightarrow>
     verify_log_extends parse (Some p) q \<and> accepted_history parse (q # rest)"
| "accepted_history parse ps = True"

lemma accepted_history_drop: "accepted_history parse ps \<Longrightarrow> accepted_history parse (drop n ps)"
proof (induction n arbitrary: ps)
  case (Suc n)
  then show ?case by (cases ps; cases "tl ps") auto
qed simp

lemma accepted_history_first:
  assumes "accepted_history parse (p # ps)" "q \<in> set (p # ps)"
  shows "prefix (log_entries p) (log_entries q)
    \<and> (list_ex (line_deactivates parse) (log_entries p) \<longrightarrow> log_entries q = log_entries p)"
  using assms
proof (induction ps arbitrary: p)
  case (Cons r rs)
  have s: "verify_log_extends parse (Some p) r" and h: "accepted_history parse (r # rs)"
    using Cons.prems(1) by auto
  show ?case
  proof (cases "q = p")
    case False
    then have i: "prefix (log_entries r) (log_entries q)
        \<and> (list_ex (line_deactivates parse) (log_entries r) \<longrightarrow> log_entries q = log_entries r)"
      using Cons.IH[OF h] Cons.prems(2) by auto
    then show ?thesis using extends_step[OF s] prefix_order.trans by metis
  qed simp
qed simp

section \<open>Properties\<close>

text \<open>A small log library for the examples: an entry is its line, it names a witness when it
  starts with w and deactivates when it starts with d, and a proof file attests lines up to its
  own length.\<close>

definition sample_lib :: "(string, nat, string \<times> nat) log_lib" where
  "sample_lib = \<lparr>
     json_parse = (\<lambda>s. Some (JObj [(''versionId'', JStr s),
        (''state'', JObj [(''id'', JStr ''did:webvh:q:a.org:p''), (''alsoKnownAs'', JArr [JStr s])]),
        (''parameters'', JObj [(''deactivated'', JBool (take 1 s = ''d''))])])),
     json_show = (\<lambda>_. ''{}''),
     agent_parse = (\<lambda>s. if 2 \<le> length s then Some (''a.org'', s) else None),
     entry_parse = (\<lambda>l v. Some l), entry_spec = (\<lambda>_. 1), entry_number = (\<lambda>e. Some (length e)),
     entry_id = id, entry_verify = (\<lambda>_ e. Some e),
     entry_witnesses = (\<lambda>e. if take 1 e = ''w'' then Some [''k''] else None),
     entry_deactivates = (\<lambda>e. take 1 e = ''d''), entry_scid = (\<lambda>_. Some ''q''), entry_show = Some,
     proofs_parse = (\<lambda>s. Some (length s)), proofs_none = 0, proofs_state = (\<lambda>_ n. (True, n)),
     proofs_meet = (\<lambda>n _ e. length e \<le> n),
     proof_method = json_str, proof_ok = (\<lambda>_ _. True), witness_key = (\<lambda>w. ''did:key:'' @ w),
     chain_validate = (\<lambda>_ es. Some (es, True)),
     entry_threshold = (\<lambda>e. if take 1 e = ''w'' then Some 1 else None),
     kels_parse = (\<lambda>s. Some (s, length s)), kels_inception = (\<lambda>_. True),
     kels_state = (\<lambda>k aid. Some (aid, snd k)), webs_aid = Some, webs_document = (\<lambda>_ _. Some JNull)\<rparr>"

definition two_line_log :: string where
  "two_line_log = ''w1'' @ [CHR 0x0A] @ ''w22''"

text \<open>In any sequence of logs that each passed the history check against the one before, the
  entries of an earlier log are a prefix of those of every later log, and once a log contains a
  deactivation no later log differs from it.\<close>

theorem hosted_log_only_grows:
  assumes "accepted_history parse ps" "i \<le> j" "j < length ps"
  shows "prefix (log_entries (ps ! i)) (log_entries (ps ! j))
    \<and> (list_ex (line_deactivates parse) (log_entries (ps ! i)) \<longrightarrow>
         log_entries (ps ! j) = log_entries (ps ! i))"
proof -
  have "drop i ps = ps ! i # drop (Suc i) ps" using assms(2,3) by (simp add: Cons_nth_drop_Suc)
  moreover have "ps ! j \<in> set (drop i ps)"
    using nth_mem[of "j - i" "drop i ps"] assms(2,3) by simp
  ultimately show ?thesis
    using accepted_history_first accepted_history_drop[OF assms(1), of i] by metis
qed

theorem hosted_log_only_grows_witness:
  "prefix (log_entries ''w1'') (log_entries two_line_log)"
proof -
  have "accepted_history (json_parse sample_lib) [''w1'', two_line_log]" by code_simp
  from hosted_log_only_grows[OF this, of 0 1] show ?thesis by simp
qed

text \<open>An accepted publication stores the submitted bytes unchanged, is tagged with the method
  that its bytes were recognised as, and always names an identifier of exactly that method, so
  no record can be tagged with a method other than its content's.\<close>

theorem publication_identified:
  assumes "verify_publication webs_on lib d m content existing w = Inr p"
  shows "pub_content p = content \<and> detect_method webs_on lib content = Some (pub_method p)
    \<and> (\<exists>i. pub_did p = Some i \<and> prefix (''did:'' @ method_name (pub_method p) @ '':'') i)"
proof (cases "detect_method webs_on lib content")
  case (Some k)
  show ?thesis
  proof (cases k)
    case Webvh
    then have v: "verify_webvh lib content existing w = Inr p"
      using assms Some by (simp add: verify_publication_def)
    then have "parse_and_verify_chain lib content \<noteq> None"
      by (auto simp: verify_webvh_def verify_did_log_for_publish_def Let_def split: if_splits option.splits)
    then have "validate_did_jsonl lib content" using chain_parts(1) by fastforce
    then show ?thesis using v Some Webvh
      by (auto simp: verify_webvh_def Let_def method_name_def validate_did_jsonl_def
          split: if_splits option.splits)
  next
    case Web
    then show ?thesis using assms Some
      by (auto simp: verify_publication_def verify_web_def web_validate_def res_simps method_name_def
          split: if_splits option.splits)
  next
    case Webs
    then show ?thesis using assms Some
      by (auto simp: verify_publication_def verify_webs_def webs_did_def Let_def res_simps method_name_def
          split: if_splits option.splits)
  qed
qed (use assms in \<open>simp add: verify_publication_def\<close>)

theorem publication_identified_witness:
  "map_option pub_method (case verify_publication False sample_lib ''a.org'' ''p'' two_line_log None None of
      Inr p \<Rightarrow> Some p | Inl _ \<Rightarrow> None) = detect_method False sample_lib two_line_log"
proof -
  have "\<exists>p. verify_publication False sample_lib ''a.org'' ''p'' two_line_log None None = Inr p"
    unfolding is_ok_iff[symmetric] by code_simp
  then obtain p where p: "verify_publication False sample_lib ''a.org'' ''p'' two_line_log None None = Inr p" ..
  show ?thesis using publication_identified[OF p] by (simp add: p)
qed

text \<open>C8: Accepting a did:webvh log for publication means that its whole chain verifies and that
  every entry which the stored log already covers and which configures witnesses meets its
  threshold with the stored proof file; the entries that the call adds are exempt.\<close>

theorem publish_enforces_witness_threshold:
  assumes "verify_webvh lib content existing w = Inr p"
  shows "\<exists>vs. parse_and_verify_chain lib content = Some vs \<and>
    (let n = min (case existing of Some b \<Rightarrow> length (nonblank_lines (utf8_lossy b)) | None \<Rightarrow> 0) (length vs);
         h = number_of lib (last (take n vs))
     in \<forall>i < n. witnessed lib (vs ! i) \<longrightarrow>
          proofs_meet lib (served_proofs lib (map_option utf8_lossy w) h) h (vs ! i))"
proof -
  let ?k = "case existing of Some b \<Rightarrow> length (nonblank_lines (utf8_lossy b)) | None \<Rightarrow> 0"
  have v: "verify_did_log_for_publish lib content (map_option utf8_lossy w) ?k"
    using assms by (auto simp: verify_webvh_def Let_def split: if_splits)
  then obtain vs where vs: "parse_and_verify_chain lib content = Some vs"
    by (auto simp: verify_did_log_for_publish_def split: option.splits)
  define n where "n = min ?k (length vs)"
  define h where "h = number_of lib (last (take n vs))"
  have "proofs_meet lib (served_proofs lib (map_option utf8_lossy w) h) h (vs ! i)"
    if i: "i < n" "witnessed lib (vs ! i)" for i
  proof -
    have m: "vs ! i \<in> set (take n vs)" using i(1) by (auto simp: n_def in_set_conv_nth)
    then have "list_ex (witnessed lib) (take n vs)" using i(2) by (auto simp: list_ex_iff)
    then have "list_all (proofs_meet lib (served_proofs lib (map_option utf8_lossy w) h) h) (take n vs)"
      using v vs i(1)
      by (auto simp: verify_did_log_for_publish_def served_proofs_def Let_def n_def h_def
          split: option.splits prod.splits if_splits)
    then show ?thesis using m by (auto simp: list_all_iff)
  qed
  then show ?thesis using vs unfolding Let_def n_def h_def by blast
qed

theorem publish_enforces_witness_threshold_witness:
  "proofs_meet sample_lib (served_proofs sample_lib (Some ''12'') 2) 2 ''w1''
   \<and> \<not> proofs_meet sample_lib (served_proofs sample_lib (Some ''12'') 2) 2 ''w22''"
proof -
  have "\<exists>p. verify_webvh sample_lib two_line_log (Some ''w1'') (Some ''12'') = Inr p"
    unfolding is_ok_iff[symmetric] by code_simp
  then obtain p where p: "verify_webvh sample_lib two_line_log (Some ''w1'') (Some ''12'') = Inr p" ..
  have c: "parse_and_verify_chain sample_lib two_line_log = Some [''w1'', ''w22'']"
    "length (nonblank_lines (utf8_lossy ''w1'')) = 1" "number_of sample_lib ''w1'' = 2"
    "witnessed sample_lib ''w1''" "utf8_lossy ''12'' = ''12''"
    "\<not> proofs_meet sample_lib (served_proofs sample_lib (Some ''12'') 2) 2 ''w22''"
    by code_simp+
  show ?thesis using publish_enforces_witness_threshold[OF p] c by (simp add: Let_def)
qed

text \<open>C9: For a stored log whose chain verifies, what is served is the longest prefix of entries
  in which every entry that configures witnesses meets its threshold: the stored bytes when that
  is the whole log, nothing when the first entry already fails.\<close>

theorem servable_longest_prefix:
  assumes "parse_and_verify_chain lib content = Some vs"
  shows "servable_did_log lib content w =
    (let h = number_of lib (last (the (parse_entries lib None (nonblank_lines content))));
         served = takeWhile (\<lambda>e. witnessed lib e \<longrightarrow> proofs_meet lib (served_proofs lib w h) h e) vs
     in if served = vs then Some content
        else if served = [] then None
        else Some (join_with [CHR 0x0A] (List.map_filter (entry_show lib) served)))"
proof -
  obtain es where es: "parse_entries lib None (nonblank_lines content) = Some es"
      "verify_entries lib None es = Some vs" using chain_parts(2)[OF assms] by blast
  have l: "length vs = length es" "es \<noteq> []"
    using verify_entries_length[OF es(2)] chain_parts(4)[OF assms] by auto
  have t: "length (takeWhile P vs) = length es \<longleftrightarrow> takeWhile P vs = vs" for P
    using l(1) by (metis length_takeWhile_le takeWhile_eq_take take_all_iff)
  show ?thesis
    using chain_parts(1)[OF assms] es l(2) servable_walk_verified[OF es(2)]
    by (simp add: servable_did_log_def Let_def t)
qed

theorem servable_longest_prefix_witness:
  "servable_did_log sample_lib two_line_log (Some ''12'') = Some ''w1''
   \<and> servable_did_log sample_lib two_line_log None = None"
proof -
  have c: "parse_and_verify_chain sample_lib two_line_log = Some [''w1'', ''w22'']"
    "the (parse_entries sample_lib None (nonblank_lines two_line_log)) = [''w1'', ''w22'']"
    "number_of sample_lib ''w22'' = 3" "witnessed sample_lib ''w1''" "witnessed sample_lib ''w22''"
    "proofs_meet sample_lib (served_proofs sample_lib (Some ''12'') 3) 3 ''w1''"
    "\<not> proofs_meet sample_lib (served_proofs sample_lib (Some ''12'') 3) 3 ''w22''"
    "\<not> proofs_meet sample_lib (served_proofs sample_lib None 3) 3 ''w1''"
    "List.map_filter (entry_show sample_lib) [''w1''] = [''w1'']" by code_simp+
  show ?thesis unfolding servable_longest_prefix[OF c(1)] using c(2-) by (simp add: Let_def)
qed

text \<open>C10: A witness agrees to sign only the last entry of a log whose every entry verifies in
  order, where no entry before the signed one deactivates the DID and the witness is named by
  the signed entry; the version identifiers returned are those of all entries.\<close>

theorem witnessing_sound:
  assumes "verify_log_for_witnessing lib content version_id did = Inr w"
  shows "\<exists>es vs. parse_entries lib None (nonblank_lines content) = Some es
    \<and> verify_entries lib None es = Some vs \<and> vs \<noteq> []
    \<and> entry_id lib (last vs) = version_id \<and> names_witness lib did (last vs)
    \<and> (\<forall>i < length es - 1. \<not> entry_deactivates lib (es ! i))
    \<and> entry_scid lib (last vs) = Some (wl_scid w) \<and> wl_version_ids w = map (entry_id lib) vs"
proof -
  obtain es where es: "parse_entries lib None (nonblank_lines content) = Some es"
    using assms by (auto simp: verify_log_for_witnessing_def split: if_splits option.splits)
  let ?d = "position (entry_deactivates lib) es"
  let ?t = "case ?d of Some d \<Rightarrow> d + 1 | None \<Rightarrow> length es"
  obtain vs where vs: "verify_entries lib None (take ?t es) = Some vs"
    using assms es by (auto simp: verify_log_for_witnessing_def Let_def split: if_splits option.splits)
  have f: "vs @ drop ?t es \<noteq> []" "entry_id lib (last (vs @ drop ?t es)) = version_id"
    "\<not> (case ?d of Some d \<Rightarrow> d < length es - 1 | None \<Rightarrow> False)"
    "names_witness lib did (last (vs @ drop ?t es))"
    "entry_scid lib (last (vs @ drop ?t es)) = Some (wl_scid w)"
    "wl_version_ids w = map (entry_id lib) (vs @ drop ?t es)"
    using assms es vs
    by (auto simp: verify_log_for_witnessing_def Let_def split: if_splits option.split_asm)
  have t: "length es \<le> ?t" using f(3) by (auto split: option.splits)
  have nd: "\<not> entry_deactivates lib (es ! i)" if i: "i < length es - 1" for i
  proof (cases "?d")
    case None
    then have "\<not> list_ex (entry_deactivates lib) es" by (auto simp: position_def split: if_splits)
    then show ?thesis using i by (auto simp: list_ex_iff)
  next
    case (Some d)
    then have "i < length (takeWhile (\<lambda>e. \<not> entry_deactivates lib e) es)"
      using f(3) i by (auto simp: position_def split: if_splits)
    then show ?thesis using set_takeWhileD nth_mem takeWhile_nth by metis
  qed
  have "vs @ drop ?t es = vs" "take ?t es = es" using t by simp_all
  then show ?thesis using es vs f nd by (intro exI[of _ es] exI[of _ vs]) simp
qed

theorem witnessing_sound_witness:
  "\<exists>w. verify_log_for_witnessing sample_lib two_line_log ''w22'' ''did:key:k'' = Inr w
     \<and> wl_version_ids w = [''w1'', ''w22'']"
proof -
  have "is_ok (verify_log_for_witnessing sample_lib two_line_log ''w22'' ''did:key:k'')" by code_simp
  then obtain w where w: "verify_log_for_witnessing sample_lib two_line_log ''w22'' ''did:key:k'' = Inr w"
    by (auto simp: is_ok_iff)
  have c: "parse_entries sample_lib None (nonblank_lines two_line_log) = Some [''w1'', ''w22'']"
    "verify_entries sample_lib None [''w1'', ''w22''] = Some [''w1'', ''w22'']"
    "map (entry_id sample_lib) [''w1'', ''w22''] = [''w1'', ''w22'']" by code_simp+
  from witnessing_sound[OF w] c have "wl_version_ids w = [''w1'', ''w22'']" by auto
  then show ?thesis using w by blast
qed

text \<open>The continuity check of did:webs compares only the identifier and the sequence number:
  it accepts every stream for the same AID whose number is not smaller, whatever its earlier
  events are, and also whenever the stored stream cannot be read. A fork of the hosted log that
  is at least as long is therefore not refused.\<close>

theorem webs_continuation_iff:
  assumes "webs_aid lib did = Some aid"
  shows "webs_verify_continuation lib did old new = Inr () \<longleftrightarrow>
    (case Option.bind (kels_parse lib old) (\<lambda>ks. kels_state lib ks aid) of
       None \<Rightarrow> True
     | Some (pfx, sn) \<Rightarrow> (\<exists>sn'. Option.bind (kels_parse lib new) (\<lambda>ks. kels_state lib ks aid) = Some (pfx, sn')
          \<and> sn \<le> sn'))"
  using assms by (auto simp: webs_verify_continuation_def split: option.splits prod.splits if_splits)

theorem webs_continuation_iff_witness:
  "webs_verify_continuation sample_lib ''did:webs:a.org:E'' ''abc'' ''xyz'' = Inr ()"
proof -
  have "webs_aid sample_lib ''did:webs:a.org:E'' = Some ''did:webs:a.org:E''"
    "Option.bind (kels_parse sample_lib ''abc'') (\<lambda>ks. kels_state sample_lib ks ''did:webs:a.org:E'')
       = Some (''did:webs:a.org:E'', 3)"
    "Option.bind (kels_parse sample_lib ''xyz'') (\<lambda>ks. kels_state sample_lib ks ''did:webs:a.org:E'')
       = Some (''did:webs:a.org:E'', 3)"
    by (simp_all add: sample_lib_def)
  then show ?thesis by (simp add: webs_continuation_iff)
qed

text \<open>The agent names read from a document are exactly the local names of its alsoKnownAs
  strings that parse as agent names on the given domain, each once.\<close>

theorem document_names_exact:
  "distinct (agent_names_from_document parse_name doc domain)
   \<and> set (agent_names_from_document parse_name doc domain) =
      {l. \<exists>es s. get_array ''alsoKnownAs'' doc = Some es \<and> JStr s \<in> set es \<and> parse_name s = Some (domain, l)}"
proof (cases "get_array ''alsoKnownAs'' doc")
  case (Some es)
  have m: "s \<in> set (List.map_filter json_str es) \<longleftrightarrow> JStr s \<in> set es" for s
  proof -
    have "json_str v = Some s \<longleftrightarrow> v = JStr s" for v by (cases v) (auto simp: json_str_def)
    then show ?thesis by (auto simp: set_map_filter)
  qed
  show ?thesis
    using Some foldl_push_names[where f = parse_name and d = domain and acc = "[]" and es = "List.map_filter json_str es"] m
    by (auto simp: agent_names_from_document_def)
qed (simp add: agent_names_from_document_def)

end
