(* ===== verification/DidStore.thy ===== *)
theory DidStore
  imports DidLog
begin

text \<open>
  The dids keyspace that the control plane and the edge share: the record of a hosted DID and
  the key helpers of did-hosting-common/src/did_ops.rs. Records are stored under did:, log and
  witness bytes under content:, the reverse indexes under owner: and name:. A row is a record
  or raw bytes; reading a record out of raw bytes is a serialisation error.
\<close>

record agent_name_entry =
  an_name :: string
  an_enabled :: bool
  an_created_at :: nat

record did_record =
  dr_owner :: string
  dr_mnemonic :: string
  dr_created_at :: nat
  dr_updated_at :: nat
  dr_version_count :: nat
  dr_did_id :: "string option"
  dr_content_size :: nat
  dr_disabled :: bool
  dr_deleted_at :: "nat option"
  dr_method :: string
  dr_domain :: string
  dr_services :: "string list option"
  dr_agent_names :: "agent_name_entry list"

datatype did_row = RecRow did_record | RawRow string

type_synonym did_rows = "did_row ks"

definition did_key :: "string \<Rightarrow> string" where
  "did_key m = ''did:'' @ m"

definition content_log_key :: "string \<Rightarrow> string" where
  "content_log_key m = ''content:'' @ m @ '':log''"

definition content_witness_key :: "string \<Rightarrow> string" where
  "content_witness_key m = ''content:'' @ m @ '':witness''"

definition owner_key :: "string \<Rightarrow> string \<Rightarrow> string" where
  "owner_key did m = ''owner:'' @ did @ '':'' @ m"

definition agent_name_key :: "string \<Rightarrow> string \<Rightarrow> string" where
  "agent_name_key domain name = ''name:'' @ domain @ '':'' @ name"

definition watcher_sync_key :: "string \<Rightarrow> string" where
  "watcher_sync_key m = ''watcher_sync:'' @ m"

text \<open>Typed and raw reads (KeyspaceHandle::get and get_raw).\<close>

definition get_record :: "did_rows \<Rightarrow> string \<Rightarrow> did_record option res" where
  "get_record rows k = (case ks_get rows k of
     None \<Rightarrow> Inr None
   | Some (RecRow r) \<Rightarrow> Inr (Some r)
   | Some (RawRow _) \<Rightarrow> Inl Serialization)"

definition get_raw :: "did_rows \<Rightarrow> string \<Rightarrow> string option" where
  "get_raw rows k = (case ks_get rows k of Some (RawRow b) \<Rightarrow> Some b | _ \<Rightarrow> None)"

text \<open>The path of a did:webvh identifier (identity.rs).\<close>

definition mnemonic_from_did :: "string \<Rightarrow> string option" where
  "mnemonic_from_did did =
    (case Option.bind (strip_prefix_str ''did:webvh:'' did) (split_once (CHR '':'')) of
       None \<Rightarrow> None
     | Some (_, after_scid) \<Rightarrow>
         if after_scid = [] then None
         else (case split_once (CHR '':'') after_scid of
             Some (_, path) \<Rightarrow> if path \<noteq> [] then Some (replace_char (CHR '':'') (CHR ''/'') path)
                               else Some ''.well-known''
           | None \<Rightarrow> Some ''.well-known''))"

text \<open>Writing raw bytes under several keys, and removing several keys.\<close>

definition put_raws :: "(string \<Rightarrow> string) \<Rightarrow> string \<Rightarrow> string list \<Rightarrow> did_row ks_write list" where
  "put_raws key v names = map (\<lambda>n. Put (key n) (RawRow v)) names"

definition del_keys :: "(string \<Rightarrow> string) \<Rightarrow> string list \<Rightarrow> did_row ks_write list" where
  "del_keys key names = map (\<lambda>n. Del (key n)) names"

section \<open>Keys are disjoint\<close>

lemma key_inj [simp]:
  "did_key a = did_key b \<longleftrightarrow> a = b" "content_log_key a = content_log_key b \<longleftrightarrow> a = b"
  "content_witness_key a = content_witness_key b \<longleftrightarrow> a = b"
  by (simp_all add: did_key_def content_log_key_def content_witness_key_def)

lemma log_not_witness [simp]: "content_log_key a \<noteq> content_witness_key b"
proof
  assume "content_log_key a = content_witness_key b"
  then have "last (content_log_key a) = last (content_witness_key b)" by simp
  then show False by (simp add: content_log_key_def content_witness_key_def)
qed

lemma witness_not_log [simp]: "content_witness_key b \<noteq> content_log_key a"
  using log_not_witness by metis

lemma key_disjoint [simp]:
  "did_key a \<noteq> content_log_key b" "content_log_key b \<noteq> did_key a"
  "did_key a \<noteq> content_witness_key b" "content_witness_key b \<noteq> did_key a"
  "did_key a \<noteq> owner_key o' b" "owner_key o' b \<noteq> did_key a"
  "did_key a \<noteq> agent_name_key d n" "agent_name_key d n \<noteq> did_key a"
  "content_log_key a \<noteq> owner_key o' b" "owner_key o' b \<noteq> content_log_key a"
  "content_log_key a \<noteq> agent_name_key d n" "agent_name_key d n \<noteq> content_log_key a"
  "content_witness_key a \<noteq> owner_key o' b" "owner_key o' b \<noteq> content_witness_key a"
  "content_witness_key a \<noteq> agent_name_key d n" "agent_name_key d n \<noteq> content_witness_key a"
  "owner_key o' b \<noteq> agent_name_key d n" "agent_name_key d n \<noteq> owner_key o' b"
  by (simp_all add: did_key_def content_log_key_def content_witness_key_def owner_key_def
      agent_name_key_def)

lemma last_part_unique:
  fixes c :: char
  assumes "a @ c # m = b @ c # n" "c \<notin> set m" "c \<notin> set n"
  shows "a = b \<and> m = n"
proof -
  have e: "rev m @ c # rev a = rev n @ c # rev b" using arg_cong[OF assms(1), of rev] by simp
  have "split_once c (rev m @ c # rev a) = Some (rev m, rev a)"
    "split_once c (rev n @ c # rev b) = Some (rev n, rev b)"
    using assms(2,3) by (simp_all add: split_once_Some)
  then have "(rev m, rev a) = (rev n, rev b)" unfolding e by (metis option.inject)
  then show ?thesis by simp
qed

lemma last_part_iff:
  fixes c :: char
  assumes "c \<notin> set m" "c \<notin> set n"
  shows "a @ c # m = b @ c # n \<longleftrightarrow> a = b \<and> m = n"
  using last_part_unique[of a c m b n] assms by metis

lemma owner_key_inj:
  "CHR '':'' \<notin> set m \<Longrightarrow> CHR '':'' \<notin> set n \<Longrightarrow> owner_key a m = owner_key b n \<longleftrightarrow> a = b \<and> m = n"
  by (simp add: owner_key_def last_part_iff)

lemma name_key_inj:
  "CHR '':'' \<notin> set m \<Longrightarrow> CHR '':'' \<notin> set n \<Longrightarrow> agent_name_key a m = agent_name_key b n \<longleftrightarrow> a = b \<and> m = n"
  by (simp add: agent_name_key_def last_part_iff)

lemma get_commit_puts [ks_simps]:
  "ks_get (ks_commit (put_raws key v names @ ws) s) k
    = ks_get (ks_commit ws (ks_commit (put_raws key v names) s)) k"
  by (simp add: ks_commit_append)

lemma get_put_raws: "ks_get (ks_commit (put_raws key v names) s) k =
    (if k \<in> key ` set names then Some (RawRow v) else ks_get s k)"
  by (induction names arbitrary: s) (auto simp: put_raws_def ks_simps)

lemma get_del_keys: "ks_get (ks_commit (del_keys key names) s) k =
    (if k \<in> key ` set names then None else ks_get s k)"
  by (induction names arbitrary: s) (auto simp: del_keys_def ks_simps)

end
