(* ===== verification/DidOps.thy ===== *)
theory DidOps
  imports DidStore "HOL-Library.AList"
begin

text \<open>
  The DID operations of did-hosting-control/src/did_ops.rs: slot creation, atomic register,
  publish, the agent-name verbs, witness upload, reads and listings, deletion, owner change,
  disabling and rollback, with the quota, authorisation and domain checks they make. An
  operation takes the caller, the clock and the state and returns its result with the new
  state. The content cache is that of the unified daemon (empty on a standalone control
  plane); ds_updates lists the calls to the statistics collector. The per-path lock makes each
  operation on a slot one step; identity rotation after a publish and logging are left out.
\<close>

record auth_claims =
  au_did :: string
  au_role :: role

record ('e, 'p, 'k) did_env =
  de_lib :: "('e, 'p, 'k) log_lib"
  de_webs :: webs_parser
  de_parse_host :: host_parser
  de_acl :: acl
  de_domains :: domain_store
  de_did_hosting_url :: "string option"
  de_public_url :: "string option"
  de_did_url :: "string \<Rightarrow> (string \<times> nat option \<times> string) option"
  de_http_url :: "string \<Rightarrow> (string \<times> nat option \<times> string) option"
  de_looks_like_name :: "string \<Rightarrow> bool"
  de_agent_names :: bool

record did_state =
  ds_rows :: did_rows
  ds_cache :: "string ks"
  ds_updates :: "string list"

type_synonym 'a did_step = "'a res \<times> did_state"

section \<open>Shared checks\<close>

definition de_webs_on :: "('e, 'p, 'k) did_env \<Rightarrow> bool" where
  "de_webs_on env \<longleftrightarrow> de_webs env \<noteq> None"

definition base_url :: "('e, 'p, 'k) did_env \<Rightarrow> string option" where
  "base_url env = (case de_did_hosting_url env of Some u \<Rightarrow> Some u | None \<Rightarrow> de_public_url env)"

definition invalidate_cached_content :: "string \<Rightarrow> did_state \<Rightarrow> did_state" where
  "invalidate_cached_content m st =
    st\<lparr>ds_cache := ks_del (content_witness_key m) (ks_del (content_log_key m) (ds_cache st))\<rparr>"

definition commit_rows :: "did_row ks_write list \<Rightarrow> did_state \<Rightarrow> did_state" where
  "commit_rows ws st = st\<lparr>ds_rows := ks_commit ws (ds_rows st)\<rparr>"

definition record_update :: "string \<Rightarrow> did_state \<Rightarrow> did_state" where
  "record_update m st = st\<lparr>ds_updates := ds_updates st @ [m]\<rparr>"

definition caller_entry :: "('e, 'p, 'k) did_env \<Rightarrow> auth_claims \<Rightarrow> acl_entry" where
  "caller_entry env auth = (case get_acl_entry (de_acl env) (au_did auth) of
     Some e \<Rightarrow> e
   | None \<Rightarrow> \<lparr>acl_did = au_did auth, acl_role = au_role auth, acl_label = None, acl_created_at = 0,
              acl_max_total_size = None, acl_max_did_count = None, acl_domains = ScopeAll\<rparr>)"

definition check_did_host_safety :: "('e, 'p, 'k) did_env \<Rightarrow> auth_claims \<Rightarrow> string \<Rightarrow> unit res" where
  "check_did_host_safety env auth did =
    assert_did_host_allowed_when_domains_configured (de_parse_host env) (de_webs env) (de_domains env)
      (caller_entry env auth) did"

text \<open>The same check for the identifier of a record, when it has one.\<close>

definition check_record_host :: "('e, 'p, 'k) did_env \<Rightarrow> auth_claims \<Rightarrow> string option \<Rightarrow> unit res" where
  "check_record_host env auth did_id = (case did_id of
     Some d \<Rightarrow> check_did_host_safety env auth d | None \<Rightarrow> Inr ())"

definition publication_error :: "method_error + 'a \<Rightarrow> 'a res" where
  "publication_error r = (case r of Inl _ \<Rightarrow> Inl (Validation InvalidLog) | Inr x \<Rightarrow> Inr x)"

text \<open>random_mnemonic draws two words; picks are the successive draws.\<close>

definition generate_unique_mnemonic :: "string list \<Rightarrow> did_rows \<Rightarrow> string res" where
  "generate_unique_mnemonic picks rows =
    ok_or Internal (find (\<lambda>m. \<not> ks_has rows (did_key m)) (take 100 picks))"

definition is_path_available :: "did_rows \<Rightarrow> string \<Rightarrow> bool" where
  "is_path_available rows path \<longleftrightarrow> \<not> ks_has rows (did_key path)"

definition get_authorized_record :: "did_rows \<Rightarrow> string \<Rightarrow> auth_claims \<Rightarrow> did_record res" where
  "get_authorized_record rows m auth =
    and_then (and_then (get_record rows (did_key m)) (ok_or NotFound)) (\<lambda>r.
      if dr_owner r \<noteq> au_did auth \<and> au_role auth \<noteq> Admin then Inl Forbidden else Inr r)"

section \<open>Quotas\<close>

fun owner_usage_rows ::
  "did_rows \<Rightarrow> string \<Rightarrow> (string \<times> did_row) list \<Rightarrow> nat \<Rightarrow> nat \<Rightarrow> (nat \<times> nat) res" where
  "owner_usage_rows rows owner [] n sz = Inr (n, sz)"
| "owner_usage_rows rows owner ((k, v) # kvs) n sz = (case v of
     RecRow _ \<Rightarrow> owner_usage_rows rows owner kvs n sz
   | RawRow m \<Rightarrow>
       if \<not> utf8_text m then Inl Internal
       else and_then (get_record rows (did_key m)) (\<lambda>r. case r of
           None \<Rightarrow> owner_usage_rows rows owner kvs n sz
         | Some r \<Rightarrow>
             if dr_owner r \<noteq> owner then owner_usage_rows rows owner kvs n sz
             else owner_usage_rows rows owner kvs (n + 1) (saturating_add sz (dr_content_size r))))"

definition owner_prefix :: "string \<Rightarrow> string" where
  "owner_prefix owner = ''owner:'' @ owner @ '':''"

definition owner_usage :: "did_rows \<Rightarrow> string \<Rightarrow> (nat \<times> nat) res" where
  "owner_usage rows owner = owner_usage_rows rows owner (ks_scan (owner_prefix owner) rows) 0 0"

definition check_did_count_limit :: "('e, 'p, 'k) did_env \<Rightarrow> auth_claims \<Rightarrow> did_rows \<Rightarrow> unit res" where
  "check_did_count_limit env auth rows =
    (if au_role auth = Admin then Inr ()
     else case get_acl_entry (de_acl env) (au_did auth) of
       None \<Rightarrow> Inr ()
     | Some e \<Rightarrow>
         let mx = effective_max_did_count e u64_max
         in if mx = u64_max then Inr ()
            else and_then (owner_usage rows (au_did auth)) (\<lambda>(n, _).
              if mx \<le> n then Inl QuotaExceeded else Inr ()))"

definition check_total_size_limit ::
  "('e, 'p, 'k) did_env \<Rightarrow> auth_claims \<Rightarrow> did_rows \<Rightarrow> nat \<Rightarrow> nat \<Rightarrow> unit res" where
  "check_total_size_limit env auth rows old_size new_size =
    (if au_role auth = Admin then Inr ()
     else case get_acl_entry (de_acl env) (au_did auth) of
       None \<Rightarrow> Inr ()
     | Some e \<Rightarrow>
         let mx = effective_max_total_size e u64_max
         in if mx = u64_max then Inr ()
            else and_then (owner_usage rows (au_did auth)) (\<lambda>(_, sz).
              if mx < saturating_add (sz - old_size) new_size then Inl QuotaExceeded else Inr ()))"

section \<open>Creating a slot\<close>

record uri_response =
  ur_mnemonic :: string
  ur_did_url :: string

definition replace_writes :: "auth_claims \<Rightarrow> string \<Rightarrow> did_record \<Rightarrow> did_row ks_write list" where
  "replace_writes auth path existing =
    [Del (content_log_key path), Del (content_witness_key path)]
    @ (if dr_owner existing \<noteq> au_did auth then [Del (owner_key (dr_owner existing) path)] else [])"

definition resolve_path_for_create :: "auth_claims \<Rightarrow> string \<Rightarrow> bool \<Rightarrow> did_state \<Rightarrow> string did_step" where
  "resolve_path_for_create auth path force st =
    (if is_path_available (ds_rows st) path then (Inr path, st)
     else if \<not> force then (Inl Conflict, st)
     else case and_then (get_record (ds_rows st) (did_key path)) (ok_or Internal) of
       Inl e \<Rightarrow> (Inl e, st)
     | Inr existing \<Rightarrow>
         if dr_owner existing \<noteq> au_did auth \<and> au_role auth \<noteq> Admin then (Inl Forbidden, st)
         else (Inr path, commit_rows (replace_writes auth path existing) st))"

definition create_path ::
  "auth_claims \<Rightarrow> string list \<Rightarrow> string option \<Rightarrow> bool \<Rightarrow> did_state \<Rightarrow> string did_step" where
  "create_path auth picks path force st = (case path of
     None \<Rightarrow> (generate_unique_mnemonic picks (ds_rows st), st)
   | Some p \<Rightarrow>
       if p = ''.well-known'' then
         (if au_role auth \<noteq> Admin then (Inl Forbidden, st) else resolve_path_for_create auth p force st)
       else (case validate_custom_path p of
           Inl e \<Rightarrow> (Inl e, st)
         | Inr _ \<Rightarrow> resolve_path_for_create auth p force st))"

definition empty_slot :: "string \<Rightarrow> string \<Rightarrow> nat \<Rightarrow> string option \<Rightarrow> did_record" where
  "empty_slot owner m now domain =
    \<lparr>dr_owner = owner, dr_mnemonic = m, dr_created_at = now, dr_updated_at = now,
     dr_version_count = 0, dr_did_id = None, dr_content_size = 0, dr_disabled = False,
     dr_deleted_at = None, dr_method = ''webvh'',
     dr_domain = (case domain of Some d \<Rightarrow> d | None \<Rightarrow> []), dr_services = None, dr_agent_names = []\<rparr>"

definition create_quota :: "('e, 'p, 'k) did_env \<Rightarrow> auth_claims \<Rightarrow> string \<Rightarrow> did_rows \<Rightarrow> unit res" where
  "create_quota env auth m rows =
    and_then (get_record rows (did_key m)) (\<lambda>existing.
      let adds_slot = (case existing of Some x \<Rightarrow> dr_owner x \<noteq> au_did auth | None \<Rightarrow> True)
      in if adds_slot then check_did_count_limit env auth rows else Inr ())"

definition create_did ::
  "('e, 'p, 'k) did_env \<Rightarrow> auth_claims \<Rightarrow> nat \<Rightarrow> string list \<Rightarrow> string option \<Rightarrow> bool \<Rightarrow> string option
   \<Rightarrow> did_state \<Rightarrow> uri_response did_step" where
  "create_did env auth now picks path force domain st = (case create_path auth picks path force st of
     (Inl e, st1) \<Rightarrow> (Inl e, st1)
   | (Inr m, st1) \<Rightarrow> (case create_quota env auth m (ds_rows st1) of
       Inl e \<Rightarrow> (Inl e, st1)
     | Inr _ \<Rightarrow>
         (Inr \<lparr>ur_mnemonic = m,
               ur_did_url = (case base_url env of Some u \<Rightarrow> u | None \<Rightarrow> ''http://localhost'')
                 @ ''/'' @ m @ ''/did.jsonl''\<rparr>,
          commit_rows [Put (did_key m) (RecRow (empty_slot (au_did auth) m now domain)),
                       Put (owner_key (au_did auth) m) (RawRow m)] st1)))"

section \<open>Agent names of a published document\<close>

definition host_of_did :: "('e, 'p, 'k) did_env \<Rightarrow> string option \<Rightarrow> string" where
  "host_of_did env did = (case did of
     Some d \<Rightarrow> (case extract_did_host (de_webs env) d of Inr h \<Rightarrow> h | Inl _ \<Rightarrow> [])
   | None \<Rightarrow> [])"

text \<open>The loop over the claimed names: reserved and taken names are refused, ungrammatical ones
  skipped.\<close>

fun claim_names :: "did_rows \<Rightarrow> string \<Rightarrow> string \<Rightarrow> string list \<Rightarrow> string list res" where
  "claim_names rows m domain [] = Inr []"
| "claim_names rows m domain (n # ns) = (case validate_agent_name_binding n m of
     Inl (AgentName NameReserved) \<Rightarrow> Inl (AgentName NameReserved)
   | Inl _ \<Rightarrow> claim_names rows m domain ns
   | Inr _ \<Rightarrow>
       (case get_raw rows (agent_name_key domain n) of
          Some b \<Rightarrow> if b \<noteq> m then Inl (AgentName NameTaken)
                    else and_then (claim_names rows m domain ns) (\<lambda>r. Inr (n # r))
        | None \<Rightarrow> and_then (claim_names rows m domain ns) (\<lambda>r. Inr (n # r))))"

definition released_names ::
  "did_rows \<Rightarrow> string \<Rightarrow> string \<Rightarrow> string list \<Rightarrow> agent_name_entry list \<Rightarrow> string list" where
  "released_names rows m domain claimed es = map an_name (filter (\<lambda>e. an_enabled e
     \<and> an_name e \<notin> set claimed \<and> get_raw rows (agent_name_key domain (an_name e)) = Some m) es)"

definition next_names :: "nat \<Rightarrow> string list \<Rightarrow> agent_name_entry list \<Rightarrow> agent_name_entry list" where
  "next_names now claimed es =
    filter (\<lambda>e. \<not> an_enabled e \<and> an_name e \<notin> set claimed) es
    @ map (\<lambda>n. \<lparr>an_name = n, an_enabled = True,
         an_created_at = (case find (\<lambda>e. an_name e = n) es of Some e \<Rightarrow> an_created_at e | None \<Rightarrow> now)\<rparr>) claimed"

definition reconcile_agent_names ::
  "did_rows \<Rightarrow> did_record \<Rightarrow> string \<Rightarrow> string list \<Rightarrow> string \<Rightarrow> nat
   \<Rightarrow> (did_record \<times> string list \<times> string list) res" where
  "reconcile_agent_names rows r m claims domain now =
    and_then (claim_names rows m domain claims) (\<lambda>claimed.
      Inr (r\<lparr>dr_agent_names := next_names now claimed (dr_agent_names r)\<rparr>, claimed,
           released_names rows m domain claimed (dr_agent_names r)))"

definition name_index_writes ::
  "string \<Rightarrow> string \<Rightarrow> string list \<Rightarrow> string list \<Rightarrow> did_row ks_write list" where
  "name_index_writes m domain claimed released =
    put_raws (agent_name_key domain) m claimed @ del_keys (agent_name_key domain) released"

section \<open>Atomic register\<close>

definition did_id_matches_request ::
  "('e, 'p, 'k) did_env \<Rightarrow> string \<Rightarrow> string \<Rightarrow> string \<Rightarrow> bool" where
  "did_id_matches_request env did path base = (case de_did_url env did of
     None \<Rightarrow> False
   | Some (dom1, port1, path1) \<Rightarrow>
       (case de_http_url env (rev (dropWhile (\<lambda>c. c = CHR ''/'') (rev base)) @ ''/'' @ path @ ''/did.jsonl'') of
          None \<Rightarrow> False
        | Some (dom2, port2, path2) \<Rightarrow> dom1 = dom2 \<and> port1 = port2 \<and> path1 = path2))"

definition verify_slot_publication ::
  "('e, 'p, 'k) did_env \<Rightarrow> string \<Rightarrow> string \<Rightarrow> string \<Rightarrow> did_rows \<Rightarrow> publication res" where
  "verify_slot_publication env domain m log rows = publication_error
    (verify_publication (de_webs_on env) (de_lib env) domain m log
      (get_raw rows (content_log_key m)) (get_raw rows (content_witness_key m)))"

text \<open>Whether the slot changes hands, or why the caller may not write it.\<close>

definition register_takeover :: "auth_claims \<Rightarrow> bool \<Rightarrow> did_record option \<Rightarrow> bool res" where
  "register_takeover auth force existing = (case existing of
     None \<Rightarrow> Inr False
   | Some r \<Rightarrow>
       if dr_owner r = au_did auth then Inr False
       else if au_role auth \<noteq> Admin then Inl Forbidden
       else if \<not> force then Inl Forbidden
       else Inr True)"

definition register_checks ::
  "('e, 'p, 'k) did_env \<Rightarrow> auth_claims \<Rightarrow> string \<Rightarrow> string \<Rightarrow> bool \<Rightarrow> string option \<Rightarrow> did_rows
   \<Rightarrow> (publication \<times> string \<times> string \<times> did_record option \<times> bool) res" where
  "register_checks env auth path log force domain rows =
    (if path = ''.well-known'' \<and> au_role auth \<noteq> Admin then Inl Forbidden
     else and_then (if detect_method (de_webs_on env) (de_lib env) log = Some Webs
                    then validate_webs_mnemonic path else validate_mnemonic path) (\<lambda>_.
     and_then (verify_slot_publication env (case domain of Some d \<Rightarrow> d | None \<Rightarrow> []) path log rows) (\<lambda>p.
     and_then (ok_or Internal (base_url env)) (\<lambda>base.
     and_then (ok_or (Validation OtherValidation) (pub_did p)) (\<lambda>did.
     and_then (check_did_host_safety env auth did) (\<lambda>_.
     and_then (if pub_method p \<noteq> Webs
               then check (did_id_matches_request env did path base) (Validation OtherValidation)
               else Inr ()) (\<lambda>_.
     and_then (get_record rows (did_key path)) (\<lambda>existing.
     and_then (register_takeover auth force existing) (\<lambda>changed.
     and_then (if existing = None then check_did_count_limit env auth rows else Inr ()) (\<lambda>_.
     and_then (check_total_size_limit env auth rows
                (case existing of Some r \<Rightarrow> dr_content_size r | None \<Rightarrow> 0) (length log)) (\<lambda>_.
     Inr (p, did, base, existing, changed))))))))))))"

definition registered_record ::
  "('e, 'p, 'k) did_env \<Rightarrow> auth_claims \<Rightarrow> nat \<Rightarrow> string \<Rightarrow> string \<Rightarrow> publication \<Rightarrow> string
   \<Rightarrow> did_record option \<Rightarrow> bool \<Rightarrow> did_record" where
  "registered_record env auth now path log p did existing changed =
    (let (created, version) = (case existing of
           Some r \<Rightarrow> if changed then (now, 1) else (dr_created_at r, dr_version_count r + 1)
         | None \<Rightarrow> (now, 1))
     in \<lparr>dr_owner = au_did auth, dr_mnemonic = path, dr_created_at = created, dr_updated_at = now,
         dr_version_count = version, dr_did_id = Some did, dr_content_size = length log,
         dr_disabled = False, dr_deleted_at = None, dr_method = method_name (pub_method p),
         dr_domain = (if pub_method p = Webs then host_of_did env (Some did) else []),
         dr_services = publication_services p,
         dr_agent_names = (case existing of Some r \<Rightarrow> dr_agent_names r | None \<Rightarrow> [])\<rparr>)"

definition register_writes ::
  "auth_claims \<Rightarrow> string \<Rightarrow> string \<Rightarrow> did_record option \<Rightarrow> bool \<Rightarrow> did_record \<Rightarrow> string
   \<Rightarrow> string list \<Rightarrow> string list \<Rightarrow> did_row ks_write list" where
  "register_writes auth path log existing changed r domain claimed released =
    [Put (content_log_key path) (RawRow log)]
    @ (case existing of
         Some prev \<Rightarrow> if changed then [Del (content_witness_key path), Del (owner_key (dr_owner prev) path)] else []
       | None \<Rightarrow> [])
    @ [Put (did_key path) (RecRow r), Put (owner_key (au_did auth) path) (RawRow path)]
    @ name_index_writes path domain claimed released"

definition register_did_atomic ::
  "('e, 'p, 'k) did_env \<Rightarrow> auth_claims \<Rightarrow> nat \<Rightarrow> string \<Rightarrow> string \<Rightarrow> bool \<Rightarrow> string option
   \<Rightarrow> did_state \<Rightarrow> uri_response did_step" where
  "register_did_atomic env auth now path log force domain st =
    (case register_checks env auth path log force domain (ds_rows st) of
       Inl e \<Rightarrow> (Inl e, st)
     | Inr (p, did, base, existing, changed) \<Rightarrow>
         let reg_domain = host_of_did env (Some did);
             r0 = registered_record env auth now path log p did existing changed
         in (case reconcile_agent_names (ds_rows st) r0 path
                 (publication_agent_names (de_lib env) p reg_domain) reg_domain now of
             Inl e \<Rightarrow> (Inl e, st)
           | Inr (r, claimed, released) \<Rightarrow>
               (Inr \<lparr>ur_mnemonic = path,
                     ur_did_url = rev (dropWhile (\<lambda>c. c = CHR ''/'') (rev base)) @ ''/'' @ path @ ''/did.jsonl''\<rparr>,
                record_update path (invalidate_cached_content path
                  (commit_rows (register_writes auth path log existing changed r reg_domain claimed released) st)))))"

section \<open>Publishing a new version\<close>

definition requested :: "string option \<Rightarrow> string option" where
  "requested d = (case d of Some x \<Rightarrow> if x = [] then None else Some x | None \<Rightarrow> None)"

definition check_requested_domain ::
  "('e, 'p, 'k) did_env \<Rightarrow> string option \<Rightarrow> string option \<Rightarrow> unit res" where
  "check_requested_domain env request_domain did = (case (requested request_domain, did) of
     (Some rq, Some d) \<Rightarrow> and_then (extract_did_host (de_webs env) d) (\<lambda>h.
        check (eq_ignore_ascii_case rq h) (Validation OtherValidation))
   | _ \<Rightarrow> Inr ())"

definition republished_record ::
  "('e, 'p, 'k) did_env \<Rightarrow> nat \<Rightarrow> string \<Rightarrow> publication \<Rightarrow> did_record \<Rightarrow> did_record" where
  "republished_record env now log p r =
    r\<lparr>dr_updated_at := now, dr_version_count := dr_version_count r + 1, dr_did_id := pub_did p,
      dr_content_size := length log, dr_services := publication_services p,
      dr_domain := (if dr_domain r = [] then host_of_did env (pub_did p) else dr_domain r)\<rparr>"

definition prepare_republish ::
  "('e, 'p, 'k) did_env \<Rightarrow> auth_claims \<Rightarrow> nat \<Rightarrow> string \<Rightarrow> string \<Rightarrow> string option \<Rightarrow> did_rows
   \<Rightarrow> (did_record \<times> string \<times> publication) res" where
  "prepare_republish env auth now m log request_domain rows =
    and_then (get_record rows (did_key m)) (\<lambda>stored.
    and_then (if map_option dr_method stored = Some ''webs''
              then validate_webs_mnemonic m else validate_mnemonic m) (\<lambda>_.
    and_then (get_authorized_record rows m auth) (\<lambda>r.
    and_then (case detect_method (de_webs_on env) (de_lib env) log of
                Some k \<Rightarrow> check (method_name k = dr_method r) (Validation OtherValidation)
              | None \<Rightarrow> Inr ()) (\<lambda>_.
    and_then (verify_slot_publication env (dr_domain r) m log rows) (\<lambda>p.
    and_then (check_total_size_limit env auth rows (dr_content_size r) (length log)) (\<lambda>_.
    and_then (check_record_host env auth (pub_did p)) (\<lambda>_.
    and_then (check_requested_domain env request_domain (pub_did p)) (\<lambda>_.
    let r' = republished_record env now log p r
    in Inr (r', dr_domain r', p)))))))))"

definition publish_did ::
  "('e, 'p, 'k) did_env \<Rightarrow> auth_claims \<Rightarrow> nat \<Rightarrow> string \<Rightarrow> string \<Rightarrow> string option \<Rightarrow> did_state \<Rightarrow> unit did_step" where
  "publish_did env auth now m log request_domain st =
    (case prepare_republish env auth now m log request_domain (ds_rows st) of
       Inl e \<Rightarrow> (Inl e, st)
     | Inr (r0, domain, p) \<Rightarrow>
         (case reconcile_agent_names (ds_rows st) r0 m
                 (publication_agent_names (de_lib env) p domain) domain (dr_updated_at r0) of
            Inl e \<Rightarrow> (Inl e, st)
          | Inr (r, claimed, released) \<Rightarrow>
              (Inr (), record_update m (invalidate_cached_content m (commit_rows
                ([Put (content_log_key m) (RawRow log), Put (did_key m) (RecRow r)]
                 @ name_index_writes m domain claimed released) st)))))"

section \<open>Agent-name verbs\<close>

datatype agent_name_op = Activate | Remove | Park

datatype agent_name_state = NameActive | NameParked

definition requires_claim :: "agent_name_op \<Rightarrow> bool" where
  "requires_claim op \<longleftrightarrow> op = Activate"

datatype index_write = IxInsert | IxRemove | IxKeep

fun upsert_agent_name :: "string \<Rightarrow> nat \<Rightarrow> agent_name_entry list \<Rightarrow> agent_name_entry list" where
  "upsert_agent_name n now [] = [\<lparr>an_name = n, an_enabled = True, an_created_at = now\<rparr>]"
| "upsert_agent_name n now (e # es) =
    (if an_name e = n then e\<lparr>an_enabled := True\<rparr> # es else e # upsert_agent_name n now es)"

fun park_agent_name :: "string \<Rightarrow> agent_name_entry list \<Rightarrow> agent_name_entry list option" where
  "park_agent_name n [] = None"
| "park_agent_name n (e # es) =
    (if an_name e = n then Some (e\<lparr>an_enabled := False\<rparr> # es)
     else map_option (\<lambda>r. e # r) (park_agent_name n es))"

definition agent_name_mutation ::
  "did_rows \<Rightarrow> nat \<Rightarrow> string \<Rightarrow> string \<Rightarrow> string \<Rightarrow> agent_name_op \<Rightarrow> agent_name_entry list
   \<Rightarrow> (agent_name_entry list \<times> index_write) res" where
  "agent_name_mutation rows now m domain n op es = (case op of
     Activate \<Rightarrow>
       (case get_raw rows (agent_name_key domain n) of
          Some b \<Rightarrow> if b \<noteq> m then Inl (AgentName NameTaken) else Inr (upsert_agent_name n now es, IxInsert)
        | None \<Rightarrow> Inr (upsert_agent_name n now es, IxInsert))
   | Park \<Rightarrow> and_then (ok_or (AgentName NameNotFound) (park_agent_name n es)) (\<lambda>es'. Inr (es', IxKeep))
   | Remove \<Rightarrow>
       let es' = filter (\<lambda>e. an_name e \<noteq> n) es
       in if length es' = length es then Inl (AgentName NameNotFound) else Inr (es', IxRemove))"

definition index_writes :: "string \<Rightarrow> string \<Rightarrow> string \<Rightarrow> index_write \<Rightarrow> did_row ks_write list" where
  "index_writes domain n m w = (case w of
     IxInsert \<Rightarrow> [Put (agent_name_key domain n) (RawRow m)]
   | IxRemove \<Rightarrow> [Del (agent_name_key domain n)]
   | IxKeep \<Rightarrow> [])"

definition agent_name_checks ::
  "('e, 'p, 'k) did_env \<Rightarrow> auth_claims \<Rightarrow> nat \<Rightarrow> string \<Rightarrow> string \<Rightarrow> string \<Rightarrow> string option
   \<Rightarrow> agent_name_op \<Rightarrow> did_rows \<Rightarrow> (did_record \<times> string \<times> index_write) res" where
  "agent_name_checks env auth now m name log request_domain op rows =
    and_then (validate_agent_name_binding name m) (\<lambda>_.
    let n = bare_name name in
    and_then (prepare_republish env auth now m log request_domain rows) (\<lambda>(r, domain, p).
    if (n \<in> set (publication_agent_names (de_lib env) p domain)) \<noteq> requires_claim op
    then Inl (AgentName AlsoKnownAsMismatch)
    else and_then (agent_name_mutation rows now m domain n op (dr_agent_names r)) (\<lambda>(es, w).
      Inr (r\<lparr>dr_agent_names := es\<rparr>, domain, w))))"

definition apply_agent_name_op ::
  "('e, 'p, 'k) did_env \<Rightarrow> auth_claims \<Rightarrow> nat \<Rightarrow> string \<Rightarrow> string \<Rightarrow> string \<Rightarrow> string option
   \<Rightarrow> agent_name_op \<Rightarrow> did_state \<Rightarrow> did_record did_step" where
  "apply_agent_name_op env auth now m name log request_domain op st =
    (case agent_name_checks env auth now m name log request_domain op (ds_rows st) of
       Inl e \<Rightarrow> (Inl e, st)
     | Inr (r, domain, w) \<Rightarrow>
         (Inr r, record_update m (commit_rows
           ([Put (content_log_key m) (RawRow log), Put (did_key m) (RecRow r)]
            @ index_writes domain (bare_name name) m w) st)))"

definition update_agent_name ::
  "('e, 'p, 'k) did_env \<Rightarrow> auth_claims \<Rightarrow> nat \<Rightarrow> string \<Rightarrow> string \<Rightarrow> string \<Rightarrow> string option
   \<Rightarrow> agent_name_state \<Rightarrow> did_state \<Rightarrow> did_record did_step" where
  "update_agent_name env auth now m name log request_domain desired st =
    apply_agent_name_op env auth now m name log request_domain
      (case desired of NameActive \<Rightarrow> Activate | NameParked \<Rightarrow> Park) st"

definition remove_agent_name ::
  "('e, 'p, 'k) did_env \<Rightarrow> auth_claims \<Rightarrow> nat \<Rightarrow> string \<Rightarrow> string \<Rightarrow> string \<Rightarrow> string option
   \<Rightarrow> did_state \<Rightarrow> did_record did_step" where
  "remove_agent_name env auth now m name log request_domain st =
    apply_agent_name_op env auth now m name log request_domain Remove st"

section \<open>Witness proofs\<close>

definition witness_error :: app_error where
  "witness_error = Validation InvalidWitness"

fun json_set :: "string \<Rightarrow> json \<Rightarrow> json \<Rightarrow> json" where
  "json_set k v (JObj ms) = JObj (AList.update k v ms)"
| "json_set k v j = j"

fun merge_proof :: "string \<Rightarrow> json \<Rightarrow> json list \<Rightarrow> json list" where
  "merge_proof vid proof [] = [JObj [(''versionId'', JStr vid), (''proof'', JArr [proof])]]"
| "merge_proof vid proof (e # es) =
    (if get_str ''versionId'' e = Some vid
     then json_set ''proof'' (case get_array ''proof'' e of
            Some proofs \<Rightarrow> JArr (proofs @ [proof]) | None \<Rightarrow> JArr [proof]) e # es
     else e # merge_proof vid proof es)"

definition upload_witness_checks ::
  "('e, 'p, 'k) did_env \<Rightarrow> auth_claims \<Rightarrow> string \<Rightarrow> (string \<times> json) list \<Rightarrow> did_rows \<Rightarrow> (string \<times> json) res" where
  "upload_witness_checks env auth m entry rows =
    and_then (validate_mnemonic m) (\<lambda>_.
    and_then (get_authorized_record rows m auth) (\<lambda>_.
    and_then (ok_or witness_error (Option.bind (map_of entry ''versionId'') json_str)) (\<lambda>vid.
    and_then (ok_or witness_error (map_of entry ''proof'')) (\<lambda>proof.
    and_then (ok_or witness_error (get_raw rows (content_log_key m))) (\<lambda>log.
    if \<not> utf8_text log then Inl Internal
    else and_then (check (verify_witness_proof_for_version (de_lib env) log vid proof) witness_error) (\<lambda>_.
      Inr (vid, proof)))))))"

definition stored_proofs :: "('e, 'p, 'k) did_env \<Rightarrow> string option \<Rightarrow> json list" where
  "stored_proofs env bytes = (case Option.bind bytes (json_parse (de_lib env)) of
     Some (JArr es) \<Rightarrow> es | _ \<Rightarrow> [])"

definition upload_witness ::
  "('e, 'p, 'k) did_env \<Rightarrow> auth_claims \<Rightarrow> string \<Rightarrow> (string \<times> json) list \<Rightarrow> did_state \<Rightarrow> unit did_step" where
  "upload_witness env auth m entry st =
    (case upload_witness_checks env auth m entry (ds_rows st) of
       Inl e \<Rightarrow> (Inl e, st)
     | Inr (vid, proof) \<Rightarrow>
         (Inr (), invalidate_cached_content m (commit_rows [Put (content_witness_key m) (RawRow
            (json_show (de_lib env) (JArr (merge_proof vid proof
              (stored_proofs env (get_raw (ds_rows st) (content_witness_key m)))))))] st)))"

section \<open>Deleting, disabling, transferring and rolling back\<close>

definition slot_domain :: "('e, 'p, 'k) did_env \<Rightarrow> did_record \<Rightarrow> string" where
  "slot_domain env r = (if dr_domain r \<noteq> [] then dr_domain r else host_of_did env (dr_did_id r))"

definition ensure_slot_domain_matches ::
  "('e, 'p, 'k) did_env \<Rightarrow> did_record \<Rightarrow> string option \<Rightarrow> unit res" where
  "ensure_slot_domain_matches env r request_domain = (case requested request_domain of
     None \<Rightarrow> Inr ()
   | Some rq \<Rightarrow> check (slot_domain env r = [] \<or> eq_ignore_ascii_case rq (slot_domain env r))
                  (Validation OtherValidation))"

definition delete_checks ::
  "('e, 'p, 'k) did_env \<Rightarrow> auth_claims \<Rightarrow> string \<Rightarrow> string option \<Rightarrow> did_rows \<Rightarrow> did_record res" where
  "delete_checks env auth m request_domain rows =
    and_then (validate_mnemonic m) (\<lambda>_.
    and_then (get_authorized_record rows m auth) (\<lambda>r.
    and_then (check_record_host env auth (dr_did_id r)) (\<lambda>_.
    and_then (ensure_slot_domain_matches env r request_domain) (\<lambda>_. Inr r))))"

definition delete_did ::
  "('e, 'p, 'k) did_env \<Rightarrow> auth_claims \<Rightarrow> string \<Rightarrow> string option \<Rightarrow> did_state \<Rightarrow> string option did_step" where
  "delete_did env auth m request_domain st =
    (case delete_checks env auth m request_domain (ds_rows st) of
       Inl e \<Rightarrow> (Inl e, st)
     | Inr r \<Rightarrow>
         (Inr (dr_did_id r), invalidate_cached_content m (commit_rows
           [Del (did_key m), Del (content_log_key m), Del (content_witness_key m),
            Del (owner_key (dr_owner r) m)] st)))"

text \<open>Names resolve only through a stored, enabled binding of a live slot.\<close>

definition resolve_agent_name_to_did ::
  "('e, 'p, 'k) did_env \<Rightarrow> did_rows \<Rightarrow> string \<Rightarrow> string \<Rightarrow> string option res" where
  "resolve_agent_name_to_did env rows domain name =
    (if \<not> de_agent_names env then Inr None
     else case get_raw rows (agent_name_key domain (bare_name name)) of
       None \<Rightarrow> Inr None
     | Some m \<Rightarrow>
         if \<not> utf8_text m then Inr None
         else and_then (get_record rows (did_key m)) (\<lambda>ro. case ro of
             None \<Rightarrow> Inr None
           | Some r \<Rightarrow>
               if dr_disabled r \<or> dr_deleted_at r \<noteq> None then Inr None
               else if \<not> list_ex (\<lambda>e. an_name e = bare_name name \<and> an_enabled e) (dr_agent_names r)
               then Inr None
               else Inr (dr_did_id r)))"

definition resolve_did_or_agent_name :: "('e, 'p, 'k) did_env \<Rightarrow> did_rows \<Rightarrow> string \<Rightarrow> string res" where
  "resolve_did_or_agent_name env rows input =
    (let trimmed = trim input
     in if \<not> de_looks_like_name env trimmed then validate_did_format trimmed
        else and_then (ok_or (Validation OtherValidation) (agent_parse (de_lib env) trimmed))
          (\<lambda>(authority, local_name).
            and_then (resolve_agent_name_to_did env rows authority local_name)
              (ok_or (Validation OtherValidation))))"

definition change_owner_checks ::
  "('e, 'p, 'k) did_env \<Rightarrow> auth_claims \<Rightarrow> string \<Rightarrow> string \<Rightarrow> did_rows \<Rightarrow> (did_record \<times> string) res" where
  "change_owner_checks env auth m new_owner rows =
    and_then (validate_mnemonic m) (\<lambda>_.
    and_then (get_authorized_record rows m auth) (\<lambda>r.
    and_then (check_record_host env auth (dr_did_id r)) (\<lambda>_.
    and_then (resolve_did_or_agent_name env rows new_owner) (\<lambda>owner.
    if dr_owner r = owner then Inr (r, owner)
    else and_then (check (get_acl_entry (de_acl env) owner \<noteq> None) (Validation OtherValidation)) (\<lambda>_.
      Inr (r, owner))))))"

definition change_did_owner ::
  "('e, 'p, 'k) did_env \<Rightarrow> auth_claims \<Rightarrow> nat \<Rightarrow> string \<Rightarrow> string \<Rightarrow> did_state \<Rightarrow> did_record did_step" where
  "change_did_owner env auth now m new_owner st =
    (case change_owner_checks env auth m new_owner (ds_rows st) of
       Inl e \<Rightarrow> (Inl e, st)
     | Inr (r, owner) \<Rightarrow>
         if dr_owner r = owner then (Inr r, st)
         else let r' = r\<lparr>dr_owner := owner, dr_updated_at := now\<rparr>
         in (Inr r', commit_rows [Put (did_key m) (RecRow r'), Del (owner_key (dr_owner r) m),
               Put (owner_key owner m) (RawRow m)] st))"

definition set_did_disabled ::
  "('e, 'p, 'k) did_env \<Rightarrow> auth_claims \<Rightarrow> string \<Rightarrow> bool \<Rightarrow> did_state \<Rightarrow> unit did_step" where
  "set_did_disabled env auth m off st =
    (case and_then (validate_mnemonic m) (\<lambda>_.
          and_then (get_authorized_record (ds_rows st) m auth) (\<lambda>r.
          and_then (check_record_host env auth (dr_did_id r)) (\<lambda>_. Inr r))) of
       Inl e \<Rightarrow> (Inl e, st)
     | Inr r \<Rightarrow> (Inr (), invalidate_cached_content m
         (commit_rows [Put (did_key m) (RecRow (r\<lparr>dr_disabled := off\<rparr>))] st)))"

text \<open>How many of n entries a rollback keeps.\<close>

definition rollback_keep :: "nat option \<Rightarrow> nat \<Rightarrow> nat res" where
  "rollback_keep target n = (case target of
     None \<Rightarrow> if n < 2 then Inl (Validation OtherValidation) else Inr (n - 1)
   | Some t \<Rightarrow> if t < 1 \<or> n < t then Inl (Validation OtherValidation) else Inr t)"

definition rollback_checks ::
  "('e, 'p, 'k) did_env \<Rightarrow> auth_claims \<Rightarrow> string \<Rightarrow> nat option \<Rightarrow> did_rows
   \<Rightarrow> (did_record \<times> string \<times> nat) res" where
  "rollback_checks env auth m target rows =
    and_then (validate_mnemonic m) (\<lambda>_.
    and_then (get_authorized_record rows m auth) (\<lambda>r.
    and_then (check_record_host env auth (dr_did_id r)) (\<lambda>_.
    and_then (ok_or NotFound (get_raw rows (content_log_key m))) (\<lambda>content.
    if \<not> utf8_text content then Inl Internal
    else and_then (rollback_keep target (length (nonblank_lines content))) (\<lambda>keep.
      Inr (r, content, keep))))))"

definition truncated_log :: "nat \<Rightarrow> string \<Rightarrow> string" where
  "truncated_log keep content = join_with [CHR 0x0A] (take keep (nonblank_lines content))"

definition rolled_back_record ::
  "('e, 'p, 'k) did_env \<Rightarrow> nat \<Rightarrow> nat \<Rightarrow> string \<Rightarrow> did_record \<Rightarrow> did_record" where
  "rolled_back_record env now keep log r =
    r\<lparr>dr_version_count := keep, dr_did_id := extract_did_id (de_lib env) log,
      dr_content_size := length log, dr_updated_at := now,
      dr_services := map_option service_types_from_doc (last_state (de_lib env) log)\<rparr>"

definition rollback_did_to ::
  "('e, 'p, 'k) did_env \<Rightarrow> auth_claims \<Rightarrow> nat \<Rightarrow> string \<Rightarrow> nat option \<Rightarrow> did_state
   \<Rightarrow> (did_record \<times> log_metadata \<times> nat) did_step" where
  "rollback_did_to env auth now m target st =
    (case rollback_checks env auth m target (ds_rows st) of
       Inl e \<Rightarrow> (Inl e, st)
     | Inr (r, content, keep) \<Rightarrow>
         let removed = length (nonblank_lines content) - keep; log = truncated_log keep content;
             r' = rolled_back_record env now keep log r
         in if removed = 0
            then (Inr (r, extract_log_metadata (json_parse (de_lib env)) content, 0), st)
            else (Inr (r', extract_log_metadata (json_parse (de_lib env)) log, removed),
                  invalidate_cached_content m (commit_rows [Put (content_log_key m) (RawRow log),
                    Put (did_key m) (RecRow r'), Del (content_witness_key m)] st)))"

definition rollback_did ::
  "('e, 'p, 'k) did_env \<Rightarrow> auth_claims \<Rightarrow> nat \<Rightarrow> string \<Rightarrow> did_state \<Rightarrow> (did_record \<times> log_metadata) did_step" where
  "rollback_did env auth now m st = (case rollback_did_to env auth now m None st of
     (Inl e, st') \<Rightarrow> (Inl e, st')
   | (Inr (r, md, _), st') \<Rightarrow> (Inr (r, md), st'))"

section \<open>Reads\<close>

definition get_did_info ::
  "('e, 'p, 'k) did_env \<Rightarrow> auth_claims \<Rightarrow> string \<Rightarrow> did_rows \<Rightarrow> (did_record \<times> log_metadata option) res" where
  "get_did_info env auth m rows =
    and_then (validate_mnemonic m) (\<lambda>_.
    and_then (get_authorized_record rows m auth) (\<lambda>r.
    Inr (r, map_option (\<lambda>b. extract_log_metadata (json_parse (de_lib env)) (if utf8_text b then b else []))
          (get_raw rows (content_log_key m)))))"

definition get_raw_log :: "auth_claims \<Rightarrow> string \<Rightarrow> did_rows \<Rightarrow> string res" where
  "get_raw_log auth m rows =
    and_then (validate_mnemonic m) (\<lambda>_.
    and_then (get_authorized_record rows m auth) (\<lambda>_.
    and_then (ok_or NotFound (get_raw rows (content_log_key m))) (\<lambda>b.
    if utf8_text b then Inr b else Inl Internal)))"

definition get_did_log ::
  "('e, 'p, 'k) did_env \<Rightarrow> auth_claims \<Rightarrow> string \<Rightarrow> did_rows \<Rightarrow> log_entry_info list res" where
  "get_did_log env auth m rows =
    and_then (get_raw_log auth m rows) (\<lambda>b. Inr (parse_log_entries (json_parse (de_lib env)) b))"

record did_list_entry =
  dl_mnemonic :: string
  dl_owner :: string
  dl_created_at :: nat
  dl_updated_at :: nat
  dl_version_count :: nat
  dl_did_id :: "string option"
  dl_total_resolves :: nat
  dl_disabled :: bool
  dl_method :: "string option"
  dl_domain :: "string option"
  dl_agent_names :: "agent_name_entry list"
  dl_services :: "string list option"

definition nonempty :: "string \<Rightarrow> string option" where
  "nonempty s = (if s = [] then None else Some s)"

definition list_entry :: "(string \<Rightarrow> nat) \<Rightarrow> did_record \<Rightarrow> did_list_entry" where
  "list_entry resolves r =
    \<lparr>dl_mnemonic = dr_mnemonic r, dl_owner = dr_owner r, dl_created_at = dr_created_at r,
     dl_updated_at = dr_updated_at r, dl_version_count = dr_version_count r, dl_did_id = dr_did_id r,
     dl_total_resolves = resolves (dr_mnemonic r), dl_disabled = dr_disabled r,
     dl_method = nonempty (dr_method r), dl_domain = nonempty (dr_domain r),
     dl_agent_names = dr_agent_names r, dl_services = dr_services r\<rparr>"

definition MAX_LIST_LIMIT :: nat where
  "MAX_LIST_LIMIT = 1000"

definition page_of :: "nat option \<Rightarrow> nat option \<Rightarrow> 'a list \<Rightarrow> 'a list" where
  "page_of limit offset xs =
    take (min (case limit of Some l \<Rightarrow> l | None \<Rightarrow> MAX_LIST_LIMIT) MAX_LIST_LIMIT)
      (drop (case offset of Some k \<Rightarrow> k | None \<Rightarrow> 0) xs)"

text \<open>The records behind the rows of the owner index that really belong to the owner.\<close>

fun owned_records :: "did_rows \<Rightarrow> string \<Rightarrow> (string \<times> did_row) list \<Rightarrow> did_record list res" where
  "owned_records rows owner [] = Inr []"
| "owned_records rows owner ((k, v) # kvs) = (case v of
     RecRow _ \<Rightarrow> owned_records rows owner kvs
   | RawRow m \<Rightarrow>
       if \<not> utf8_text m then Inl Internal
       else and_then (get_record rows (did_key m)) (\<lambda>ro. case ro of
           None \<Rightarrow> owned_records rows owner kvs
         | Some r \<Rightarrow>
             if dr_owner r \<noteq> owner then owned_records rows owner kvs
             else and_then (owned_records rows owner kvs) (\<lambda>rs. Inr (r # rs))))"

definition all_records :: "did_rows \<Rightarrow> did_record list" where
  "all_records rows = List.map_filter (\<lambda>(_, v). case v of RecRow r \<Rightarrow> Some r | RawRow _ \<Rightarrow> None)
     (ks_scan ''did:'' rows)"

definition list_all_dids :: "(string \<Rightarrow> nat) \<Rightarrow> did_rows \<Rightarrow> did_list_entry list" where
  "list_all_dids resolves rows = map (list_entry resolves) (all_records rows)"

definition target_owner :: "auth_claims \<Rightarrow> string option \<Rightarrow> string" where
  "target_owner auth requested_owner =
    (if au_role auth = Admin then (case requested_owner of Some q \<Rightarrow> q | None \<Rightarrow> au_did auth)
     else au_did auth)"

definition list_dids ::
  "(string \<Rightarrow> nat) \<Rightarrow> auth_claims \<Rightarrow> string option \<Rightarrow> nat option \<Rightarrow> nat option \<Rightarrow> did_rows
   \<Rightarrow> did_list_entry list res" where
  "list_dids resolves auth requested_owner limit offset rows =
    (if au_role auth = Admin \<and> requested_owner = None then Inr (list_all_dids resolves rows)
     else let owner = target_owner auth requested_owner
     in and_then (owned_records rows owner (ks_scan (owner_prefix owner) rows)) (\<lambda>rs.
        Inr (page_of limit offset (map (list_entry resolves) rs))))"

definition page_records ::
  "auth_claims \<Rightarrow> bool \<Rightarrow> string option \<Rightarrow> did_rows \<Rightarrow> did_record list res" where
  "page_records auth replica requested_owner rows =
    (if (au_role auth = Admin \<or> replica) \<and> requested_owner = None then Inr (all_records rows)
     else let owner = target_owner auth requested_owner
     in owned_records rows owner (ks_scan (owner_prefix owner) rows))"

definition list_dids_page ::
  "('e, 'p, 'k) did_env \<Rightarrow> (string \<Rightarrow> nat) \<Rightarrow> auth_claims \<Rightarrow> bool \<Rightarrow> string option \<Rightarrow> string option
   \<Rightarrow> nat option \<Rightarrow> nat option \<Rightarrow> did_rows \<Rightarrow> ((did_record \<times> nat) list \<times> nat) res" where
  "list_dids_page env resolves auth replica requested_owner domain limit offset rows =
    and_then (page_records auth replica requested_owner rows) (\<lambda>rs0.
    let rs = (case domain of
          None \<Rightarrow> rs0
        | Some d \<Rightarrow> filter (\<lambda>r. eq_ignore_ascii_case (slot_domain env r) d) rs0);
        sorted = sort_key dr_mnemonic rs
    in Inr (map (\<lambda>r. (r, resolves (dr_mnemonic r))) (page_of limit offset sorted), length sorted))"

definition check_name :: "string \<Rightarrow> did_rows \<Rightarrow> bool res" where
  "check_name path rows = and_then (validate_custom_path path) (\<lambda>_. Inr (is_path_available rows path))"

record name_availability =
  na_name :: string
  na_domain :: string
  na_available :: bool
  na_reserved :: bool

definition check_agent_name :: "string \<Rightarrow> string \<Rightarrow> did_rows \<Rightarrow> name_availability res" where
  "check_agent_name domain name rows =
    (let bare = bare_name name
     in and_then (if bare = [] then Inr True
                  else case validate_agent_name bare of
                    Inr _ \<Rightarrow> Inr False
                  | Inl (AgentName NameReserved) \<Rightarrow> Inr True
                  | Inl e \<Rightarrow> Inl e) (\<lambda>reserved.
          Inr \<lparr>na_name = bare, na_domain = domain,
               na_available = (\<not> reserved \<and> get_raw rows (agent_name_key domain bare) = None),
               na_reserved = reserved\<rparr>))"

definition list_agent_names ::
  "('e, 'p, 'k) did_env \<Rightarrow> auth_claims \<Rightarrow> string \<Rightarrow> string option \<Rightarrow> did_rows
   \<Rightarrow> (string \<times> agent_name_entry list) res" where
  "list_agent_names env auth m request_domain rows =
    and_then (validate_mnemonic m) (\<lambda>_.
    and_then (get_authorized_record rows m auth) (\<lambda>r.
    and_then (ensure_slot_domain_matches env r request_domain) (\<lambda>_.
    Inr (slot_domain env r, dr_agent_names r))))"

definition MAX_RESOLVE_DIDS :: nat where
  "MAX_RESOLVE_DIDS = 64"

text \<open>The enabled names of the slot that holds this very DID, when the reader may read it.\<close>

definition served_names :: "auth_claims \<Rightarrow> did_rows \<Rightarrow> string \<Rightarrow> string list" where
  "served_names reader rows did = (case mnemonic_from_did did of
     None \<Rightarrow> []
   | Some m \<Rightarrow> (case get_record rows (did_key m) of
         Inr (Some r) \<Rightarrow>
           if dr_did_id r \<noteq> Some did \<or> dr_disabled r \<or> dr_deleted_at r \<noteq> None then []
           else if au_role reader \<noteq> Admin \<and> dr_owner r \<noteq> au_did reader then []
           else map an_name (filter an_enabled (dr_agent_names r))
       | _ \<Rightarrow> []))"

fun collect_names :: "auth_claims \<Rightarrow> did_rows \<Rightarrow> string list \<Rightarrow> (string \<times> string list) list
   \<Rightarrow> (string \<times> string list) list" where
  "collect_names reader rows [] out = out"
| "collect_names reader rows (d # ds) out =
    (if map_of out d \<noteq> None \<or> served_names reader rows d = [] then collect_names reader rows ds out
     else collect_names reader rows ds (out @ [(d, served_names reader rows d)]))"

definition resolve_agent_names ::
  "('e, 'p, 'k) did_env \<Rightarrow> auth_claims \<Rightarrow> string list \<Rightarrow> did_rows \<Rightarrow> (string \<times> string list) list res" where
  "resolve_agent_names env reader dids rows =
    (if \<not> de_agent_names env then Inr []
     else if MAX_RESOLVE_DIDS < length dids then Inl (Validation OtherValidation)
     else Inr (collect_names reader rows dids []))"

section \<open>Operations as steps\<close>

datatype did_op =
    Create "string list" "string option" bool "string option"
  | Register string string bool "string option"
  | Publish string string "string option"
  | UpdateName string string string "string option" agent_name_state
  | RemoveName string string string "string option"
  | UploadWitness string "(string \<times> json) list"
  | Delete string "string option"
  | ChangeOwner string string
  | SetDisabled string bool
  | Rollback string "nat option"

text \<open>A step: the state after an operation, and whether the operation was refused.\<close>

definition void :: "'a did_step \<Rightarrow> app_error option \<times> did_state" where
  "void p = (case p of (Inl e, st) \<Rightarrow> (Some e, st) | (Inr _, st) \<Rightarrow> (None, st))"

definition did_step ::
  "('e, 'p, 'k) did_env \<Rightarrow> auth_claims \<Rightarrow> nat \<Rightarrow> did_op \<Rightarrow> did_state \<Rightarrow> app_error option \<times> did_state" where
  "did_step env auth now op st = (case op of
     Create picks path force domain \<Rightarrow> void (create_did env auth now picks path force domain st)
   | Register path log force domain \<Rightarrow> void (register_did_atomic env auth now path log force domain st)
   | Publish m log rd \<Rightarrow> void (publish_did env auth now m log rd st)
   | UpdateName m n log rd desired \<Rightarrow> void (update_agent_name env auth now m n log rd desired st)
   | RemoveName m n log rd \<Rightarrow> void (remove_agent_name env auth now m n log rd st)
   | UploadWitness m entry \<Rightarrow> void (upload_witness env auth m entry st)
   | Delete m rd \<Rightarrow> void (delete_did env auth m rd st)
   | ChangeOwner m owner \<Rightarrow> void (change_did_owner env auth now m owner st)
   | SetDisabled m off \<Rightarrow> void (set_did_disabled env auth m off st)
   | Rollback m target \<Rightarrow> void (rollback_did_to env auth now m target st))"

end
