(* ===== verification/DidInv.thy ===== *)
theory DidInv
  imports DidOps
begin

text \<open>
  The consistency of the dids keyspace under the operations of DidOps: every row is of the kind
  its key says, the owner index lists exactly the records' owners, and a record's version count
  and size agree with the stored log. Each operation is shown to be the change of one slot
  (slot_effect), from which the properties follow.
\<close>

section \<open>Slot names\<close>

definition slot_char :: "char \<Rightarrow> bool" where
  "slot_char c \<longleftrightarrow> is_alnum c \<or> c \<in> {CHR ''-'', CHR ''_'', CHR ''/'', CHR ''.''}"

definition slot_name :: "string \<Rightarrow> bool" where
  "slot_name m \<longleftrightarrow> m \<noteq> [] \<and> list_all slot_char m"

lemma slot_char_facts: "\<not> slot_char (CHR '':'')" "slot_char (CHR ''/'')" "slot_char (CHR ''.'')"
    "slot_char (CHR ''-'')" "slot_char (CHR ''_'')"
  by code_simp+

lemma slot_name_no_colon: "slot_name m \<Longrightarrow> CHR '':'' \<notin> set m"
  using slot_char_facts(1) by (auto simp: slot_name_def list_all_iff)

lemma seg_slot_char: "seg_char c \<Longrightarrow> slot_char c"
  using slot_char_facts(4) by (auto simp: seg_char_def slot_char_def is_alnum_def)

lemma mnemonic_slot_name: "validate_mnemonic m = Inr u \<Longrightarrow> slot_name m"
proof -
  assume "validate_mnemonic m = Inr u"
  then have o: "is_ok (validate_mnemonic m)" by simp
  then have "m \<noteq> []" by (auto simp: validate_mnemonic_def validate_custom_path_def)
  then show ?thesis using mnemonic_chars[OF o] seg_slot_char slot_char_facts
    by (auto simp: slot_name_def list_all_iff)
qed

lemma custom_slot_name: "validate_custom_path m = Inr u \<Longrightarrow> slot_name m"
  using mnemonic_slot_name[of m u] by (auto simp: validate_mnemonic_def validate_custom_path_def)

lemma root_slot_name: "slot_name ''.well-known''"
  by code_simp

lemma webs_slot_name:
  assumes "validate_webs_mnemonic m = Inr u"
  shows "slot_name m"
proof -
  let ?s = "split_on (CHR ''/'') m"
  have n: "m \<noteq> []" and l: "is_ok (validate_path_segments True (butlast ?s))"
    and a: "is_ok (validate_aid_segment (last ?s))"
    using assms by (auto simp: validate_webs_mnemonic_def Let_def res_simps is_ok_iff split: if_splits)
  have b: "slot_char c" if "p \<in> set (butlast ?s)" "c \<in> set p" for p c
    using l that segment_chars seg_slot_char by (auto simp: validate_path_segments_ok list_all_iff)
  have d: "slot_char c" if "c \<in> set (last ?s)" for c
    using a that by (auto simp: validate_aid_segment_def slot_char_def list_all_iff split: if_splits)
  have "slot_char c" if c: "c \<in> set m" for c
  proof (cases "c = CHR ''/''")
    case False
    then obtain p where p: "p \<in> set ?s" "c \<in> set p" using chars_of_split_on c by blast
    have "set ?s = set (butlast ?s) \<union> {last ?s}"
      using append_butlast_last_id[OF split_on_not_Nil[of "CHR ''/''" m]]
      by (metis Un_commute insert_is_Un list.simps(15) rotate1.simps(2) set_append set_rotate1
          append.left_neutral Un_insert_right set_simps(1))
    then show ?thesis using p b d by blast
  qed (simp add: slot_char_facts)
  then show ?thesis using n by (auto simp: slot_name_def list_all_iff)
qed

lemma slot_char_ascii: "slot_char c \<Longrightarrow> (of_char c :: nat) < 128"
proof -
  have a: "(of_char (CHR ''z'') :: nat) < 128" "(of_char (CHR ''9'') :: nat) < 128"
    "(of_char (CHR ''Z'') :: nat) < 128" "(of_char (CHR ''-'') :: nat) < 128"
    "(of_char (CHR ''_'') :: nat) < 128" "(of_char (CHR ''/'') :: nat) < 128"
    "(of_char (CHR ''.'') :: nat) < 128" by simp_all
  assume "slot_char c"
  then show ?thesis using a
    by (auto simp: slot_char_def is_alnum_def is_lower_def is_upper_def is_digit_def less_eq_char_def
        intro: le_less_trans)
qed

lemma slot_name_utf8: "slot_name m \<Longrightarrow> utf8_text m"
  using slot_char_ascii by (auto simp: utf8_text_def slot_name_def list_all_iff intro!: utf8_ascii)

section \<open>The invariant\<close>

definition rec_at :: "did_rows \<Rightarrow> string \<Rightarrow> did_record option" where
  "rec_at rows m = (case ks_get rows (did_key m) of Some (RecRow r) \<Rightarrow> Some r | _ \<Rightarrow> None)"

definition row_typed :: "string \<Rightarrow> did_row \<Rightarrow> bool" where
  "row_typed k v \<longleftrightarrow> (case v of
     RecRow r \<Rightarrow> k = did_key (dr_mnemonic r) \<and> slot_name (dr_mnemonic r)
   | RawRow b \<Rightarrow> (\<exists>m. slot_name m \<and> (k = content_log_key m \<or> k = content_witness_key m))
        \<or> (slot_name b \<and> ((\<exists>owner. k = owner_key owner b) \<or> (\<exists>d n. k = agent_name_key d n))))"

definition rows_typed :: "did_rows \<Rightarrow> bool" where
  "rows_typed rows \<longleftrightarrow> ks_ok rows \<and> (\<forall>k v. ks_get rows k = Some v \<longrightarrow> row_typed k v)"

text \<open>What a slot's record, log and witness file say about each other.\<close>

definition slot_coherent :: "did_record option \<Rightarrow> string option \<Rightarrow> string option \<Rightarrow> bool" where
  "slot_coherent r log w = (case r of
     None \<Rightarrow> log = None \<and> w = None
   | Some r' \<Rightarrow> (case log of
         None \<Rightarrow> dr_version_count r' = 0 \<and> dr_content_size r' = 0
       | Some b \<Rightarrow> 0 < dr_version_count r' \<and> dr_content_size r' = length b))"

definition owns :: "did_record option \<Rightarrow> string \<Rightarrow> bool" where
  "owns r owner = (case r of Some r' \<Rightarrow> dr_owner r' = owner | None \<Rightarrow> False)"

definition did_inv :: "did_rows \<Rightarrow> bool" where
  "did_inv rows \<longleftrightarrow> rows_typed rows
   \<and> (\<forall>m owner. slot_name m \<longrightarrow>
        ks_get rows (owner_key owner m) = (if owns (rec_at rows m) owner then Some (RawRow m) else None))
   \<and> (\<forall>m. slot_coherent (rec_at rows m) (get_raw rows (content_log_key m)) (get_raw rows (content_witness_key m)))"

definition slot_effect ::
  "did_rows \<Rightarrow> did_rows \<Rightarrow> string \<Rightarrow> did_record option \<Rightarrow> string option \<Rightarrow> string option \<Rightarrow> bool" where
  "slot_effect rows rows' p r log w \<longleftrightarrow> rows_typed rows'
   \<and> (\<forall>m. rec_at rows' m = (if m = p then r else rec_at rows m))
   \<and> (\<forall>m. get_raw rows' (content_log_key m) = (if m = p then log else get_raw rows (content_log_key m)))
   \<and> (\<forall>m. get_raw rows' (content_witness_key m) = (if m = p then w else get_raw rows (content_witness_key m)))
   \<and> (\<forall>m owner. slot_name m \<longrightarrow> ks_get rows' (owner_key owner m) =
        (if m = p then (if owns r owner then Some (RawRow p) else None) else ks_get rows (owner_key owner m)))"

lemma typed_did_row:
  assumes "rows_typed rows" "ks_get rows (did_key m) = Some v"
  shows "\<exists>r. v = RecRow r \<and> dr_mnemonic r = m \<and> slot_name m"
proof -
  have "row_typed (did_key m) v" using assms by (simp add: rows_typed_def)
  then show ?thesis by (auto simp: row_typed_def split: did_row.splits)
qed

lemma typed_raw_row:
  assumes "rows_typed rows" "ks_get rows k = Some v" "\<And>m. k \<noteq> did_key m"
  shows "\<exists>b. v = RawRow b"
proof -
  have "row_typed k v" using assms(1,2) by (simp add: rows_typed_def)
  then show ?thesis using assms(3) by (auto simp: row_typed_def split: did_row.splits)
qed

lemma get_rec_at:
  "rows_typed rows \<Longrightarrow> ks_get rows (did_key m) = map_option RecRow (rec_at rows m)"
  using typed_did_row[of rows m] by (cases "ks_get rows (did_key m)") (auto simp: rec_at_def)

lemma rec_at_mnemonic: "rows_typed rows \<Longrightarrow> rec_at rows m = Some r \<Longrightarrow> dr_mnemonic r = m \<and> slot_name m"
  using typed_did_row[of rows m] by (auto simp: rec_at_def split: option.splits did_row.splits)

lemma typed_record: "rows_typed rows \<Longrightarrow> get_record rows (did_key m) = Inr (rec_at rows m)"
  by (cases "rec_at rows m") (simp_all add: get_record_def get_rec_at)

lemma typed_has: "rows_typed rows \<Longrightarrow> ks_has rows (did_key m) \<longleftrightarrow> rec_at rows m \<noteq> None"
  by (auto simp: ks_has_def get_rec_at)

definition write_typed :: "did_row ks_write \<Rightarrow> bool" where
  "write_typed w = (case w of Put k v \<Rightarrow> row_typed k v | Del k \<Rightarrow> True)"

lemma typed_commit: "rows_typed rows \<Longrightarrow> list_all write_typed ws \<Longrightarrow> rows_typed (ks_commit ws rows)"
proof (induction ws arbitrary: rows)
  case (Cons w ws)
  have "rows_typed (apply_write rows w)"
    using Cons.prems by (cases w) (auto simp: rows_typed_def ks_simps write_typed_def split: if_splits)
  then show ?case using Cons by (simp add: ks_commit_def)
qed (simp add: ks_commit_def)

lemma write_typed_simps [simp]:
  "write_typed (Del k)"
  "write_typed (Put (did_key m) (RecRow r)) \<longleftrightarrow> dr_mnemonic r = m \<and> slot_name m"
  "slot_name m \<Longrightarrow> write_typed (Put (content_log_key m) (RawRow b))"
  "slot_name m \<Longrightarrow> write_typed (Put (content_witness_key m) (RawRow b))"
  "slot_name m \<Longrightarrow> write_typed (Put (owner_key owner m) (RawRow m))"
  "slot_name m \<Longrightarrow> write_typed (Put (agent_name_key d n) (RawRow m))"
  by (auto simp: write_typed_def row_typed_def)

lemma write_typed_names [simp]:
  "slot_name m \<Longrightarrow> list_all write_typed (name_index_writes m d claimed released)"
  by (auto simp: name_index_writes_def put_raws_def del_keys_def list_all_iff)

lemma inv_step:
  assumes "did_inv rows" "slot_effect rows rows' p r log w" "slot_coherent r log w"
  shows "did_inv rows'"
  using assms by (auto simp: did_inv_def slot_effect_def)

section \<open>Each operation changes one slot\<close>

definition authorised :: "auth_claims \<Rightarrow> did_record option \<Rightarrow> bool" where
  "authorised auth r \<longleftrightarrow> (case r of
     None \<Rightarrow> True | Some r' \<Rightarrow> dr_owner r' = au_did auth \<or> au_role auth = Admin)"

definition name_keys :: "string set" where
  "name_keys = {k. \<exists>d n. k = agent_name_key d n}"

lemma name_keys_simps [simp]:
  "agent_name_key d n \<in> name_keys" "did_key x \<notin> name_keys" "content_log_key x \<notin> name_keys"
  "content_witness_key x \<notin> name_keys" "owner_key y x \<notin> name_keys"
  by (auto simp: name_keys_def)

definition name_at :: "did_rows \<Rightarrow> string \<Rightarrow> string \<Rightarrow> string option" where
  "name_at rows d n = get_raw rows (agent_name_key d n)"

text \<open>Index entries are unchanged, or held by the slot (or free) before and after; those in the
  exempted set may also be removed.\<close>

definition names_effect :: "did_rows \<Rightarrow> did_rows \<Rightarrow> string \<Rightarrow> string set \<Rightarrow> bool" where
  "names_effect rows rows' p exempt \<longleftrightarrow> (\<forall>d n. name_at rows' d n = name_at rows d n
     \<or> (name_at rows d n \<in> {None, Some p} \<and> name_at rows' d n \<in> {None, Some p})
     \<or> (agent_name_key d n \<in> exempt \<and> name_at rows' d n = None))"

lemma get_raw_name_writes:
  "k \<notin> range (agent_name_key d) \<Longrightarrow> ks_get (ks_commit (name_index_writes m d claimed released) rows) k = ks_get rows k"
  by (auto simp: name_index_writes_def ks_commit_append get_put_raws get_del_keys)

lemma name_writes_other [simp]:
  "ks_get (ks_commit (name_index_writes m d claimed released) rows) (did_key x) = ks_get rows (did_key x)"
  "ks_get (ks_commit (name_index_writes m d claimed released) rows) (content_log_key x) = ks_get rows (content_log_key x)"
  "ks_get (ks_commit (name_index_writes m d claimed released) rows) (content_witness_key x) = ks_get rows (content_witness_key x)"
  "ks_get (ks_commit (name_index_writes m d claimed released) rows) (owner_key y x) = ks_get rows (owner_key y x)"
  by (auto intro!: get_raw_name_writes)

lemma claim_names_free:
  "claim_names rows m d ns = Inr claimed \<Longrightarrow> n \<in> set claimed \<Longrightarrow> name_at rows d n \<in> {None, Some m}"
proof (induction ns arbitrary: claimed)
  case (Cons x xs)
  then show ?case
    by (auto simp: name_at_def res_simps
        split: sum.splits option.splits if_splits app_error.splits agent_name_error.splits)
qed simp

lemma released_ours: "n \<in> set (released_names rows m d claimed es) \<Longrightarrow> name_at rows d n = Some m"
  by (auto simp: released_names_def name_at_def)

lemma names_effect_index:
  assumes "\<And>k. k \<in> name_keys \<Longrightarrow>
      ks_get rows' k = ks_get (ks_commit (name_index_writes m d claimed released) rows) k"
    "\<And>n. n \<in> set claimed \<Longrightarrow> name_at rows d n \<in> {None, Some m}"
    "\<And>n. n \<in> set released \<Longrightarrow> name_at rows d n = Some m"
  shows "names_effect rows rows' m {}"
proof -
  have "name_at rows' d' n' = name_at rows d' n' \<or>
      (name_at rows d' n' \<in> {None, Some m} \<and> name_at rows' d' n' \<in> {None, Some m})" for d' n'
  proof -
    have k: "ks_get rows' (agent_name_key d' n') = (if agent_name_key d' n' \<in> agent_name_key d ` set released then None
        else if agent_name_key d' n' \<in> agent_name_key d ` set claimed then Some (RawRow m)
        else ks_get rows (agent_name_key d' n'))"
      using assms(1)[of "agent_name_key d' n'"]
      by (auto simp: name_index_writes_def ks_commit_append get_put_raws get_del_keys)
    have c: "name_at rows d' n' \<in> {None, Some m}" if q: "agent_name_key d' n' \<in> agent_name_key d ` (set claimed \<union> set released)"
    proof -
      obtain n where "agent_name_key d' n' = agent_name_key d n" "n \<in> set claimed \<union> set released"
        using q by blast
      then show ?thesis using assms(2)[of n] assms(3)[of n] by (auto simp: name_at_def)
    qed
    show ?thesis using k c by (auto simp: name_at_def get_raw_def)
  qed
  then show ?thesis by (auto simp: names_effect_def)
qed

text \<open>The outcome of an accepted operation on the slot p.\<close>

definition slot_step ::
  "auth_claims \<Rightarrow> (did_record option \<Rightarrow> did_record option \<Rightarrow> bool) \<Rightarrow> did_rows \<Rightarrow> did_rows
   \<Rightarrow> string \<Rightarrow> string set \<Rightarrow> bool" where
  "slot_step auth q rows rows' p exempt \<longleftrightarrow> authorised auth (rec_at rows p)
   \<and> names_effect rows rows' p exempt \<and> q (rec_at rows p) (rec_at rows' p)
   \<and> (\<exists>r log w. slot_effect rows rows' p r log w \<and> slot_coherent r log w)"

lemma slot_stepI:
  "\<lbrakk>slot_effect rows rows' p r log w; slot_coherent r log w; names_effect rows rows' p exempt;
    authorised auth (rec_at rows p); q (rec_at rows p) r\<rbrakk> \<Longrightarrow> slot_step auth q rows rows' p exempt"
proof -
  assume a: "slot_effect rows rows' p r log w" "slot_coherent r log w" "names_effect rows rows' p exempt"
    "authorised auth (rec_at rows p)" "q (rec_at rows p) r"
  then have "rec_at rows' p = r" by (simp add: slot_effect_def)
  then show ?thesis using a unfolding slot_step_def by blast
qed

definition rec_size :: "did_record option \<Rightarrow> nat" where
  "rec_size r = (case r of Some x \<Rightarrow> dr_content_size x | None \<Rightarrow> 0)"

text \<open>What the quota checks of an accepted operation allow the slot's record to become.\<close>

definition quota_ok ::
  "('e, 'p, 'k) did_env \<Rightarrow> auth_claims \<Rightarrow> did_rows \<Rightarrow> did_record option \<Rightarrow> did_record option \<Rightarrow> bool" where
  "quota_ok env auth rows old new \<longleftrightarrow>
     (old = None \<longrightarrow> owns new (au_did auth) \<and> check_did_count_limit env auth rows = Inr ())
   \<and> (rec_size new \<le> rec_size old
      \<or> check_total_size_limit env auth rows (rec_size old) (rec_size new) = Inr ())"

lemma slot_stepD:
  assumes "slot_step auth q rows rows' p ex"
  shows "\<exists>log w. slot_effect rows rows' p (rec_at rows' p) log w \<and> slot_coherent (rec_at rows' p) log w"
    "authorised auth (rec_at rows p)" "names_effect rows rows' p ex" "q (rec_at rows p) (rec_at rows' p)"
proof -
  obtain r log w where e: "slot_effect rows rows' p r log w" "slot_coherent r log w"
    using assms unfolding slot_step_def by blast
  then have "r = rec_at rows' p" by (simp add: slot_effect_def)
  then show "\<exists>log w. slot_effect rows rows' p (rec_at rows' p) log w \<and> slot_coherent (rec_at rows' p) log w"
    using e by blast
  show "authorised auth (rec_at rows p)" "names_effect rows rows' p ex" "q (rec_at rows p) (rec_at rows' p)"
    using assms by (simp_all add: slot_step_def)
qed

lemma quota_ok_Some: "quota_ok env auth rows (Some r) new \<longleftrightarrow> rec_size new \<le> dr_content_size r
    \<or> check_total_size_limit env auth rows (dr_content_size r) (rec_size new) = Inr ()"
  by (simp add: quota_ok_def rec_size_def)

lemma rec_size_simps [simp]: "rec_size None = 0" "rec_size (Some r) = dr_content_size r"
  by (simp_all add: rec_size_def)

lemma slot_step_inv: "did_inv rows \<Longrightarrow> slot_step auth q rows rows' p ex \<Longrightarrow> did_inv rows'"
  using inv_step by (auto simp: slot_step_def)

lemma inv_typed: "did_inv rows \<Longrightarrow> rows_typed rows"
  by (simp add: did_inv_def)

lemma inv_owner_row: "did_inv rows \<Longrightarrow> slot_name m \<Longrightarrow>
    ks_get rows (owner_key owner m) = (if owns (rec_at rows m) owner then Some (RawRow m) else None)"
  by (simp add: did_inv_def)

lemma authorized_record_Inr:
  assumes "rows_typed rows"
  shows "get_authorized_record rows m auth = Inr r \<longleftrightarrow>
    rec_at rows m = Some r \<and> (dr_owner r = au_did auth \<or> au_role auth = Admin)"
  by (auto simp: get_authorized_record_def typed_record[OF assms] res_simps)

text \<open>Committing a new version of an existing record with its log: publish, the agent-name verbs
  and rollback.\<close>

lemma version_effect:
  assumes i: "did_inv rows" and r: "rec_at rows m = Some r" "dr_owner r' = dr_owner r"
    "dr_mnemonic r' = dr_mnemonic r" "slot_name m"
    and x: "\<And>k. k \<notin> name_keys \<Longrightarrow> ks_get rows' k = ks_get
        (ks_commit ([Put (content_log_key m) (RawRow log), Put (did_key m) (RecRow r')] @ ws) rows) k"
    and w: "ws = [] \<or> ws = [Del (content_witness_key m)]" and t: "rows_typed rows'"
  shows "\<exists>w. slot_effect rows rows' m (Some r') (Some log) w"
proof -
  have s: "get_raw rows' (content_log_key y) = (if y = m then Some log else get_raw rows (content_log_key y))"
    "rec_at rows' y = (if y = m then Some r' else rec_at rows y)"
    "ks_get rows' (owner_key z y) = ks_get rows (owner_key z y)"
    "get_raw rows' (content_witness_key y) = (if y = m \<and> ws \<noteq> [] then None else get_raw rows (content_witness_key y))"
    for y z
    using w by (auto simp: get_raw_def rec_at_def x ks_simps)
  have o: "owns (Some r') owner = owns (rec_at rows m) owner" for owner using r by (simp add: owns_def)
  have "slot_effect rows rows' m (Some r') (Some log)
      (if ws \<noteq> [] then None else get_raw rows (content_witness_key m))"
    unfolding slot_effect_def s o using t inv_owner_row[OF i] by auto
  then show ?thesis ..
qed

lemma create_path_cases:
  assumes i: "did_inv (ds_rows st)" and k: "list_all slot_name picks"
    and c: "create_path auth picks path force st = (res, st1)"
  shows "(case res of
     Inl e \<Rightarrow> st1 = st
   | Inr p \<Rightarrow> slot_name p \<and>
       ((rec_at (ds_rows st) p = None \<and> st1 = st) \<or>
        (\<exists>ex. rec_at (ds_rows st) p = Some ex \<and> (dr_owner ex = au_did auth \<or> au_role auth = Admin)
           \<and> st1 = commit_rows (replace_writes auth p ex) st)))"
proof -
  note t = inv_typed[OF i]
  have r: "(case res of Inl e \<Rightarrow> st1 = st | Inr p \<Rightarrow> p = q \<and>
       ((rec_at (ds_rows st) p = None \<and> st1 = st) \<or>
        (\<exists>ex. rec_at (ds_rows st) p = Some ex \<and> (dr_owner ex = au_did auth \<or> au_role auth = Admin)
           \<and> st1 = commit_rows (replace_writes auth p ex) st)))"
    if "resolve_path_for_create auth q force st = (res, st1)" for q
    using that typed_has[OF t, of q] typed_record[OF t, of q]
    by (cases "rec_at (ds_rows st) q")
      (auto simp: resolve_path_for_create_def is_path_available_def split: if_splits)
  show ?thesis
  proof (cases path)
    case None
    then have e: "res = generate_unique_mnemonic picks (ds_rows st)" "st1 = st"
      using c None by (auto simp: create_path_def)
    show ?thesis
    proof (cases res)
      case (Inr p)
      then have f: "find (\<lambda>m. \<not> ks_has (ds_rows st) (did_key m)) (take 100 picks) = Some p"
        using e(1) by (simp add: generate_unique_mnemonic_def res_simps)
      have "p \<in> set picks" "\<not> ks_has (ds_rows st) (did_key p)"
        using find_mem[OF f] in_set_takeD by auto
      then show ?thesis using Inr e(2) k typed_has[OF t] by (auto simp: list_all_iff)
    qed (use e in simp)
  next
    case (Some q)
    show ?thesis
    proof (cases "q = ''.well-known''")
      case True
      then show ?thesis using c Some r[of q] root_slot_name
        by (auto simp: create_path_def split: if_splits sum.splits)
    next
      case False
      show ?thesis
      proof (cases "validate_custom_path q")
        case (Inl e)
        then show ?thesis using c Some False by (auto simp: create_path_def)
      next
        case (Inr u)
        then show ?thesis using c Some False r[of q] custom_slot_name[OF Inr]
          by (auto simp: create_path_def split: sum.splits)
      qed
    qed
  qed
qed

lemma count_limit_admin: "au_role auth = Admin \<Longrightarrow> check_did_count_limit env auth rows = Inr ()"
  by (simp add: check_did_count_limit_def)

lemma rec_at_commit_other:
  "did_key m \<notin> write_key ` set ws \<Longrightarrow> rec_at (ks_commit ws rows) m = rec_at rows m"
  by (simp add: rec_at_def ks_get_commit_other)

lemma create_cases:
  assumes i: "did_inv (ds_rows st)" and k: "list_all slot_name picks"
    and c: "create_did env auth now picks path force domain st = (res, st')"
  shows "(case res of
     Inl e \<Rightarrow> st' = st
   | Inr x \<Rightarrow> (let p = ur_mnemonic x in slot_name p \<and> authorised auth (rec_at (ds_rows st) p)
       \<and> (\<exists>ws. ds_rows st' = ks_commit (ws @ [Put (did_key p) (RecRow (empty_slot (au_did auth) p now domain)),
              Put (owner_key (au_did auth) p) (RawRow p)]) (ds_rows st)
            \<and> ((ws = [] \<and> rec_at (ds_rows st) p = None) \<or>
               (\<exists>ex. rec_at (ds_rows st) p = Some ex \<and> ws = replace_writes auth p ex)))
       \<and> (rec_at (ds_rows st) p = None \<longrightarrow> check_did_count_limit env auth (ds_rows st) = Inr ())))"
proof -
  note t = inv_typed[OF i]
  obtain r1 st1 where p: "create_path auth picks path force st = (r1, st1)" by force
  note d = create_path_cases[OF i k p]
  show ?thesis
  proof (cases r1)
    case (Inl e)
    then show ?thesis using c p d by (auto simp: create_did_def)
  next
    case (Inr q)
    show ?thesis
    proof (cases "rec_at (ds_rows st) q")
      case None
      then have "st1 = st" "slot_name q" using d Inr by auto
      then show ?thesis using c p Inr None typed_record[OF t, of q]
        by (auto simp: create_did_def create_quota_def authorised_def commit_rows_def Let_def
            split: sum.splits intro!: exI[of _ "[]"])
    next
      case (Some ex)
      let ?ws = "replace_writes auth q ex"
      have o: "dr_owner ex = au_did auth \<or> au_role auth = Admin" and s: "slot_name q"
        and st1: "st1 = commit_rows ?ws st" using d Inr Some by auto
      have "rows_typed (ks_commit ?ws (ds_rows st))" using t by (intro typed_commit) (simp_all add: replace_writes_def)
      then have "get_record (ds_rows st1) (did_key q) = Inr (Some ex)"
        using Some by (simp add: typed_record st1 commit_rows_def rec_at_commit_other replace_writes_def)
      then have "create_quota env auth q (ds_rows st1) = Inr ()"
        using o by (auto simp: create_quota_def Let_def count_limit_admin)
      then show ?thesis using c p Inr Some o s
        by (auto simp: create_did_def authorised_def commit_rows_def st1 ks_commit_append Let_def
            intro!: exI[of _ ?ws])
    qed
  qed
qed

lemma names_unchanged:
  "(\<And>d n. ks_get rows' (agent_name_key d n) = ks_get rows (agent_name_key d n)) \<Longrightarrow> names_effect rows rows' p ex"
  by (simp add: names_effect_def name_at_def get_raw_def)

lemma create_slot_step:
  assumes i: "did_inv rows" and s: "slot_name p" and a: "authorised auth (rec_at rows p)"
    and r: "dr_owner r = au_did auth" "dr_mnemonic r = p" "dr_version_count r = 0" "dr_content_size r = 0"
    and w: "(ws = [] \<and> rec_at rows p = None) \<or> (\<exists>ex. rec_at rows p = Some ex \<and> ws = replace_writes auth p ex)"
    and e: "rows' = ks_commit (ws @ [Put (did_key p) (RecRow r), Put (owner_key (au_did auth) p) (RawRow p)]) rows"
    and qq: "q (rec_at rows p) (Some r)"
  shows "slot_step auth q rows rows' p {}"
proof -
  have t: "rows_typed rows'"
    unfolding e using inv_typed[OF i] s r(2) w by (intro typed_commit) (auto simp: replace_writes_def)
  have c: "slot_coherent (rec_at rows p) (get_raw rows (content_log_key p)) (get_raw rows (content_witness_key p))"
    using i by (simp add: did_inv_def)
  have g: "ks_get rows' (owner_key z y) = (if y = p then if z = au_did auth then Some (RawRow p) else None
      else ks_get rows (owner_key z y))" if "slot_name y" for y z
    using w owner_key_inj[OF slot_name_no_colon[OF that] slot_name_no_colon[OF s]] inv_owner_row[OF i s]
    by (auto simp: e ks_simps replace_writes_def owns_def split: if_splits)
  have h: "rec_at rows' y = (if y = p then Some r else rec_at rows y)"
    "get_raw rows' (content_log_key y) = (if y = p then None else get_raw rows (content_log_key y))"
    "get_raw rows' (content_witness_key y) = (if y = p then None else get_raw rows (content_witness_key y))" for y
    using w c by (auto simp: e rec_at_def get_raw_def replace_writes_def ks_simps slot_coherent_def
        split: option.splits did_row.splits)
  have "slot_effect rows rows' p (Some r) None None"
    using t g h r(1) by (auto simp: slot_effect_def owns_def)
  moreover have "slot_coherent (Some r) None None" using r by (simp add: slot_coherent_def)
  moreover have "names_effect rows rows' p {}"
    using w by (intro names_unchanged) (auto simp: e ks_simps replace_writes_def)
  ultimately show ?thesis using a qq by (auto intro: slot_stepI)
qed

lemma delete_slot_step:
  assumes i: "did_inv rows" and s: "slot_name m" and r: "rec_at rows m = Some r" "authorised auth (Some r)"
    and e: "rows' = ks_commit [Del (did_key m), Del (content_log_key m), Del (content_witness_key m),
      Del (owner_key (dr_owner r) m)] rows"
    and qq: "q (Some r) None"
  shows "slot_step auth q rows rows' m {}"
proof -
  have t: "rows_typed rows'" unfolding e by (intro typed_commit inv_typed[OF i]) simp
  have g: "ks_get rows' (owner_key z y) = (if y = m then None else ks_get rows (owner_key z y))"
    if "slot_name y" for y z
    using owner_key_inj[OF slot_name_no_colon[OF that] slot_name_no_colon[OF s]] inv_owner_row[OF i s] r(1)
    by (auto simp: e ks_simps owns_def)
  have h: "rec_at rows' y = (if y = m then None else rec_at rows y)"
    "get_raw rows' (content_log_key y) = (if y = m then None else get_raw rows (content_log_key y))"
    "get_raw rows' (content_witness_key y) = (if y = m then None else get_raw rows (content_witness_key y))" for y
    by (auto simp: e rec_at_def get_raw_def ks_simps)
  have "slot_effect rows rows' m None None None"
    using t g h by (auto simp: slot_effect_def owns_def)
  moreover have "slot_coherent None None None" by (simp add: slot_coherent_def)
  moreover have "names_effect rows rows' m {}" by (intro names_unchanged) (simp add: e ks_simps)
  ultimately show ?thesis using r qq by (auto intro: slot_stepI)
qed

lemma owner_slot_step:
  assumes i: "did_inv rows" and s: "slot_name m" and r: "rec_at rows m = Some r" "authorised auth (Some r)"
    and o: "dr_owner r \<noteq> owner" and r': "r' = r\<lparr>dr_owner := owner, dr_updated_at := now\<rparr>"
    and e: "rows' = ks_commit [Put (did_key m) (RecRow r'), Del (owner_key (dr_owner r) m),
      Put (owner_key owner m) (RawRow m)] rows"
    and qq: "q (Some r) (Some r')"
  shows "slot_step auth q rows rows' m {}"
proof -
  have t: "rows_typed rows'" unfolding e
    using s rec_at_mnemonic[OF inv_typed[OF i] r(1)] by (intro typed_commit inv_typed[OF i]) (simp add: r')
  have g: "ks_get rows' (owner_key z y) = (if y = m then if z = owner then Some (RawRow m) else None
      else ks_get rows (owner_key z y))" if "slot_name y" for y z
    using owner_key_inj[OF slot_name_no_colon[OF that] slot_name_no_colon[OF s]] inv_owner_row[OF i s] r(1)
    by (auto simp: e ks_simps owns_def)
  have h: "rec_at rows' y = (if y = m then Some r' else rec_at rows y)"
    "get_raw rows' (content_log_key y) = get_raw rows (content_log_key y)"
    "get_raw rows' (content_witness_key y) = get_raw rows (content_witness_key y)" for y
    by (auto simp: e rec_at_def get_raw_def ks_simps)
  have "slot_effect rows rows' m (Some r') (get_raw rows (content_log_key m)) (get_raw rows (content_witness_key m))"
    using t g h by (auto simp: slot_effect_def owns_def r')
  moreover have "slot_coherent (Some r') (get_raw rows (content_log_key m)) (get_raw rows (content_witness_key m))"
  proof -
    have "slot_coherent (Some r) (get_raw rows (content_log_key m)) (get_raw rows (content_witness_key m))"
      using i r(1) unfolding did_inv_def by metis
    then show ?thesis by (auto simp: slot_coherent_def r' split: option.splits)
  qed
  moreover have "names_effect rows rows' m {}" by (intro names_unchanged) (simp add: e ks_simps)
  ultimately show ?thesis using r qq by (auto intro: slot_stepI)
qed

text \<open>Writing the record or the witness file alone.\<close>

lemma touch_slot_step:
  assumes i: "did_inv rows" and s: "slot_name m" and r: "rec_at rows m = Some r" "authorised auth (Some r)"
    and e: "rows' = ks_commit [Put (did_key m) (RecRow (r\<lparr>dr_disabled := b\<rparr>))] rows
      \<or> rows' = ks_commit [Put (content_witness_key m) (RawRow wb)] rows"
    and qq: "q (Some r) (Some (r\<lparr>dr_disabled := b\<rparr>))" "q (Some r) (Some r)"
  shows "slot_step auth q rows rows' m {}"
proof -
  have t: "rows_typed rows'"
    using e s rec_at_mnemonic[OF inv_typed[OF i] r(1)] by (auto intro!: typed_commit inv_typed[OF i])
  define r' where "r' = (if rows' = ks_commit [Put (did_key m) (RecRow (r\<lparr>dr_disabled := b\<rparr>))] rows
    then r\<lparr>dr_disabled := b\<rparr> else r)"
  define w' where "w' = (if rows' = ks_commit [Put (did_key m) (RecRow (r\<lparr>dr_disabled := b\<rparr>))] rows
    then get_raw rows (content_witness_key m) else Some wb)"
  have g: "ks_get rows' (owner_key z y) = ks_get rows (owner_key z y)" for y z
    using e by (auto simp: ks_simps)
  have h: "rec_at rows' y = (if y = m then Some r' else rec_at rows y)"
    "get_raw rows' (content_log_key y) = get_raw rows (content_log_key y)"
    "get_raw rows' (content_witness_key y) = (if y = m then w' else get_raw rows (content_witness_key y))" for y
    using e r(1) by (auto simp: rec_at_def get_raw_def ks_simps r'_def w'_def)
  have o: "dr_owner r' = dr_owner r" "dr_version_count r' = dr_version_count r"
    "dr_content_size r' = dr_content_size r" by (simp_all add: r'_def)
  have "slot_effect rows rows' m (Some r') (get_raw rows (content_log_key m)) w'"
    using t g h inv_owner_row[OF i s] r(1) by (auto simp: slot_effect_def owns_def o)
  moreover have "slot_coherent (Some r') (get_raw rows (content_log_key m)) w'"
  proof -
    have "slot_coherent (Some r) (get_raw rows (content_log_key m)) (get_raw rows (content_witness_key m))"
      using i r(1) unfolding did_inv_def by metis
    then show ?thesis by (auto simp: slot_coherent_def o split: option.splits)
  qed
  moreover have "names_effect rows rows' m {}"
    using e by (intro names_unchanged) (auto simp: ks_simps)
  ultimately show ?thesis using r qq by (auto intro!: slot_stepI simp: r'_def)
qed

lemma authorised_Some: "authorised auth (Some r) \<longleftrightarrow> dr_owner r = au_did auth \<or> au_role auth = Admin"
  by (simp add: authorised_def)

lemma prepare_Inr:
  assumes t: "rows_typed rows"
    and p: "prepare_republish env auth now m log request_domain rows = Inr (r', domain, p)"
  shows "\<exists>r. rec_at rows m = Some r \<and> authorised auth (Some r) \<and> slot_name m
    \<and> r' = republished_record env now log p r \<and> domain = dr_domain r'
    \<and> check_total_size_limit env auth rows (dr_content_size r) (length log) = Inr ()
    \<and> verify_slot_publication env (dr_domain r) m log rows = Inr p"
  using p unfolding prepare_republish_def Let_def and_then_Inr authorized_record_Inr[OF t] authorised_Some
  by (auto dest: mnemonic_slot_name webs_slot_name split: if_splits)

lemma publish_slot_step:
  assumes i: "did_inv rows" and r: "rec_at rows m = Some r" "authorised auth (Some r)" "slot_name m"
    and r': "dr_owner r' = dr_owner r" "dr_mnemonic r' = dr_mnemonic r" "0 < dr_version_count r'"
      "dr_content_size r' = length log"
    and e: "rows' = ks_commit ([Put (content_log_key m) (RawRow log), Put (did_key m) (RecRow r')] @ nws) rows"
    and n: "list_all write_typed nws" "write_key ` set nws \<subseteq> name_keys"
    and ne: "names_effect rows rows' m ex"
    and qq: "q (Some r) (Some r')"
  shows "slot_step auth q rows rows' m ex"
proof -
  have "dr_mnemonic r = m" using rec_at_mnemonic[OF inv_typed[OF i] r(1)] by simp
  then have t: "rows_typed rows'" unfolding e
    using r(3) r'(2) n(1) by (intro typed_commit inv_typed[OF i]) (auto simp: list_all_iff)
  have x: "ks_get rows' k = ks_get (ks_commit ([Put (content_log_key m) (RawRow log),
      Put (did_key m) (RecRow r')] @ []) rows) k" if "k \<notin> name_keys" for k
  proof -
    have "k \<notin> write_key ` set nws" using that n(2) by blast
    then show ?thesis unfolding e ks_commit_append append_Nil2 by (rule ks_get_commit_other)
  qed
  obtain w where w: "slot_effect rows rows' m (Some r') (Some log) w"
    using version_effect[OF i r(1) r'(1,2) r(3) x _ t] by auto
  moreover have "slot_coherent (Some r') (Some log) w" using r' by (simp add: slot_coherent_def)
  ultimately show ?thesis using r(1,2) ne qq by (auto intro: slot_stepI)
qed

lemma names_via_index:
  assumes e: "rows' = ks_commit (ws @ name_index_writes m d claimed released) rows"
    and k: "write_key ` set ws \<inter> name_keys = {}"
    and c: "\<And>n. n \<in> set claimed \<Longrightarrow> name_at rows d n \<in> {None, Some m}"
    and r: "\<And>n. n \<in> set released \<Longrightarrow> name_at rows d n = Some m"
  shows "names_effect rows rows' m {}"
proof (rule names_effect_index[where d = d and claimed = claimed and released = released])
  fix x :: string
  assume "x \<in> name_keys"
  then have "ks_get (ks_commit ws rows) x = ks_get rows x"
    using k by (intro ks_get_commit_other) auto
  then show "ks_get rows' x = ks_get (ks_commit (name_index_writes m d claimed released) rows) x"
    unfolding e ks_commit_append by (rule ks_get_commit_cong)
qed (use c r in auto)

lemma write_key_names: "write_key ` set (name_index_writes m d claimed released) \<subseteq> name_keys"
  by (auto simp: name_index_writes_def put_raws_def del_keys_def)

lemma reconcile_Inr:
  assumes "reconcile_agent_names rows r m claims domain now = Inr (r', claimed, released)"
  shows "r' = r\<lparr>dr_agent_names := next_names now claimed (dr_agent_names r)\<rparr>"
    "claim_names rows m domain claims = Inr claimed"
    "released = released_names rows m domain claimed (dr_agent_names r)"
  using assms by (auto simp: reconcile_agent_names_def res_simps)

lemma agent_op_names:
  assumes e: "rows' = ks_commit ([Put (content_log_key m) (RawRow log), Put (did_key m) (RecRow r)]
      @ index_writes d n m w) rows"
    and u: "agent_name_mutation rows now m d n op es = Inr (es', w)"
  shows "names_effect rows rows' m (if op = Remove then {agent_name_key d n} else {})"
proof -
  have g: "name_at rows' d' n' = (if agent_name_key d' n' \<noteq> agent_name_key d n \<or> w = IxKeep then name_at rows d' n'
      else if w = IxInsert then Some m else None)" for d' n'
    by (cases w) (auto simp: e name_at_def get_raw_def index_writes_def ks_simps)
  have h: "w = IxInsert \<Longrightarrow> op = Activate \<and> name_at rows d n \<in> {None, Some m}" "w = IxRemove \<Longrightarrow> op = Remove"
    using u by (auto simp: agent_name_mutation_def res_simps name_at_def Let_def
        split: agent_name_op.splits option.splits if_splits)
  show ?thesis unfolding names_effect_def g using h by (cases w) (auto simp: name_at_def)
qed

lemma rollback_slot_step:
  assumes i: "did_inv rows" and r: "rec_at rows m = Some r" "authorised auth (Some r)" "slot_name m"
    and r': "dr_owner r' = dr_owner r" "dr_mnemonic r' = dr_mnemonic r" "0 < dr_version_count r'"
      "dr_content_size r' = length log"
    and e: "rows' = ks_commit [Put (content_log_key m) (RawRow log), Put (did_key m) (RecRow r'),
      Del (content_witness_key m)] rows"
    and qq: "q (Some r) (Some r')"
  shows "slot_step auth q rows rows' m {}"
proof -
  have "dr_mnemonic r = m" using rec_at_mnemonic[OF inv_typed[OF i] r(1)] by simp
  then have t: "rows_typed rows'" unfolding e
    using r(3) r'(2) by (intro typed_commit inv_typed[OF i]) simp
  obtain w where w: "slot_effect rows rows' m (Some r') (Some log) w"
    using version_effect[OF i r(1) r'(1,2) r(3) _ _ t, of log "[Del (content_witness_key m)]"] e by auto
  moreover have "slot_coherent (Some r') (Some log) w" using r' by (simp add: slot_coherent_def)
  moreover have "names_effect rows rows' m {}" by (intro names_unchanged) (simp add: e ks_simps)
  ultimately show ?thesis using r(1,2) qq by (auto intro: slot_stepI)
qed

lemma takeover_Inr:
  "register_takeover auth force existing = Inr changed \<Longrightarrow> authorised auth existing
    \<and> changed = (\<exists>r. existing = Some r \<and> dr_owner r \<noteq> au_did auth)"
  by (auto simp: register_takeover_def authorised_def split: option.splits if_splits)

lemma register_Inr:
  assumes t: "rows_typed rows"
    and c: "register_checks env auth path log force domain rows = Inr (p, did, base, existing, changed)"
  shows "slot_name path \<and> existing = rec_at rows path \<and> authorised auth existing
    \<and> changed = (\<exists>r. existing = Some r \<and> dr_owner r \<noteq> au_did auth)
    \<and> (existing = None \<longrightarrow> check_did_count_limit env auth rows = Inr ())
    \<and> check_total_size_limit env auth rows (case existing of Some r \<Rightarrow> dr_content_size r | None \<Rightarrow> 0) (length log) = Inr ()
    \<and> pub_did p = Some did"
  using c takeover_Inr[of auth force existing changed]
  unfolding register_checks_def typed_record[OF t]
  by (auto simp: res_simps dest: mnemonic_slot_name webs_slot_name split: if_splits)

lemma register_slot_step:
  assumes i: "did_inv rows" and s: "slot_name path" and x: "existing = rec_at rows path"
    and a: "authorised auth existing" and c: "changed = (\<exists>r. existing = Some r \<and> dr_owner r \<noteq> au_did auth)"
    and r: "dr_owner r = au_did auth" "dr_mnemonic r = path" "0 < dr_version_count r"
      "dr_content_size r = length log"
    and e: "rows' = ks_commit (register_writes auth path log existing changed r d claimed released) rows"
    and n: "\<And>n. n \<in> set claimed \<Longrightarrow> name_at rows d n \<in> {None, Some path}"
      "\<And>n. n \<in> set released \<Longrightarrow> name_at rows d n = Some path"
    and qq: "q existing (Some r)"
  shows "slot_step auth q rows rows' path {}"
proof -
  define ws where "ws = [Put (content_log_key path) (RawRow log)]
    @ (case existing of
         Some prev \<Rightarrow> if changed then [Del (content_witness_key path), Del (owner_key (dr_owner prev) path)] else []
       | None \<Rightarrow> [])
    @ [Put (did_key path) (RecRow r), Put (owner_key (au_did auth) path) (RawRow path)]"
  have e': "rows' = ks_commit (ws @ name_index_writes path d claimed released) rows"
    by (simp add: e register_writes_def ws_def)
  have t: "rows_typed rows'" unfolding e'
    using s r(2) by (intro typed_commit inv_typed[OF i]) (auto simp: ws_def split: option.splits)
  have k: "ks_get rows' y = ks_get (ks_commit ws rows) y" if "y \<notin> name_keys" for y
    unfolding e' ks_commit_append using that write_key_names by (intro ks_get_commit_other) blast
  have g: "ks_get rows' (owner_key z y) = (if y = path then if z = au_did auth then Some (RawRow path) else None
      else ks_get rows (owner_key z y))" if "slot_name y" for y z
    using owner_key_inj[OF slot_name_no_colon[OF that] slot_name_no_colon[OF s]] inv_owner_row[OF i s] x c
    by (auto simp: k ws_def ks_simps owns_def split: option.splits)
  define w where "w = (if changed then None else get_raw rows (content_witness_key path))"
  have h: "rec_at rows' y = (if y = path then Some r else rec_at rows y)"
    "get_raw rows' (content_log_key y) = (if y = path then Some log else get_raw rows (content_log_key y))"
    "get_raw rows' (content_witness_key y) = (if y = path then w else get_raw rows (content_witness_key y))" for y
    using c by (auto simp: k ws_def w_def rec_at_def get_raw_def ks_simps split: option.splits)
  have "slot_effect rows rows' path (Some r) (Some log) w"
    using t g h r(1) by (auto simp: slot_effect_def owns_def)
  moreover have "slot_coherent (Some r) (Some log) w" using r by (simp add: slot_coherent_def)
  moreover have "names_effect rows rows' path {}"
    by (rule names_via_index[OF e' _ n]) (auto simp: ws_def split: option.splits)
  ultimately show ?thesis using a x qq by (auto intro: slot_stepI)
qed

section \<open>Every step\<close>

definition op_ok :: "did_op \<Rightarrow> bool" where
  "op_ok op = (case op of Create picks _ _ _ \<Rightarrow> list_all slot_name picks | _ \<Rightarrow> True)"

definition op_exempt :: "('e, 'p, 'k) did_env \<Rightarrow> auth_claims \<Rightarrow> nat \<Rightarrow> did_op \<Rightarrow> did_rows \<Rightarrow> string set" where
  "op_exempt env auth now op rows = (case op of
     RemoveName m n log rd \<Rightarrow> {agent_name_key (dr_domain r) (bare_name n) | r d p.
       prepare_republish env auth now m log rd rows = Inr (r, d, p)}
   | _ \<Rightarrow> {})"

lemma op_ok_simps [simp]:
  "op_ok (Create picks path force domain) = list_all slot_name picks"
  "op_ok (Register mp log force domain)" "op_ok (Publish m log rd)"
  "op_ok (UpdateName m n log rd desired)" "op_ok (RemoveName m n log rd)" "op_ok (UploadWitness m entry)"
  "op_ok (Delete m rd)" "op_ok (ChangeOwner m owner)" "op_ok (SetDisabled m off)" "op_ok (Rollback m target)"
  by (simp_all add: op_ok_def)

lemma void_Some: "void p = (Some e, st) \<longleftrightarrow> p = (Inl e, st)"
  by (cases p; cases "fst p") (auto simp: void_def)

lemma void_None: "void p = (None, st) \<longleftrightarrow> (\<exists>x. p = (Inr x, st))"
  by (cases p; cases "fst p") (auto simp: void_def)

lemma step_error:
  assumes "did_inv (ds_rows st)" "op_ok op" "did_step env auth now op st = (Some e, st')"
  shows "st' = st"
proof (cases op)
  case (Create picks path force domain)
  then have "create_did env auth now picks path force domain st = (Inl e, st')"
    using assms(3) by (simp add: did_step_def void_Some)
  then show ?thesis using create_cases[OF assms(1)] assms(2) Create by (fastforce simp: op_ok_def)
next
  case (Register path log force domain)
  then show ?thesis using assms(3)
    by (auto simp: did_step_def void_Some register_did_atomic_def Let_def split: sum.splits)
next
  case (Rollback m target)
  then show ?thesis using assms(3)
    by (auto simp: did_step_def void_Some rollback_did_to_def Let_def split: sum.splits if_splits)
qed (use assms(3) in \<open>auto simp: did_step_def void_Some publish_did_def update_agent_name_def
  remove_agent_name_def apply_agent_name_op_def upload_witness_def delete_did_def
  change_did_owner_def set_did_disabled_def Let_def split: sum.splits if_splits\<close>)

lemma create_step:
  assumes i: "did_inv (ds_rows st)" and k: "list_all slot_name picks"
    and c: "create_did env auth now picks path force domain st = (Inr x, st')"
  shows "slot_step auth (quota_ok env auth (ds_rows st)) (ds_rows st) (ds_rows st') (ur_mnemonic x) {}"
proof -
  let ?p = "ur_mnemonic x" and ?r = "empty_slot (au_did auth) (ur_mnemonic x) now domain"
  have f: "slot_name ?p" "authorised auth (rec_at (ds_rows st) ?p)"
    "\<exists>ws. ds_rows st' = ks_commit (ws @ [Put (did_key ?p) (RecRow ?r),
        Put (owner_key (au_did auth) ?p) (RawRow ?p)]) (ds_rows st)
      \<and> ((ws = [] \<and> rec_at (ds_rows st) ?p = None) \<or>
         (\<exists>ex. rec_at (ds_rows st) ?p = Some ex \<and> ws = replace_writes auth ?p ex))"
    "rec_at (ds_rows st) ?p = None \<longrightarrow> check_did_count_limit env auth (ds_rows st) = Inr ()"
    using create_cases[OF i k c] by (auto simp: Let_def)
  from f(3) obtain ws where e: "ds_rows st' = ks_commit (ws @ [Put (did_key ?p) (RecRow ?r),
        Put (owner_key (au_did auth) ?p) (RawRow ?p)]) (ds_rows st)"
      and w: "(ws = [] \<and> rec_at (ds_rows st) ?p = None) \<or>
         (\<exists>ex. rec_at (ds_rows st) ?p = Some ex \<and> ws = replace_writes auth ?p ex)" by blast
  show ?thesis using f(4)
    by (intro create_slot_step[OF i f(1,2) _ _ _ _ w e])
      (simp_all add: empty_slot_def quota_ok_def owns_def)
qed

lemma register_step:
  assumes i: "did_inv (ds_rows st)"
    and c: "register_did_atomic env auth now path log force domain st = (Inr x, st')"
  shows "slot_step auth (quota_ok env auth (ds_rows st)) (ds_rows st) (ds_rows st') path {}"
proof -
  obtain p did base existing changed where
    h: "register_checks env auth path log force domain (ds_rows st) = Inr (p, did, base, existing, changed)"
    using c by (auto simp: register_did_atomic_def split: sum.splits)
  let ?d = "host_of_did env (Some did)"
  let ?r0 = "registered_record env auth now path log p did existing changed"
  obtain r claimed released where
    q: "reconcile_agent_names (ds_rows st) ?r0 path (publication_agent_names (de_lib env) p ?d) ?d now
      = Inr (r, claimed, released)"
    using c h by (auto simp: register_did_atomic_def Let_def split: sum.splits)
  have e: "ds_rows st' = ks_commit (register_writes auth path log existing changed r ?d claimed released) (ds_rows st)"
    using c h q by (auto simp: register_did_atomic_def Let_def record_update_def invalidate_cached_content_def commit_rows_def)
  note f = register_Inr[OF inv_typed[OF i] h] and n = reconcile_Inr[OF q]
  have r: "dr_owner r = au_did auth" "dr_mnemonic r = path" "0 < dr_version_count r" "dr_content_size r = length log"
    using f by (auto simp: n(1) registered_record_def Let_def split: option.splits)
  show ?thesis using f claim_names_free[OF n(2)] released_ours unfolding n(3)
    by (intro register_slot_step[OF i _ _ _ _ r e])
      (auto simp: n(3) quota_ok_def owns_def r(1,4) split: option.splits)
qed

lemma publish_step:
  assumes i: "did_inv (ds_rows st)" and c: "publish_did env auth now m log rd st = (Inr x, st')"
  shows "slot_step auth (quota_ok env auth (ds_rows st)) (ds_rows st) (ds_rows st') m {}"
proof -
  obtain r0 d p where h: "prepare_republish env auth now m log rd (ds_rows st) = Inr (r0, d, p)"
    using c by (auto simp: publish_did_def split: sum.splits)
  obtain r1 claimed released where
    q: "reconcile_agent_names (ds_rows st) r0 m (publication_agent_names (de_lib env) p d) d (dr_updated_at r0)
      = Inr (r1, claimed, released)"
    using c h by (auto simp: publish_did_def split: sum.splits)
  have e: "ds_rows st' = ks_commit ([Put (content_log_key m) (RawRow log), Put (did_key m) (RecRow r1)]
      @ name_index_writes m d claimed released) (ds_rows st)"
    using c h q by (auto simp: publish_did_def record_update_def invalidate_cached_content_def commit_rows_def)
  note n = reconcile_Inr[OF q]
  obtain r where f: "rec_at (ds_rows st) m = Some r" "authorised auth (Some r)" "slot_name m"
      "r0 = republished_record env now log p r"
      "check_total_size_limit env auth (ds_rows st) (dr_content_size r) (length log) = Inr ()"
    using prepare_Inr[OF inv_typed[OF i] h] by blast
  have ne: "names_effect (ds_rows st) (ds_rows st') m {}"
    using claim_names_free[OF n(2)] released_ours
    by (intro names_via_index[OF e]) (auto simp: n(3))
  show ?thesis
    by (rule publish_slot_step[OF i f(1-3) _ _ _ _ e _ write_key_names ne])
      (simp_all add: f n(1) republished_record_def quota_ok_Some)
qed

lemma agent_op_step:
  assumes i: "did_inv (ds_rows st)"
    and c: "apply_agent_name_op env auth now m name log rd op st = (Inr x, st')"
  shows "\<exists>r d p. prepare_republish env auth now m log rd (ds_rows st) = Inr (r, d, p)
    \<and> slot_step auth (quota_ok env auth (ds_rows st)) (ds_rows st) (ds_rows st') m (if op = Remove then {agent_name_key (dr_domain r) (bare_name name)} else {})"
proof -
  obtain r1 d w where h: "agent_name_checks env auth now m name log rd op (ds_rows st) = Inr (r1, d, w)"
    using c by (auto simp: apply_agent_name_op_def split: sum.splits)
  then obtain r0 p es where g: "prepare_republish env auth now m log rd (ds_rows st) = Inr (r0, d, p)"
      "agent_name_mutation (ds_rows st) now m d (bare_name name) op (dr_agent_names r0) = Inr (es, w)"
      "r1 = r0\<lparr>dr_agent_names := es\<rparr>"
    by (auto simp: agent_name_checks_def Let_def res_simps split: if_splits)
  have e: "ds_rows st' = ks_commit ([Put (content_log_key m) (RawRow log), Put (did_key m) (RecRow r1)]
      @ index_writes d (bare_name name) m w) (ds_rows st)"
    using c h by (auto simp: apply_agent_name_op_def record_update_def commit_rows_def)
  obtain r where f: "rec_at (ds_rows st) m = Some r" "authorised auth (Some r)" "slot_name m"
      "r0 = republished_record env now log p r" "d = dr_domain r0"
      "check_total_size_limit env auth (ds_rows st) (dr_content_size r) (length log) = Inr ()"
    using prepare_Inr[OF inv_typed[OF i] g(1)] by blast
  have n: "list_all write_typed (index_writes d (bare_name name) m w)"
    "write_key ` set (index_writes d (bare_name name) m w) \<subseteq> name_keys"
    using f(3) by (auto simp: index_writes_def split: index_write.splits)
  have "slot_step auth (quota_ok env auth (ds_rows st)) (ds_rows st) (ds_rows st') m (if op = Remove then {agent_name_key d (bare_name name)} else {})"
    by (rule publish_slot_step[OF i f(1-3) _ _ _ _ e n agent_op_names[OF e g(2)]])
      (simp_all add: f(4,6) g(3) republished_record_def quota_ok_Some)
  then show ?thesis using g(1) f(5) by blast
qed

lemma slot_step_mono: "slot_step auth q rows rows' p ex \<Longrightarrow> ex \<subseteq> ex' \<Longrightarrow> slot_step auth q rows rows' p ex'"
  unfolding slot_step_def names_effect_def by blast

lemma authorized_slot:
  assumes i: "did_inv rows" and g: "get_authorized_record rows m auth = Inr r" "validate_mnemonic m = Inr u"
  shows "slot_name m" "rec_at rows m = Some r" "authorised auth (Some r)"
  using g authorized_record_Inr[OF inv_typed[OF i]] mnemonic_slot_name by (auto simp: authorised_Some)

lemma delete_step:
  assumes i: "did_inv (ds_rows st)" and c: "delete_did env auth m rd st = (Inr x, st')"
  shows "slot_step auth (quota_ok env auth (ds_rows st)) (ds_rows st) (ds_rows st') m {}"
proof -
  obtain r u where h: "get_authorized_record (ds_rows st) m auth = Inr r" "validate_mnemonic m = Inr u"
    and e: "ds_rows st' = ks_commit [Del (did_key m), Del (content_log_key m), Del (content_witness_key m),
      Del (owner_key (dr_owner r) m)] (ds_rows st)"
    using c by (auto simp: delete_did_def delete_checks_def invalidate_cached_content_def commit_rows_def res_simps
        split: sum.splits)
  show ?thesis by (rule delete_slot_step[OF i authorized_slot[OF i h] e]) (simp add: quota_ok_Some)
qed

lemma change_owner_step:
  assumes i: "did_inv (ds_rows st)" and c: "change_did_owner env auth now m owner st = (Inr x, st')"
  shows "st' = st \<or> slot_step auth (quota_ok env auth (ds_rows st)) (ds_rows st) (ds_rows st') m {}"
proof -
  obtain r n where k: "change_owner_checks env auth m owner (ds_rows st) = Inr (r, n)"
    using c by (auto simp: change_did_owner_def split: sum.splits)
  then obtain u where h: "get_authorized_record (ds_rows st) m auth = Inr r" "validate_mnemonic m = Inr u"
    by (auto simp: change_owner_checks_def res_simps split: if_splits)
  show ?thesis
  proof (cases "dr_owner r = n")
    case False
    then have "ds_rows st' = ks_commit [Put (did_key m) (RecRow (r\<lparr>dr_owner := n, dr_updated_at := now\<rparr>)),
        Del (owner_key (dr_owner r) m), Put (owner_key n m) (RawRow m)] (ds_rows st)"
      using c k by (auto simp: change_did_owner_def commit_rows_def Let_def)
    then show ?thesis using owner_slot_step[OF i authorized_slot[OF i h] False refl]
      by (simp add: quota_ok_Some)
  qed (use c k in \<open>simp add: change_did_owner_def\<close>)
qed

lemma disable_step:
  assumes i: "did_inv (ds_rows st)" and c: "set_did_disabled env auth m off st = (Inr x, st')"
  shows "slot_step auth (quota_ok env auth (ds_rows st)) (ds_rows st) (ds_rows st') m {}"
proof -
  obtain r u where h: "get_authorized_record (ds_rows st) m auth = Inr r" "validate_mnemonic m = Inr u"
    and e: "ds_rows st' = ks_commit [Put (did_key m) (RecRow (r\<lparr>dr_disabled := off\<rparr>))] (ds_rows st)"
    using c by (auto simp: set_did_disabled_def invalidate_cached_content_def commit_rows_def res_simps
        split: sum.splits)
  show ?thesis by (rule touch_slot_step[OF i authorized_slot[OF i h]]) (use e in \<open>auto simp: quota_ok_Some\<close>)
qed

lemma witness_step:
  assumes i: "did_inv (ds_rows st)" and c: "upload_witness env auth m entry st = (Inr x, st')"
  shows "slot_step auth (quota_ok env auth (ds_rows st)) (ds_rows st) (ds_rows st') m {}"
proof -
  obtain vp where k: "upload_witness_checks env auth m entry (ds_rows st) = Inr vp"
    using c by (auto simp: upload_witness_def split: sum.splits)
  obtain r u where h: "get_authorized_record (ds_rows st) m auth = Inr r" "validate_mnemonic m = Inr u"
    using k unfolding upload_witness_checks_def and_then_Inr by blast
  obtain b where e: "ds_rows st' = ks_commit [Put (content_witness_key m) (RawRow b)] (ds_rows st)"
    using c k by (auto simp: upload_witness_def invalidate_cached_content_def commit_rows_def split: prod.splits)
  show ?thesis by (rule touch_slot_step[OF i authorized_slot[OF i h]]) (use e in \<open>auto simp: quota_ok_Some\<close>)
qed

lemma rollback_checks_Inr:
  assumes i: "did_inv rows" and k: "rollback_checks env auth m target rows = Inr (r, content, keep)"
  shows "slot_name m" "rec_at rows m = Some r" "authorised auth (Some r)"
    "get_raw rows (content_log_key m) = Some content" "utf8_text content"
    "0 < keep" "keep \<le> length (nonblank_lines content)"
    "keep = (case target of None \<Rightarrow> length (nonblank_lines content) - 1 | Some t \<Rightarrow> t)"
proof -
  have h: "get_authorized_record rows m auth = Inr r" "\<exists>u. validate_mnemonic m = Inr u"
    "get_raw rows (content_log_key m) = Some content" "utf8_text content"
    "rollback_keep target (length (nonblank_lines content)) = Inr keep"
    using k by (auto simp: rollback_checks_def res_simps split: if_splits)
  show "slot_name m" "rec_at rows m = Some r" "authorised auth (Some r)"
    using authorized_slot[OF i h(1)] h(2) by auto
  show "get_raw rows (content_log_key m) = Some content" "utf8_text content" using h by auto
  show "0 < keep" "keep \<le> length (nonblank_lines content)"
    "keep = (case target of None \<Rightarrow> length (nonblank_lines content) - 1 | Some t \<Rightarrow> t)"
    using h(5) by (auto simp: rollback_keep_def split: option.splits if_splits)
qed

lemma join_length: "ls \<noteq> [] \<Longrightarrow> length (join_with [c] ls) + 1 = sum_list (map length ls) + length ls"
proof (induction ls)
  case (Cons l ls)
  then show ?case by (cases ls) auto
qed simp

lemma filter_length_sum: "sum_list (map length (filter P ls)) + length (filter P ls)
    \<le> sum_list (map length ls) + length (ls :: string list)"
  by (induction ls) auto

lemma take_length_sum: "sum_list (map length (take n ls)) + length (take n ls)
    \<le> sum_list (map length ls) + length (ls :: string list)"
proof (induction ls arbitrary: n)
  case (Cons l ls)
  then show ?case by (cases n) (auto simp: add_mono)
qed simp

lemma str_lines_length: "sum_list (map length (str_lines s)) + length (str_lines s) \<le> length s + 1"
proof -
  let ?ps = "split_on (CHR 0x0A) s"
  have b: "sum_list (map length (map strip_cr ls)) \<le> sum_list (map length ls)" for ls
    by (induction ls) (auto simp: strip_cr_def)
  have j: "length s + 1 = sum_list (map length ?ps) + length ?ps"
    using join_length[of ?ps "CHR 0x0A"] by (simp add: join_split_on)
  have "sum_list (map length ?ps) = sum_list (map length (butlast ?ps)) + length (last ?ps)"
    "length ?ps = length (butlast ?ps) + 1"
    by (cases ?ps rule: rev_cases; simp)+
  then show ?thesis using j b[of "butlast ?ps"] by (auto simp: str_lines_def Let_def)
qed

lemma truncated_log_length: "length (truncated_log keep content) \<le> length content"
proof (cases "take keep (nonblank_lines content) = []")
  case True
  then show ?thesis unfolding truncated_log_def True by simp
next
  case False
  have "length (truncated_log keep content) + 1
      \<le> sum_list (map length (nonblank_lines content)) + length (nonblank_lines content)"
    using join_length[OF False, of "CHR 0x0A"] take_length_sum[of keep "nonblank_lines content"]
    by (simp add: truncated_log_def)
  also have "\<dots> \<le> length content + 1"
    unfolding nonblank_lines_def
    using filter_length_sum[of "\<lambda>l. trim l \<noteq> []" "str_lines content"] str_lines_length[of content] by simp
  finally show ?thesis by simp
qed

lemma rollback_step:
  assumes i: "did_inv (ds_rows st)" and c: "rollback_did_to env auth now m target st = (Inr x, st')"
  shows "st' = st \<or> slot_step auth (quota_ok env auth (ds_rows st)) (ds_rows st) (ds_rows st') m {}"
proof -
  obtain r content keep where k: "rollback_checks env auth m target (ds_rows st) = Inr (r, content, keep)"
    using c by (auto simp: rollback_did_to_def split: sum.splits)
  note f = rollback_checks_Inr[OF i k]
  let ?log = "truncated_log keep content"
  have l: "length ?log \<le> dr_content_size r"
  proof -
    have "slot_coherent (rec_at (ds_rows st) m) (get_raw (ds_rows st) (content_log_key m))
        (get_raw (ds_rows st) (content_witness_key m))" using i by (simp add: did_inv_def)
    then have "dr_content_size r = length content" using f(2,4) by (simp add: slot_coherent_def)
    then show ?thesis using truncated_log_length[of keep content] by simp
  qed
  show ?thesis
  proof (cases "length (nonblank_lines content) - keep = 0")
    case False
    then have "ds_rows st' = ks_commit [Put (content_log_key m) (RawRow ?log),
        Put (did_key m) (RecRow (rolled_back_record env now keep ?log r)), Del (content_witness_key m)] (ds_rows st)"
      using c k by (auto simp: rollback_did_to_def Let_def invalidate_cached_content_def commit_rows_def)
    then have "slot_step auth (quota_ok env auth (ds_rows st)) (ds_rows st) (ds_rows st') m {}"
      using f(6) l by (intro rollback_slot_step[OF i f(2,3,1)]) (auto simp: rolled_back_record_def quota_ok_Some)
    then show ?thesis ..
  qed (use c k in \<open>simp add: rollback_did_to_def Let_def\<close>)
qed

lemma step_ok:
  assumes i: "did_inv (ds_rows st)" and o: "op_ok op" and s: "did_step env auth now op st = (None, st')"
  shows "st' = st \<or> (\<exists>p. slot_step auth (quota_ok env auth (ds_rows st)) (ds_rows st) (ds_rows st') p (op_exempt env auth now op (ds_rows st)))"
proof (cases op)
  case (Create picks path force domain)
  then show ?thesis using s o create_step[OF i] by (fastforce simp: did_step_def void_None op_ok_def op_exempt_def)
next
  case (Register path log force domain)
  then show ?thesis using s register_step[OF i] by (fastforce simp: did_step_def void_None op_exempt_def)
next
  case (Publish m log rd)
  then show ?thesis using s publish_step[OF i] by (fastforce simp: did_step_def void_None op_exempt_def)
next
  case (UpdateName m n log rd desired)
  then obtain x where "apply_agent_name_op env auth now m n log rd
      (case desired of NameActive \<Rightarrow> Activate | NameParked \<Rightarrow> Park) st = (Inr x, st')"
    using s by (auto simp: did_step_def void_None update_agent_name_def)
  from agent_op_step[OF i this] show ?thesis using UpdateName
    by (auto simp: op_exempt_def split: agent_name_state.splits if_splits)
next
  case (RemoveName m n log rd)
  then obtain x where "apply_agent_name_op env auth now m n log rd Remove st = (Inr x, st')"
    using s by (auto simp: did_step_def void_None remove_agent_name_def)
  from agent_op_step[OF i this] obtain r d p where g: "prepare_republish env auth now m log rd (ds_rows st) = Inr (r, d, p)"
    and h: "slot_step auth (quota_ok env auth (ds_rows st)) (ds_rows st) (ds_rows st') m {agent_name_key (dr_domain r) (bare_name n)}" by auto
  have "{agent_name_key (dr_domain r) (bare_name n)} \<subseteq> op_exempt env auth now op (ds_rows st)"
    using g RemoveName by (auto simp: op_exempt_def)
  from slot_step_mono[OF h this] show ?thesis by blast
next
  case (UploadWitness m entry)
  then show ?thesis using s witness_step[OF i] by (fastforce simp: did_step_def void_None op_exempt_def)
next
  case (Delete m rd)
  then show ?thesis using s delete_step[OF i] by (fastforce simp: did_step_def void_None op_exempt_def)
next
  case (ChangeOwner m owner)
  then show ?thesis using s change_owner_step[OF i] by (fastforce simp: did_step_def void_None op_exempt_def)
next
  case (SetDisabled m off)
  then show ?thesis using s disable_step[OF i] by (fastforce simp: did_step_def void_None op_exempt_def)
next
  case (Rollback m target)
  then show ?thesis using s rollback_step[OF i] by (fastforce simp: did_step_def void_None op_exempt_def)
qed

lemma step_cases:
  assumes "did_inv (ds_rows st)" "op_ok op" "did_step env auth now op st = (o', st')"
  shows "st' = st \<or> (\<exists>p. slot_step auth (quota_ok env auth (ds_rows st)) (ds_rows st) (ds_rows st') p
      (op_exempt env auth now op (ds_rows st)))"
proof (cases o')
  case None
  show ?thesis using step_ok[OF assms(1,2)] assms(3) unfolding None by blast
next
  case (Some e)
  show ?thesis using step_error[OF assms(1,2)] assms(3) unfolding Some by blast
qed

lemma step_inv:
  assumes "did_inv (ds_rows st)" "op_ok op"
  shows "did_inv (ds_rows (snd (did_step env auth now op st)))"
proof (cases "fst (did_step env auth now op st)")
  case None
  then have "did_step env auth now op st = (None, snd (did_step env auth now op st))" by (metis prod.collapse)
  from step_ok[OF assms this] show ?thesis using slot_step_inv[OF assms(1)] assms(1) by auto
next
  case (Some e)
  then have "did_step env auth now op st = (Some e, snd (did_step env auth now op st))" by (metis prod.collapse)
  from step_error[OF assms this] show ?thesis using assms(1) by simp
qed

section \<open>The owner index as a listing\<close>

lemma scan_owner:
  assumes "did_inv rows" "(k, v) \<in> set (ks_scan (owner_prefix x) rows)"
  shows "\<exists>o' b. k = owner_key o' b \<and> v = RawRow b \<and> slot_name b \<and> owns (rec_at rows b) o'"
proof -
  have g: "ks_get rows k = Some v" "prefix (owner_prefix x) k"
    using assms(2) rows.scan_mem[of rows k v] inv_typed[OF assms(1)] by (auto simp: rows_typed_def)
  have t: "row_typed k v" using g(1) inv_typed[OF assms(1)] by (simp add: rows_typed_def)
  have p: "prefix (owner_prefix x) k \<Longrightarrow> k \<noteq> did_key y \<and> k \<noteq> content_log_key y \<and> k \<noteq> content_witness_key y
      \<and> k \<noteq> agent_name_key d y" for d y
    by (auto simp: owner_prefix_def did_key_def content_log_key_def content_witness_key_def agent_name_key_def)
  obtain o' b where e: "k = owner_key o' b" "v = RawRow b" "slot_name b"
    using t p[OF g(2)] by (auto simp: row_typed_def split: did_row.splits)
  then have "owns (rec_at rows b) o'" using inv_owner_row[OF assms(1) e(3), of o'] g(1) by (auto split: if_splits)
  then show ?thesis using e by blast
qed

lemma owner_scanned:
  assumes "did_inv rows" "slot_name b" "owns (rec_at rows b) x"
  shows "(owner_key x b, RawRow b) \<in> set (ks_scan (owner_prefix x) rows)"
  using inv_owner_row[OF assms(1,2), of x] assms(3) inv_typed[OF assms(1)]
  by (simp add: rows.scan_mem rows_typed_def owner_prefix_def owner_key_def)

text \<open>The records that the owner index yields for x.\<close>

definition mine :: "did_rows \<Rightarrow> string \<Rightarrow> (string \<times> did_row) list \<Rightarrow> did_record list" where
  "mine rows x kvs = List.map_filter (\<lambda>(k, v). case v of
     RawRow b \<Rightarrow> (case rec_at rows b of Some r \<Rightarrow> if dr_owner r = x then Some r else None | None \<Rightarrow> None)
   | RecRow _ \<Rightarrow> None) kvs"

lemma mine_Cons: "mine rows x ((k, v) # kvs) = (case v of
     RawRow b \<Rightarrow> (case rec_at rows b of Some r \<Rightarrow> if dr_owner r = x then [r] else [] | None \<Rightarrow> [])
   | RecRow _ \<Rightarrow> []) @ mine rows x kvs"
  by (auto simp: mine_def List.map_filter_simps split: did_row.splits option.splits)

lemma owned_records_mine:
  assumes "rows_typed rows" "\<forall>(k, v) \<in> set kvs. \<exists>b. v = RawRow b \<and> slot_name b"
  shows "owned_records rows x kvs = Inr (mine rows x kvs)"
  using assms(2)
proof (induction kvs)
  case (Cons kv kvs)
  then obtain k b where "kv = (k, RawRow b)" "slot_name b" by (cases kv) auto
  then show ?case using Cons slot_name_utf8 typed_record[OF assms(1), of b]
    by (auto simp: mine_Cons split: option.splits)
qed (simp add: mine_def List.map_filter_simps)

lemma owner_usage_mine:
  assumes "rows_typed rows" "\<forall>(k, v) \<in> set kvs. \<exists>b. v = RawRow b \<and> slot_name b"
  shows "owner_usage_rows rows x kvs n sz =
    Inr (n + length (mine rows x kvs), foldl saturating_add sz (map dr_content_size (mine rows x kvs)))"
  using assms(2)
proof (induction kvs arbitrary: n sz)
  case (Cons kv kvs)
  then obtain k b where "kv = (k, RawRow b)" "slot_name b" by (cases kv) auto
  then show ?case using Cons slot_name_utf8 typed_record[OF assms(1), of b]
    by (auto simp: mine_Cons split: option.splits)
qed (simp add: mine_def List.map_filter_simps)

lemma mine_props:
  fixes x :: string
  assumes i: "did_inv rows"
  defines "rs \<equiv> mine rows x (ks_scan (owner_prefix x) rows)"
  shows "r \<in> set rs \<longleftrightarrow> rec_at rows (dr_mnemonic r) = Some r \<and> dr_owner r = x"
    "distinct (map dr_mnemonic rs)"
proof -
  let ?kvs = "ks_scan (owner_prefix x) rows"
  have m: "r \<in> set rs \<longleftrightarrow> (\<exists>k b. (k, RawRow b) \<in> set ?kvs \<and> rec_at rows b = Some r \<and> dr_owner r = x)" for r
  proof
    assume "r \<in> set rs"
    then show "\<exists>k b. (k, RawRow b) \<in> set ?kvs \<and> rec_at rows b = Some r \<and> dr_owner r = x"
      by (auto simp: rs_def mine_def set_map_filter split: did_row.splits option.splits if_splits) blast
  next
    assume "\<exists>k b. (k, RawRow b) \<in> set ?kvs \<and> rec_at rows b = Some r \<and> dr_owner r = x"
    then obtain k b where "(k, RawRow b) \<in> set ?kvs" "rec_at rows b = Some r" "dr_owner r = x" by blast
    then show "r \<in> set rs" unfolding rs_def mine_def set_map_filter
      by (intro bexI[of _ "(k, RawRow b)"]) auto
  qed
  show "r \<in> set rs \<longleftrightarrow> rec_at rows (dr_mnemonic r) = Some r \<and> dr_owner r = x"
  proof
    assume "r \<in> set rs"
    then show "rec_at rows (dr_mnemonic r) = Some r \<and> dr_owner r = x"
      using m rec_at_mnemonic[OF inv_typed[OF i]] by force
  next
    assume a: "rec_at rows (dr_mnemonic r) = Some r \<and> dr_owner r = x"
    then have "(owner_key x (dr_mnemonic r), RawRow (dr_mnemonic r)) \<in> set ?kvs"
      using rec_at_mnemonic[OF inv_typed[OF i]] by (intro owner_scanned[OF i]) (auto simp: owns_def)
    then show "r \<in> set rs" using a m by blast
  qed
  have k: "\<And>k v. (k, v) \<in> set ?kvs \<Longrightarrow> \<exists>o' b. k = owner_key o' b \<and> v = RawRow b \<and> slot_name b \<and> owns (rec_at rows b) o'"
    using scan_owner[OF i] by blast
  have d: "distinct (map fst ?kvs)" using rows.scan_distinct[of rows] inv_typed[OF i] by (simp add: rows_typed_def)
  have "distinct (map dr_mnemonic (mine rows x kvs)) \<and> dr_mnemonic ` set (mine rows x kvs) \<subseteq>
      {b. (owner_key x b, RawRow b) \<in> set kvs}" if "set kvs \<subseteq> set ?kvs" "distinct (map fst kvs)" for kvs
    using that
  proof (induction kvs)
    case (Cons kv kvs)
    then have ih: "distinct (map dr_mnemonic (mine rows x kvs))"
      "dr_mnemonic ` set (mine rows x kvs) \<subseteq> {b. (owner_key x b, RawRow b) \<in> set kvs}" by auto
    obtain o' b where e: "kv = (owner_key o' b, RawRow b)" "slot_name b" "owns (rec_at rows b) o'"
      using k Cons.prems(1) by (cases kv) force
    then obtain r where r: "rec_at rows b = Some r" "dr_owner r = o'" "dr_mnemonic r = b"
      using rec_at_mnemonic[OF inv_typed[OF i]] by (auto simp: owns_def split: option.splits)
    show ?case
    proof (cases "o' = x")
      case True
      then have "(owner_key x b, RawRow b) \<notin> set kvs" using Cons.prems(2) e(1) by force
      then show ?thesis using ih r e(1) True by (auto simp: mine_Cons)
    next
      case False
      then show ?thesis using ih r e(1) by (auto simp: mine_Cons)
    qed
  qed (simp add: mine_def List.map_filter_simps)
  from this[of ?kvs] show "distinct (map dr_mnemonic rs)" using d unfolding rs_def by blast
qed

lemma owned_records_all:
  "did_inv rows \<Longrightarrow> owned_records rows x (ks_scan (owner_prefix x) rows) = Inr (mine rows x (ks_scan (owner_prefix x) rows))"
  using scan_owner by (intro owned_records_mine inv_typed) fast+

text \<open>The slots of an owner and the bytes they hold.\<close>

definition owned_slots :: "did_rows \<Rightarrow> string \<Rightarrow> string set" where
  "owned_slots rows x = {m. owns (rec_at rows m) x}"

definition owned_size :: "did_rows \<Rightarrow> string \<Rightarrow> nat" where
  "owned_size rows x = (\<Sum>m \<in> owned_slots rows x. rec_size (rec_at rows m))"

lemma foldl_saturating:
  "a \<le> u64_max \<Longrightarrow> foldl saturating_add a xs = min (a + sum_list xs) u64_max"
  by (induction xs arbitrary: a) (auto simp: saturating_add_def min_def)

lemma owned_slots_mine:
  assumes "did_inv rows"
  shows "owned_slots rows x = set (map dr_mnemonic (mine rows x (ks_scan (owner_prefix x) rows)))"
proof -
  let ?rs = "mine rows x (ks_scan (owner_prefix x) rows)"
  have "owns (rec_at rows m) x \<longleftrightarrow> (\<exists>r \<in> set ?rs. dr_mnemonic r = m)" for m
  proof
    assume "owns (rec_at rows m) x"
    then obtain r where "rec_at rows m = Some r" "dr_owner r = x" by (auto simp: owns_def split: option.splits)
    moreover then have "dr_mnemonic r = m" using rec_at_mnemonic[OF inv_typed[OF assms]] by blast
    ultimately show "\<exists>r \<in> set ?rs. dr_mnemonic r = m" using mine_props(1)[OF assms] by blast
  next
    assume "\<exists>r \<in> set ?rs. dr_mnemonic r = m"
    then show "owns (rec_at rows m) x" using mine_props(1)[OF assms] by (auto simp: owns_def)
  qed
  then have "m \<in> owned_slots rows x \<longleftrightarrow> m \<in> set (map dr_mnemonic ?rs)" for m
    by (auto simp: owned_slots_def)
  then show ?thesis by blast
qed

lemma owned_slots_finite: "did_inv rows \<Longrightarrow> finite (owned_slots rows x)"
  by (simp add: owned_slots_mine)

lemma owner_usage_exact:
  assumes "did_inv rows"
  shows "owner_usage rows x = Inr (card (owned_slots rows x), min (owned_size rows x) u64_max)"
proof -
  let ?rs = "mine rows x (ks_scan (owner_prefix x) rows)"
  have "owner_usage rows x = Inr (length ?rs, min (sum_list (map dr_content_size ?rs)) u64_max)"
    unfolding owner_usage_def using scan_owner[OF assms]
    by (subst owner_usage_mine[OF inv_typed[OF assms]]) (fast, simp add: foldl_saturating)
  moreover have "length ?rs = card (owned_slots rows x)"
    using mine_props(2)[OF assms] by (metis distinct_card length_map owned_slots_mine[OF assms])
  moreover have "sum_list (map dr_content_size ?rs) = owned_size rows x"
  proof -
    have "map dr_content_size ?rs = map (\<lambda>m. rec_size (rec_at rows m)) (map dr_mnemonic ?rs)"
      using mine_props(1)[OF assms] by auto
    then show ?thesis
      using mine_props(2)[OF assms] by (simp only: owned_size_def owned_slots_mine[OF assms] sum_list_distinct_conv_sum_set)
  qed
  ultimately show ?thesis by simp
qed

end
