(* ===== verification/DidProps.thy ===== *)
theory DidProps
  imports DidInv
begin

text \<open>
  What the DID operations guarantee: consistency of the dids keyspace under any sequence of
  calls, refinement of an abstract registry of owned slots, the agent-name rules, listings,
  quotas, rollback and the content cache. The examples use a small environment without
  configured domains and the log library of DidLog.
\<close>

definition sample_env :: "(string, nat, string \<times> nat) did_env" where
  "sample_env = \<lparr>de_lib = sample_lib, de_webs = None, de_parse_host = (\<lambda>_. None),
     de_acl = [(''acl:did:o'', \<lparr>acl_did = ''did:o'', acl_role = Owner, acl_label = None, acl_created_at = 0,
        acl_max_total_size = Some 5, acl_max_did_count = Some 1, acl_domains = ScopeAll\<rparr>)],
     de_domains = \<lparr>domains = [], meta = [], purges = []\<rparr>,
     de_did_hosting_url = Some ''https://a.org'', de_public_url = None,
     de_did_url = (\<lambda>_. Some (''a.org'', None, ''/'')), de_http_url = (\<lambda>_. Some (''a.org'', None, ''/'')),
     de_looks_like_name = (\<lambda>_. False), de_agent_names = True\<rparr>"

definition sample_owner :: auth_claims where
  "sample_owner = \<lparr>au_did = ''did:o'', au_role = Owner\<rparr>"

definition no_dids :: did_state where
  "no_dids = \<lparr>ds_rows = [], ds_cache = [], ds_updates = []\<rparr>"

definition one_did :: did_state where
  "one_did = snd (did_step sample_env sample_owner 7 (Register ''pp'' ''al'' False None) no_dids)"

fun did_run :: "(('e, 'p, 'k) did_env \<times> auth_claims \<times> nat \<times> did_op) list \<Rightarrow> did_state \<Rightarrow> did_state" where
  "did_run [] st = st"
| "did_run ((env, auth, now, op) # rqs) st = did_run rqs (snd (did_step env auth now op st))"

lemma did_run_inv:
  "did_inv (ds_rows st) \<Longrightarrow> \<forall>(env, auth, now, op) \<in> set rqs. op_ok op \<Longrightarrow> did_inv (ds_rows (did_run rqs st))"
  by (induction rqs st rule: did_run.induct) (auto intro: step_inv)

lemma no_dids_inv: "did_inv (ds_rows no_dids)"
  by (auto simp: no_dids_def did_inv_def rows_typed_def rec_at_def owns_def slot_coherent_def get_raw_def)

lemma one_did_inv: "did_inv (ds_rows one_did)"
  unfolding one_did_def by (rule step_inv[OF no_dids_inv]) simp

section \<open>Consistency\<close>



section \<open>Refinement\<close>

text \<open>The abstract registry: each taken slot with its owner and its log.\<close>

type_synonym registry = "string \<Rightarrow> (string \<times> string option) option"

definition registry_of :: "did_rows \<Rightarrow> registry" where
  "registry_of rows = (\<lambda>m. map_option (\<lambda>r. (dr_owner r, get_raw rows (content_log_key m))) (rec_at rows m))"

text \<open>What a caller may do to it: take a free slot for itself, or change, hand over or free a slot
  it owns (any slot, for an administrator).\<close>

inductive registry_step :: "string \<Rightarrow> bool \<Rightarrow> registry \<Rightarrow> registry \<Rightarrow> bool" where
  Skip: "registry_step caller admin R R"
| Claim: "R m = None \<Longrightarrow> registry_step caller admin R (R(m \<mapsto> (caller, log)))"
| Rewrite: "R m = Some (owner, log) \<Longrightarrow> owner = caller \<or> admin \<Longrightarrow>
    registry_step caller admin R (R(m := v))"

inductive_simps registry_step_simps: "registry_step caller admin R R'"

text \<open>C12: Every DID operation, accepted or refused, is one step of the abstract registry: it
  changes nothing, claims one free slot for the caller, or changes the one slot it addresses,
  which the caller owns unless the caller is an administrator.\<close>

theorem did_ops_refine_registry:
  assumes "did_inv (ds_rows st)" "op_ok op"
  shows "registry_step (au_did auth) (au_role auth = Admin) (registry_of (ds_rows st))
    (registry_of (ds_rows (snd (did_step env auth now op st))))"
proof (cases "did_step env auth now op st")
  case (Pair o' st')
  show ?thesis
  proof (cases o')
    case (Some e)
    then have "st' = st" using step_error[OF assms] Pair by simp
    then show ?thesis using Pair registry_step.Skip by simp
  next
    case None
    consider "st' = st" | p where "slot_step auth (quota_ok env auth (ds_rows st)) (ds_rows st) (ds_rows st') p
        (op_exempt env auth now op (ds_rows st))"
      using step_ok[OF assms] Pair None by blast
    then show ?thesis
    proof cases
      case 1
      then show ?thesis using Pair registry_step.Skip by simp
    next
      case 2
      let ?r = "rec_at (ds_rows st') p"
      obtain log w where e: "slot_effect (ds_rows st) (ds_rows st') p ?r log w"
        using slot_stepD(1)[OF 2] by blast
      note a = slot_stepD(2)[OF 2] and q = slot_stepD(4)[OF 2]
      have R: "registry_of (ds_rows st') = (registry_of (ds_rows st))(p := map_option (\<lambda>x. (dr_owner x, log)) ?r)"
      proof
        fix m
        have "rec_at (ds_rows st') m = (if m = p then ?r else rec_at (ds_rows st) m)"
          "get_raw (ds_rows st') (content_log_key m) = (if m = p then log else get_raw (ds_rows st) (content_log_key m))"
          using e unfolding slot_effect_def by blast+
        then show "registry_of (ds_rows st') m = ((registry_of (ds_rows st))
            (p := map_option (\<lambda>x. (dr_owner x, log)) ?r)) m"
          by (cases "m = p") (simp_all add: registry_of_def)
      qed
      show ?thesis
      proof (cases "rec_at (ds_rows st) p")
        case None
        then obtain x where "?r = Some x" "dr_owner x = au_did auth"
          using q by (auto simp: quota_ok_def owns_def split: option.splits)
        then show ?thesis using None Pair R registry_step.Claim[of "registry_of (ds_rows st)" p]
          by (simp add: registry_of_def)
      next
        case (Some x)
        then show ?thesis using Pair R a registry_step.Rewrite[of "registry_of (ds_rows st)" p]
          by (auto simp: registry_of_def authorised_def)
      qed
    qed
  qed
qed

theorem did_ops_refine_registry_witness:
  "registry_step ''did:x'' False (registry_of (ds_rows one_did))
     (registry_of (ds_rows (snd (did_step sample_env \<lparr>au_did = ''did:x'', au_role = Owner\<rparr> 9 (Delete ''pp'' None) one_did))))
   \<and> map_option fst (registry_of (ds_rows one_did) ''pp'') = Some ''did:o''"
proof -
  have "map_option fst (registry_of (ds_rows one_did) ''pp'') = Some ''did:o''" by code_simp
  then show ?thesis
    using did_ops_refine_registry[OF one_did_inv, of "Delete ''pp'' None" "\<lparr>au_did = ''did:x'', au_role = Owner\<rparr>"]
    by simp
qed

text \<open>C13: A refused operation leaves everything as it was: the rows, the content cache and the
  statistics. In particular the forced creation, which deletes the old content before it checks
  the quota, never fails in between.\<close>

theorem refused_op_changes_nothing:
  assumes "did_inv (ds_rows st)" "op_ok op" "did_step env auth now op st = (Some e, st')"
  shows "st' = st"
  using assms by (rule step_error)

theorem refused_op_changes_nothing_witness:
  "snd (did_step sample_env \<lparr>au_did = ''did:x'', au_role = Owner\<rparr> 9 (Create [] (Some ''pp'') True None) one_did) = one_did"
proof -
  have "fst (did_step sample_env \<lparr>au_did = ''did:x'', au_role = Owner\<rparr> 9 (Create [] (Some ''pp'') True None) one_did)
    = Some Forbidden" by code_simp
  then show ?thesis
    using refused_op_changes_nothing[OF one_did_inv, of "Create [] (Some ''pp'') True None" sample_env
        "\<lparr>au_did = ''did:x'', au_role = Owner\<rparr>" 9 Forbidden]
    by (simp add: prod_eq_iff)
qed

section \<open>Agent names\<close>

text \<open>C14: An agent name bound to a slot is never pointed at another slot in one step: after any
  operation it is still bound to that slot, or it is free; and it becomes free only through an
  operation of the slot's owner or an administrator, or through a remove of the same name, in the
  domain of the slot that the remove addresses.\<close>

theorem agent_name_never_captured:
  assumes "did_inv (ds_rows st)" "op_ok op" "name_at (ds_rows st) d n = Some m"
    "did_step env auth now op st = (o', st')"
  shows "name_at (ds_rows st') d n = Some m
    \<or> (name_at (ds_rows st') d n = None
       \<and> (authorised auth (rec_at (ds_rows st) m)
          \<or> (\<exists>p name log rd r dm pub. op = RemoveName p name log rd
               \<and> prepare_republish env auth now p log rd (ds_rows st) = Inr (r, dm, pub)
               \<and> agent_name_key d n = agent_name_key (dr_domain r) (bare_name name))))"
proof (cases o')
  case (Some e)
  then have "st' = st" using step_error[OF assms(1,2)] assms(4) by simp
  then show ?thesis using assms(3) by simp
next
  case None
  consider "st' = st" | p where "slot_step auth (quota_ok env auth (ds_rows st)) (ds_rows st) (ds_rows st') p
      (op_exempt env auth now op (ds_rows st))"
    using step_ok[OF assms(1,2)] assms(4) None by blast
  then show ?thesis
  proof cases
    case 2
    have "name_at (ds_rows st') d n = Some m \<or> (m = p \<and> name_at (ds_rows st') d n = None)
        \<or> (agent_name_key d n \<in> op_exempt env auth now op (ds_rows st) \<and> name_at (ds_rows st') d n = None)"
      using slot_stepD(3)[OF 2, unfolded names_effect_def, THEN spec, THEN spec, of d n] assms(3) by auto
    then show ?thesis using slot_stepD(2)[OF 2]
      by (auto simp: op_exempt_def split: did_op.splits)
  qed (use assms(3) in simp)
qed

text \<open>An environment whose documents claim the name and live on the host written in the log line:
  the line 1a.org/@al is a document of host a.org that claims the name al there.\<close>

definition naming_lib :: "(string, nat, string \<times> nat) log_lib" where
  "naming_lib = sample_lib\<lparr>
     json_parse := (\<lambda>s. Some (JObj [(''versionId'', JStr s),
        (''state'', JObj [(''id'', JStr (''did:webvh:q:'' @ takeWhile (\<lambda>c. c \<noteq> CHR ''/'') (drop 1 s) @ '':p'')),
                          (''alsoKnownAs'', JArr [JStr (drop 1 s)])])])),
     agent_parse := (\<lambda>s. map_option (\<lambda>(a, l). (a, drop 1 l)) (split_once (CHR ''/'') s))\<rparr>"

definition naming_env :: "(string, nat, string \<times> nat) did_env" where
  "naming_env = sample_env\<lparr>de_lib := naming_lib, de_acl := []\<rparr>"

definition victim :: auth_claims where "victim = \<lparr>au_did = ''did:v'', au_role = Owner\<rparr>"
definition intruder :: auth_claims where "intruder = \<lparr>au_did = ''did:x'', au_role = Owner\<rparr>"

definition name_theft :: "((string, nat, string \<times> nat) did_env \<times> auth_claims \<times> nat \<times> did_op) list" where
  "name_theft =
    [(naming_env, victim, 1, Register ''vv'' ''1a.org/@al'' False None),
     (naming_env, intruder, 2, Create [] (Some ''pp'') False (Some ''b.org'')),
     (naming_env, intruder, 3, Publish ''pp'' ''1b.org/@al'' None),
     (naming_env, intruder, 4, UpdateName ''pp'' ''al'' ''1b.org/@A'' None NameParked),
     (naming_env, intruder, 5, Register ''pp'' ''1a.org/@A'' False None)]"

definition name_release :: "(string, nat, string \<times> nat) did_env \<times> auth_claims \<times> nat \<times> did_op" where
  "name_release = (naming_env, intruder, 6, RemoveName ''pp'' ''al'' ''1a.org/@A'' None)"

theorem agent_name_never_captured_witness:
  "name_at (ds_rows (snd (did_step naming_env intruder 2 (Register ''pp'' ''1a.org/@al'' False None)
     (did_run (take 1 name_theft) no_dids)))) ''a.org'' ''al'' = Some ''vv''"
proof -
  let ?st = "did_run (take 1 name_theft) no_dids"
  have i: "did_inv (ds_rows ?st)" by (rule did_run_inv[OF no_dids_inv]) (simp add: name_theft_def)
  have "name_at (ds_rows ?st) ''a.org'' ''al'' = Some ''vv''"
    "\<not> authorised intruder (rec_at (ds_rows ?st) ''vv'')" by code_simp+
  then show ?thesis
    using agent_name_never_captured[OF i _ _ prod.collapse[symmetric],
        of "Register ''pp'' ''1a.org/@al'' False None" "''a.org''" "''al''" "''vv''" naming_env intruder 2] by auto
qed

text \<open>The remove verb checks only the slot's own registry, not whom the index points at: an
  owner who parked a name in one domain and re-registered the slot under another can release the
  same name of another DID there, without owning its slot.\<close>

theorem remove_can_release_foreign_name:
  "name_at (ds_rows (did_run name_theft no_dids)) ''a.org'' ''al'' = Some ''vv''
   \<and> name_at (ds_rows (did_run (name_theft @ [name_release]) no_dids)) ''a.org'' ''al'' = None
   \<and> map_option dr_owner (rec_at (ds_rows (did_run name_theft no_dids)) ''vv'') = Some ''did:v''"
  by code_simp

section \<open>Listings\<close>

text \<open>A caller who is not an administrator always gets a page of exactly its own records, each
  once, whichever owner it asks for and however its DID is a prefix of other owners' DIDs.\<close>

theorem list_dids_exact:
  assumes "did_inv rows" "au_role auth \<noteq> Admin"
  shows "\<exists>rs. list_dids resolves auth requested_owner limit offset rows
        = Inr (page_of limit offset (map (list_entry resolves) rs))
    \<and> distinct (map dr_mnemonic rs)
    \<and> (\<forall>r. r \<in> set rs \<longleftrightarrow> rec_at rows (dr_mnemonic r) = Some r \<and> dr_owner r = au_did auth)"
  using assms(2) mine_props[OF assms(1)] owned_records_all[OF assms(1)]
  by (auto simp: list_dids_def target_owner_def Let_def)

theorem list_dids_exact_witness:
  "map_option (map dl_mnemonic) (case list_dids (\<lambda>_. 0) sample_owner (Some ''did:v'') None None (ds_rows one_did) of
      Inr es \<Rightarrow> Some es | Inl _ \<Rightarrow> None) \<noteq> None"
  using list_dids_exact[OF one_did_inv, of sample_owner "\<lambda>_. 0" "Some ''did:v''" None None]
  by (auto simp: sample_owner_def)

section \<open>Quotas\<close>

lemma owned_slots_effect:
  assumes "slot_effect rows rows' p r log w"
  shows "owned_slots rows' x = (if owns r x then insert p (owned_slots rows x) else owned_slots rows x - {p})"
  using assms by (auto simp: owned_slots_def slot_effect_def split: if_splits)

lemma sum_split: "finite S \<Longrightarrow> (\<Sum>m \<in> S. f m) = (\<Sum>m \<in> S - {p}. f m) + (if p \<in> S then f p else (0::nat))"
  using sum.remove[of S p f] by auto

lemma owned_size_effect:
  assumes "did_inv rows" "slot_effect rows rows' p r log w" "did_inv rows'"
  shows "owned_size rows' x + (if owns (rec_at rows p) x then rec_size (rec_at rows p) else 0)
    = owned_size rows x + (if owns r x then rec_size r else 0)"
proof -
  let ?S = "owned_slots rows x" and ?S' = "owned_slots rows' x"
  have f: "finite ?S" "finite ?S'" using owned_slots_finite assms by auto
  have s: "rec_at rows' m = (if m = p then r else rec_at rows m)" for m
    using assms(2) by (simp add: slot_effect_def)
  have e: "?S - {p} = ?S' - {p}" using owned_slots_effect[OF assms(2)] by auto
  have "(\<Sum>m \<in> ?S' - {p}. rec_size (rec_at rows' m)) = (\<Sum>m \<in> ?S - {p}. rec_size (rec_at rows m))"
    unfolding e[symmetric] by (intro sum.cong) (simp_all add: s)
  moreover have "owned_size rows' x = (\<Sum>m \<in> ?S' - {p}. rec_size (rec_at rows' m)) + (if owns r x then rec_size r else 0)"
    using sum_split[OF f(2), of "\<lambda>m. rec_size (rec_at rows' m)" p] s[of p]
    by (simp add: owned_size_def) (simp add: owned_slots_def)
  moreover have "owned_size rows x = (\<Sum>m \<in> ?S - {p}. rec_size (rec_at rows m))
      + (if owns (rec_at rows p) x then rec_size (rec_at rows p) else 0)"
    using sum_split[OF f(1), of "\<lambda>m. rec_size (rec_at rows m)" p]
    by (simp add: owned_size_def) (simp add: owned_slots_def)
  ultimately show ?thesis by simp
qed

lemma count_limit_Inr:
  assumes "did_inv rows" "au_role auth \<noteq> Admin" "get_acl_entry (de_acl env) (au_did auth) = Some e"
    "acl_max_did_count e = Some n" "n < u64_max" "check_did_count_limit env auth rows = Inr ()"
  shows "card (owned_slots rows (au_did auth)) < n"
  using assms(2-) by (auto simp: check_did_count_limit_def effective_max_did_count_def Let_def
      owner_usage_exact[OF assms(1)] split: if_splits)

lemma size_limit_Inr:
  assumes "did_inv rows" "au_role auth \<noteq> Admin" "get_acl_entry (de_acl env) (au_did auth) = Some e"
    "acl_max_total_size e = Some s" "s < u64_max" "check_total_size_limit env auth rows old new = Inr ()" "old < new"
  shows "owned_size rows (au_did auth) + new \<le> s + old"
proof -
  have "saturating_add (min (owned_size rows (au_did auth)) u64_max - old) new \<le> s"
    using assms(2-6) by (auto simp: check_total_size_limit_def effective_max_total_size_def Let_def
        owner_usage_exact[OF assms(1)] split: if_splits)
  then show ?thesis using assms(5,7) by (auto simp: saturating_add_def min_def split: if_splits)
qed

text \<open>C15: The quotas bound what a non-administrator holds: an operation it makes leaves it with at
  most max_did_count slots and at most max_total_size bytes, or with no more than it held
  before when it already exceeded a limit that was lowered later.\<close>

theorem quota_respected:
  assumes "did_inv (ds_rows st)" "op_ok op" "au_role auth \<noteq> Admin"
    "get_acl_entry (de_acl env) (au_did auth) = Some e"
    "acl_max_did_count e = Some n" "n < u64_max" "acl_max_total_size e = Some s" "s < u64_max"
  shows "let st' = snd (did_step env auth now op st) in
      card (owned_slots (ds_rows st') (au_did auth)) \<le> max n (card (owned_slots (ds_rows st) (au_did auth)))
    \<and> owned_size (ds_rows st') (au_did auth) \<le> max s (owned_size (ds_rows st) (au_did auth))"
proof (cases "did_step env auth now op st")
  case (Pair o' st')
  let ?x = "au_did auth"
  consider "st' = st" | p where "slot_step auth (quota_ok env auth (ds_rows st)) (ds_rows st) (ds_rows st') p
      (op_exempt env auth now op (ds_rows st))"
    using step_cases[OF assms(1,2) Pair] by blast
  then show ?thesis
  proof cases
    case 2
    let ?r = "rec_at (ds_rows st) p" and ?r' = "rec_at (ds_rows st') p"
    obtain log w where f: "slot_effect (ds_rows st) (ds_rows st') p ?r' log w" using slot_stepD(1)[OF 2] by blast
    note q = slot_stepD(4)[OF 2] and a = slot_stepD(2)[OF 2]
    have i': "did_inv (ds_rows st')" using slot_step_inv[OF assms(1) 2] .
    have c: "card (owned_slots (ds_rows st') ?x) \<le> max n (card (owned_slots (ds_rows st) ?x))"
    proof (cases ?r)
      case None
      then have "card (owned_slots (ds_rows st) ?x) < n"
        using count_limit_Inr[OF assms(1,3-6)] q by (auto simp: quota_ok_def)
      then show ?thesis using owned_slots_effect[OF f, of ?x] owned_slots_finite[OF assms(1), of ?x]
        by (auto simp: card_insert_if)
    next
      case (Some r)
      then have "p \<in> owned_slots (ds_rows st) ?x" using a assms(3) by (auto simp: owned_slots_def owns_def authorised_def)
      then have "owned_slots (ds_rows st') ?x \<subseteq> owned_slots (ds_rows st) ?x"
        using owned_slots_effect[OF f, of ?x] by auto
      then show ?thesis using card_mono[OF owned_slots_finite[OF assms(1)]] by (simp add: le_max_iff_disj)
    qed
    have z: "owned_size (ds_rows st') ?x \<le> max s (owned_size (ds_rows st) ?x)"
    proof -
      have o: "owns ?r ?x \<or> rec_size ?r = 0" using a assms(3)
        by (auto simp: authorised_def owns_def split: option.splits)
      have m: "owned_size (ds_rows st') ?x + rec_size ?r \<le> owned_size (ds_rows st) ?x + rec_size ?r'"
        using owned_size_effect[OF assms(1) f i', of ?x] o by (auto split: if_splits)
      show ?thesis
      proof (cases "rec_size ?r' \<le> rec_size ?r")
        case True
        then show ?thesis using m by simp
      next
        case False
        then have "owned_size (ds_rows st) ?x + rec_size ?r' \<le> s + rec_size ?r"
          using size_limit_Inr[OF assms(1,3,4,7,8)] q by (auto simp: quota_ok_def)
        then show ?thesis using m by simp
      qed
    qed
    show ?thesis using c z Pair by (simp add: Let_def)
  qed (use Pair in \<open>simp add: Let_def\<close>)
qed

theorem quota_respected_witness:
  "card (owned_slots (ds_rows one_did) ''did:o'') \<le> max 1 (card (owned_slots [] ''did:o''))"
proof -
  obtain e where e: "get_acl_entry (de_acl sample_env) ''did:o'' = Some e" "acl_max_did_count e = Some 1"
    "acl_max_total_size e = Some 5"
    by (simp add: sample_env_def get_acl_entry_def acl_key_def ks_get_def)
  have "1 < u64_max" "5 < u64_max" by (simp_all add: u64_max_def)
  then show ?thesis
    using quota_respected[OF no_dids_inv, of "Register ''pp'' ''al'' False None" sample_owner sample_env e 1 5 7] e
    by (simp add: sample_owner_def one_did_def Let_def no_dids_def)
qed

end
