(* ===== verification/DidContent.thy ===== *)
theory DidContent
  imports DidProps
begin

text \<open>
  What happens to a slot's stored content: rollback, which rewrites the log, and the cache of
  resolved content that the unified daemon shares between the control plane and resolution.
\<close>

section \<open>Rollback\<close>

lemma str_lines_no_LF: "l \<in> set (str_lines s) \<Longrightarrow> CHR 0x0A \<notin> set l"
proof -
  assume a: "l \<in> set (str_lines s)"
  let ?ps = "split_on (CHR 0x0A) s"
  have "l \<in> strip_cr ` set (butlast ?ps) \<or> l = last ?ps"
    using a by (auto simp: str_lines_def Let_def split: if_splits)
  then obtain p where p: "p \<in> set ?ps" "l = strip_cr p \<or> l = p"
    using last_in_set[OF split_on_not_Nil[of "CHR 0x0A" s]] in_set_butlastD[of _ ?ps] by blast
  then show ?thesis using split_on_parts[OF p(1)] in_set_butlastD[of "CHR 0x0A" p]
    by (auto simp: strip_cr_def split: if_splits)
qed

lemma trim_not_Nil: "trim l \<noteq> [] \<Longrightarrow> l \<noteq> []"
  by (auto simp: trim_def trim_start_def trim_end_def)

text \<open>Joining nonblank lines and reading them back loses at most trailing carriage returns.\<close>

lemma nonblank_lines_join:
  assumes "\<forall>l \<in> set ls. CHR 0x0A \<notin> set l \<and> trim l \<noteq> []"
  shows "map trim (nonblank_lines (join_with [CHR 0x0A] ls)) = map trim ls"
proof (cases "ls = []")
  case False
  have s: "split_on (CHR 0x0A) (join_with [CHR 0x0A] ls) = ls"
    using split_on_join[OF False] assms by blast
  have l: "last ls \<noteq> []" using assms False trim_not_Nil by simp
  have e: "str_lines (join_with [CHR 0x0A] ls) = map strip_cr (butlast ls) @ [last ls]"
    using l by (simp add: str_lines_def s)
  have b: "\<forall>l \<in> set (butlast ls). trim (strip_cr l) = trim l \<and> trim l \<noteq> []"
    using assms trim_strip_cr by (meson in_set_butlastD)
  have "nonblank_lines (join_with [CHR 0x0A] ls) = map strip_cr (butlast ls) @ [last ls]"
    unfolding nonblank_lines_def e using b assms False by (auto simp: filter_id_conv)
  moreover have "map trim (map strip_cr (butlast ls)) = map trim (butlast ls)" using b by auto
  ultimately have "map trim (nonblank_lines (join_with [CHR 0x0A] ls)) = map trim (butlast ls @ [last ls])"
    by simp
  then show ?thesis using False by simp
next
  case True
  then show ?thesis by (simp add: nonblank_lines_def str_lines_def)
qed

lemma truncated_log_lines:
  "map trim (nonblank_lines (truncated_log keep content)) = take keep (map trim (nonblank_lines content))"
proof -
  have "\<forall>l \<in> set (take keep (nonblank_lines content)). CHR 0x0A \<notin> set l \<and> trim l \<noteq> []"
    using str_lines_no_LF by (auto simp: nonblank_lines_def dest!: in_set_takeD)
  then show ?thesis using nonblank_lines_join by (simp add: truncated_log_def take_map)
qed

text \<open>C16: An accepted rollback keeps a nonempty prefix of the log's entries, at least one fewer
  unless the requested version is the current one; the record's version count is the number of
  entries left and its size that of the stored bytes, and the witness file, which belongs to the
  removed entries, is gone from the store and the cache. Owner, slot and domain stay.\<close>

theorem rollback_keeps_prefix:
  assumes "did_inv (ds_rows st)" "rollback_did_to env auth now m target st = (Inr (r', md, removed), st')"
  shows "\<exists>r content log. rec_at (ds_rows st) m = Some r \<and> rec_at (ds_rows st') m = Some r'
    \<and> get_raw (ds_rows st) (content_log_key m) = Some content
    \<and> get_raw (ds_rows st') (content_log_key m) = Some log
    \<and> removed < length (nonblank_lines content)
    \<and> map trim (nonblank_lines log) = take (length (nonblank_lines content) - removed) (map trim (nonblank_lines content))
    \<and> (removed = 0 \<longrightarrow> target \<noteq> None \<and> st' = st)
    \<and> (removed \<noteq> 0 \<longrightarrow> dr_version_count r' = length (nonblank_lines log) \<and> dr_content_size r' = length log
         \<and> get_raw (ds_rows st') (content_witness_key m) = None
         \<and> ks_get (ds_cache st') (content_log_key m) = None \<and> ks_get (ds_cache st') (content_witness_key m) = None)
    \<and> (dr_owner r', dr_mnemonic r', dr_domain r') = (dr_owner r, dr_mnemonic r, dr_domain r)"
proof -
  obtain r content keep where k: "rollback_checks env auth m target (ds_rows st) = Inr (r, content, keep)"
    using assms(2) by (auto simp: rollback_did_to_def split: sum.splits)
  note f = rollback_checks_Inr[OF assms(1) k]
  let ?n = "length (nonblank_lines content)" and ?log = "truncated_log keep content"
  have n: "length (nonblank_lines ?log) = keep"
    using arg_cong[OF truncated_log_lines[of keep content], of length] f(7) by simp
  show ?thesis
  proof (cases "?n - keep = 0")
    case True
    have "target \<noteq> None"
    proof
      assume "target = None"
      then have "keep = ?n - 1" using f(8) by simp
      then show False using True f(6) by linarith
    qed
    moreover have "r' = r" "removed = 0" "st' = st"
      using assms(2) k True by (auto simp: rollback_did_to_def Let_def)
    ultimately show ?thesis using f by auto
  next
    case False
    have e: "r' = rolled_back_record env now keep ?log r" "removed = ?n - keep"
      "st' = invalidate_cached_content m (commit_rows [Put (content_log_key m) (RawRow ?log),
                    Put (did_key m) (RecRow r'), Del (content_witness_key m)] st)"
      using assms(2) k False by (auto simp: rollback_did_to_def Let_def)
    have g: "rec_at (ds_rows st') m = Some r'" "get_raw (ds_rows st') (content_log_key m) = Some ?log"
      "get_raw (ds_rows st') (content_witness_key m) = None"
      "ks_get (ds_cache st') (content_log_key m) = None" "ks_get (ds_cache st') (content_witness_key m) = None"
      by (simp_all add: e(3) invalidate_cached_content_def commit_rows_def rec_at_def get_raw_def ks_simps)
    have s: "?n - removed = keep" using e(2) f(7) False by simp
    have "dr_version_count r' = keep" "dr_content_size r' = length ?log"
      "(dr_owner r', dr_mnemonic r', dr_domain r') = (dr_owner r, dr_mnemonic r, dr_domain r)"
      by (simp_all add: e(1) rolled_back_record_def)
    moreover have "removed < ?n" "removed \<noteq> 0" using e(2) f(6,7) False by auto
    ultimately show ?thesis using g f(2,4) s n truncated_log_lines[of keep content] by auto
  qed
qed

definition two_entries :: did_state where
  "two_entries = snd (did_step sample_env sample_owner 7 (Register ''pp'' (''al'' @ [CHR 0x0A] @ ''b'') False None) no_dids)"

theorem rollback_keeps_prefix_witness:
  "\<exists>r' md st' log. rollback_did_to sample_env sample_owner 9 ''pp'' None two_entries = (Inr (r', md, 1), st')
    \<and> get_raw (ds_rows st') (content_log_key ''pp'') = Some log
    \<and> dr_version_count r' = length (nonblank_lines log)"
proof -
  have i: "did_inv (ds_rows two_entries)" unfolding two_entries_def by (rule step_inv[OF no_dids_inv]) simp
  have "(case fst (rollback_did_to sample_env sample_owner 9 ''pp'' None two_entries) of
      Inr (r, md, n) \<Rightarrow> n = 1 | Inl e \<Rightarrow> False)" by code_simp
  then obtain r' md st' where r: "rollback_did_to sample_env sample_owner 9 ''pp'' None two_entries = (Inr (r', md, 1), st')"
    by (cases "rollback_did_to sample_env sample_owner 9 ''pp'' None two_entries") (auto split: sum.splits prod.splits)
  show ?thesis using rollback_keeps_prefix[OF i r] r by auto
qed

section \<open>The cache of resolved content\<close>

text \<open>What a cache shared with resolution may hold: a log that is still stored, or the part of it
  that is served with the witness proofs still stored, and witness proofs that are still stored.\<close>

definition served_of :: "('e, 'p, 'k) log_lib \<Rightarrow> string option \<Rightarrow> string option \<Rightarrow> string \<Rightarrow> bool" where
  "served_of lib log proofs b \<longleftrightarrow> (case log of None \<Rightarrow> False
     | Some l \<Rightarrow> b = l \<or> servable_did_log lib l (map_option utf8_lossy proofs) = Some b)"

definition cache_fresh :: "('e, 'p, 'k) log_lib \<Rightarrow> did_state \<Rightarrow> bool" where
  "cache_fresh lib st \<longleftrightarrow> (\<forall>m b.
     (ks_get (ds_cache st) (content_log_key m) = Some b \<longrightarrow>
        served_of lib (get_raw (ds_rows st) (content_log_key m)) (get_raw (ds_rows st) (content_witness_key m)) b)
     \<and> (ks_get (ds_cache st) (content_witness_key m) = Some b \<longrightarrow> get_raw (ds_rows st) (content_witness_key m) = Some b))"

lemma fresh_invalidated:
  assumes "cache_fresh lib st" "slot_step auth q (ds_rows st) (ds_rows st') m ex"
    "ds_cache st' = ks_del (content_witness_key m) (ks_del (content_log_key m) (ds_cache st))"
  shows "cache_fresh lib st'"
proof -
  obtain r log w where e: "slot_effect (ds_rows st) (ds_rows st') m r log w"
    using slot_stepD(1)[OF assms(2)] by blast
  have g: "get_raw (ds_rows st') (content_log_key n) = get_raw (ds_rows st) (content_log_key n)"
    "get_raw (ds_rows st') (content_witness_key n) = get_raw (ds_rows st) (content_witness_key n)"
    if "n \<noteq> m" for n using e that unfolding slot_effect_def by simp_all
  have c: "ks_get (ds_cache st') (content_log_key n) = (if n = m then None else ks_get (ds_cache st) (content_log_key n))"
    "ks_get (ds_cache st') (content_witness_key n) = (if n = m then None else ks_get (ds_cache st) (content_witness_key n))" for n
    by (simp_all add: assms(3) ks_simps)
  show ?thesis using assms(1) g by (auto simp: cache_fresh_def c)
qed

lemma fresh_same_content:
  assumes "cache_fresh lib st" "ds_cache st' = ds_cache st"
    "\<And>m. ks_get (ds_rows st') (content_log_key m) = ks_get (ds_rows st) (content_log_key m)"
    "\<And>m. ks_get (ds_rows st') (content_witness_key m) = ks_get (ds_rows st) (content_witness_key m)"
  shows "cache_fresh lib st'"
  using assms by (simp add: cache_fresh_def get_raw_def)

lemma create_unforced_fresh:
  "cache_fresh lib st \<Longrightarrow> create_did env auth now picks path False domain st = (x, st') \<Longrightarrow> cache_fresh lib st'"
  by (rule fresh_same_content[where st = st])
    (auto simp: create_did_def create_path_def resolve_path_for_create_def commit_rows_def ks_simps
      split: sum.splits option.splits if_splits prod.splits)

lemma change_owner_fresh:
  "cache_fresh lib st \<Longrightarrow> change_did_owner env auth now m owner st = (x, st') \<Longrightarrow> cache_fresh lib st'"
  by (rule fresh_same_content[where st = st])
    (auto simp: change_did_owner_def Let_def commit_rows_def ks_simps split: sum.splits if_splits)

text \<open>The operations that the comment on invalidate_cached_content names.\<close>

definition invalidating :: "did_op \<Rightarrow> bool" where
  "invalidating op = (case op of Create _ _ force _ \<Rightarrow> \<not> force | UpdateName _ _ _ _ _ \<Rightarrow> False
     | RemoveName _ _ _ _ \<Rightarrow> False | _ \<Rightarrow> True)"

text \<open>C17: Registering, publishing, deleting, disabling, transferring, rolling back, uploading a witness
  proof and creating a slot without force leave no stale content in the cache that resolution
  serves from: whatever it still holds is what is stored, or the servable part of it.\<close>

theorem cache_stays_fresh:
  assumes "did_inv (ds_rows st)" "op_ok op" "invalidating op" "cache_fresh (de_lib env) st"
  shows "cache_fresh (de_lib env) (snd (did_step env auth now op st))"
proof (cases "did_step env auth now op st")
  case (Pair o' st')
  note i = assms(1) and f = assms(4)
  show ?thesis
  proof (cases o')
    case (Some e)
    show ?thesis using step_error[OF assms(1,2) Pair[unfolded Some]] Pair f by simp
  next
    case None
    note s = Pair[unfolded None]
    have "cache_fresh (de_lib env) st'"
    proof (cases op)
      case (Create picks path force domain)
      then show ?thesis using s assms(3) create_unforced_fresh[OF f]
        by (auto simp: did_step_def void_None invalidating_def)
    next
      case (Register path log force domain)
      then obtain x where x: "register_did_atomic env auth now path log force domain st = (Inr x, st')"
        using s by (auto simp: did_step_def void_None)
      then have "ds_cache st' = ks_del (content_witness_key path) (ks_del (content_log_key path) (ds_cache st))"
        by (auto simp: register_did_atomic_def Let_def invalidate_cached_content_def commit_rows_def record_update_def
            split: sum.splits prod.splits)
      then show ?thesis by (rule fresh_invalidated[OF f register_step[OF i x]])
    next
      case (Publish m log rd)
      then obtain x where x: "publish_did env auth now m log rd st = (Inr x, st')"
        using s by (auto simp: did_step_def void_None)
      then have "ds_cache st' = ks_del (content_witness_key m) (ks_del (content_log_key m) (ds_cache st))"
        by (auto simp: publish_did_def Let_def invalidate_cached_content_def commit_rows_def record_update_def
            split: sum.splits prod.splits)
      then show ?thesis by (rule fresh_invalidated[OF f publish_step[OF i x]])
    next
      case (UploadWitness m entry)
      then obtain x where x: "upload_witness env auth m entry st = (Inr x, st')"
        using s by (auto simp: did_step_def void_None)
      then have "ds_cache st' = ks_del (content_witness_key m) (ks_del (content_log_key m) (ds_cache st))"
        by (auto simp: upload_witness_def invalidate_cached_content_def commit_rows_def split: sum.splits)
      then show ?thesis by (rule fresh_invalidated[OF f witness_step[OF i x]])
    next
      case (Delete m rd)
      then obtain x where x: "delete_did env auth m rd st = (Inr x, st')"
        using s by (auto simp: did_step_def void_None)
      then have "ds_cache st' = ks_del (content_witness_key m) (ks_del (content_log_key m) (ds_cache st))"
        by (auto simp: delete_did_def invalidate_cached_content_def commit_rows_def split: sum.splits)
      then show ?thesis by (rule fresh_invalidated[OF f delete_step[OF i x]])
    next
      case (ChangeOwner m owner)
      then show ?thesis using s change_owner_fresh[OF f] by (auto simp: did_step_def void_None)
    next
      case (SetDisabled m off)
      then obtain x where x: "set_did_disabled env auth m off st = (Inr x, st')"
        using s by (auto simp: did_step_def void_None)
      then have "ds_cache st' = ks_del (content_witness_key m) (ks_del (content_log_key m) (ds_cache st))"
        by (auto simp: set_did_disabled_def invalidate_cached_content_def commit_rows_def split: sum.splits)
      then show ?thesis by (rule fresh_invalidated[OF f disable_step[OF i x]])
    next
      case (Rollback m target)
      then obtain x where x: "rollback_did_to env auth now m target st = (Inr x, st')"
        using s by (auto simp: did_step_def void_None)
      then have "st' = st \<or> ds_cache st' = ks_del (content_witness_key m) (ks_del (content_log_key m) (ds_cache st))"
        by (auto simp: rollback_did_to_def Let_def invalidate_cached_content_def commit_rows_def split: sum.splits if_splits)
      then show ?thesis using fresh_invalidated[OF f] rollback_step[OF i x] f by blast
    qed (use assms(3) in \<open>auto simp: invalidating_def\<close>)
    then show ?thesis using Pair by simp
  qed
qed

definition cached_did :: did_state where
  "cached_did = one_did\<lparr>ds_cache := [(content_log_key ''pp'', ''al'')]\<rparr>"

theorem cache_stays_fresh_witness:
  "cache_fresh (de_lib sample_env) (snd (did_step sample_env sample_owner 9 (Publish ''pp'' ''al'' None) cached_did))"
proof -
  have "get_raw (ds_rows one_did) (content_log_key ''pp'') = Some ''al''" by code_simp
  moreover have "content_witness_key m \<noteq> content_log_key ''pp''" for m by simp
  ultimately have "cache_fresh (de_lib sample_env) cached_did"
    by (auto simp: cached_did_def cache_fresh_def served_of_def ks_simps ks_get_def simp del: key_disjoint split: if_splits)
  then show ?thesis using cache_stays_fresh[of cached_did "Publish ''pp'' ''al'' None"] one_did_inv
    by (simp add: cached_did_def invalidating_def)
qed

text \<open>The agent-name verbs and a forced creation do change the stored content without evicting
  it: after an accepted name update, or after a forced re-creation that deletes the log, the
  cache still serves the old bytes.\<close>

lemma cache_goes_stale:
  "(case did_step naming_env victim 2 (UpdateName ''vv'' ''al'' ''1a.org/@al2'' None NameParked)
       ((did_run (take 1 name_theft) no_dids)\<lparr>ds_cache := [(content_log_key ''vv'', ''1a.org/@al'')]\<rparr>) of
     (err, st') \<Rightarrow> err = None
       \<and> get_raw (ds_rows st') (content_log_key ''vv'') = Some ''1a.org/@al2''
       \<and> ks_get (ds_cache st') (content_log_key ''vv'') = Some ''1a.org/@al'')
   \<and> (case did_step sample_env sample_owner 9 (Create [] (Some ''pp'') True None) cached_did of
     (err, st') \<Rightarrow> err = None \<and> get_raw (ds_rows st') (content_log_key ''pp'') = None
       \<and> ks_get (ds_cache st') (content_log_key ''pp'') = Some ''al'')"
  by code_simp

end
