(* ===== verification/Outbox.thy ===== *)
theory Outbox
  imports KvStore DidLog
begin

text \<open>
  The durable outbound queue of the control plane (did-hosting-control/src/outbox.rs): rows
  outbox:{target}:{micros}:{uuid}, enqueued by the mutations and drained per target by the worker.
  The transport is a parameter: what became of sending an entry. The clock, the document ids and
  the uuid suffixes are arguments. The keys are built from strings, so the UTF-8 test on them
  always succeeds; rows decode, so the malformed-entry branch is not reached.
\<close>

section \<open>Entries and keys\<close>

record 'b outbox_entry =
  ob_target :: string
  ob_msg_type :: string
  ob_body :: 'b
  ob_enqueued_at :: nat
  ob_attempts :: nat
  ob_next_attempt_at :: nat
  ob_last_error :: "string option"
  ob_awaiting_ack :: "string option"

type_synonym 'b outbox = "'b outbox_entry ks"

definition ACK_TIMEOUT_SECS :: nat where "ACK_TIMEOUT_SECS = 60"
definition MAX_ATTEMPTS :: nat where "MAX_ATTEMPTS = 50"
definition MAX_AGE_SECS :: nat where "MAX_AGE_SECS = 7 * 24 * 60 * 60"
definition MAX_BACKOFF_SECS :: nat where "MAX_BACKOFF_SECS = 5 * 60"

datatype HeadAction = Send | Wait

definition head_action :: "'b outbox_entry \<Rightarrow> nat \<Rightarrow> HeadAction" where
  "head_action e now = (if now < ob_next_attempt_at e then Wait else Send)"

text \<open>The format {:020}: at least twenty decimal digits.\<close>

definition pad20 :: "nat \<Rightarrow> string" where
  "pad20 n = replicate (20 - length (show_nat n)) (CHR ''0'') @ show_nat n"

definition target_prefix :: "string \<Rightarrow> string" where
  "target_prefix target = ''outbox:'' @ target @ '':''"

definition outbox_key :: "string \<Rightarrow> nat \<Rightarrow> string \<Rightarrow> string" where
  "outbox_key target micros uuid = target_prefix target @ pad20 micros @ '':'' @ uuid"

text \<open>The cut of an error text to 200 bytes; slicing inside a character panics (None).\<close>

definition char_boundary :: "string \<Rightarrow> nat \<Rightarrow> bool" where
  "char_boundary s i \<longleftrightarrow> i = length s \<or> (i < length s \<and> \<not> (0x80 \<le> (of_char (s ! i) :: nat) \<and> (of_char (s ! i) :: nat) < 0xC0))"

definition truncated_error :: "string \<Rightarrow> string option" where
  "truncated_error err = (if length err \<le> 200 then Some err
     else if char_boundary err 200 then Some (take 200 err @ [CHR 0xE2, CHR 0x80, CHR 0xA6]) else None)"

definition compute_backoff :: "nat \<Rightarrow> nat" where
  "compute_backoff attempts = min (2 ^ min attempts 10) MAX_BACKOFF_SECS"

section \<open>Queueing\<close>

definition enqueue :: "nat \<Rightarrow> nat \<Rightarrow> string \<Rightarrow> string \<Rightarrow> string \<Rightarrow> 'b \<Rightarrow> 'b outbox \<Rightarrow> 'b outbox" where
  "enqueue now micros uuid target msg_type body rows =
    ks_put (outbox_key target micros uuid)
      \<lparr>ob_target = target, ob_msg_type = msg_type, ob_body = body, ob_enqueued_at = now,
       ob_attempts = 0, ob_next_attempt_at = now, ob_last_error = None, ob_awaiting_ack = None\<rparr> rows"

text \<open>The target in a key: what is left after cutting the last two colon-separated parts.\<close>

definition key_target :: "string \<Rightarrow> string option" where
  "key_target k = Option.bind (strip_prefix_str ''outbox:'' k) (\<lambda>rest.
     Option.bind (rsplit_once (CHR '':'') rest) (\<lambda>(before_uuid, _).
     map_option fst (rsplit_once (CHR '':'') before_uuid)))"

definition list_targets :: "'b outbox \<Rightarrow> string list" where
  "list_targets rows = remdups_adj (sort (List.map_filter (\<lambda>(k, _). key_target k) (ks_scan ''outbox:'' rows)))"

definition list_pending_for_target :: "string \<Rightarrow> 'b outbox \<Rightarrow> (string \<times> 'b outbox_entry) list" where
  "list_pending_for_target target rows = sort_key fst (ks_scan (target_prefix target) rows)"

text \<open>A row is rewritten only while it is queued, so a removal is never undone.\<close>

definition rewrite_if_present :: "string \<Rightarrow> 'b outbox_entry \<Rightarrow> 'b outbox \<Rightarrow> 'b outbox" where
  "rewrite_if_present key e rows = (if ks_has rows key then ks_put key e rows else rows)"

definition u32_max :: nat where "u32_max = 4294967295"

definition failed_entry :: "nat \<Rightarrow> string \<Rightarrow> 'b outbox_entry \<Rightarrow> 'b outbox_entry" where
  "failed_entry now err e = e\<lparr>ob_attempts := min (ob_attempts e + 1) u32_max, ob_last_error := Some err,
     ob_next_attempt_at := saturating_add now (compute_backoff (ob_attempts e + 1)), ob_awaiting_ack := None\<rparr>"

definition record_failure :: "nat \<Rightarrow> string \<Rightarrow> 'b outbox_entry \<Rightarrow> string \<Rightarrow> 'b outbox \<Rightarrow> 'b outbox option" where
  "record_failure now key e err rows =
    map_option (\<lambda>t. rewrite_if_present key (failed_entry now t e) rows) (truncated_error err)"

definition sent_entry :: "nat \<Rightarrow> string \<Rightarrow> 'b outbox_entry \<Rightarrow> 'b outbox_entry" where
  "sent_entry now doc e = e\<lparr>ob_attempts := min (ob_attempts e + 1) u32_max,
     ob_next_attempt_at := saturating_add now ACK_TIMEOUT_SECS, ob_awaiting_ack := Some doc\<rparr>"

definition record_sent :: "nat \<Rightarrow> string \<Rightarrow> 'b outbox_entry \<Rightarrow> string \<Rightarrow> 'b outbox \<Rightarrow> 'b outbox" where
  "record_sent now key e doc rows = rewrite_if_present key (sent_entry now doc e) rows"

definition retire :: "string \<Rightarrow> 'b outbox \<Rightarrow> 'b outbox" where
  "retire key rows = ks_del key rows"

fun drop_matching :: "string \<Rightarrow> ('b \<Rightarrow> bool) \<Rightarrow> (string \<times> 'b outbox_entry) list \<Rightarrow> nat \<times> 'b outbox \<Rightarrow> nat \<times> 'b outbox" where
  "drop_matching msg_type p [] acc = acc"
| "drop_matching msg_type p ((k, e) # es) (n, rows) =
    (if ob_msg_type e = msg_type \<and> p (ob_body e) then drop_matching msg_type p es (n + 1, retire k rows)
     else drop_matching msg_type p es (n, rows))"

definition drop_queued :: "string \<Rightarrow> string \<Rightarrow> ('b \<Rightarrow> bool) \<Rightarrow> 'b outbox \<Rightarrow> nat \<times> 'b outbox" where
  "drop_queued target msg_type p rows = drop_matching msg_type p (list_pending_for_target target rows) (0, rows)"

definition acknowledge :: "string \<Rightarrow> string \<Rightarrow> 'b outbox \<Rightarrow> bool \<times> 'b outbox" where
  "acknowledge signer doc rows =
    (case find (\<lambda>(k, e). ob_awaiting_ack e = Some doc) (list_pending_for_target signer rows) of
       Some (k, e) \<Rightarrow> (True, retire k rows)
     | None \<Rightarrow> (False, rows))"

section \<open>The worker\<close>

record tick_report =
  tr_sent :: nat
  tr_deferred :: nat
  tr_dropped :: nat

text \<open>What sending one entry came to: the transport's error, or the id of the document that was
  sent and whether it went over HTTPS, whose reply already is the acknowledgement.\<close>

type_synonym outcome = "string + string \<times> bool"

definition past_budget :: "nat \<Rightarrow> 'b outbox_entry \<Rightarrow> bool" where
  "past_budget now e \<longleftrightarrow> MAX_ATTEMPTS \<le> ob_attempts e \<or> MAX_AGE_SECS \<le> now - ob_enqueued_at e"

text \<open>The loop over one target's pending entries up to the delivery: what is dropped, and the
  entry that is sent, if any.\<close>

datatype 'b pick = Idle | Deferred | Deliver string "'b outbox_entry"

fun pick_head :: "nat \<Rightarrow> (string \<times> 'b outbox_entry) list \<Rightarrow> 'b outbox \<Rightarrow> nat \<Rightarrow> 'b pick \<times> nat \<times> 'b outbox" where
  "pick_head now [] rows dropped = (Idle, dropped, rows)"
| "pick_head now ((k, e) # es) rows dropped =
    (if past_budget now e then pick_head now es (ks_del k rows) (dropped + 1)
     else if head_action e now = Wait then (Deferred, dropped, rows)
     else (Deliver k e, dropped, rows))"

text \<open>What follows the delivery of entry e, stored under k. None is a panic of the worker.\<close>

definition finish_delivery ::
  "nat \<Rightarrow> string \<Rightarrow> string \<Rightarrow> 'b outbox_entry \<Rightarrow> outcome \<Rightarrow> 'b outbox \<Rightarrow> 'b outbox option" where
  "finish_delivery now target k e outcome rows = (case outcome of
     Inl err \<Rightarrow> record_failure now k e err rows
   | Inr (doc, https) \<Rightarrow>
       let rows1 = record_sent now k e doc rows
       in Some (if https then snd (acknowledge target doc rows1) else rows1))"

definition tick_target ::
  "nat \<Rightarrow> ('b outbox_entry \<Rightarrow> outcome) \<Rightarrow> string \<Rightarrow> tick_report \<times> 'b outbox \<Rightarrow> (tick_report \<times> 'b outbox) option" where
  "tick_target now deliver target acc = (case acc of (report, rows) \<Rightarrow>
    (case pick_head now (list_pending_for_target target rows) rows 0 of (p, dropped, rows1) \<Rightarrow>
      let report1 = report\<lparr>tr_dropped := tr_dropped report + dropped\<rparr>
      in (case p of
           Idle \<Rightarrow> Some (report1, rows1)
         | Deferred \<Rightarrow> Some (report1\<lparr>tr_deferred := tr_deferred report1 + 1\<rparr>, rows1)
         | Deliver k e \<Rightarrow>
             map_option (Pair (case deliver e of
                 Inl _ \<Rightarrow> report1\<lparr>tr_deferred := tr_deferred report1 + 1\<rparr>
               | Inr _ \<Rightarrow> report1\<lparr>tr_sent := tr_sent report1 + 1\<rparr>))
               (finish_delivery now target k e (deliver e) rows1))))"

fun tick_targets ::
  "nat \<Rightarrow> ('b outbox_entry \<Rightarrow> outcome) \<Rightarrow> string list \<Rightarrow> tick_report \<times> 'b outbox \<Rightarrow> (tick_report \<times> 'b outbox) option" where
  "tick_targets now deliver [] acc = Some acc"
| "tick_targets now deliver (t # ts) acc =
    Option.bind (tick_target now deliver t acc) (tick_targets now deliver ts)"

definition empty_report :: tick_report where
  "empty_report = \<lparr>tr_sent = 0, tr_deferred = 0, tr_dropped = 0\<rparr>"

text \<open>One tick; without a messaging service, an own DID or a signing key it does nothing.\<close>

definition run_tick ::
  "bool \<Rightarrow> nat \<Rightarrow> ('b outbox_entry \<Rightarrow> outcome) \<Rightarrow> 'b outbox \<Rightarrow> (tick_report \<times> 'b outbox) option" where
  "run_tick ready now deliver rows =
    (if \<not> ready then Some (empty_report, rows)
     else tick_targets now deliver (list_targets rows) (empty_report, rows))"

section \<open>Keys\<close>

lemma digits_val_replicate: "digits_val (replicate n (CHR ''0'') @ s) = digits_val s"
  by (induction n) (simp_all add: digits_val_def digit_val_def)

lemma is_digit_val: "is_digit c \<Longrightarrow> c = digit_char (digit_val c) \<and> digit_val c < 10"
proof -
  assume d: "is_digit c"
  have "(of_char c :: nat) \<ge> 48" "(of_char c :: nat) \<le> 57" using d by (auto simp: is_digit_def less_eq_char_def)
  then show ?thesis by (simp add: digit_char_def digit_val_def)
qed

lemma digit_less: "is_digit c \<Longrightarrow> is_digit d \<Longrightarrow> digit_val c < digit_val d \<Longrightarrow> c < d"
  by (auto simp: is_digit_def less_char_def less_eq_char_def digit_val_def)

lemma digit_eq: "is_digit c \<Longrightarrow> is_digit d \<Longrightarrow> digit_val c = digit_val d \<Longrightarrow> c = d"
  using is_digit_val by metis

lemma snoc_less:
  fixes c d :: char
  shows "length xs = length ys \<Longrightarrow> xs @ [c] < ys @ [d] \<longleftrightarrow> xs < ys \<or> (xs = ys \<and> c < d)"
  by (induction xs ys rule: list_induct2) auto

text \<open>Decimal strings of one length are ordered like the numbers they denote.\<close>

lemma digits_order:
  "length xs = length ys \<Longrightarrow> list_all is_digit xs \<Longrightarrow> list_all is_digit ys \<Longrightarrow>
   (digits_val xs < digits_val ys \<longrightarrow> xs < ys) \<and> (digits_val xs = digits_val ys \<longrightarrow> xs = ys)"
proof (induction xs arbitrary: ys rule: rev_induct)
  case (snoc c xs)
  then obtain ys' d where y: "ys = ys' @ [d]" by (cases ys rule: rev_cases) auto
  have i: "(digits_val xs < digits_val ys' \<longrightarrow> xs < ys') \<and> (digits_val xs = digits_val ys' \<longrightarrow> xs = ys')"
    using snoc by (simp add: y)
  have l: "length xs = length ys'" and dc: "is_digit c" "is_digit d" using snoc.prems by (simp_all add: y)
  have b: "digit_val c < 10" "digit_val d < 10" using is_digit_val dc by blast+
  show ?case
  proof (intro conjI impI)
    assume "digits_val (xs @ [c]) < digits_val ys"
    then have "digits_val xs < digits_val ys' \<or> (digits_val xs = digits_val ys' \<and> digit_val c < digit_val d)"
      using b by (auto simp: y digits_val_snoc)
    then show "xs @ [c] < ys" using i digit_less[OF dc] by (auto simp: y snoc_less[OF l])
  next
    assume "digits_val (xs @ [c]) = digits_val ys"
    then have "digits_val xs = digits_val ys' \<and> digit_val c = digit_val d"
      using b by (simp add: y digits_val_snoc) presburger
    then show "xs @ [c] = ys" using i digit_eq[OF dc] by (simp add: y)
  qed
qed simp

lemma show_nat_length: "n < 10 ^ k \<Longrightarrow> 0 < k \<Longrightarrow> length (show_nat n) \<le> k"
proof (induction k arbitrary: n)
  case (Suc k)
  show ?case
  proof (cases "n < 10")
    case False
    then have "n div 10 < 10 ^ k" "0 < k" using Suc.prems by (auto intro: ccontr)
    then show ?thesis using False Suc.IH[of "n div 10"] by (subst show_nat.simps) simp
  qed (subst show_nat.simps, simp)
qed simp

lemma pad20_props: "list_all is_digit (pad20 n)" "digits_val (pad20 n) = n" "n < 10 ^ 20 \<Longrightarrow> length (pad20 n) = 20"
  using show_nat_digits[of n] show_nat_length[of n 20]
  by (auto simp: pad20_def digits_val_replicate digits_val_show is_digit_def list_all_iff)

lemma pad20_less:
  assumes "m < n" "n < 10 ^ 20"
  shows "pad20 m < pad20 n"
proof -
  have "m < 10 ^ 20" using assms by simp
  then show ?thesis
    using digits_order[of "pad20 m" "pad20 n"] pad20_props(1,2) pad20_props(3)[of m] pad20_props(3)[of n] assms
    by simp
qed

lemma append_less_left: "a < b \<Longrightarrow> length a = length b \<Longrightarrow> a @ x < b @ (y :: string)"
proof (induction a arbitrary: b)
  case (Cons c a)
  then show ?case by (cases b) auto
qed simp

lemma append_less_same: "p @ x < p @ (y :: string) \<longleftrightarrow> x < y"
  by (induction p) auto

text \<open>Keys of one target sort in the order of the clock, whatever the suffixes.\<close>

lemma outbox_key_less:
  assumes "m < n" "n < 10 ^ 20"
  shows "outbox_key t m u < outbox_key t n v"
proof -
  have "m < 10 ^ 20" using assms by simp
  then have "pad20 m @ CHR '':'' # u < pad20 n @ CHR '':'' # v"
    using append_less_left[OF pad20_less[OF assms]] pad20_props(3) assms(2) by simp
  then show ?thesis by (simp add: outbox_key_def append_less_same)
qed

lemma pad20_no_colon: "CHR '':'' \<notin> set (pad20 n)"
proof -
  have "\<not> is_digit (CHR '':'')" by code_simp
  then show ?thesis using pad20_props(1)[of n] by (auto simp: list_all_iff)
qed

lemma rsplit_last: "c \<notin> set b \<Longrightarrow> rsplit_once c (a @ c # b) = Some (a, b)"
proof -
  assume c: "c \<notin> set b"
  have "split_once c (rev b @ c # rev a) = Some (rev b, rev a)" using c by (simp add: split_once_Some)
  then show ?thesis by (simp add: rsplit_once_def)
qed

lemma key_target_key: "CHR '':'' \<notin> set u \<Longrightarrow> key_target (outbox_key t m u) = Some t"
  using rsplit_last[of "CHR '':''" u "t @ CHR '':'' # pad20 m"] rsplit_last[OF pad20_no_colon, of t m]
  by (simp add: key_target_def outbox_key_def target_prefix_def strip_prefix_str_def)

text \<open>Target DIDs of which none is a colon-prefix of another.\<close>

definition targets_apart :: "string set \<Rightarrow> bool" where
  "targets_apart T \<longleftrightarrow> (\<forall>t \<in> T. \<forall>u \<in> T. t \<noteq> u \<longrightarrow> \<not> prefix (t @ '':'') (u @ '':''))"

lemma apart_key:
  assumes "targets_apart T" "t \<in> T" "u \<in> T" "prefix (target_prefix t) (outbox_key u m x)"
  shows "t = u"
proof -
  have "prefix (t @ '':'') ((u @ '':'') @ pad20 m @ '':'' @ x)"
    using assms(4) by (simp add: target_prefix_def outbox_key_def)
  then have "prefix (t @ '':'') (u @ '':'') \<or> prefix (u @ '':'') (t @ '':'')"
    using prefix_same_cases[of "t @ '':''" _ "u @ '':''"] by (meson prefixI)
  then show ?thesis using assms(1-3) by (auto simp: targets_apart_def)
qed

section \<open>Queues\<close>

definition queue :: "'b outbox \<Rightarrow> string \<Rightarrow> 'b outbox_entry list" where
  "queue rows t = map snd (list_pending_for_target t rows)"

definition outbox_ok :: "string set \<Rightarrow> 'b outbox \<Rightarrow> bool" where
  "outbox_ok T rows \<longleftrightarrow> ks_ok rows
   \<and> (\<forall>k e. ks_get rows k = Some e \<longrightarrow>
        ob_target e \<in> T \<and> (\<exists>m u. k = outbox_key (ob_target e) m u \<and> m < 10 ^ 20 \<and> CHR '':'' \<notin> set u))"

lemma pending_scan: "ks_ok rows \<Longrightarrow> list_pending_for_target t rows = ks_scan (target_prefix t) rows"
  using rows.scan_sorted[of rows "target_prefix t"]
  by (simp add: list_pending_for_target_def sort_key_id_if_sorted strict_sorted_iff)

lemma queue_scan: "ks_ok rows \<Longrightarrow> queue rows t = map snd (ks_scan (target_prefix t) rows)"
  by (simp add: queue_def pending_scan)

lemma queue_cong:
  "ks_ok rows \<Longrightarrow> ks_ok rows' \<Longrightarrow> (\<And>k. prefix (target_prefix t) k \<Longrightarrow> ks_get rows' k = ks_get rows k) \<Longrightarrow>
   queue rows' t = queue rows t"
  using rows.scan_cong[of rows rows' "target_prefix t"] by (simp add: queue_scan)

lemma ok_rowE:
  assumes "outbox_ok T rows" "ks_get rows k = Some e"
  obtains m u where "k = outbox_key (ob_target e) m u" "m < 10 ^ 20" "CHR '':'' \<notin> set u" "ob_target e \<in> T"
  using assms unfolding outbox_ok_def by blast

lemma key_prefix: "prefix (target_prefix t) (outbox_key t m u)"
  by (simp add: outbox_key_def)

lemma ok_row:
  assumes "outbox_ok T rows" "ks_get rows k = Some e"
  shows "prefix (target_prefix (ob_target e)) k" "ob_target e \<in> T" "key_target k = Some (ob_target e)"
    "prefix ''outbox:'' k"
proof -
  obtain m u where k: "k = outbox_key (ob_target e) m u" "CHR '':'' \<notin> set u" and t: "ob_target e \<in> T"
    using ok_rowE[OF assms] by blast
  show "prefix (target_prefix (ob_target e)) k" "ob_target e \<in> T" "key_target k = Some (ob_target e)"
    using k t key_prefix key_target_key by simp_all
  show "prefix ''outbox:'' k" by (simp add: k(1) outbox_key_def target_prefix_def)
qed

lemma ok_apart:
  assumes "targets_apart T" "outbox_ok T rows" "t \<in> T" "ks_get rows k = Some e" "prefix (target_prefix t) k"
  shows "ob_target e = t"
  using ok_rowE[OF assms(2,4)] apart_key[OF assms(1,3)] assms(5) by metis

lemma sorted_dedup_distinct: "sorted xs \<Longrightarrow> distinct (remdups_adj xs)"
  by (induction xs rule: remdups_adj.induct) (auto simp: antisym)

lemma list_targets_props:
  assumes "outbox_ok T rows"
  shows "set (list_targets rows) = {ob_target e | k e. ks_get rows k = Some e}" "distinct (list_targets rows)"
proof -
  have i: "ks_ok rows" using assms by (simp add: outbox_ok_def)
  note k = ok_row(3,4)[OF assms]
  show "set (list_targets rows) = {ob_target e | k e. ks_get rows k = Some e}"
    using k by (fastforce simp: list_targets_def set_map_filter rows.scan_set[OF i])
  show "distinct (list_targets rows)"
    unfolding list_targets_def by (rule sorted_dedup_distinct) simp
qed

section \<open>The specification of a tick\<close>

text \<open>What one tick does to one target's queue: entries past their budget at the front go, and the
  first that remains is sent unless it has to wait; behind it nothing moves.\<close>

definition serve_queue ::
  "nat \<Rightarrow> ('b outbox_entry \<Rightarrow> outcome) \<Rightarrow> 'b outbox_entry list \<Rightarrow> 'b outbox_entry list option" where
  "serve_queue now deliver q = (case dropWhile (past_budget now) q of
     [] \<Rightarrow> Some []
   | e # r \<Rightarrow>
       if head_action e now = Wait then Some (e # r)
       else (case deliver e of
           Inl err \<Rightarrow> map_option (\<lambda>t. failed_entry now t e # r) (truncated_error err)
         | Inr (doc, https) \<Rightarrow> Some (if https then r else sent_entry now doc e # r)))"

lemma pick_head_scan:
  assumes "ks_ok rows" "ks_scan p rows = es" "pick_head now es rows d = (pk, n, rows1)"
  shows "ks_ok rows1 \<and> ks_scan p rows1 = dropWhile (past_budget now \<circ> snd) es
    \<and> (\<forall>k. \<not> prefix p k \<longrightarrow> ks_get rows1 k = ks_get rows k)
    \<and> (\<forall>k v. ks_get rows1 k = Some v \<longrightarrow> ks_get rows k = Some v)
    \<and> pk = (case dropWhile (past_budget now \<circ> snd) es of [] \<Rightarrow> Idle
        | (k, e) # r \<Rightarrow> if head_action e now = Wait then Deferred else Deliver k e)"
  using assms
proof (induction es arbitrary: rows d)
  case (Cons row es)
  obtain k e where r: "row = (k, e)" by force
  show ?case
  proof (cases "past_budget now e")
    case True
    have "(k, e) \<in> set (ks_scan p rows)" using Cons.prems(2) by (simp add: r)
    then have m: "prefix p k" using rows.scan_mem[OF Cons.prems(1)] by blast
    have "ks_scan p (ks_del k rows) = filter (\<lambda>row. fst row \<noteq> k) ((k, e) # es)"
      using rows.scan_del[OF Cons.prems(1), of p k] Cons.prems(2) r by simp
    also have "\<dots> = es"
      using rows.scan_distinct[OF Cons.prems(1), of p] Cons.prems(2) r by (auto simp: filter_id_conv)
    finally have e: "ks_scan p (ks_del k rows) = es" .
    have q: "pick_head now es (ks_del k rows) (d + 1) = (pk, n, rows1)" using Cons.prems(3) True by (simp add: r)
    have i: "ks_ok (ks_del k rows)" using Cons.prems(1) by (simp add: ks_simps)
    have t: "dropWhile (past_budget now \<circ> snd) (row # es) = dropWhile (past_budget now \<circ> snd) es"
      using True by (simp add: r)
    note h = Cons.IH[OF i e q]
    have "\<forall>j. \<not> prefix p j \<longrightarrow> ks_get rows1 j = ks_get rows j"
    proof (intro allI impI)
      fix j assume "\<not> prefix p j"
      moreover from this have "j \<noteq> k" using m by blast
      ultimately show "ks_get rows1 j = ks_get rows j" using h by (simp add: ks_simps)
    qed
    moreover have "\<forall>j v. ks_get rows1 j = Some v \<longrightarrow> ks_get rows j = Some v"
    proof (intro allI impI)
      fix j v assume "ks_get rows1 j = Some v"
      then have "ks_get (ks_del k rows) j = Some v" using h by blast
      then show "ks_get rows j = Some v" by (simp add: ks_simps split: if_splits)
    qed
    ultimately show ?thesis using h unfolding t by blast
  next
    case False
    then have "pk = (if head_action e now = Wait then Deferred else Deliver k e)" "rows1 = rows"
      using Cons.prems(3) by (simp_all add: r split: if_splits)
    then show ?thesis using False Cons.prems(1,2) by (simp add: r)
  qed
qed simp

lemma map_upd_head:
  "distinct (map fst ((k, e) # r)) \<Longrightarrow>
   map (\<lambda>(j, w). if j = k then (k, v) else (j, w)) ((k, e) # r) = (k, v) # r"
  by (auto intro!: map_idI simp: image_iff split: prod.splits)

lemma head_row:
  assumes "ks_ok rows" "ks_scan p rows = (k, e) # r"
  shows "prefix p k" "ks_get rows k = Some e"
proof -
  have "(k, e) \<in> set (ks_scan p rows)" using assms(2) by simp
  then show "prefix p k" "ks_get rows k = Some e" using rows.scan_mem[OF assms(1)] by blast+
qed

lemma rewrite_head:
  assumes "ks_ok rows" "ks_scan p rows = (k, e) # r"
  shows "ks_scan p (rewrite_if_present k v rows) = (k, v) # r"
    "ks_ok (rewrite_if_present k v rows)" "j \<noteq> k \<Longrightarrow> ks_get (rewrite_if_present k v rows) j = ks_get rows j"
    "ks_get (rewrite_if_present k v rows) k = Some v"
proof -
  note g = head_row(2)[OF assms]
  show "ks_scan p (rewrite_if_present k v rows) = (k, v) # r"
    using scan_put_present[OF assms(1), of k p v] g map_upd_head[of k e r v] rows.scan_distinct[OF assms(1), of p]
    by (simp add: rewrite_if_present_def ks_simps assms(2))
  show "ks_ok (rewrite_if_present k v rows)" "j \<noteq> k \<Longrightarrow> ks_get (rewrite_if_present k v rows) j = ks_get rows j"
    "ks_get (rewrite_if_present k v rows) k = Some v"
    using assms(1) g by (simp_all add: rewrite_if_present_def ks_simps)
qed

text \<open>A step on one target's rows: they stay in order and other rows are not touched.\<close>

definition target_step :: "string \<Rightarrow> 'b outbox \<Rightarrow> 'b outbox \<Rightarrow> bool" where
  "target_step t rows rows' \<longleftrightarrow> ks_ok rows'
   \<and> (\<forall>k. \<not> prefix (target_prefix t) k \<longrightarrow> ks_get rows' k = ks_get rows k)
   \<and> (\<forall>k v. ks_get rows' k = Some v \<longrightarrow> (\<exists>w. ks_get rows k = Some w \<and> ob_target w = ob_target v))"

lemma target_step_ok: "outbox_ok T rows \<Longrightarrow> target_step t rows rows' \<Longrightarrow> outbox_ok T rows'"
  unfolding outbox_ok_def target_step_def by metis

lemma entry_target [simp]:
  "ob_target (failed_entry now err e) = ob_target e" "ob_target (sent_entry now doc e) = ob_target e"
  "ob_awaiting_ack (sent_entry now doc e) = Some doc"
  by (simp_all add: failed_entry_def sent_entry_def)

lemma rewrite_target_step:
  assumes "ks_ok rows" "ks_scan (target_prefix t) rows = (k, e) # r" "ob_target v = ob_target e"
  shows "target_step t rows (rewrite_if_present k v rows)"
proof -
  note h = rewrite_head[OF assms(1,2), where v = v] and g = head_row[OF assms(1,2)]
  have "ks_get (rewrite_if_present k v rows) j = (if j = k then Some v else ks_get rows j)" for j
    using h(3,4) by simp
  then show ?thesis using h(2) g assms(3) by (auto simp: target_step_def split: if_splits)
qed

lemma finish_head:
  assumes "ks_ok rows" "ks_scan (target_prefix t) rows = (k, e) # r"
  shows "map_option (\<lambda>rows'. map snd (ks_scan (target_prefix t) rows')) (finish_delivery now t k e out rows)
      = (case out of Inl err \<Rightarrow> map_option (\<lambda>x. failed_entry now x e # map snd r) (truncated_error err)
         | Inr (doc, https) \<Rightarrow> Some (if https then map snd r else sent_entry now doc e # map snd r))
    \<and> (\<forall>rows'. finish_delivery now t k e out rows = Some rows' \<longrightarrow> target_step t rows rows')"
proof (cases out)
  case (Inl err)
  show ?thesis
  proof (cases "truncated_error err")
    case (Some x)
    have "finish_delivery now t k e out rows = Some (rewrite_if_present k (failed_entry now x e) rows)"
      using Inl Some by (simp add: finish_delivery_def record_failure_def)
    then show ?thesis using Inl Some rewrite_head(1)[OF assms] rewrite_target_step[OF assms] by simp
  qed (simp add: Inl finish_delivery_def record_failure_def)
next
  case (Inr o2)
  obtain doc https where o: "o2 = (doc, https)" by force
  let ?v = "sent_entry now doc e" and ?rows1 = "rewrite_if_present k (sent_entry now doc e) rows"
  note h = rewrite_head(1,2)[OF assms, where v = ?v] and g = head_row[OF assms]
  have s: "target_step t rows ?rows1" using rewrite_target_step[OF assms] by simp
  have a: "acknowledge t doc ?rows1 = (True, ks_del k ?rows1)"
    using h(1) by (simp add: acknowledge_def pending_scan[OF h(2)] retire_def)
  have d: "ks_scan (target_prefix t) (ks_del k ?rows1) = r"
    using rows.scan_del[OF h(2), of "target_prefix t" k] rows.scan_distinct[OF h(2), of "target_prefix t"]
    by (auto simp: h(1) filter_id_conv)
  have "target_step t rows (ks_del k ?rows1)"
    using s g(1) by (auto simp: target_step_def ks_simps)
  moreover have "finish_delivery now t k e out rows = Some (if https then ks_del k ?rows1 else ?rows1)"
    using Inr o a by (simp add: finish_delivery_def Let_def record_sent_def)
  ultimately show ?thesis using Inr o s d h(1) by simp
qed

lemma target_step_trans: "target_step t a b \<Longrightarrow> target_step t b c \<Longrightarrow> target_step t a c"
  unfolding target_step_def by metis

lemma tick_target_queue:
  assumes "ks_ok rows"
  shows "map_option (\<lambda>(rep', rows'). queue rows' t) (tick_target now deliver t (rep, rows))
      = serve_queue now deliver (queue rows t)
    \<and> (\<forall>rep' rows'. tick_target now deliver t (rep, rows) = Some (rep', rows') \<longrightarrow> target_step t rows rows')"
proof -
  let ?es = "ks_scan (target_prefix t) rows"
  obtain pk n rows1 where p: "pick_head now ?es rows 0 = (pk, n, rows1)" by (metis prod.exhaust)
  note h = pick_head_scan[OF assms refl p]
  have s: "target_step t rows rows1" unfolding target_step_def using h by blast
  have k1: "ks_ok rows1" using h by blast
  have q: "dropWhile (past_budget now) (queue rows t) = map snd (dropWhile (past_budget now \<circ> snd) ?es)"
    by (simp add: queue_scan[OF assms] dropWhile_map)
  note def = tick_target_def pending_scan[OF assms] p serve_queue_def q
  show ?thesis
  proof (cases "dropWhile (past_budget now \<circ> snd) ?es")
    case Nil
    then have "pk = Idle" "ks_scan (target_prefix t) rows1 = []" using h unfolding Nil by simp_all
    then show ?thesis using s by (simp add: def Nil queue_scan[OF k1] Let_def)
  next
    case (Cons row r)
    obtain k e where r: "row = (k, e)" by force
    have sc: "ks_scan (target_prefix t) rows1 = (k, e) # r" using h Cons r by simp
    show ?thesis
    proof (cases "head_action e now = Wait")
      case True
      then have "pk = Deferred" using h Cons r by simp
      then show ?thesis using s sc True by (simp add: def Cons r queue_scan[OF k1] Let_def)
    next
      case False
      then have pk: "pk = Deliver k e" using h Cons r by simp
      note f = finish_head[OF k1 sc, of now "deliver e"]
      show ?thesis
      proof (cases "finish_delivery now t k e (deliver e) rows1")
        case None
        then show ?thesis using f False pk
          by (auto simp: def Cons r Let_def split: sum.splits prod.splits)
      next
        case (Some rows2)
        then have t2: "target_step t rows1 rows2" using f by blast
        then have k2: "ks_ok rows2" by (simp add: target_step_def)
        show ?thesis using f False pk Some target_step_trans[OF s t2]
          by (auto simp: def Cons r Let_def queue_scan[OF k2] split: sum.splits prod.splits)
      qed
    qed
  qed
qed

lemma apart_queue:
  assumes "targets_apart T" "t \<in> T" "u \<in> T" "u \<noteq> t" "ks_ok rows" "target_step t rows rows'"
  shows "queue rows' u = queue rows u"
proof (rule queue_cong[OF assms(5)])
  show "ks_ok rows'" using assms(6) by (simp add: target_step_def)
  fix k assume k: "prefix (target_prefix u) k"
  have "\<not> prefix (target_prefix t) k"
  proof
    assume "prefix (target_prefix t) k"
    then have "prefix (target_prefix t) (target_prefix u) \<or> prefix (target_prefix u) (target_prefix t)"
      using k prefix_same_cases by blast
    then have "prefix (t @ '':'') (u @ '':'') \<or> prefix (u @ '':'') (t @ '':'')" by (simp add: target_prefix_def)
    then show False using assms(1-4) by (auto simp: targets_apart_def)
  qed
  then show "ks_get rows' k = ks_get rows k" using assms(6) by (simp add: target_step_def)
qed

lemma tick_targets_queues:
  assumes "targets_apart T" "outbox_ok T rows" "distinct ts" "set ts \<subseteq> T"
    "tick_targets now deliver ts (rep, rows) = Some (rep', rows')"
  shows "outbox_ok T rows' \<and> (\<forall>t \<in> T. if t \<in> set ts then serve_queue now deliver (queue rows t) = Some (queue rows' t)
      else queue rows' t = queue rows t)"
  using assms(2-)
proof (induction ts arbitrary: rep rows)
  case (Cons t ts)
  have o: "ks_ok rows" using Cons.prems(1) by (simp add: outbox_ok_def)
  obtain rep1 rows1 where t: "tick_target now deliver t (rep, rows) = Some (rep1, rows1)"
    "tick_targets now deliver ts (rep1, rows1) = Some (rep', rows')"
    using Cons.prems(4) by (auto split: bind_splits)
  have s: "target_step t rows rows1" and q: "serve_queue now deliver (queue rows t) = Some (queue rows1 t)"
    using tick_target_queue[OF o, of t now deliver rep] t(1) by auto
  note i = Cons.IH[OF target_step_ok[OF Cons.prems(1) s] _ _ t(2)]
  have "queue rows1 u = queue rows u" if "u \<in> T" "u \<noteq> t" for u
    using apart_queue[OF assms(1) _ that(1,2) o s] Cons.prems(3) by simp
  note keep = this
  have i': "outbox_ok T rows' \<and> (\<forall>u \<in> T. if u \<in> set ts then serve_queue now deliver (queue rows1 u) = Some (queue rows' u)
      else queue rows' u = queue rows1 u)"
    using i Cons.prems(2,3) by simp
  show ?case
  proof (intro conjI ballI)
    fix u assume u: "u \<in> T"
    show "if u \<in> set (t # ts) then serve_queue now deliver (queue rows u) = Some (queue rows' u)
        else queue rows' u = queue rows u"
      using i' keep[OF u] q Cons.prems(2) u by (cases "u = t") auto
  qed (use i' in blast)
qed simp

lemma serve_queue_total:
  "(\<And>e err. deliver e = Inl err \<Longrightarrow> truncated_error err \<noteq> None) \<Longrightarrow> serve_queue now deliver q \<noteq> None"
  by (auto simp: serve_queue_def split: list.splits sum.splits prod.splits)

lemma tick_targets_total:
  assumes "\<And>e err. deliver e = Inl err \<Longrightarrow> truncated_error err \<noteq> None" "ks_ok rows"
  shows "tick_targets now deliver ts (rep, rows) \<noteq> None"
  using assms(2)
proof (induction ts arbitrary: rep rows)
  case (Cons t ts)
  have "tick_target now deliver t (rep, rows) \<noteq> None"
    using tick_target_queue[OF Cons.prems, of t now deliver rep] serve_queue_total[where deliver = deliver and now = now and q = "queue rows t"]
      assms(1) by auto
  then obtain rep1 rows1 where t: "tick_target now deliver t (rep, rows) = Some (rep1, rows1)" by auto
  then have "ks_ok rows1" using tick_target_queue[OF Cons.prems, of t now deliver rep] by (auto simp: target_step_def)
  then show ?case using t Cons.IH by simp
qed simp

section \<open>Interleavings\<close>

text \<open>The worker reads a row, delivers it and rewrites it; acknowledgements, superseding drops and
  new entries arrive in between.\<close>

record 'b outbox_state =
  os_rows :: "'b outbox"
  os_clock :: nat
  os_flight :: "(string \<times> string \<times> 'b outbox_entry) option"

inductive outbox_step :: "string set \<Rightarrow> 'b outbox_state \<Rightarrow> 'b outbox_state \<Rightarrow> bool" for T where
  Enqueue: "\<lbrakk>t \<in> T; os_clock s < micros; micros < 10 ^ 20; CHR '':'' \<notin> set uuid\<rbrakk> \<Longrightarrow>
    outbox_step T s (s\<lparr>os_rows := enqueue now micros uuid t msg_type body (os_rows s), os_clock := micros\<rparr>)"
| Pick: "\<lbrakk>t \<in> T; os_flight s = None;
     pick_head now (list_pending_for_target t (os_rows s)) (os_rows s) 0 = (pk, n, rows')\<rbrakk> \<Longrightarrow>
    outbox_step T s (s\<lparr>os_rows := rows',
      os_flight := (case pk of Deliver k e \<Rightarrow> Some (t, k, e) | _ \<Rightarrow> None)\<rparr>)"
| Finish: "\<lbrakk>os_flight s = Some (t, k, e); finish_delivery now t k e out (os_rows s) = Some rows'\<rbrakk> \<Longrightarrow>
    outbox_step T s (s\<lparr>os_rows := rows', os_flight := None\<rparr>)"
| Ack: "outbox_step T s (s\<lparr>os_rows := snd (acknowledge signer doc (os_rows s))\<rparr>)"
| Supersede: "outbox_step T s (s\<lparr>os_rows := snd (drop_queued t msg_type p (os_rows s))\<rparr>)"

inductive_cases outbox_stepE: "outbox_step T s s'"

definition untouched :: "'b outbox_entry \<Rightarrow> bool" where
  "untouched e \<longleftrightarrow> ob_attempts e = 0 \<and> ob_awaiting_ack e = None"

definition keyed_before :: "nat \<Rightarrow> string \<Rightarrow> string \<Rightarrow> bool" where
  "keyed_before clock t k \<longleftrightarrow> (\<exists>m u. k = outbox_key t m u \<and> m \<le> clock \<and> CHR '':'' \<notin> set u)"

definition state_ok :: "string set \<Rightarrow> 'b outbox_state \<Rightarrow> bool" where
  "state_ok T s \<longleftrightarrow> ks_ok (os_rows s) \<and> os_clock s < 10 ^ 20
   \<and> (\<forall>k e. ks_get (os_rows s) k = Some e \<longrightarrow> ob_target e \<in> T \<and> keyed_before (os_clock s) (ob_target e) k)
   \<and> (\<forall>j d k e. ks_get (os_rows s) j = Some d \<longrightarrow> ks_get (os_rows s) k = Some e \<longrightarrow> ob_target d = ob_target e
        \<longrightarrow> j < k \<longrightarrow> untouched e)
   \<and> (\<forall>t k e. os_flight s = Some (t, k, e) \<longrightarrow> ob_target e = t \<and> t \<in> T \<and> keyed_before (os_clock s) t k
        \<and> (\<forall>j d. ks_get (os_rows s) j = Some d \<longrightarrow> ob_target d = t \<longrightarrow> k \<le> j))"

lemma keyed_before_mono: "keyed_before c t k \<Longrightarrow> c \<le> c' \<Longrightarrow> keyed_before c' t k"
  unfolding keyed_before_def using le_trans by blast

lemma state_outbox_ok: "state_ok T s \<Longrightarrow> outbox_ok T (os_rows s)"
  unfolding state_ok_def outbox_ok_def keyed_before_def using le_less_trans by blast

lemma keyed_before_less: "keyed_before c t k \<Longrightarrow> c < m \<Longrightarrow> m < 10 ^ 20 \<Longrightarrow> k < outbox_key t m u"
  using outbox_key_less by (auto simp: keyed_before_def)

lemma keyed_before_target: "keyed_before c t k \<Longrightarrow> key_target k = Some t"
  using key_target_key by (auto simp: keyed_before_def)

lemma keyed_before_fresh: "keyed_before c t k \<Longrightarrow> c < m \<Longrightarrow> CHR '':'' \<notin> set u \<Longrightarrow> m < 10 ^ 20 \<Longrightarrow> k \<noteq> outbox_key t' m u"
proof
  assume a: "keyed_before c t k" "c < m" "CHR '':'' \<notin> set u" "m < 10 ^ 20" "k = outbox_key t' m u"
  have "key_target k = Some t'" unfolding a(5) by (rule key_target_key[OF a(3)])
  then have "t = t'" using keyed_before_target[OF a(1)] by simp
  then show False using keyed_before_less[OF a(1,2,4)] a(5) by auto
qed

text \<open>Removing rows keeps everything, whatever the worker has in flight.\<close>

lemma state_shrink:
  assumes "state_ok T s" "ks_ok rows'" "\<And>k v. ks_get rows' k = Some v \<Longrightarrow> ks_get (os_rows s) k = Some v"
  shows "state_ok T (s\<lparr>os_rows := rows'\<rparr>)"
  using assms unfolding state_ok_def by simp blast

lemma drop_matching_shrink:
  "ks_ok rows \<Longrightarrow> ks_ok (snd (drop_matching mt p es (n, rows)))
    \<and> (\<forall>k v. ks_get (snd (drop_matching mt p es (n, rows))) k = Some v \<longrightarrow> ks_get rows k = Some v)"
proof (induction mt p es "(n, rows)" arbitrary: n rows rule: drop_matching.induct)
  case (2 mt p k e es n rows)
  show ?case
  proof (cases "ob_msg_type e = mt \<and> p (ob_body e)")
    case True
    have "ks_ok (retire k rows)" using 2(3) by (simp add: retire_def ks_simps)
    note h = 2(1)[OF True this]
    have "ks_get rows j = Some v" if "ks_get (snd (drop_matching mt p es (n + 1, retire k rows))) j = Some v" for j v
    proof -
      have "ks_get (retire k rows) j = Some v" using h that by blast
      then show ?thesis by (simp add: retire_def ks_simps split: if_splits)
    qed
    then show ?thesis using h True by simp
  next
    case False
    then show ?thesis using 2(2)[OF False 2(3)] by auto
  qed
qed simp

lemma ack_shrink:
  "ks_ok rows \<Longrightarrow> ks_ok (snd (acknowledge signer doc rows))
    \<and> (\<forall>k v. ks_get (snd (acknowledge signer doc rows)) k = Some v \<longrightarrow> ks_get rows k = Some v)"
  by (auto simp: acknowledge_def retire_def ks_simps split: option.splits prod.splits if_splits)


lemma flight_head:
  assumes i: "state_ok T s" and a: "targets_apart T" "t \<in> T"
    and p: "pick_head now (list_pending_for_target t (os_rows s)) (os_rows s) 0 = (Deliver k e, n, rows')"
  shows "ob_target e = t" "keyed_before (os_clock s) t k"
    "ks_get rows' j = Some d \<Longrightarrow> ob_target d = t \<Longrightarrow> k \<le> j"
proof -
  have o: "outbox_ok T (os_rows s)" and k0: "ks_ok (os_rows s)"
    using state_outbox_ok[OF i] i by (auto simp: state_ok_def)
  note h = pick_head_scan[OF k0 refl p[unfolded pending_scan[OF k0]]]
  have k1: "ks_ok rows'" using h by blast
  obtain r where sc: "ks_scan (target_prefix t) rows' = (k, e) # r"
    using h by (cases "dropWhile (past_budget now \<circ> snd) (ks_scan (target_prefix t) (os_rows s))")
      (auto split: if_splits)
  note g = head_row[OF k1 sc]
  have ke: "ks_get (os_rows s) k = Some e" using h g(2) by blast
  show t: "ob_target e = t" using ok_apart[OF a(1) o a(2) ke g(1)] .
  show "keyed_before (os_clock s) t k" using i ke t by (auto simp: state_ok_def)
  assume j: "ks_get rows' j = Some d" "ob_target d = t"
  then have "prefix (target_prefix t) j" using ok_row(1)[OF o] h by blast
  then have "(j, d) \<in> set ((k, e) # r)" using rows.scan_mem[OF k1] j(1) sc by metis
  then show "k \<le> j" using rows.scan_sorted[OF k1, of "target_prefix t"] sc by auto
qed

lemma state_rewrite:
  assumes i: "state_ok T s" and f: "os_flight s = Some (t, k, e)" and v: "ob_target v = ob_target e"
  shows "state_ok T (s\<lparr>os_rows := rewrite_if_present k v (os_rows s), os_flight := None\<rparr>)"
proof (cases "ks_has (os_rows s) k")
  case False
  then show ?thesis using i by (simp add: rewrite_if_present_def state_ok_def)
next
  case True
  have g: "ks_get (ks_put k v (os_rows s)) j = (if j = k then Some v else ks_get (os_rows s) j)" for j
    by (simp add: ks_simps)
  have m: "\<And>j d. ks_get (os_rows s) j = Some d \<Longrightarrow> ob_target d = t \<Longrightarrow> k \<le> j"
    and t: "ob_target v = t" "t \<in> T" "keyed_before (os_clock s) t k"
    using i f v unfolding state_ok_def by blast+
  have p: "\<And>j d l c. ks_get (os_rows s) j = Some d \<Longrightarrow> ks_get (os_rows s) l = Some c \<Longrightarrow> ob_target d = ob_target c
        \<Longrightarrow> j < l \<Longrightarrow> untouched c" and o: "ks_ok (os_rows s)" and c: "os_clock s < 10 ^ 20"
    and r: "\<And>j d. ks_get (os_rows s) j = Some d \<Longrightarrow> ob_target d \<in> T \<and> keyed_before (os_clock s) (ob_target d) j"
    using i unfolding state_ok_def by blast+
  obtain w where w: "ks_get (os_rows s) k = Some w" using True by (auto simp: ks_has_iff)
  have wt: "ob_target w = t"
  proof -
    have "keyed_before (os_clock s) (ob_target w) k" using r[OF w] by blast
    from keyed_before_target[OF this] keyed_before_target[OF t(3)] show ?thesis by simp
  qed
  have q: "untouched c'" if "ks_get (ks_put k v (os_rows s)) j = Some d" "ks_get (ks_put k v (os_rows s)) l = Some c'"
      "ob_target d = ob_target c'" "j < l" for j d l c'
  proof (cases "l = k")
    case True
    then have "c' = v" "j \<noteq> k" using that g by auto
    then have "k \<le> j" using that g m[of j d] t(1) by simp
    then show ?thesis using that(4) True by simp
  next
    case False
    then have l: "ks_get (os_rows s) l = Some c'" using that(2) g by simp
    show ?thesis
    proof (cases "j = k")
      case True
      then show ?thesis using p[OF w l] that g wt t(1) by simp
    qed (use p[OF _ l] that g in simp)
  qed
  have "rewrite_if_present k v (os_rows s) = ks_put k v (os_rows s)" using True by (simp add: rewrite_if_present_def)
  then show ?thesis using o c r t q g unfolding state_ok_def
    by (auto simp: ks_ok_put split: if_splits)
qed

lemma state_step:
  assumes a: "targets_apart T" and i: "state_ok T s" and st: "outbox_step T s s'"
  shows "state_ok T s'"
  using st
proof cases
  case (Enqueue t micros uuid now msg_type body)
  let ?k = "outbox_key t micros uuid"
  let ?e = "\<lparr>ob_target = t, ob_msg_type = msg_type, ob_body = body, ob_enqueued_at = now,
       ob_attempts = 0, ob_next_attempt_at = now, ob_last_error = None, ob_awaiting_ack = None\<rparr>"
  have g: "ks_get (os_rows s') j = (if j = ?k then Some ?e else ks_get (os_rows s) j)" for j
    by (simp add: Enqueue(1) enqueue_def ks_simps)
  have r: "\<And>j d. ks_get (os_rows s) j = Some d \<Longrightarrow> ob_target d \<in> T \<and> keyed_before (os_clock s) (ob_target d) j"
    and o: "ks_ok (os_rows s)"
    and p: "\<And>j d l c. ks_get (os_rows s) j = Some d \<Longrightarrow> ks_get (os_rows s) l = Some c \<Longrightarrow> ob_target d = ob_target c
        \<Longrightarrow> j < l \<Longrightarrow> untouched c"
    and f: "\<And>t k e. os_flight s = Some (t, k, e) \<Longrightarrow> ob_target e = t \<and> t \<in> T \<and> keyed_before (os_clock s) t k
        \<and> (\<forall>j d. ks_get (os_rows s) j = Some d \<longrightarrow> ob_target d = t \<longrightarrow> k \<le> j)"
    using i unfolding state_ok_def by blast+
  have k: "keyed_before micros t ?k" using Enqueue by (auto simp: keyed_before_def)
  have b: "j < ?k" if "keyed_before (os_clock s) t j" for j
    using keyed_before_less[OF that] Enqueue by simp
  have m: "keyed_before micros u j" if "keyed_before (os_clock s) u j" for u j
    using keyed_before_mono[OF that] Enqueue by simp
  have u: "untouched ?e" by (simp add: untouched_def)
  have q: "untouched c" if "ks_get (os_rows s') j = Some d" "ks_get (os_rows s') l = Some c"
      "ob_target d = ob_target c" "j < l" for j d l c
  proof (cases "l = ?k")
    case False
    then have l: "ks_get (os_rows s) l = Some c" using that(2) g by simp
    show ?thesis
    proof (cases "j = ?k")
      case True
      then have "ob_target c = t" using that(1,3) g by auto
      then show ?thesis using b[of l] r[OF l] that(4) True by simp
    qed (use p[OF _ l] that g in simp)
  qed (use that g u in auto)
  have fl: "ob_target e = t' \<and> t' \<in> T \<and> keyed_before micros t' k' \<and>
      (\<forall>j d. ks_get (os_rows s') j = Some d \<longrightarrow> ob_target d = t' \<longrightarrow> k' \<le> j)"
    if "os_flight s = Some (t', k', e)" for t' k' e
    using f[OF that] m b g by (auto simp: less_imp_le)
  have "ks_ok (os_rows s')" using o by (simp add: Enqueue(1) enqueue_def ks_simps)
  moreover have "os_clock s' = micros" "os_flight s' = os_flight s" by (simp_all add: Enqueue(1))
  ultimately show ?thesis using Enqueue r m k q fl g unfolding state_ok_def by (auto split: if_splits)
next
  case (Pick t now pk n rows')
  have k0: "ks_ok (os_rows s)" using i by (simp add: state_ok_def)
  note h = pick_head_scan[OF k0 refl Pick(4)[unfolded pending_scan[OF k0]]]
  have s: "state_ok T (s\<lparr>os_rows := rows'\<rparr>)" using state_shrink[OF i] h by blast
  show ?thesis
  proof (cases pk)
    case (Deliver k e)
    note fh = flight_head[OF i a Pick(2) Pick(4)[unfolded Deliver]]
    show ?thesis using s fh Pick(1,2) Deliver unfolding state_ok_def by simp
  qed (use s Pick(1) in \<open>simp_all add: state_ok_def\<close>)
next
  case (Finish t k e now out rows')
  show ?thesis
  proof (cases out)
    case (Inl err)
    then obtain x where "rows' = rewrite_if_present k (failed_entry now x e) (os_rows s)"
      using Finish(3) by (auto simp: finish_delivery_def record_failure_def)
    then show ?thesis using state_rewrite[OF i Finish(2)] Finish(1) by simp
  next
    case (Inr o2)
    obtain doc https where o: "o2 = (doc, https)" by force
    let ?rows = "rewrite_if_present k (sent_entry now doc e) (os_rows s)"
    have s: "state_ok T (s\<lparr>os_rows := ?rows, os_flight := None\<rparr>)"
      using state_rewrite[OF i Finish(2)] by simp
    then have "ks_ok ?rows" by (simp add: state_ok_def)
    then have "state_ok T (s\<lparr>os_rows := ?rows, os_flight := None\<rparr>\<lparr>os_rows := snd (acknowledge t doc ?rows)\<rparr>)"
      by (intro state_shrink[OF s]) (use ack_shrink[of ?rows t doc] in auto)
    moreover have "s\<lparr>os_rows := ?rows, os_flight := None\<rparr>\<lparr>os_rows := x\<rparr> = s\<lparr>os_rows := x, os_flight := None\<rparr>" for x
      by (cases s) simp
    ultimately show ?thesis using s Finish(1,3) Inr o
      by (simp add: finish_delivery_def Let_def record_sent_def split: if_splits)
  qed
next
  case (Ack signer doc)
  have "ks_ok (os_rows s)" using i by (simp add: state_ok_def)
  from ack_shrink[OF this] show ?thesis unfolding Ack by (intro state_shrink[OF i]) auto
next
  case (Supersede t msg_type p)
  have "ks_ok (os_rows s)" using i by (simp add: state_ok_def)
  from drop_matching_shrink[OF this] show ?thesis unfolding Supersede drop_queued_def
    by (intro state_shrink[OF i]) auto
qed

lemma absent_step:
  assumes i: "state_ok T s" and st: "outbox_step T s s'" and k: "keyed_before (os_clock s) t k"
    and n: "ks_get (os_rows s) k = None"
  shows "ks_get (os_rows s') k = None \<and> keyed_before (os_clock s') t k"
  using st
proof cases
  case (Enqueue t' micros uuid now msg_type body)
  have "k \<noteq> outbox_key t' micros uuid" using keyed_before_fresh[OF k] Enqueue by simp
  then show ?thesis using n keyed_before_mono[OF k] Enqueue by (simp add: enqueue_def ks_simps)
next
  case (Pick t' now pk m rows')
  have k0: "ks_ok (os_rows s)" using i by (simp add: state_ok_def)
  note h = pick_head_scan[OF k0 refl Pick(4)[unfolded pending_scan[OF k0]]]
  have "ks_get rows' k = None" using h n by (metis not_None_eq)
  then show ?thesis using Pick(1) k by simp
next
  case (Finish t' k' e now out rows')
  have r: "ks_get (rewrite_if_present k' v (os_rows s)) k = None" for v
    using n by (auto simp: rewrite_if_present_def ks_simps)
  have "ks_ok (rewrite_if_present k' v (os_rows s))" for v
    using i by (simp add: state_ok_def rewrite_if_present_def ks_simps)
  then have "ks_get (snd (acknowledge t' doc (rewrite_if_present k' v (os_rows s)))) k = None" for v doc
    using ack_shrink r by (metis not_None_eq)
  then have "ks_get rows' k = None" using Finish(3) r
    by (auto simp: finish_delivery_def record_failure_def record_sent_def Let_def split: sum.splits if_splits)
  then show ?thesis using Finish(1) k by simp
next
  case (Ack signer doc)
  have "ks_ok (os_rows s)" using i by (simp add: state_ok_def)
  then have "ks_get (snd (acknowledge signer doc (os_rows s))) k = None" using ack_shrink n by (metis not_None_eq)
  then show ?thesis using Ack k by simp
next
  case (Supersede t' msg_type p)
  have "ks_ok (os_rows s)" using i by (simp add: state_ok_def)
  then have "ks_get (snd (drop_queued t' msg_type p (os_rows s))) k = None"
    using drop_matching_shrink n by (metis drop_queued_def not_None_eq)
  then show ?thesis using Supersede k by simp
qed

definition empty_outbox :: "'b outbox_state" where
  "empty_outbox = \<lparr>os_rows = [], os_clock = 0, os_flight = None\<rparr>"

lemma empty_outbox_ok: "state_ok T empty_outbox"
  by (simp add: state_ok_def empty_outbox_def)

lemma outbox_reach_ok:
  assumes "targets_apart T" "(outbox_step T)\<^sup>*\<^sup>* s s'" "state_ok T s"
  shows "state_ok T s'"
  using assms(2,3) by (induction rule: rtranclp_induct) (auto intro: state_step[OF assms(1)])

text \<open>One queued entry; picked by the worker, superseded while in flight, and then finished.\<close>

definition sample_entry :: "unit outbox_entry" where
  "sample_entry = \<lparr>ob_target = ''did:a'', ob_msg_type = ''ty'', ob_body = (), ob_enqueued_at = 5,
     ob_attempts = 0, ob_next_attempt_at = 5, ob_last_error = None, ob_awaiting_ack = None\<rparr>"

definition queued_one :: "unit outbox_state" where
  "queued_one = empty_outbox\<lparr>os_rows := enqueue 5 1 ''u'' ''did:a'' ''ty'' () (os_rows empty_outbox), os_clock := 1\<rparr>"

definition picked_one :: "unit outbox_state" where
  "picked_one = queued_one\<lparr>os_rows := os_rows queued_one,
     os_flight := Some (''did:a'', outbox_key ''did:a'' 1 ''u'', sample_entry)\<rparr>"

definition dropped_one :: "unit outbox_state" where
  "dropped_one = picked_one\<lparr>os_rows := snd (drop_queued ''did:a'' ''ty'' (\<lambda>_. True) (os_rows picked_one))\<rparr>"

definition finished_one :: "unit outbox_state" where
  "finished_one = dropped_one\<lparr>os_rows := record_sent 9 (outbox_key ''did:a'' 1 ''u'') sample_entry ''doc'' (os_rows dropped_one),
     os_flight := None\<rparr>"

lemma sample_apart: "targets_apart {''did:a''}"
  by (simp add: targets_apart_def)

lemma queued_one_step: "outbox_step {''did:a''} empty_outbox queued_one"
  unfolding queued_one_def by (rule outbox_step.Enqueue) (simp_all add: empty_outbox_def)

lemma sample_steps:
  "outbox_step {''did:a''} queued_one picked_one" "outbox_step {''did:a''} picked_one dropped_one"
  "outbox_step {''did:a''} dropped_one finished_one"
proof -
  have "pick_head 6 (list_pending_for_target ''did:a'' (os_rows queued_one)) (os_rows queued_one) 0
      = (Deliver (outbox_key ''did:a'' 1 ''u'') sample_entry, 0, os_rows queued_one)" by code_simp
  from outbox_step.Pick[OF _ _ this] show "outbox_step {''did:a''} queued_one picked_one"
    by (simp add: picked_one_def queued_one_def empty_outbox_def)
  show "outbox_step {''did:a''} picked_one dropped_one"
    unfolding dropped_one_def by (rule outbox_step.Supersede)
  have "os_flight dropped_one = Some (''did:a'', outbox_key ''did:a'' 1 ''u'', sample_entry)"
    by (simp add: dropped_one_def picked_one_def)
  from outbox_step.Finish[OF this, of 9 "Inr (''doc'', False)"] show "outbox_step {''did:a''} dropped_one finished_one"
    by (simp add: finished_one_def finish_delivery_def)
qed

section \<open>What the queue guarantees\<close>

text \<open>C18: A tick of the worker returns unless an error text is cut inside a character, and serves every
  target's queue as the specification says, independently of the others: entries past their budget
  leave from the front, the first entry that remains is sent, failed or acknowledged in place, and
  the entries behind it are neither sent nor reordered. The targets must not be colon-prefixes of
  each other.\<close>

theorem outbox_tick_serves_queues:
  assumes "targets_apart T" "outbox_ok T rows"
    "\<And>e err. deliver e = Inl err \<Longrightarrow> truncated_error err \<noteq> None"
  shows "\<exists>report rows'. run_tick True now deliver rows = Some (report, rows') \<and> outbox_ok T rows'
    \<and> (\<forall>t \<in> T. serve_queue now deliver (queue rows t) = Some (queue rows' t))"
proof -
  have o: "ks_ok rows" using assms(2) by (simp add: outbox_ok_def)
  have t: "set (list_targets rows) \<subseteq> T" using list_targets_props(1)[OF assms(2)] ok_row(2)[OF assms(2)] by auto
  obtain report rows' where r: "tick_targets now deliver (list_targets rows) (empty_report, rows) = Some (report, rows')"
    using tick_targets_total[where deliver = deliver and now = now, OF assms(3) o] by fastforce
  note h = tick_targets_queues[OF assms(1,2) list_targets_props(2)[OF assms(2)] t r]
  have "serve_queue now deliver (queue rows u) = Some (queue rows' u)" if u: "u \<in> T" for u
  proof (cases "u \<in> set (list_targets rows)")
    case False
    have "ks_scan (target_prefix u) rows = []"
    proof (rule ccontr)
      assume "ks_scan (target_prefix u) rows \<noteq> []"
      then obtain k e where "(k, e) \<in> set (ks_scan (target_prefix u) rows)" by (metis list.set_intros(1) neq_Nil_conv prod.exhaust)
      then have ke: "prefix (target_prefix u) k" "ks_get rows k = Some e" using rows.scan_mem[OF o] by blast+
      then have "ob_target e = u" using ok_apart[OF assms(1,2) u] by blast
      then show False using False ke(2) list_targets_props(1)[OF assms(2)] by blast
    qed
    then show ?thesis using h u False by (simp add: queue_scan[OF o] serve_queue_def)
  qed (use h u in simp)
  then show ?thesis using r h by (auto simp: run_tick_def)
qed

theorem outbox_tick_serves_queues_witness:
  "\<exists>report rows'. run_tick True 9 (\<lambda>_. Inr (''doc'', False)) (os_rows queued_one) = Some (report, rows')
     \<and> map ob_awaiting_ack (queue rows' ''did:a'') = [Some ''doc'']"
proof -
  have o: "outbox_ok {''did:a''} (os_rows queued_one)"
    using state_outbox_ok[OF state_step[OF sample_apart empty_outbox_ok queued_one_step]] .
  have q: "map_option (map ob_awaiting_ack) (serve_queue 9 (\<lambda>_. Inr (''doc'', False)) (queue (os_rows queued_one) ''did:a''))
      = Some [Some ''doc'']" by code_simp
  show ?thesis using outbox_tick_serves_queues[OF sample_apart o, of "\<lambda>_. Inr (''doc'', False)" 9] q by auto
qed



text \<open>An entry that has been acknowledged, dropped or superseded never comes back, even when the
  worker had it in flight and rewrites its row afterwards; so a purge withdrawn by a later
  assignment cannot be sent again.\<close>

theorem retired_entry_stays_retired:
  assumes "targets_apart T" "(outbox_step T)\<^sup>*\<^sup>* empty_outbox s" "(outbox_step T)\<^sup>*\<^sup>* s s'"
    "k = outbox_key t m u" "m \<le> os_clock s" "CHR '':'' \<notin> set u" "ks_get (os_rows s) k = None"
  shows "ks_get (os_rows s') k = None"
proof -
  have i: "state_ok T s" using outbox_reach_ok[OF assms(1,2) empty_outbox_ok] .
  have "ks_get (os_rows s') k = None \<and> keyed_before (os_clock s') t k \<and> state_ok T s'"
    using assms(3)
  proof (induction rule: rtranclp_induct)
    case base
    then show ?case using assms(4-7) i by (auto simp: keyed_before_def)
  next
    case (step y z)
    then show ?case using absent_step state_step[OF assms(1)] by blast
  qed
  then show ?thesis by blast
qed

theorem retired_entry_stays_retired_witness:
  "ks_get (os_rows finished_one) (outbox_key ''did:a'' 1 ''u'') = None"
proof (rule retired_entry_stays_retired[OF sample_apart _ _ refl])
  have a: "(outbox_step {''did:a''})\<^sup>*\<^sup>* empty_outbox queued_one" using queued_one_step by simp
  have b: "(outbox_step {''did:a''})\<^sup>*\<^sup>* queued_one picked_one" using sample_steps(1) by simp
  have c: "(outbox_step {''did:a''})\<^sup>*\<^sup>* picked_one dropped_one" using sample_steps(2) by simp
  show "(outbox_step {''did:a''})\<^sup>*\<^sup>* empty_outbox dropped_one"
    by (rule rtranclp_trans[OF a rtranclp_trans[OF b c]])
  show "(outbox_step {''did:a''})\<^sup>*\<^sup>* dropped_one finished_one" using sample_steps(3) by simp
  show "1 \<le> os_clock dropped_one" "ks_get (os_rows dropped_one) (outbox_key ''did:a'' 1 ''u'') = None" by code_simp+
qed simp

definition nested_rows :: "unit outbox" where
  "nested_rows = record_sent 6 (outbox_key ''did:a:b'' 1 ''u'') (sample_entry\<lparr>ob_target := ''did:a:b''\<rparr>) ''doc''
     (enqueue 5 1 ''u'' ''did:a:b'' ''ty'' () [])"

text \<open>Without that condition the queues mix: a server whose DID is a colon-prefix of another
  server's DID settles and withdraws the other's entries, although an entry is meant to go only on
  its own target's signature.\<close>

theorem prefix_target_settles_foreign_entry:
  "map ob_target (queue nested_rows ''did:a:b'') = [''did:a:b'']
   \<and> fst (acknowledge ''did:a'' ''doc'' nested_rows)
   \<and> queue (snd (acknowledge ''did:a'' ''doc'' nested_rows)) ''did:a:b'' = []
   \<and> fst (drop_queued ''did:a'' ''ty'' (\<lambda>_. True) nested_rows) = 1"
  by code_simp

text \<open>The cut of the error text is by bytes: an error with a two-byte character across byte 200
  panics the worker.\<close>

lemma long_error_panics:
  "record_failure 9 k e (replicate 199 (CHR ''x'') @ [CHR 0xC3, CHR 0xA9]) rows = None"
proof -
  have "truncated_error (replicate 199 (CHR ''x'') @ [CHR 0xC3, CHR 0xA9]) = None" by code_simp
  then show ?thesis by (simp add: record_failure_def)
qed

end
