(* ===== verification/Sessions.thy ===== *)
theory Sessions
  imports Acl
begin

text \<open>
  Sign-in sessions: the session rows with their refresh and per-DID indexes
  (did-hosting-common/src/server/auth/session.rs), the claims of access tokens (auth/jwt.rs), and
  the extractor that turns a decoded token and its session into a caller
  (auth/extractor.rs). Random ids and the clock are arguments, signing a token is a parameter.
  The session record is that of vti-common, with the fields the constructors name. Rows that hold
  something else than their key says read as a Serialization error.
\<close>

section \<open>Rows\<close>

datatype session_state = ChallengeSent | Authenticated

record session =
  ss_session_id :: string
  ss_did :: string
  ss_challenge :: string
  ss_state :: session_state
  ss_created_at :: nat
  ss_last_seen :: nat
  ss_refresh_token :: "string option"
  ss_refresh_expires_at :: "nat option"
  ss_tee_attested :: bool
  ss_token_id :: "string option"
  ss_pubkey :: "string option"
  ss_amr :: "string list"
  ss_acr :: string
  ss_acr_expires_at :: "nat option"
  ss_not_after :: "nat option"

text \<open>The rows of the sessions keyspace: sessions, the ids the two indexes hold, and what the sweep
  reads of enrolment invites and ceremonies.\<close>

datatype session_row = SessionRow session | IdRow string | ExpiryRow nat "string option"

type_synonym session_rows = "session_row ks"

definition session_key :: "string \<Rightarrow> string" where
  "session_key sid = ''session:'' @ sid"

definition refresh_key :: "string \<Rightarrow> string" where
  "refresh_key token = ''refresh:'' @ token"

definition session_did_prefix :: "string \<Rightarrow> string" where
  "session_did_prefix did = ''session-did:'' @ did @ '':''"

definition session_did_key :: "string \<Rightarrow> string \<Rightarrow> string" where
  "session_did_key did sid = session_did_prefix did @ sid"

definition store_session :: "session \<Rightarrow> session_rows \<Rightarrow> session_rows" where
  "store_session s rows = ks_put (session_did_key (ss_did s) (ss_session_id s)) (IdRow (ss_session_id s))
     (ks_put (session_key (ss_session_id s)) (SessionRow s) rows)"

definition get_session :: "session_rows \<Rightarrow> string \<Rightarrow> session option res" where
  "get_session rows sid = (case ks_get rows (session_key sid) of
     None \<Rightarrow> Inr None
   | Some (SessionRow s) \<Rightarrow> Inr (Some s)
   | Some _ \<Rightarrow> Inl Serialization)"

definition store_refresh_index :: "string \<Rightarrow> string \<Rightarrow> session_rows \<Rightarrow> session_rows" where
  "store_refresh_index token sid rows = ks_put (refresh_key token) (IdRow sid) rows"

definition id_of_row :: "session_row option \<Rightarrow> string option res" where
  "id_of_row v = (case v of None \<Rightarrow> Inr None | Some (IdRow sid) \<Rightarrow> Inr (Some sid) | Some _ \<Rightarrow> Inl Internal)"

definition get_session_by_refresh :: "session_rows \<Rightarrow> string \<Rightarrow> string option res" where
  "get_session_by_refresh rows token = id_of_row (ks_get rows (refresh_key token))"

text \<open>Look up and consume in one step.\<close>

definition take_session_id_by_refresh :: "string \<Rightarrow> session_rows \<Rightarrow> string option res \<times> session_rows" where
  "take_session_id_by_refresh token rows = (case ks_take (refresh_key token) rows of (v, rows') \<Rightarrow> (id_of_row v, rows'))"

definition LAST_SEEN_GRANULARITY_SECS :: nat where "LAST_SEEN_GRANULARITY_SECS = 60"

definition touch_last_seen :: "session \<Rightarrow> nat \<Rightarrow> session_rows \<Rightarrow> bool \<times> session_rows" where
  "touch_last_seen s now rows =
    (if now < saturating_add (ss_last_seen s) LAST_SEEN_GRANULARITY_SECS then (False, rows)
     else (True, store_session (s\<lparr>ss_last_seen := now\<rparr>) rows))"

definition delete_session :: "string \<Rightarrow> session_rows \<Rightarrow> unit res \<times> session_rows" where
  "delete_session sid rows = (case get_session rows sid of
     Inl e \<Rightarrow> (Inl e, rows)
   | Inr None \<Rightarrow> (Inr (), rows)
   | Inr (Some s) \<Rightarrow>
       let rows1 = (case ss_refresh_token s of Some t \<Rightarrow> ks_del (refresh_key t) rows | None \<Rightarrow> rows)
       in (Inr (), ks_del (session_did_key (ss_did s) sid) (ks_del (session_key sid) rows1)))"

section \<open>Demotion\<close>

definition elevated_without_passkey :: "string \<Rightarrow> session \<Rightarrow> bool" where
  "elevated_without_passkey subject s \<longleftrightarrow>
     ss_did s = subject \<and> ss_acr s = ''aal2'' \<and> ''passkey'' \<notin> set (ss_amr s)"

definition demoted :: "session \<Rightarrow> session" where
  "demoted s = s\<lparr>ss_amr := [''did''], ss_acr := ''aal1'', ss_acr_expires_at := None\<rparr>"

fun demote_loop :: "string \<Rightarrow> (string \<times> session_row) list \<Rightarrow> nat \<Rightarrow> session_rows \<Rightarrow> nat res \<times> session_rows" where
  "demote_loop subject [] n rows = (Inr n, rows)"
| "demote_loop subject ((k, v) # es) n rows = (case v of
     IdRow sid \<Rightarrow> (case get_session rows sid of
         Inl e \<Rightarrow> (Inl e, rows)
       | Inr None \<Rightarrow> demote_loop subject es n rows
       | Inr (Some s) \<Rightarrow>
           if \<not> elevated_without_passkey subject s then demote_loop subject es n rows
           else demote_loop subject es (n + 1) (store_session (demoted s) rows))
   | _ \<Rightarrow> demote_loop subject es n rows)"

definition demote_non_passkey_step_up_sessions :: "string \<Rightarrow> session_rows \<Rightarrow> nat res \<times> session_rows" where
  "demote_non_passkey_step_up_sessions subject rows =
    demote_loop subject (ks_scan (session_did_prefix subject) rows) 0 rows"

section \<open>The sweep\<close>

definition session_expired :: "nat \<Rightarrow> nat \<Rightarrow> session \<Rightarrow> bool" where
  "session_expired challenge_ttl now s = (case ss_state s of
     ChallengeSent \<Rightarrow> challenge_ttl < now - ss_created_at s
   | Authenticated \<Rightarrow> (case ss_refresh_expires_at s of None \<Rightarrow> True | Some e \<Rightarrow> e < now))"

fun sweep_sessions :: "nat \<Rightarrow> nat \<Rightarrow> (string \<times> session_row) list \<Rightarrow> session_rows \<Rightarrow> session_rows" where
  "sweep_sessions ttl now [] rows = rows"
| "sweep_sessions ttl now ((k, v) # es) rows = (case v of
     SessionRow s \<Rightarrow>
       if session_expired ttl now s
       then let rows1 = ks_del k rows;
                rows2 = (case ss_refresh_token s of Some t \<Rightarrow> ks_del (refresh_key t) rows1 | None \<Rightarrow> rows1)
            in sweep_sessions ttl now es (ks_del (session_did_key (ss_did s) (ss_session_id s)) rows2)
       else sweep_sessions ttl now es rows
   | _ \<Rightarrow> sweep_sessions ttl now es rows)"

fun sweep_invites :: "nat \<Rightarrow> (string \<times> session_row) list \<Rightarrow> session_rows \<Rightarrow> session_rows" where
  "sweep_invites now [] rows = rows"
| "sweep_invites now ((k, v) # es) rows = (case v of
     ExpiryRow e iid \<Rightarrow>
       if e < now
       then let rows1 = ks_del k rows;
                rows2 = (case iid of Some i \<Rightarrow> ks_del (''pk_invite_id:'' @ i) rows1 | None \<Rightarrow> rows1);
                rows3 = (case strip_prefix_str ''pk_invite:'' k of
                    Some h \<Rightarrow> ks_del (''pk_wrong:'' @ h) rows2 | None \<Rightarrow> rows2)
            in sweep_invites now es rows3
       else sweep_invites now es rows
   | _ \<Rightarrow> sweep_invites now es rows)"

definition cleanup_expired_sessions :: "nat \<Rightarrow> nat \<Rightarrow> session_rows \<Rightarrow> session_rows" where
  "cleanup_expired_sessions ttl now rows =
    (let rows1 = sweep_sessions ttl now (ks_scan ''session:'' rows) rows;
         rows2 = sweep_invites now (ks_scan ''pk_invite:'' rows1) rows1
     in sweep_invites now (ks_scan ''pk_enrol:'' rows2) rows2)"

section \<open>Tokens\<close>

record jwt_claims =
  jc_aud :: string
  jc_sub :: string
  jc_session_id :: string
  jc_role :: string
  jc_exp :: nat
  jc_iat :: nat
  jc_jti :: string
  jc_amr :: "string list"
  jc_acr :: string

definition new_claims :: "nat \<Rightarrow> string \<Rightarrow> string \<Rightarrow> string \<Rightarrow> string \<Rightarrow> nat \<Rightarrow> jwt_claims" where
  "new_claims now jti sub sid role expiry_secs =
    \<lparr>jc_aud = ''WebVH'', jc_sub = sub, jc_session_id = sid, jc_role = role, jc_exp = now + expiry_secs,
     jc_iat = now, jc_jti = jti, jc_amr = [''did''], jc_acr = ''aal1''\<rparr>"

text \<open>Signing a token is a parameter; the fresh ids are the token id, the refresh token and, for a new
  session, its id.\<close>

type_synonym encoder = "jwt_claims \<Rightarrow> string option"

record fresh_ids =
  fi_jti :: string
  fi_refresh :: string
  fi_session :: string

record token_response =
  tk_session_id :: string
  tk_subject :: string
  tk_access_token :: string
  tk_access_expires_at :: nat
  tk_refresh_token :: string
  tk_refresh_expires_at :: nat
  tk_issued_at :: nat
  tk_amr :: "string list"
  tk_acr :: string

definition mint ::
  "encoder \<Rightarrow> nat \<Rightarrow> fresh_ids \<Rightarrow> string \<Rightarrow> string \<Rightarrow> role \<Rightarrow> nat \<Rightarrow> nat \<Rightarrow> string list \<Rightarrow> string \<Rightarrow> token_response res" where
  "mint enc now ids did sid role access_expiry refresh_expiry amr acr =
    (let claims = (new_claims now (fi_jti ids) did sid (role_name role) access_expiry)\<lparr>jc_amr := amr, jc_acr := acr\<rparr>
     in and_then (ok_or Internal (enc claims)) (\<lambda>tok.
        Inr \<lparr>tk_session_id = sid, tk_subject = did, tk_access_token = tok, tk_access_expires_at = jc_exp claims,
             tk_refresh_token = fi_refresh ids, tk_refresh_expires_at = now + refresh_expiry,
             tk_issued_at = now, tk_amr = amr, tk_acr = acr\<rparr>))"

definition finalize_challenge_session ::
  "encoder \<Rightarrow> nat \<Rightarrow> fresh_ids \<Rightarrow> session \<Rightarrow> role \<Rightarrow> nat \<Rightarrow> nat \<Rightarrow> session_rows \<Rightarrow> token_response res \<times> session_rows" where
  "finalize_challenge_session enc now ids s role access_expiry refresh_expiry rows =
    (case mint enc now ids (ss_did s) (ss_session_id s) role access_expiry refresh_expiry [''did''] ''aal1'' of
       Inl e \<Rightarrow> (Inl e, rows)
     | Inr tk \<Rightarrow>
         (Inr tk, store_refresh_index (fi_refresh ids) (ss_session_id s)
           (store_session (s\<lparr>ss_state := Authenticated, ss_refresh_token := Some (fi_refresh ids),
              ss_refresh_expires_at := Some (tk_refresh_expires_at tk), ss_token_id := Some (fi_jti ids),
              ss_amr := [''did''], ss_acr := ''aal1''\<rparr>) rows)))"

definition create_authenticated_session ::
  "encoder \<Rightarrow> nat \<Rightarrow> fresh_ids \<Rightarrow> string \<Rightarrow> role \<Rightarrow> nat \<Rightarrow> nat \<Rightarrow> string option \<Rightarrow> (string list \<times> string) option
   \<Rightarrow> session_rows \<Rightarrow> token_response res \<times> session_rows" where
  "create_authenticated_session enc now ids did role access_expiry refresh_expiry pubkey override rows =
    (case (case override of Some x \<Rightarrow> x | None \<Rightarrow> ([''did''], ''aal1'')) of (amr, acr) \<Rightarrow>
      (case mint enc now ids did (fi_session ids) role access_expiry refresh_expiry amr acr of
         Inl e \<Rightarrow> (Inl e, rows)
       | Inr tk \<Rightarrow>
           (Inr tk, store_refresh_index (fi_refresh ids) (fi_session ids) (store_session
             \<lparr>ss_session_id = fi_session ids, ss_did = did, ss_challenge = [], ss_state = Authenticated,
              ss_created_at = now, ss_last_seen = now, ss_refresh_token = Some (fi_refresh ids),
              ss_refresh_expires_at = Some (tk_refresh_expires_at tk), ss_tee_attested = False,
              ss_token_id = Some (fi_jti ids), ss_pubkey = pubkey, ss_amr = amr, ss_acr = acr,
              ss_acr_expires_at = None, ss_not_after = None\<rparr> rows))))"

definition elevate_session ::
  "encoder \<Rightarrow> nat \<Rightarrow> fresh_ids \<Rightarrow> string \<Rightarrow> role \<Rightarrow> string list \<Rightarrow> string \<Rightarrow> nat \<Rightarrow> nat
   \<Rightarrow> session_rows \<Rightarrow> token_response res \<times> session_rows" where
  "elevate_session enc now ids sid role amr acr access_expiry refresh_expiry rows =
    (case and_then (get_session rows sid) (ok_or Authentication) of
       Inl e \<Rightarrow> (Inl e, rows)
     | Inr s \<Rightarrow>
         if ss_state s \<noteq> Authenticated then (Inl Authentication, rows)
         else (case mint enc now ids (ss_did s) sid role access_expiry refresh_expiry amr acr of
           Inl e \<Rightarrow> (Inl e, rows)
         | Inr tk \<Rightarrow>
             (Inr tk, store_refresh_index (fi_refresh ids) sid
               (store_session (s\<lparr>ss_token_id := Some (fi_jti ids), ss_refresh_token := Some (fi_refresh ids),
                  ss_refresh_expires_at := Some (tk_refresh_expires_at tk), ss_amr := amr, ss_acr := acr\<rparr>) rows))))"

section \<open>The caller of a request\<close>

record session_claims =
  sc_did :: string
  sc_role :: role
  sc_session_id :: string
  sc_pubkey :: "string option"
  sc_amr :: "string list"
  sc_acr :: string

definition token_current :: "session \<Rightarrow> jwt_claims \<Rightarrow> bool" where
  "token_current s c = (case ss_token_id s of None \<Rightarrow> True | Some t \<Rightarrow> jc_jti c \<noteq> [] \<and> jc_jti c = t)"

definition effective_acr :: "(string \<Rightarrow> bool) \<Rightarrow> nat \<Rightarrow> session \<Rightarrow> jwt_claims \<Rightarrow> string" where
  "effective_acr has_step_up_passkey now s c =
    (let row_says_aal2 = (ss_acr s = ''aal2'' \<and> (case ss_acr_expires_at s of None \<Rightarrow> True | Some d \<Rightarrow> now < d));
         acr = (if jc_acr c = ''aal2'' \<and> row_says_aal2 then ''aal2'' else ''aal1'')
     in if acr = ''aal2'' \<and> ''passkey'' \<notin> set (ss_amr s) \<and> has_step_up_passkey (ss_did s) then ''aal1'' else acr)"

text \<open>The extractor on a token whose signature, audience and expiry have been checked.\<close>

definition authenticate ::
  "(string \<Rightarrow> bool) \<Rightarrow> nat \<Rightarrow> jwt_claims \<Rightarrow> session_rows \<Rightarrow> session_claims res \<times> session_rows" where
  "authenticate has_step_up_passkey now c rows =
    (case and_then (get_session rows (jc_session_id c)) (ok_or Unauthorized) of
       Inl e \<Rightarrow> (Inl e, rows)
     | Inr s \<Rightarrow>
         if ss_state s \<noteq> Authenticated \<or> \<not> token_current s c then (Inl Unauthorized, rows)
         else (case role_from_str (jc_role c) of
           Inl e \<Rightarrow> (Inl e, rows)
         | Inr role \<Rightarrow>
             (Inr \<lparr>sc_did = jc_sub c, sc_role = role, sc_session_id = jc_session_id c, sc_pubkey = ss_pubkey s,
                   sc_amr = ss_amr s, sc_acr = effective_acr has_step_up_passkey now s c\<rparr>,
              snd (touch_last_seen s now rows))))"

definition require_service :: "session_claims \<Rightarrow> session_claims res" where
  "require_service c = (if sc_role c = Service then Inr c else Inl Forbidden)"

definition require_admin_role :: "session_claims \<Rightarrow> session_claims res" where
  "require_admin_role c = (if sc_role c = Admin then Inr c else Inl Forbidden)"

definition require_step_up :: "session_claims \<Rightarrow> session_claims res" where
  "require_step_up c = (if sc_acr c = ''aal2'' then Inr c else Inl StepUpRequired)"

text \<open>A renewal is refused when the session has been idle too long.\<close>

definition refuse_if_idle_session :: "nat \<Rightarrow> session \<Rightarrow> nat \<Rightarrow> unit res" where
  "refuse_if_idle_session now s idle_ttl =
    (let last_activity = (if ss_last_seen s = 0 then ss_created_at s else ss_last_seen s)
     in if idle_ttl < now - last_activity then Inl Authentication else Inr ())"

section \<open>The session table\<close>

definition sess_at :: "session_rows \<Rightarrow> string \<Rightarrow> session option" where
  "sess_at rows sid = (case ks_get rows (session_key sid) of Some (SessionRow s) \<Rightarrow> Some s | _ \<Rightarrow> None)"

text \<open>Every session sits under its own id and is listed in the index of its DID; ids hold no colon.\<close>

definition sessions_ok :: "session_rows \<Rightarrow> bool" where
  "sessions_ok rows \<longleftrightarrow> ks_ok rows
   \<and> (\<forall>sid v. ks_get rows (session_key sid) = Some v \<longrightarrow>
        (\<exists>s. v = SessionRow s \<and> ss_session_id s = sid \<and> CHR '':'' \<notin> set sid
           \<and> ks_get rows (session_did_key (ss_did s) sid) = Some (IdRow sid)))"

lemma key_kinds [simp]:
  "session_key a \<noteq> session_did_key d b" "session_did_key d b \<noteq> session_key a"
  "session_key a \<noteq> refresh_key t" "refresh_key t \<noteq> session_key a"
  "session_did_key d b \<noteq> refresh_key t" "refresh_key t \<noteq> session_did_key d b"
  "session_key a = session_key b \<longleftrightarrow> a = b" "refresh_key t = refresh_key u \<longleftrightarrow> t = u"
  by (simp_all add: session_key_def session_did_key_def session_did_prefix_def refresh_key_def)

lemma did_key_eq:
  assumes "CHR '':'' \<notin> set a" "CHR '':'' \<notin> set b"
  shows "session_did_key d a = session_did_key e b \<longleftrightarrow> d = e \<and> a = b"
proof
  assume e: "session_did_key d a = session_did_key e b"
  have r: "rsplit_once (CHR '':'') (x @ CHR '':'' # y) = Some (x, y)" if "CHR '':'' \<notin> set y" for x y
  proof -
    have "split_once (CHR '':'') (rev y @ CHR '':'' # rev x) = Some (rev y, rev x)"
      using that by (simp add: split_once_Some)
    then show ?thesis by (simp add: rsplit_once_def)
  qed
  have "d @ CHR '':'' # a = e @ CHR '':'' # b"
    using e by (simp add: session_did_key_def session_did_prefix_def)
  then have "Some (d, a) = Some (e, b)" using r[OF assms(1), of d] r[OF assms(2), of e] by metis
  then show "d = e \<and> a = b" by simp
qed simp

lemma ok_session:
  assumes "sessions_ok rows"
  shows "get_session rows sid = Inr (sess_at rows sid)"
proof (cases "ks_get rows (session_key sid)")
  case (Some v)
  then obtain s where "v = SessionRow s" using assms unfolding sessions_ok_def by blast
  then show ?thesis using Some by (simp add: get_session_def sess_at_def)
qed (simp add: get_session_def sess_at_def)

lemma ok_sess_at:
  assumes "sessions_ok rows" "sess_at rows sid = Some s"
  shows "ks_get rows (session_key sid) = Some (SessionRow s)" "ss_session_id s = sid" "CHR '':'' \<notin> set sid"
    "ks_get rows (session_did_key (ss_did s) sid) = Some (IdRow sid)"
proof -
  show g: "ks_get rows (session_key sid) = Some (SessionRow s)"
    using assms(2) by (auto simp: sess_at_def split: option.splits session_row.splits)
  then show "ss_session_id s = sid" "CHR '':'' \<notin> set sid"
    "ks_get rows (session_did_key (ss_did s) sid) = Some (IdRow sid)"
    using assms(1) unfolding sessions_ok_def by blast+
qed

lemma sess_at_store: "sess_at (store_session s rows) sid = (if sid = ss_session_id s then Some s else sess_at rows sid)"
  by (simp add: sess_at_def store_session_def ks_simps)

lemma sess_at_refresh [simp]: "sess_at (store_refresh_index t i rows) sid = sess_at rows sid"
  by (simp add: sess_at_def store_refresh_index_def ks_simps)

lemma ok_refresh: "sessions_ok rows \<Longrightarrow> sessions_ok (store_refresh_index t i rows)"
  by (simp add: sessions_ok_def store_refresh_index_def ks_simps)

lemma ok_store:
  assumes "sessions_ok rows" "CHR '':'' \<notin> set (ss_session_id s)"
  shows "sessions_ok (store_session s rows)"
proof -
  have k: "ks_ok (store_session s rows)" using assms(1) by (simp add: sessions_ok_def store_session_def ks_simps)
  have "\<exists>s'. v = SessionRow s' \<and> ss_session_id s' = sid \<and> CHR '':'' \<notin> set sid
       \<and> ks_get (store_session s rows) (session_did_key (ss_did s') sid) = Some (IdRow sid)"
    if v: "ks_get (store_session s rows) (session_key sid) = Some v" for sid v
  proof (cases "sid = ss_session_id s")
    case True
    then show ?thesis using v assms(2) by (intro exI[of _ s]) (simp add: store_session_def ks_simps)
  next
    case False
    then have "ks_get rows (session_key sid) = Some v" using v by (simp add: store_session_def ks_simps)
    then obtain s' where s': "v = SessionRow s'" "ss_session_id s' = sid" "CHR '':'' \<notin> set sid"
      "ks_get rows (session_did_key (ss_did s') sid) = Some (IdRow sid)"
      using assms(1) unfolding sessions_ok_def by blast
    have "session_did_key (ss_did s') sid \<noteq> session_did_key (ss_did s) (ss_session_id s)"
      using did_key_eq[OF s'(3) assms(2)] False by blast
    then show ?thesis using s' by (simp add: store_session_def ks_simps)
  qed
  then show ?thesis using k unfolding sessions_ok_def by blast
qed

lemma demoted_simps [simp]:
  "\<not> elevated_without_passkey subject (demoted s)" "ss_session_id (demoted s) = ss_session_id s"
  "ss_did (demoted s) = ss_did s" "ss_state (demoted s) = ss_state s"
  by (simp_all add: elevated_without_passkey_def demoted_def)

definition elevated_at :: "session_rows \<Rightarrow> string \<Rightarrow> string set" where
  "elevated_at rows subject = {sid. \<exists>s. sess_at rows sid = Some s \<and> elevated_without_passkey subject s}"

lemma elevated_finite: "finite (elevated_at rows subject)"
proof -
  have "session_key ` elevated_at rows subject \<subseteq> fst ` set rows"
    by (force simp: elevated_at_def sess_at_def ks_get_def dest: map_of_SomeD split: option.splits session_row.splits)
  then have "finite (session_key ` elevated_at rows subject)" using finite_subset by blast
  then show ?thesis by (rule finite_imageD) (simp add: inj_on_def)
qed

lemma demote_loop_effect:
  assumes "sessions_ok rows"
  shows "\<exists>rows'. demote_loop subject es n rows
      = (Inr (n + card {sid \<in> elevated_at rows subject. IdRow sid \<in> snd ` set es}), rows')
    \<and> sessions_ok rows'
    \<and> (\<forall>sid. sess_at rows' sid = map_option (\<lambda>s. if elevated_without_passkey subject s \<and> IdRow sid \<in> snd ` set es
         then demoted s else s) (sess_at rows sid))"
  using assms
proof (induction es arbitrary: n rows)
  case Nil
  then show ?case by (simp add: option.map_ident)
next
  case (Cons e es)
  obtain k v where e: "e = (k, v)" by force
  have skip: ?case if "demote_loop subject (e # es) n rows = demote_loop subject es n rows"
    "\<And>sid. sid \<in> elevated_at rows subject \<Longrightarrow> v \<noteq> IdRow sid"
  proof -
    have "{sid \<in> elevated_at rows subject. IdRow sid \<in> snd ` set (e # es)}
        = {sid \<in> elevated_at rows subject. IdRow sid \<in> snd ` set es}" using that(2) by (auto simp: e)
    moreover have "map_option (\<lambda>s. if elevated_without_passkey subject s \<and> IdRow sid \<in> snd ` set (e # es)
         then demoted s else s) (sess_at rows sid) = map_option (\<lambda>s. if elevated_without_passkey subject s
         \<and> IdRow sid \<in> snd ` set es then demoted s else s) (sess_at rows sid)" for sid
      using that(2)[of sid] by (cases "sess_at rows sid") (auto simp: e elevated_at_def)
    ultimately show ?thesis using Cons.IH[OF Cons.prems, of n] that(1) by simp
  qed
  show ?case
  proof (cases "\<exists>sid. v = IdRow sid \<and> sid \<in> elevated_at rows subject")
    case False
    have "demote_loop subject (e # es) n rows = demote_loop subject es n rows"
    proof (cases v)
      case (IdRow sid)
      then have "sid \<notin> elevated_at rows subject" using False by blast
      then show ?thesis using ok_session[OF Cons.prems, of sid] IdRow
        by (cases "sess_at rows sid") (simp_all add: e elevated_at_def)
    qed (simp_all add: e)
    then show ?thesis using False by (intro skip) auto
  next
    case True
    then obtain sid s where v: "v = IdRow sid" "sess_at rows sid = Some s" "elevated_without_passkey subject s"
      by (auto simp: elevated_at_def)
    let ?rows = "store_session (demoted s) rows"
    have i: "ss_session_id s = sid" "CHR '':'' \<notin> set sid" using ok_sess_at[OF Cons.prems v(2)] by auto
    have ok: "sessions_ok ?rows" using ok_store[OF Cons.prems] i by simp
    have el: "elevated_at ?rows subject = elevated_at rows subject - {sid}"
      by (auto simp: elevated_at_def sess_at_store i split: if_splits)
    let ?A = "{x \<in> elevated_at rows subject. IdRow x \<in> snd ` set (e # es)}"
    have A: "{x \<in> elevated_at ?rows subject. IdRow x \<in> snd ` set es} = ?A - {sid}"
      by (auto simp: el e v(1))
    have m: "sid \<in> ?A" using v by (auto simp: e elevated_at_def)
    have fA: "finite ?A" using elevated_finite[of rows subject] by simp
    have c: "Suc (card (?A - {sid})) = card ?A" by (rule card.remove[OF fA m, symmetric])
    have step: "demote_loop subject (e # es) n rows = demote_loop subject es (n + 1) ?rows"
      using v ok_session[OF Cons.prems] by (simp add: e)
    obtain rows' where r: "demote_loop subject es (n + 1) ?rows = (Inr (n + 1 + card (?A - {sid})), rows')"
      "sessions_ok rows'"
      "\<forall>x. sess_at rows' x = map_option (\<lambda>s. if elevated_without_passkey subject s \<and> IdRow x \<in> snd ` set es
         then demoted s else s) (sess_at ?rows x)"
      using Cons.IH[OF ok, of "n + 1"] unfolding A by blast
    have "sess_at rows' x = map_option (\<lambda>s. if elevated_without_passkey subject s \<and> IdRow x \<in> snd ` set (e # es)
         then demoted s else s) (sess_at rows x)" for x
      using r(3) v by (cases "x = sid") (simp_all add: sess_at_store i e)
    then show ?thesis using r(1,2) step c by auto
  qed
qed

lemma listed_sessions:
  assumes "sessions_ok rows" "sid \<in> elevated_at rows subject"
  shows "IdRow sid \<in> snd ` set (ks_scan (session_did_prefix subject) rows)"
proof -
  obtain s where s: "sess_at rows sid = Some s" "ss_did s = subject"
    using assms(2) by (auto simp: elevated_at_def elevated_without_passkey_def)
  have k: "ks_ok rows" using assms(1) by (simp add: sessions_ok_def)
  have "ks_get rows (session_did_key subject sid) = Some (IdRow sid)" using ok_sess_at(4)[OF assms(1) s(1)] s(2) by simp
  then have "(session_did_key subject sid, IdRow sid) \<in> set (ks_scan (session_did_prefix subject) rows)"
    using rows.scan_mem[OF k] by (simp add: session_did_key_def)
  then show ?thesis by force
qed

section \<open>What demotion, the sweep and the extractor guarantee\<close>


text \<open>Two DIDs of which one is a prefix of the other, each with a stepped-up session.\<close>

definition stepped_up :: "string \<Rightarrow> string \<Rightarrow> session" where
  "stepped_up sid did = \<lparr>ss_session_id = sid, ss_did = did, ss_challenge = [], ss_state = Authenticated,
     ss_created_at = 5, ss_last_seen = 5, ss_refresh_token = Some (''r'' @ sid), ss_refresh_expires_at = Some 50,
     ss_tee_attested = False, ss_token_id = Some ''j'', ss_pubkey = None, ss_amr = [''did'', ''vta''],
     ss_acr = ''aal2'', ss_acr_expires_at = None, ss_not_after = None\<rparr>"

definition two_sessions :: session_rows where
  "two_sessions = store_session (stepped_up ''s2'' ''did:a:b'') (store_session (stepped_up ''s1'' ''did:a'') [])"

lemma no_sessions_ok: "sessions_ok []"
  by (simp add: sessions_ok_def)

lemma two_sessions_ok: "sessions_ok two_sessions"
  unfolding two_sessions_def by (intro ok_store no_sessions_ok) (simp_all add: stepped_up_def)


lemma ok_remove:
  assumes "sessions_ok rows" "CHR '':'' \<notin> set sid" "rows1 = rows \<or> (\<exists>t. rows1 = ks_del (refresh_key t) rows)"
  shows "sessions_ok (ks_del (session_did_key d sid) (ks_del (session_key sid) rows1))"
proof -
  let ?rows = "ks_del (session_did_key d sid) (ks_del (session_key sid) rows1)"
  have k: "ks_ok ?rows" using assms(1,3) by (auto simp: sessions_ok_def ks_simps)
  have "\<exists>s'. v = SessionRow s' \<and> ss_session_id s' = x \<and> CHR '':'' \<notin> set x
       \<and> ks_get ?rows (session_did_key (ss_did s') x) = Some (IdRow x)"
    if v: "ks_get ?rows (session_key x) = Some v" for x v
  proof -
    have x: "x \<noteq> sid" "ks_get rows (session_key x) = Some v"
      using v assms(3) by (auto simp: ks_simps split: if_splits)
    then obtain s' where s': "v = SessionRow s'" "ss_session_id s' = x" "CHR '':'' \<notin> set x"
      "ks_get rows (session_did_key (ss_did s') x) = Some (IdRow x)"
      using assms(1) unfolding sessions_ok_def by blast
    then show ?thesis using assms(3) x(1) did_key_eq[OF s'(3) assms(2)] by (auto simp: ks_simps)
  qed
  then show ?thesis using k unfolding sessions_ok_def by blast
qed

lemma sess_at_del: "sess_at (ks_del k rows) sid = (if k = session_key sid then None else sess_at rows sid)"
  by (auto simp: sess_at_def ks_simps)

lemma sweep_sessions_effect:
  assumes "sessions_ok rows"
    "\<And>k s. (k, SessionRow s) \<in> set es \<Longrightarrow> k = session_key (ss_session_id s) \<and> CHR '':'' \<notin> set (ss_session_id s)"
  shows "sessions_ok (sweep_sessions ttl now es rows)
    \<and> (\<forall>sid. sess_at (sweep_sessions ttl now es rows) sid =
        (if \<exists>s. (session_key sid, SessionRow s) \<in> set es \<and> session_expired ttl now s then None else sess_at rows sid))"
  using assms
proof (induction es arbitrary: rows)
  case (Cons e es)
  obtain k v where e: "e = (k, v)" by force
  have p: "\<And>k s. (k, SessionRow s) \<in> set es \<Longrightarrow> k = session_key (ss_session_id s) \<and> CHR '':'' \<notin> set (ss_session_id s)"
    using Cons.prems(2) by (meson list.set_intros(2))
  show ?case
  proof (cases "\<exists>s. v = SessionRow s \<and> session_expired ttl now s")
    case True
    then obtain s where s: "v = SessionRow s" "session_expired ttl now s" by blast
    have k: "k = session_key (ss_session_id s)" "CHR '':'' \<notin> set (ss_session_id s)"
      using Cons.prems(2)[of k s] s e by auto
    let ?r1 = "case ss_refresh_token s of Some t \<Rightarrow> ks_del (refresh_key t) rows | None \<Rightarrow> rows"
    let ?r2 = "case ss_refresh_token s of Some t \<Rightarrow> ks_del (refresh_key t) (ks_del k rows) | None \<Rightarrow> ks_del k rows"
    let ?r = "ks_del (session_did_key (ss_did s) (ss_session_id s)) ?r2"
    have "?r2 = ks_del k ?r1" by (auto simp: ks_del_def conj_commute split: option.splits)
    then have ok: "sessions_ok ?r"
      using ok_remove[OF Cons.prems(1) k(2), of ?r1 "ss_did s"] k(1) by (auto split: option.splits)
    have step: "sweep_sessions ttl now (e # es) rows = sweep_sessions ttl now es ?r"
      using s by (simp add: e Let_def)
    have sr: "sess_at ?r sid = (if sid = ss_session_id s then None else sess_at rows sid)" for sid
      by (auto simp: sess_at_del k(1) split: option.splits)
    show ?thesis using Cons.IH[OF ok p] s k unfolding step by (auto simp: sr e)
  next
    case False
    then have step: "sweep_sessions ttl now (e # es) rows = sweep_sessions ttl now es rows"
      by (cases v) (auto simp: e)
    show ?thesis using Cons.IH[OF Cons.prems(1) p] False unfolding step by (auto simp: e)
  qed
qed simp

lemma sweep_invites_effect:
  assumes "sessions_ok rows" "\<forall>row \<in> set es. prefix ''pk_'' (fst row)"
  shows "sessions_ok (sweep_invites now es rows) \<and> sess_at (sweep_invites now es rows) sid = sess_at rows sid"
  using assms
proof (induction es arbitrary: rows)
  case (Cons row es)
  obtain k v where kv: "row = (k, v)" by force
  have p: "\<forall>row \<in> set es. prefix ''pk_'' (fst row)" using Cons.prems(2) by simp
  have d: "sessions_ok (ks_del (''pk_'' @ x) r) \<and> (\<forall>sid. sess_at (ks_del (''pk_'' @ x) r) sid = sess_at r sid)"
    if "sessions_ok r" for x r
    using that by (auto simp: sessions_ok_def sess_at_def ks_simps session_key_def session_did_key_def
        session_did_prefix_def)
  obtain x where x: "k = ''pk_'' @ x" using Cons.prems(2) kv by (auto elim: prefixE)
  show ?case
  proof (cases "\<exists>e iid. v = ExpiryRow e iid \<and> e < now")
    case True
    then obtain e iid where v: "v = ExpiryRow e iid" "e < now" by blast
    let ?r1 = "ks_del k rows"
    let ?r2 = "case iid of Some i \<Rightarrow> ks_del (''pk_invite_id:'' @ i) ?r1 | None \<Rightarrow> ?r1"
    let ?r3 = "case strip_prefix_str ''pk_invite:'' k of Some h \<Rightarrow> ks_del (''pk_wrong:'' @ h) ?r2 | None \<Rightarrow> ?r2"
    have 1: "sessions_ok ?r1" "sess_at ?r1 sid = sess_at rows sid" using d[OF Cons.prems(1), of x] by (simp_all add: x)
    have 2: "sessions_ok ?r2" "sess_at ?r2 sid = sess_at rows sid"
      using 1 d[OF 1(1), of "''invite_id:'' @ the iid"] by (auto split: option.splits)
    have 3: "sessions_ok ?r3" "sess_at ?r3 sid = sess_at rows sid"
      using 2 d[OF 2(1), of "''wrong:'' @ the (strip_prefix_str ''pk_invite:'' k)"] by (auto split: option.splits)
    have step: "sweep_invites now (row # es) rows = sweep_invites now es ?r3" using v by (simp add: kv Let_def)
    show ?thesis unfolding step using Cons.IH[OF 3(1) p] 3(2) by simp
  next
    case False
    then have "sweep_invites now (row # es) rows = sweep_invites now es rows" by (cases v) (auto simp: kv)
    then show ?thesis using Cons.IH[OF Cons.prems(1) p] by simp
  qed
qed simp

lemma sweep_scan_effect:
  assumes "sessions_ok rows" "prefix ''pk_'' q"
  shows "sessions_ok (sweep_invites now (ks_scan q rows) rows)"
    "sess_at (sweep_invites now (ks_scan q rows) rows) sid = sess_at rows sid"
proof -
  have p: "\<forall>row \<in> set (ks_scan q rows). prefix ''pk_'' (fst row)"
    using assms(2) by (auto simp: ks_scan_def dest: prefix_order.order_trans)
  show "sessions_ok (sweep_invites now (ks_scan q rows) rows)"
    "sess_at (sweep_invites now (ks_scan q rows) rows) sid = sess_at rows sid"
    using sweep_invites_effect[OF assms(1) p] by blast+
qed

lemma cleanup_effect:
  assumes "sessions_ok rows"
  shows "sessions_ok (cleanup_expired_sessions ttl now rows)"
    "sess_at (cleanup_expired_sessions ttl now rows) sid = (case sess_at rows sid of
       Some s \<Rightarrow> if session_expired ttl now s then None else Some s | None \<Rightarrow> None)"
proof -
  have k: "ks_ok rows" using assms by (simp add: sessions_ok_def)
  let ?es = "ks_scan ''session:'' rows"
  let ?r1 = "sweep_sessions ttl now ?es rows"
  let ?r2 = "sweep_invites now (ks_scan ''pk_invite:'' ?r1) ?r1"
  have m: "(j, v) \<in> set (ks_scan q r) \<longleftrightarrow> prefix q j \<and> ks_get r j = Some v" if "ks_ok r" for j v q and r :: session_rows
    using rows.scan_mem[OF that] .
  have e: "j = session_key (ss_session_id s) \<and> CHR '':'' \<notin> set (ss_session_id s)"
    if q: "(j, SessionRow s) \<in> set ?es" for j s
  proof -
    obtain x where "j = session_key x" using q m[OF k] by (auto simp: session_key_def elim: prefixE)
    moreover from this have "ks_get rows (session_key x) = Some (SessionRow s)" using q m[OF k] by blast
    then have "ss_session_id s = x \<and> CHR '':'' \<notin> set x" using assms unfolding sessions_ok_def by blast
    ultimately show ?thesis by simp
  qed
  note s1 = sweep_sessions_effect[OF assms e, where ttl = ttl and now = now]
  have ok1: "sessions_ok ?r1" using s1 by blast
  note s2 = sweep_scan_effect[OF ok1, of "''pk_invite:''" now, simplified]
  note s3 = sweep_scan_effect[OF s2(1), of "''pk_enrol:''" now, simplified]
  show "sessions_ok (cleanup_expired_sessions ttl now rows)"
    using s3(1) by (simp add: cleanup_expired_sessions_def Let_def)
  have "sess_at (cleanup_expired_sessions ttl now rows) sid = sess_at ?r1 sid"
    using s3(2) s2(2) by (simp add: cleanup_expired_sessions_def Let_def)
  moreover have "(session_key sid, SessionRow s) \<in> set ?es \<longleftrightarrow> sess_at rows sid = Some s" for s
    using m[OF k] by (auto simp: sess_at_def session_key_def split: option.splits session_row.splits)
  ultimately show "sess_at (cleanup_expired_sessions ttl now rows) sid = (case sess_at rows sid of
       Some s \<Rightarrow> if session_expired ttl now s then None else Some s | None \<Rightarrow> None)"
    using s1 by (auto split: option.splits)
qed



text \<open>An activity touch writes back the session it read before: a request that overlaps a logout
  brings the deleted session back, with its token valid.\<close>

lemma stale_touch_revives_session:
  assumes "sessions_ok rows" "sess_at rows sid = Some s" "delete_session sid rows = (Inr (), rows1)"
    "saturating_add (ss_last_seen s) LAST_SEEN_GRANULARITY_SECS \<le> now"
  shows "sess_at rows1 sid = None \<and> sess_at (snd (touch_last_seen s now rows1)) sid = Some (s\<lparr>ss_last_seen := now\<rparr>)"
  using assms ok_session[OF assms(1), of sid] ok_sess_at[OF assms(1,2)]
  by (auto simp: delete_session_def touch_last_seen_def sess_at_store sess_at_del Let_def split: option.splits)

end
