(* ===== verification/PendingChallenges.thy ===== *)
theory PendingChallenges
  imports Sessions "HOL-Library.AList"
begin

text \<open>
  The bounded set of live sign-in challenges of the control plane
  (did-hosting-control/src/pending_challenges.rs) and the issuing of a challenge
  (routes/auth.rs). Instants and durations are counted in nanoseconds from some origin; the mutex
  makes every operation one step. The challenge handler of vti-common is a parameter.
\<close>

section \<open>The tracker\<close>

record pc_entry =
  pe_did :: string
  pe_session :: "string option"

record tracker =
  pc_next_id :: nat
  pc_entries :: "(nat \<times> pc_entry) list"
  pc_by_session :: "string \<Rightarrow> nat option"
  pc_per_did :: "string \<Rightarrow> (nat \<times> nat) list option"
  pc_expiry :: "(nat \<times> nat) list"

definition empty_tracker :: tracker where
  "empty_tracker = \<lparr>pc_next_id = 0, pc_entries = [], pc_by_session = (\<lambda>_. None), pc_per_did = (\<lambda>_. None), pc_expiry = []\<rparr>"

definition nonempty_queue :: "(nat \<times> nat) list \<Rightarrow> (nat \<times> nat) list option" where
  "nonempty_queue q = (if q = [] then None else Some q)"

definition remove_entry :: "nat \<Rightarrow> tracker \<Rightarrow> bool \<times> tracker" where
  "remove_entry i s = (case map_of (pc_entries s) i of
     None \<Rightarrow> (False, s)
   | Some e \<Rightarrow>
       (True, s\<lparr>pc_entries := AList.delete i (pc_entries s),
          pc_by_session := (case pe_session e of Some sid \<Rightarrow> (pc_by_session s)(sid := None) | None \<Rightarrow> pc_by_session s),
          pc_per_did := (case pc_per_did s (pe_did e) of
              None \<Rightarrow> pc_per_did s
            | Some q \<Rightarrow> (pc_per_did s)(pe_did e := nonempty_queue (filter (\<lambda>(x, j). j \<noteq> i) q)))\<rparr>))"

text \<open>The loop of prune over the expiry queue.\<close>

fun prune_queue :: "nat \<Rightarrow> (nat \<times> nat) list \<Rightarrow> tracker \<Rightarrow> tracker" where
  "prune_queue now [] s = s\<lparr>pc_expiry := []\<rparr>"
| "prune_queue now ((x, i) # q) s =
    (if map_of (pc_entries s) i \<noteq> None \<and> now < x then s\<lparr>pc_expiry := (x, i) # q\<rparr>
     else prune_queue now q (if map_of (pc_entries s) i \<noteq> None then snd (remove_entry i s) else s))"

definition prune :: "nat \<Rightarrow> tracker \<Rightarrow> tracker" where
  "prune now s = prune_queue now (pc_expiry s) s"

text \<open>Insertion behind the last element that expires no later; the queue is sorted, so
  partition_point is the length of this prefix.\<close>

definition insert_sorted :: "(nat \<times> nat) list \<Rightarrow> nat \<Rightarrow> nat \<Rightarrow> (nat \<times> nat) list" where
  "insert_sorted q x i = takeWhile (\<lambda>(y, _). y \<le> x) q @ (x, i) # dropWhile (\<lambda>(y, _). y \<le> x) q"

definition did_queue :: "tracker \<Rightarrow> string \<Rightarrow> (nat \<times> nat) list" where
  "did_queue s did = (case pc_per_did s did of Some q \<Rightarrow> q | None \<Rightarrow> [])"

definition insert_entry :: "string \<Rightarrow> nat \<Rightarrow> string option \<Rightarrow> tracker \<Rightarrow> nat \<times> tracker" where
  "insert_entry did expires_at sid s =
    (let i = pc_next_id s
     in (i, s\<lparr>pc_next_id := i + 1,
         pc_by_session := (case sid of Some x \<Rightarrow> (pc_by_session s)(x \<mapsto> i) | None \<Rightarrow> pc_by_session s),
         pc_entries := AList.update i \<lparr>pe_did = did, pe_session = sid\<rparr> (pc_entries s),
         pc_per_did := (pc_per_did s)(did \<mapsto> insert_sorted (did_queue s did) expires_at i),
         pc_expiry := insert_sorted (pc_expiry s) expires_at i\<rparr>))"

definition NANOS :: nat where "NANOS = 1000000000"

definition secs_until :: "nat \<Rightarrow> nat \<Rightarrow> nat" where
  "secs_until at now = (let d = at - now in max 1 (d div NANOS + (if 0 < d mod NANOS then 1 else 0)))"

definition retry_after :: "(nat \<times> nat) list \<Rightarrow> nat \<Rightarrow> nat" where
  "retry_after q now = (case q of [] \<Rightarrow> 1 | (x, _) # _ \<Rightarrow> secs_until x now)"

definition try_issue :: "nat \<Rightarrow> nat \<Rightarrow> nat \<Rightarrow> string \<Rightarrow> nat \<Rightarrow> tracker \<Rightarrow> nat res \<times> tracker" where
  "try_issue ttl global_cap now did per_did_cap s =
    (let s1 = prune now s
     in if global_cap \<le> length (pc_entries s1) then (Inl (RateLimited (retry_after (pc_expiry s1) now)), s1)
        else case pc_per_did s1 did of
          Some q \<Rightarrow>
            if per_did_cap \<le> length q then (Inl (RateLimited (retry_after q now)), s1)
            else (case insert_entry did (now + ttl) None s1 of (i, s2) \<Rightarrow> (Inr i, s2))
        | None \<Rightarrow> (case insert_entry did (now + ttl) None s1 of (i, s2) \<Rightarrow> (Inr i, s2)))"

definition bind_session :: "nat \<Rightarrow> string \<Rightarrow> tracker \<Rightarrow> tracker" where
  "bind_session i sid s = (case map_of (pc_entries s) i of
     None \<Rightarrow> s
   | Some e \<Rightarrow> s\<lparr>pc_entries := AList.update i (e\<lparr>pe_session := Some sid\<rparr>) (pc_entries s),
                 pc_by_session := (pc_by_session s)(sid \<mapsto> i)\<rparr>)"

definition cancel :: "nat \<Rightarrow> tracker \<Rightarrow> tracker" where
  "cancel i s = snd (remove_entry i s)"

definition release_session :: "nat \<Rightarrow> string \<Rightarrow> tracker \<Rightarrow> bool \<times> tracker" where
  "release_session now sid s = (let s1 = prune now s in case pc_by_session s1 sid of
     Some i \<Rightarrow> remove_entry i s1
   | None \<Rightarrow> (False, s1))"

definition count_for :: "nat \<Rightarrow> string \<Rightarrow> tracker \<Rightarrow> nat \<times> tracker" where
  "count_for now did s = (let s1 = prune now s in (length (did_queue s1 did), s1))"

definition global_count :: "nat \<Rightarrow> tracker \<Rightarrow> nat \<times> tracker" where
  "global_count now s = (let s1 = prune now s in (length (pc_entries s1), s1))"

text \<open>Reloading the redeemable challenges at boot.\<close>

fun seed_rows :: "nat \<Rightarrow> nat \<Rightarrow> nat \<Rightarrow> (string \<times> session_row) list \<Rightarrow> nat \<times> tracker \<Rightarrow> nat \<times> tracker" where
  "seed_rows ttl_secs now_epoch now [] acc = acc"
| "seed_rows ttl_secs now_epoch now ((k, v) # rows) (n, s) = (case v of
     SessionRow x \<Rightarrow>
       if ss_state x \<noteq> ChallengeSent then seed_rows ttl_secs now_epoch now rows (n, s)
       else let expires_epoch = saturating_add (ss_created_at x) ttl_secs
       in if expires_epoch < now_epoch \<or> pc_by_session s (ss_session_id x) \<noteq> None
          then seed_rows ttl_secs now_epoch now rows (n, s)
          else seed_rows ttl_secs now_epoch now rows
            (n + 1, snd (insert_entry (ss_did x) (now + (expires_epoch - now_epoch + 1) * NANOS) (Some (ss_session_id x)) s))
   | _ \<Rightarrow> seed_rows ttl_secs now_epoch now rows (n, s))"

definition seed_from_sessions :: "nat \<Rightarrow> nat \<Rightarrow> nat \<Rightarrow> session_rows \<Rightarrow> tracker \<Rightarrow> nat \<times> tracker" where
  "seed_from_sessions ttl now_epoch now rows s =
    seed_rows (ttl div NANOS) now_epoch now (ks_scan ''session:'' rows) (0, s)"

text \<open>Issuing a challenge: a slot is reserved, the handler mints the challenge under a session id, and
  the slot is bound to it, or handed back when the handler fails.\<close>

definition issue_challenge ::
  "nat \<Rightarrow> nat \<Rightarrow> nat \<Rightarrow> nat \<Rightarrow> (string \<Rightarrow> string res) \<Rightarrow> string \<Rightarrow> tracker \<Rightarrow> string res \<times> tracker" where
  "issue_challenge ttl global_cap per_did_cap now handler did s =
    (case try_issue ttl global_cap now did per_did_cap s of
       (Inl e, s1) \<Rightarrow> (Inl e, s1)
     | (Inr i, s1) \<Rightarrow> (case handler did of
         Inr sid \<Rightarrow> (Inr sid, bind_session i sid s1)
       | Inl e \<Rightarrow> (Inl e, cancel i s1)))"

section \<open>The invariant\<close>

definition holds_for :: "tracker \<Rightarrow> string \<Rightarrow> nat \<times> nat \<Rightarrow> bool" where
  "holds_for s did p = (case map_of (pc_entries s) (snd p) of Some e \<Rightarrow> pe_did e = did | None \<Rightarrow> False)"

text \<open>Each DID's queue is exactly the part of the expiry queue that belongs to its live entries, and
  the session index points exactly at the entries bound to a session.\<close>

definition pc_ok :: "tracker \<Rightarrow> bool" where
  "pc_ok s \<longleftrightarrow> distinct (map fst (pc_entries s)) \<and> sorted (map fst (pc_expiry s)) \<and> distinct (map snd (pc_expiry s))
   \<and> (\<forall>i \<in> fst ` set (pc_entries s). i \<in> snd ` set (pc_expiry s)) \<and> (\<forall>i \<in> snd ` set (pc_expiry s). i < pc_next_id s)
   \<and> (\<forall>did. pc_per_did s did = nonempty_queue (filter (holds_for s did) (pc_expiry s)))
   \<and> (\<forall>sid i. pc_by_session s sid = Some i \<longleftrightarrow> (\<exists>e. map_of (pc_entries s) i = Some e \<and> pe_session e = Some sid))"

lemma empty_tracker_ok: "pc_ok empty_tracker"
  by (simp add: pc_ok_def empty_tracker_def nonempty_queue_def)

lemma did_queue_nonempty [simp]: "(case nonempty_queue q of Some q' \<Rightarrow> q' | None \<Rightarrow> []) = q"
  by (simp add: nonempty_queue_def)

lemma pc_ok_queue: "pc_ok s \<Longrightarrow> did_queue s did = filter (holds_for s did) (pc_expiry s)"
  by (simp add: pc_ok_def did_queue_def)

lemma insert_sorted_simps [simp]:
  "insert_sorted [] x i = [(x, i)]"
  "insert_sorted ((y, j) # q) x i = (if y \<le> x then (y, j) # insert_sorted q x i else (x, i) # (y, j) # q)"
  by (simp_all add: insert_sorted_def)

lemma insert_sorted_set [simp]: "set (insert_sorted q x i) = insert (x, i) (set q)"
  by (induction q) (auto split: if_splits)

lemma insert_sorted_sorted: "sorted (map fst q) \<Longrightarrow> sorted (map fst (insert_sorted q x i))"
  by (induction q) (fastforce split: if_splits)+

lemma insert_sorted_distinct: "distinct (map snd q) \<Longrightarrow> i \<notin> snd ` set q \<Longrightarrow> distinct (map snd (insert_sorted q x i))"
  by (induction q) (auto split: if_splits)

lemma insert_sorted_not_Nil [simp]: "insert_sorted q x i \<noteq> []"
  by (cases q) (auto split: if_splits)

lemma insert_sorted_length [simp]: "length (insert_sorted q x i) = Suc (length q)"
  by (induction q) auto

lemma filter_insert_sorted:
  "sorted (map fst q) \<Longrightarrow> filter P (insert_sorted q x i) = (if P (x, i) then insert_sorted (filter P q) x i else filter P q)"
proof (induction q)
  case (Cons p q)
  obtain y j where p: "p = (y, j)" by force
  have "insert_sorted (filter P q) x i = (x, i) # filter P q" if "\<not> y \<le> x"
  proof (cases "filter P q")
    case (Cons r r')
    then have "r \<in> set (filter P q)" by simp
    then have "r \<in> set q" by simp
    then have "y \<le> fst r" using Cons.prems p by auto
    then show ?thesis using that Cons by (cases r) auto
  qed simp
  then show ?case using Cons p by auto
qed simp

lemma map_of_update [simp]: "map_of (AList.update i e xs) = (map_of xs)(i \<mapsto> e)"
  by (rule update_conv')

lemma map_of_delete [simp]: "map_of (AList.delete i xs) = (map_of xs)(i := None)"
  by (rule delete_conv')

lemma entry_mem: "i \<in> fst ` set xs \<longleftrightarrow> map_of xs i \<noteq> None"
  by (simp add: map_of_eq_None_iff)

lemma pc_okD:
  assumes "pc_ok s"
  shows "distinct (map fst (pc_entries s))" "sorted (map fst (pc_expiry s))" "distinct (map snd (pc_expiry s))"
    "map_of (pc_entries s) i = Some e \<Longrightarrow> \<exists>x. (x, i) \<in> set (pc_expiry s)"
    "(x, i) \<in> set (pc_expiry s) \<Longrightarrow> i < pc_next_id s"
    "pc_per_did s did = nonempty_queue (filter (holds_for s did) (pc_expiry s))"
    "pc_by_session s sid = Some i \<longleftrightarrow> (\<exists>e. map_of (pc_entries s) i = Some e \<and> pe_session e = Some sid)"
proof -
  show "map_of (pc_entries s) i = Some e \<Longrightarrow> \<exists>x. (x, i) \<in> set (pc_expiry s)"
    using assms unfolding pc_ok_def entry_mem by force
  show "(x, i) \<in> set (pc_expiry s) \<Longrightarrow> i < pc_next_id s" using assms unfolding pc_ok_def by force
qed (use assms in \<open>auto simp: pc_ok_def\<close>)

lemma remove_fields:
  "pc_next_id (snd (remove_entry i s)) = pc_next_id s" "pc_expiry (snd (remove_entry i s)) = pc_expiry s"
  "map_of (pc_entries (snd (remove_entry i s))) = (map_of (pc_entries s))(i := None)"
  by (auto simp: remove_entry_def split: option.splits)

lemma remove_ok:
  assumes "pc_ok s"
  shows "pc_ok (snd (remove_entry i s))"
proof (cases "map_of (pc_entries s) i")
  case None
  then show ?thesis using assms by (simp add: remove_entry_def)
next
  case (Some e)
  let ?s = "snd (remove_entry i s)"
  note d = pc_okD[OF assms]
  have h: "holds_for ?s did p \<longleftrightarrow> holds_for s did p \<and> snd p \<noteq> i" for did p
    by (simp add: holds_for_def remove_fields)
  have q: "filter (holds_for ?s did) (pc_expiry s) = filter (\<lambda>(x, j). j \<noteq> i) (filter (holds_for s did) (pc_expiry s))" for did
    unfolding filter_filter h by (intro filter_cong) (auto simp: conj_commute)
  have a1: "pc_per_did ?s did = nonempty_queue (filter (holds_for ?s did) (pc_expiry ?s))" for did
  proof (cases "did = pe_did e")
    case True
    obtain x where x: "(x, i) \<in> set (pc_expiry s)" using d(4)[OF Some] by blast
    have "holds_for s did (x, i)" using Some True by (simp add: holds_for_def)
    then have "filter (holds_for s did) (pc_expiry s) \<noteq> []" using x by (auto simp: filter_empty_conv)
    then have "pc_per_did s did = Some (filter (holds_for s did) (pc_expiry s))" using d(6) by (simp add: nonempty_queue_def)
    then show ?thesis using Some True q[of did] by (simp add: remove_entry_def remove_fields)
  next
    case False
    have "holds_for s did p \<and> (case p of (x, j) \<Rightarrow> j \<noteq> i) \<longleftrightarrow> holds_for s did p" for p
      using Some False by (cases p) (auto simp: holds_for_def)
    then have "filter (\<lambda>(x, j). j \<noteq> i) (filter (holds_for s did) (pc_expiry s)) = filter (holds_for s did) (pc_expiry s)"
      unfolding filter_filter by simp
    then show ?thesis using Some False d(6) q[of did] by (simp add: remove_entry_def remove_fields split: option.splits)
  qed
  have a2: "pc_by_session ?s sid = Some j \<longleftrightarrow> (\<exists>e. map_of (pc_entries ?s) j = Some e \<and> pe_session e = Some sid)" for sid j
  proof -
    have b: "pc_by_session ?s = (case pe_session e of Some x \<Rightarrow> (pc_by_session s)(x := None) | None \<Rightarrow> pc_by_session s)"
      using Some by (simp add: remove_entry_def)
    have "pc_by_session s x = Some i" if "pe_session e = Some x" for x using d(7) Some that by blast
    then show ?thesis using d(7)[of sid j] Some by (auto simp: b remove_fields split: option.splits if_splits)
  qed
  have a3: "distinct (map fst (pc_entries ?s))" using d(1) Some by (simp add: remove_entry_def distinct_delete)
  have a4: "i' \<in> snd ` set (pc_expiry s)" if "i' \<in> fst ` set (pc_entries ?s)" for i'
  proof -
    have "map_of (pc_entries s) i' \<noteq> None" using that unfolding entry_mem by (auto simp: remove_fields split: if_splits)
    then show ?thesis using d(4)[of i'] by force
  qed
  show ?thesis unfolding pc_ok_def
  proof (intro conjI allI ballI)
    show "sorted (map fst (pc_expiry ?s))" "distinct (map snd (pc_expiry ?s))"
      using d(2,3) by (simp_all add: remove_fields)
    show "j \<in> snd ` set (pc_expiry ?s)" if "j \<in> fst ` set (pc_entries ?s)" for j
      using a4[OF that] by (simp add: remove_fields)
    show "j < pc_next_id ?s" if "j \<in> snd ` set (pc_expiry ?s)" for j
      using that d(5) by (auto simp: remove_fields)
  qed (rule a1 a2 a3)+
qed

section \<open>Pruning leaves exactly the live challenges\<close>

definition live :: "nat \<Rightarrow> tracker \<Rightarrow> nat set" where
  "live now s = {i. map_of (pc_entries s) i \<noteq> None \<and> (\<exists>x. (x, i) \<in> set (pc_expiry s) \<and> now < x)}"

definition live_of :: "nat \<Rightarrow> tracker \<Rightarrow> string \<Rightarrow> nat set" where
  "live_of now s did = {i \<in> live now s. \<exists>e. map_of (pc_entries s) i = Some e \<and> pe_did e = did}"

lemma drop_front_ok:
  assumes "pc_ok s" "pc_expiry s = (x, i) # q" "map_of (pc_entries s) i = None"
  shows "pc_ok (s\<lparr>pc_expiry := q\<rparr>)"
proof -
  have h: "holds_for (s\<lparr>pc_expiry := q\<rparr>) did = holds_for s did" for did by (rule ext) (simp add: holds_for_def)
  have "\<not> holds_for s did (x, i)" for did using assms(3) by (simp add: holds_for_def)
  then show ?thesis using assms unfolding pc_ok_def entry_mem by (auto simp: h)
qed

lemma prune_queue_effect:
  assumes "pc_ok (s\<lparr>pc_expiry := q\<rparr>)"
  shows "pc_ok (prune_queue now q s) \<and> pc_next_id (prune_queue now q s) = pc_next_id s
    \<and> (\<forall>i. map_of (pc_entries (prune_queue now q s)) i
         = (if i \<in> live now (s\<lparr>pc_expiry := q\<rparr>) then map_of (pc_entries s) i else None))
    \<and> (\<exists>p. q = p @ pc_expiry (prune_queue now q s))
    \<and> (case pc_expiry (prune_queue now q s) of [] \<Rightarrow> True | (x, i) # r \<Rightarrow> i \<in> live now (s\<lparr>pc_expiry := q\<rparr>))"
  using assms
proof (induction now q s rule: prune_queue.induct)
  case (1 now s)
  have "map_of (pc_entries s) i = None" for i using pc_okD(4)[OF 1, of i] by (cases "map_of (pc_entries s) i") auto
  then show ?case using 1 by (simp add: live_def)
next
  case (2 now x i q s)
  let ?s = "s\<lparr>pc_expiry := (x, i) # q\<rparr>"
  note d = pc_okD[OF 2(2)]
  show ?case
  proof (cases "map_of (pc_entries s) i \<noteq> None \<and> now < x")
    case True
    have "\<exists>y. (y, j) \<in> set ((x, i) # q) \<and> now < y" if jn: "map_of (pc_entries s) j \<noteq> None" for j
    proof -
      obtain e where "map_of (pc_entries s) j = Some e" using jn by blast
      then obtain y where y: "(y, j) \<in> set ((x, i) # q)" using d(4)[of j e] by auto
      then have "x \<le> y" using d(2) by auto
      then show ?thesis using y True by (meson le_trans less_le_trans)
    qed
    then have l: "live now ?s = {j. map_of (pc_entries s) j \<noteq> None}" by (auto simp: live_def)
    then show ?thesis using 2(2) True by (auto simp: l)
  next
    case False
    define t where "t = (if map_of (pc_entries s) i \<noteq> None then snd (remove_entry i s) else s)"
    have t: "map_of (pc_entries t) = (map_of (pc_entries s))(i := None)" "pc_next_id t = pc_next_id s"
      by (auto simp: t_def remove_fields)
    have "snd (remove_entry i s)\<lparr>pc_expiry := (x, i) # q\<rparr> = snd (remove_entry i ?s)"
      by (simp add: remove_entry_def split: option.splits)
    then have "pc_ok (t\<lparr>pc_expiry := (x, i) # q\<rparr>)"
      using 2(2) remove_ok[OF 2(2), of i] by (simp add: t_def)
    then have ok: "pc_ok (t\<lparr>pc_expiry := q\<rparr>)"
      using drop_front_ok[of "t\<lparr>pc_expiry := (x, i) # q\<rparr>" x i q] t(1) by simp
    have n: "i \<notin> snd ` set q" using d(3) by simp
    have l: "live now (t\<lparr>pc_expiry := q\<rparr>) = live now ?s"
      using False n by (auto simp: live_def t(1) image_iff split: if_splits)
    have step: "prune_queue now ((x, i) # q) s = prune_queue now q t"
      unfolding t_def by (simp only: prune_queue.simps(2) False if_False)
    have ni: "i \<notin> live now ?s" using False n by (auto simp: live_def image_iff)
    note ih = 2(1)[OF False, folded t_def, OF ok, unfolded l]
    then obtain p where "(x, i) # q = ((x, i) # p) @ pc_expiry (prune_queue now q t)" by auto
    then have "\<exists>p. (x, i) # q = p @ pc_expiry (prune_queue now q t)" by blast
    moreover have "map_of (pc_entries (prune_queue now q t)) j = (if j \<in> live now ?s then map_of (pc_entries s) j else None)" for j
      using ih ni t(1) by (cases "j = i") simp_all
    ultimately show ?thesis unfolding step using ih t(2) by simp
  qed
qed

lemma prune_effect:
  assumes "pc_ok s"
  shows "pc_ok (prune now s)" "pc_next_id (prune now s) = pc_next_id s"
    "map_of (pc_entries (prune now s)) i = (if i \<in> live now s then map_of (pc_entries s) i else None)"
    "\<exists>p. pc_expiry s = p @ pc_expiry (prune now s)"
    "pc_expiry (prune now s) = (x, j) # r \<Longrightarrow> j \<in> live now s"
  using prune_queue_effect[where s = s and q = "pc_expiry s" and now = now] assms unfolding prune_def
  by (auto split: list.splits)

lemma fresh_id:
  assumes "pc_ok s"
  shows "pc_next_id s \<notin> snd ` set (pc_expiry s)" "map_of (pc_entries s) (pc_next_id s) = None"
proof -
  show n: "pc_next_id s \<notin> snd ` set (pc_expiry s)" using pc_okD(5)[OF assms] by force
  show "map_of (pc_entries s) (pc_next_id s) = None"
    using pc_okD(4)[OF assms, of "pc_next_id s"] n by (cases "map_of (pc_entries s) (pc_next_id s)") force+
qed

lemma insert_ok:
  assumes "pc_ok s" "\<And>x. sid = Some x \<Longrightarrow> pc_by_session s x = None"
  shows "pc_ok (snd (insert_entry did t sid s))"
proof -
  let ?s = "snd (insert_entry did t sid s)" and ?i = "pc_next_id s"
  note d = pc_okD[OF assms(1)] and f = fresh_id[OF assms(1)]
  have e: "map_of (pc_entries ?s) = (map_of (pc_entries s))(?i \<mapsto> \<lparr>pe_did = did, pe_session = sid\<rparr>)"
    "pc_expiry ?s = insert_sorted (pc_expiry s) t ?i" "pc_next_id ?s = ?i + 1"
    "pc_per_did ?s = (pc_per_did s)(did \<mapsto> insert_sorted (did_queue s did) t ?i)"
    "pc_by_session ?s = (case sid of Some x \<Rightarrow> (pc_by_session s)(x \<mapsto> ?i) | None \<Rightarrow> pc_by_session s)"
    by (simp_all add: insert_entry_def Let_def)
  have h: "holds_for ?s d' p \<longleftrightarrow> (if snd p = ?i then d' = did else holds_for s d' p)" for d' p
    by (auto simp: holds_for_def e)
  have g: "filter (holds_for ?s d') (pc_expiry s) = filter (holds_for s d') (pc_expiry s)" for d'
    by (intro filter_cong refl) (use f(1) in \<open>metis h imageI\<close>)
  have q: "filter (holds_for ?s d') (pc_expiry ?s)
      = (if d' = did then insert_sorted (did_queue s did) t ?i else filter (holds_for s d') (pc_expiry s))" for d'
    unfolding e(2) filter_insert_sorted[OF d(2)] g by (simp add: h pc_ok_queue[OF assms(1)])
  show ?thesis unfolding pc_ok_def
  proof (intro conjI allI ballI)
    show "distinct (map fst (pc_entries ?s))" using d(1) by (simp add: insert_entry_def Let_def distinct_update)
    show "sorted (map fst (pc_expiry ?s))" using insert_sorted_sorted[OF d(2)] by (simp add: e)
    show "distinct (map snd (pc_expiry ?s))" using insert_sorted_distinct[OF d(3) f(1)] by (simp add: e)
    show "j \<in> snd ` set (pc_expiry ?s)" if "j \<in> fst ` set (pc_entries ?s)" for j
    proof (cases "j = ?i")
      case False
      then have "map_of (pc_entries s) j \<noteq> None" using that unfolding entry_mem by (simp add: e)
      then obtain e' where "map_of (pc_entries s) j = Some e'" by blast
      from d(4)[OF this] show ?thesis by (force simp: e)
    qed (force simp: e)
    show "j < pc_next_id ?s" if "j \<in> snd ` set (pc_expiry ?s)" for j
      using that d(5) by (fastforce simp: e)
    show "pc_per_did ?s d' = nonempty_queue (filter (holds_for ?s d') (pc_expiry ?s))" for d'
      using d(6) by (simp add: q e(4) nonempty_queue_def)
    show "pc_by_session ?s x = Some j \<longleftrightarrow> (\<exists>e'. map_of (pc_entries ?s) j = Some e' \<and> pe_session e' = Some x)" for x j
      using d(7)[of x j] f(2) assms(2)[of x] by (auto simp: e split: option.splits if_splits)
  qed
qed

lemma bind_ok:
  assumes "pc_ok s" "pc_by_session s sid = None" "\<And>e. map_of (pc_entries s) i = Some e \<Longrightarrow> pe_session e = None"
  shows "pc_ok (bind_session i sid s)"
proof (cases "map_of (pc_entries s) i")
  case (Some e)
  note d = pc_okD[OF assms(1)]
  let ?s = "bind_session i sid s"
  have b: "map_of (pc_entries ?s) = (map_of (pc_entries s))(i \<mapsto> e\<lparr>pe_session := Some sid\<rparr>)"
    "pc_expiry ?s = pc_expiry s" "pc_next_id ?s = pc_next_id s" "pc_per_did ?s = pc_per_did s"
    "pc_by_session ?s = (pc_by_session s)(sid \<mapsto> i)"
    using Some by (simp_all add: bind_session_def)
  have h: "holds_for ?s d' = holds_for s d'" for d'
    by (rule ext) (use Some in \<open>auto simp: holds_for_def b\<close>)
  show ?thesis unfolding pc_ok_def
  proof (intro conjI allI ballI)
    show "distinct (map fst (pc_entries ?s))" using d(1) Some by (simp add: bind_session_def distinct_update)
    show "j \<in> snd ` set (pc_expiry ?s)" if "j \<in> fst ` set (pc_entries ?s)" for j
    proof -
      have "map_of (pc_entries s) j \<noteq> None" using that Some unfolding entry_mem by (simp add: b split: if_splits)
      then obtain e' where "map_of (pc_entries s) j = Some e'" by blast
      from d(4)[OF this] show ?thesis by (force simp: b)
    qed
    show "j < pc_next_id ?s" if "j \<in> snd ` set (pc_expiry ?s)" for j using that d(5) by (auto simp: b)
    show "pc_by_session ?s x = Some j \<longleftrightarrow> (\<exists>e'. map_of (pc_entries ?s) j = Some e' \<and> pe_session e' = Some x)" for x j
      using d(7)[of x j] d(7)[of sid j] assms(2) assms(3)[OF Some] Some by (auto simp: b)
  qed (use d(2,3,6) in \<open>simp_all add: b h\<close>)
qed (use assms(1) in \<open>simp add: bind_session_def\<close>)

section \<open>Counting\<close>

lemma entries_card: "pc_ok s \<Longrightarrow> length (pc_entries s) = card {i. map_of (pc_entries s) i \<noteq> None}"
proof -
  assume ok: "pc_ok s"
  have "length (pc_entries s) = card (fst ` set (pc_entries s))"
    using distinct_card[OF pc_okD(1)[OF ok]] by simp
  moreover have "fst ` set (pc_entries s) = {i. map_of (pc_entries s) i \<noteq> None}"
    unfolding entry_mem[symmetric] by simp
  ultimately show ?thesis by simp
qed

lemma queue_card:
  assumes "pc_ok s"
  shows "length (did_queue s did) = card {i. \<exists>e. map_of (pc_entries s) i = Some e \<and> pe_did e = did}"
proof -
  note d = pc_okD[OF assms]
  let ?q = "filter (holds_for s did) (pc_expiry s)"
  have "distinct (map snd ?q)" using d(3) by (simp add: distinct_map_filter)
  from distinct_card[OF this] have "length ?q = card (snd ` set ?q)" by simp
  moreover have "snd ` set ?q = {i. \<exists>e. map_of (pc_entries s) i = Some e \<and> pe_did e = did}"
  proof (intro equalityI subsetI)
    fix i assume "i \<in> {i. \<exists>e. map_of (pc_entries s) i = Some e \<and> pe_did e = did}"
    then obtain e where e: "map_of (pc_entries s) i = Some e" "pe_did e = did" by blast
    then obtain x where "(x, i) \<in> set (pc_expiry s)" using d(4) by blast
    then show "i \<in> snd ` set ?q" using e by (force simp: holds_for_def)
  qed (auto simp: holds_for_def split: option.splits)
  ultimately show ?thesis using pc_ok_queue[OF assms] by simp
qed

lemma pruned_counts:
  assumes "pc_ok s"
  shows "length (pc_entries (prune now s)) = card (live now s)"
    "length (did_queue (prune now s) did) = card (live_of now s did)"
proof -
  note p = prune_effect[OF assms, of now]
  have "{i. map_of (pc_entries (prune now s)) i \<noteq> None} = live now s" by (auto simp: p(3) live_def)
  then show "length (pc_entries (prune now s)) = card (live now s)" by (simp add: entries_card[OF p(1)])
  have "{i. \<exists>e. map_of (pc_entries (prune now s)) i = Some e \<and> pe_did e = did} = live_of now s did"
    by (auto simp: p(3) live_of_def live_def split: if_splits)
  then show "length (did_queue (prune now s) did) = card (live_of now s did)" by (simp add: queue_card[OF p(1)])
qed

lemma live_finite: "finite (live now s)"
proof -
  have "live now s \<subseteq> fst ` set (pc_entries s)" using entry_mem[of _ "pc_entries s"] by (auto simp only: live_def)
  then show ?thesis using finite_subset by blast
qed

lemma queue_opt:
  "pc_ok s \<Longrightarrow> pc_per_did s did = nonempty_queue (did_queue s did)"
  by (simp add: pc_okD(6) pc_ok_queue)

lemma insert_fst: "insert_entry did t sid s = (pc_next_id s, snd (insert_entry did t sid s))"
  by (simp add: insert_entry_def Let_def)

lemma try_issue_eq:
  assumes "pc_ok s"
  shows "try_issue ttl cap now did pcap s =
    (if cap \<le> card (live now s) then (Inl (RateLimited (retry_after (pc_expiry (prune now s)) now)), prune now s)
     else if 0 < card (live_of now s did) \<and> pcap \<le> card (live_of now s did)
     then (Inl (RateLimited (retry_after (did_queue (prune now s) did) now)), prune now s)
     else (Inr (pc_next_id s), snd (insert_entry did (now + ttl) None (prune now s))))"
proof -
  let ?s = "prune now s"
  note p = prune_effect[OF assms, of now] and c = pruned_counts(2)[OF assms, of now did]
  have q: "pc_per_did ?s did = nonempty_queue (did_queue ?s did)" using queue_opt[OF p(1)] .
  have i: "(case insert_entry did (now + ttl) None ?s of (i, s2) \<Rightarrow> (Inr i, s2))
      = (Inr (pc_next_id s), snd (insert_entry did (now + ttl) None ?s))"
    by (simp add: insert_entry_def Let_def p(2))
  have z: "did_queue ?s did = [] \<longleftrightarrow> card (live_of now s did) = 0" using c by (metis length_0_conv)
  show ?thesis
  proof (cases "did_queue ?s did = []")
    case True
    then have n: "pc_per_did ?s did = None" and k: "card (live_of now s did) = 0"
      using q z by (simp_all add: nonempty_queue_def)
    show ?thesis unfolding try_issue_def Let_def pruned_counts(1)[OF assms] n i k by simp
  next
    case False
    then have n: "pc_per_did ?s did = Some (did_queue ?s did)" and k: "0 < card (live_of now s did)"
      using q z by (simp_all add: nonempty_queue_def)
    show ?thesis unfolding try_issue_def Let_def pruned_counts(1)[OF assms] n option.case c i using k by simp
  qed
qed

section \<open>Caps and refusals\<close>

text \<open>The tracker's operations at arbitrary times; a session id is bound at most once, and a reservation
  is bound at most once.\<close>

inductive pc_step :: "nat \<Rightarrow> nat \<Rightarrow> nat \<Rightarrow> tracker \<Rightarrow> tracker \<Rightarrow> bool" for ttl cap pcap where
  Issue: "try_issue ttl cap now did pcap s = (r, s') \<Longrightarrow> pc_step ttl cap pcap s s'"
| Bind: "\<lbrakk>pc_by_session s sid = None; \<And>e. map_of (pc_entries s) i = Some e \<Longrightarrow> pe_session e = None\<rbrakk> \<Longrightarrow>
    pc_step ttl cap pcap s (bind_session i sid s)"
| Cancel: "pc_step ttl cap pcap s (cancel i s)"
| Release: "release_session now sid s = (b, s') \<Longrightarrow> pc_step ttl cap pcap s s'"
| Count: "pc_step ttl cap pcap s (prune now s)"

definition within_caps :: "nat \<Rightarrow> nat \<Rightarrow> tracker \<Rightarrow> bool" where
  "within_caps cap pcap s \<longleftrightarrow> length (pc_entries s) \<le> cap \<and> (\<forall>did. length (did_queue s did) \<le> pcap)"

lemma fewer_entries:
  assumes "pc_ok s" "pc_ok s'" "\<And>i. map_of (pc_entries s') i = None \<or> map_of (pc_entries s') i = map_of (pc_entries s) i"
  shows "length (pc_entries s') \<le> length (pc_entries s)" "length (did_queue s' did) \<le> length (did_queue s did)"
proof -
  have f: "finite {i. map_of (pc_entries s) i \<noteq> None}" using finite_dom_map_of by (simp add: dom_def)
  have a: "{i. map_of (pc_entries s') i \<noteq> None} \<subseteq> {i. map_of (pc_entries s) i \<noteq> None}"
  proof (intro subsetI)
    fix i assume "i \<in> {i. map_of (pc_entries s') i \<noteq> None}"
    then show "i \<in> {i. map_of (pc_entries s) i \<noteq> None}" using assms(3)[of i] by auto
  qed
  show "length (pc_entries s') \<le> length (pc_entries s)"
    unfolding entries_card[OF assms(1)] entries_card[OF assms(2)] by (rule card_mono[OF f a])
  have b: "{i. \<exists>e. map_of (pc_entries s') i = Some e \<and> pe_did e = did}
      \<subseteq> {i. \<exists>e. map_of (pc_entries s) i = Some e \<and> pe_did e = did}"
  proof (intro subsetI)
    fix i assume "i \<in> {i. \<exists>e. map_of (pc_entries s') i = Some e \<and> pe_did e = did}"
    then show "i \<in> {i. \<exists>e. map_of (pc_entries s) i = Some e \<and> pe_did e = did}" using assms(3)[of i] by auto
  qed
  show "length (did_queue s' did) \<le> length (did_queue s did)"
    unfolding queue_card[OF assms(1)] queue_card[OF assms(2)]
    by (rule card_mono[OF _ b]) (rule finite_subset[OF _ f], auto)
qed

lemma prune_fewer:
  assumes "pc_ok s"
  shows "length (pc_entries (prune now s)) \<le> length (pc_entries s)"
    "length (did_queue (prune now s) did) \<le> length (did_queue s did)"
  using fewer_entries[OF assms prune_effect(1)[OF assms]] prune_effect(3)[OF assms] by simp_all

lemma remove_fewer:
  assumes "pc_ok s"
  shows "length (pc_entries (snd (remove_entry i s))) \<le> length (pc_entries s)"
    "length (did_queue (snd (remove_entry i s)) did) \<le> length (did_queue s did)"
  using fewer_entries[OF assms remove_ok[OF assms]] by (simp_all add: remove_fields)

lemma insert_counts:
  assumes "pc_ok s"
  shows "length (pc_entries (snd (insert_entry did t sid s))) = Suc (length (pc_entries s))"
    "length (did_queue (snd (insert_entry did t sid s)) d) = length (did_queue s d) + (if d = did then 1 else 0)"
proof -
  have u: "length (AList.update i e xs) = Suc (length xs)" if "map_of xs i = None" for i e and xs :: "(nat \<times> pc_entry) list"
    using that by (induction xs) (auto split: if_splits)
  show "length (pc_entries (snd (insert_entry did t sid s))) = Suc (length (pc_entries s))"
    using u[OF fresh_id(2)[OF assms]] by (simp add: insert_entry_def Let_def)
  show "length (did_queue (snd (insert_entry did t sid s)) d) = length (did_queue s d) + (if d = did then 1 else 0)"
    by (simp add: insert_entry_def Let_def did_queue_def)
qed

lemma bind_counts:
  "length (pc_entries (bind_session i sid s)) = length (pc_entries s)"
  "did_queue (bind_session i sid s) did = did_queue s did"
proof -
  have "length (AList.update i e xs) = length xs" if "map_of xs i \<noteq> None" for e and xs :: "(nat \<times> pc_entry) list"
    using that by (induction xs) auto
  then show "length (pc_entries (bind_session i sid s)) = length (pc_entries s)"
    by (simp add: bind_session_def split: option.splits)
  show "did_queue (bind_session i sid s) did = did_queue s did"
    by (simp add: bind_session_def did_queue_def split: option.splits)
qed

lemma pc_step_ok:
  assumes "pc_step ttl cap pcap s s'" "pc_ok s" "0 < pcap" "within_caps cap pcap s"
  shows "pc_ok s' \<and> within_caps cap pcap s'"
  using assms(1)
proof cases
  case (Issue now did r)
  note p = prune_effect(1)[OF assms(2), of now]
  have w: "within_caps cap pcap (prune now s)" using prune_fewer[OF assms(2)] assms(4)
    unfolding within_caps_def by (meson le_trans)
  note c = pruned_counts[OF assms(2), of now]
  show ?thesis
  proof (cases "cap \<le> card (live now s) \<or> (0 < card (live_of now s did) \<and> pcap \<le> card (live_of now s did))")
    case True
    then have "s' = prune now s" using Issue try_issue_eq[OF assms(2)] by (auto split: if_splits)
    then show ?thesis using p w by simp
  next
    case False
    then have "s' = snd (insert_entry did (now + ttl) None (prune now s))"
      using Issue try_issue_eq[OF assms(2)] by (auto split: if_splits)
    then show ?thesis using insert_ok[OF p] insert_counts[OF p, of did "now + ttl" None] c w False assms(3)
      by (auto simp: within_caps_def)
  qed
next
  case (Bind sid i)
  then show ?thesis using bind_ok[OF assms(2)] assms(4) by (auto simp: within_caps_def bind_counts)
next
  case (Cancel i)
  then show ?thesis using remove_ok[OF assms(2)] remove_fewer[OF assms(2)] assms(4)
    unfolding within_caps_def cancel_def by (meson le_trans)
next
  case (Release now sid b)
  note p = prune_effect(1)[OF assms(2), of now]
  have w: "within_caps cap pcap (prune now s)" using prune_fewer[OF assms(2)] assms(4)
    unfolding within_caps_def by (meson le_trans)
  have "s' = prune now s \<or> (\<exists>i. s' = snd (remove_entry i (prune now s)))"
    using Release by (auto simp: release_session_def Let_def split: option.splits) (metis snd_conv)
  then show ?thesis using p w remove_ok[OF p] remove_fewer[OF p] unfolding within_caps_def by (meson le_trans)
next
  case (Count now)
  then show ?thesis using prune_effect(1)[OF assms(2), of now] prune_fewer[OF assms(2)] assms(4)
    unfolding within_caps_def by (meson le_trans)
qed

text \<open>Every run from an empty tracker keeps the invariant and the caps.\<close>

lemma pc_steps_ok:
  assumes "(pc_step ttl cap pcap)\<^sup>*\<^sup>* s s'" "pc_ok s" "0 < pcap" "within_caps cap pcap s"
  shows "pc_ok s' \<and> within_caps cap pcap s'"
  using assms(1)
proof (induction rule: rtranclp_induct)
  case base
  then show ?case using assms by simp
next
  case (step y z)
  then show ?case using pc_step_ok[of ttl cap pcap y z] assms(3) by blast
qed

lemma empty_within_caps: "within_caps cap pcap empty_tracker"
  by (simp add: within_caps_def empty_tracker_def did_queue_def)

lemma issued_by_empty: "live now empty_tracker = {}" "live_of now empty_tracker did = {}"
  by (simp_all add: live_def live_of_def empty_tracker_def)


lemma issue_run:
  "(pc_step ttl cap pcap)\<^sup>*\<^sup>* s (snd (try_issue ttl cap now did pcap s))"
  using pc_step.Issue[of ttl cap now did pcap s] by (metis prod.collapse r_into_rtranclp)


lemma seed_rows_ok: "pc_ok (snd acc) \<Longrightarrow> pc_ok (snd (seed_rows ttl ne now rows acc))"
proof (induction rows arbitrary: acc)
  case Nil
  then show ?case by (cases acc) simp
next
  case (Cons r rows)
  obtain n s where a: "acc = (n, s)" by force
  obtain k v where r: "r = (k, v)" by force
  have i: "pc_ok (snd (insert_entry d t (Some x) s))" if "pc_by_session s x = None" for d t x
    using insert_ok[of s "Some x"] Cons.prems that by (simp add: a)
  show ?case using Cons.IH[of "(n, s)"] Cons.IH[of "(n + 1, t)" for t] Cons.prems i
    by (simp add: a r Let_def split: session_row.splits)
qed

text \<open>Seeding at boot ignores the caps, but keeps the indexes in step.\<close>

lemma seed_ok: "pc_ok s \<Longrightarrow> pc_ok (snd (seed_from_sessions ttl ne now rows s))"
  by (simp add: seed_from_sessions_def seed_rows_ok)

section \<open>When to retry\<close>

lemma secs_until_bounds:
  assumes "now < x"
  shows "x \<le> now + secs_until x now * NANOS" "now + (secs_until x now - 1) * NANOS < x"
proof -
  define d where "d = x - now"
  have x: "x = now + d" "0 < d" using assms by (simp_all add: d_def)
  have e: "d = d div NANOS * NANOS + d mod NANOS" by simp
  have l: "d mod NANOS < NANOS" by (simp add: NANOS_def)
  have s: "secs_until x now = d div NANOS + (if 0 < d mod NANOS then 1 else 0)"
    using x(2) e by (cases "d mod NANOS = 0") (auto simp: secs_until_def Let_def d_def[symmetric] max_def)
  have u: "d \<le> d div NANOS * NANOS + (if 0 < d mod NANOS then NANOS else 0)" 
  proof (cases "d mod NANOS = 0")
    case True
    then show ?thesis using e by simp
  next
    case False
    have "d \<le> d div NANOS * NANOS + NANOS" using e l by linarith
    then show ?thesis using False by simp
  qed
  show "x \<le> now + secs_until x now * NANOS" unfolding s using u x(1) by (cases "d mod NANOS = 0") (simp_all add: distrib_right)
  show "now + (secs_until x now - 1) * NANOS < x"
  proof (cases "d mod NANOS = 0")
    case True
    then obtain k where k: "d div NANOS = Suc k" using e x(2) by (cases "d div NANOS") auto
    have "d = Suc k * NANOS" using e True k by simp
    then show ?thesis unfolding s using x(1) True k l by (simp add: NANOS_def)
  next
    case False
    then have "d div NANOS * NANOS < d" using e by linarith
    then show ?thesis unfolding s using x(1) False by simp
  qed
qed

lemma same_expiry: "pc_ok s \<Longrightarrow> (x, i) \<in> set (pc_expiry s) \<Longrightarrow> (y, i) \<in> set (pc_expiry s) \<Longrightarrow> x = y"
  using pc_okD(3)[of s] by (metis distinct_map inj_onD prod.inject snd_conv)

lemma live_antimono: "now \<le> now' \<Longrightarrow> live now' s \<subseteq> live now s" "now \<le> now' \<Longrightarrow> live_of now' s did \<subseteq> live_of now s did"
  unfolding live_def live_of_def by (auto intro: le_less_trans)

lemma live_iff:
  assumes "pc_ok s" "(x, i) \<in> set (pc_expiry s)" "i \<in> live now s"
  shows "i \<in> live now' s \<longleftrightarrow> now' < x" "now < x"
  using assms same_expiry[OF assms(1,2)] unfolding live_def by blast+

text \<open>A queue that covers a set of live challenges in expiry order and starts with one of them.\<close>

lemma head_expiry:
  assumes "pc_ok s" "q = (x, i) # r" "set q \<subseteq> set (pc_expiry s)" "sorted (map fst q)"
    "i \<in> C" "C \<subseteq> live now s" "C \<subseteq> snd ` set q"
  shows "now + retry_after q now * NANOS \<le> now' \<Longrightarrow> i \<notin> live now' s"
    "now' \<le> now + (retry_after q now - 1) * NANOS \<Longrightarrow> C \<subseteq> live now' s"
proof -
  have m: "(x, i) \<in> set (pc_expiry s)" using assms(2,3) by auto
  have x: "now < x" using live_iff[OF assms(1) m] assms(5,6) by blast
  have ra: "retry_after q now = secs_until x now" by (simp add: retry_after_def assms(2))
  show "i \<notin> live now' s" if "now + retry_after q now * NANOS \<le> now'"
    using secs_until_bounds(1)[OF x] that live_iff(1)[OF assms(1) m] assms(5,6) unfolding ra by fastforce
  show "C \<subseteq> live now' s" if n: "now' \<le> now + (retry_after q now - 1) * NANOS"
  proof (intro subsetI)
    fix j assume j: "j \<in> C"
    then obtain y where y: "(y, j) \<in> set q" using assms(7) by force
    have "x \<le> y" using y assms(2,4) by auto
    then have "now' < y" using secs_until_bounds(2)[OF x] n unfolding ra by linarith
    moreover have "(y, j) \<in> set (pc_expiry s)" using y assms(3) by blast
    ultimately show "j \<in> live now' s" using live_iff(1)[OF assms(1)] j assms(6) by blast
  qed
qed

lemma live_pruned:
  assumes "pc_ok s" "now \<le> now'"
  shows "live now' (prune now s) = live now' s" "live_of now' (prune now s) did = live_of now' s did"
proof -
  note p = prune_effect[OF assms(1), of now]
  have sub: "set (pc_expiry (prune now s)) \<subseteq> set (pc_expiry s)" using p(4) by (metis Un_upper2 set_append)
  have "i \<in> live now' (prune now s) \<longleftrightarrow> i \<in> live now' s" for i
  proof
    assume "i \<in> live now' (prune now s)"
    then show "i \<in> live now' s" using sub unfolding live_def by (auto simp: p(3) split: if_splits)
  next
    assume i: "i \<in> live now' s"
    then obtain x where x: "(x, i) \<in> set (pc_expiry s)" "now' < x" unfolding live_def by blast
    have "i \<in> live now s" using live_antimono(1)[OF assms(2)] i by blast
    then obtain e where e: "map_of (pc_entries (prune now s)) i = Some e" using i unfolding p(3) live_def by auto
    from pc_okD(4)[OF p(1) e] obtain y where y: "(y, i) \<in> set (pc_expiry (prune now s))" ..
    then have "y = x" using same_expiry[OF assms(1)] x(1) sub by blast
    then show "i \<in> live now' (prune now s)" using e y x(2) unfolding live_def by blast
  qed
  then show l: "live now' (prune now s) = live now' s" by blast
  show "live_of now' (prune now s) did = live_of now' s did"
    unfolding live_of_def l using live_antimono(1)[OF assms(2), of s] by (auto simp: p(3))
qed

lemma pruned_front:
  assumes "pc_ok s" "live now s \<noteq> {}"
  obtains x i r where "pc_expiry (prune now s) = (x, i) # r" "i \<in> live now s"
proof (cases "pc_expiry (prune now s)")
  case Nil
  obtain i where i: "i \<in> live now s" using assms(2) by blast
  then have "i \<in> live now (prune now s)" using live_pruned(1)[OF assms(1) order_refl] by simp
  then show ?thesis using Nil by (simp add: live_def)
next
  case (Cons p r)
  then show ?thesis using that prune_effect(5)[OF assms(1)] by (cases p) auto
qed

text \<open>A DID's queue after pruning holds its live challenges.\<close>

lemma pruned_did_queue:
  assumes "pc_ok s"
  shows "set (did_queue (prune now s) did) \<subseteq> set (pc_expiry (prune now s))"
    "sorted (map fst (did_queue (prune now s) did))" "snd ` set (did_queue (prune now s) did) = live_of now s did"
proof -
  note p = prune_effect[OF assms, of now]
  have q: "did_queue (prune now s) did = filter (holds_for (prune now s) did) (pc_expiry (prune now s))"
    by (rule pc_ok_queue[OF p(1)])
  show "set (did_queue (prune now s) did) \<subseteq> set (pc_expiry (prune now s))" unfolding q by auto
  show "sorted (map fst (did_queue (prune now s) did))" unfolding q by (rule sorted_filter[OF pc_okD(2)[OF p(1)]])
  show "snd ` set (did_queue (prune now s) did) = live_of now s did"
  proof (intro equalityI subsetI)
    fix i assume "i \<in> live_of now s did"
    then obtain e where e: "map_of (pc_entries (prune now s)) i = Some e" "pe_did e = did"
      unfolding live_of_def by (auto simp: p(3))
    then obtain x where "(x, i) \<in> set (pc_expiry (prune now s))" using pc_okD(4)[OF p(1)] by blast
    then show "i \<in> snd ` set (did_queue (prune now s) did)" using e unfolding q by (force simp: holds_for_def)
  qed (auto simp: q holds_for_def p(3) live_of_def split: option.splits if_splits)
qed

text \<open>What a refusal carries: the queue it was computed from covers the challenges that fill the cap.\<close>

lemma refusal_queue:
  assumes "pc_ok s" "0 < cap" "try_issue ttl cap now did pcap s = (Inl (RateLimited n), s')"
  obtains q x i r C where "n = retry_after q now" "s' = prune now s" "q = (x, i) # r" "set q \<subseteq> set (pc_expiry s')"
    "sorted (map fst q)" "i \<in> C" "C \<subseteq> snd ` set q"
    "cap \<le> card (live now s) \<and> C = live now s
     \<or> card (live now s) < cap \<and> 0 < card (live_of now s did) \<and> pcap \<le> card (live_of now s did) \<and> C = live_of now s did"
proof (cases "cap \<le> card (live now s)")
  case True
  then have ne: "live now s \<noteq> {}" using assms(2) by auto
  obtain x i r where f: "pc_expiry (prune now s) = (x, i) # r" "i \<in> live now s" using pruned_front[OF assms(1) ne] .
  have e: "n = retry_after (pc_expiry (prune now s)) now" "s' = prune now s"
    using assms(3) True unfolding try_issue_eq[OF assms(1)] by auto
  have "live now s \<subseteq> snd ` set (pc_expiry (prune now s))"
    unfolding live_pruned(1)[OF assms(1) order_refl, symmetric] by (force simp: live_def)
  then show ?thesis using that[of "pc_expiry (prune now s)" x i r "live now s"] f e True
      pc_okD(2)[OF prune_effect(1)[OF assms(1), of now]] by blast
next
  case False
  let ?q = "did_queue (prune now s) did"
  have e: "0 < card (live_of now s did)" "pcap \<le> card (live_of now s did)" "n = retry_after ?q now" "s' = prune now s"
    using assms(3) False unfolding try_issue_eq[OF assms(1)] by (auto split: if_splits)
  have "?q \<noteq> []" using e(1) pruned_did_queue(3)[OF assms(1), of now did] by auto
  then obtain x i r where q: "?q = (x, i) # r" by (metis list.exhaust prod.exhaust)
  have "i \<in> live_of now s did" using pruned_did_queue(3)[OF assms(1), of now did] q by force
  then show ?thesis using that[of ?q x i r "live_of now s did"] q e False pruned_did_queue[OF assms(1), of now did] by auto
qed

text \<open>The wait a refusal announces is the time until the oldest challenge that fills the cap
  expires, to the second: tried again more than a second earlier, with nothing released, the same
  request is refused again; and once the wait is over a refusal by the global cap has a free slot under
  that cap, and a refusal by the DID's own cap is followed by an accepted request.\<close>

theorem challenge_retry:
  assumes "(pc_step ttl cap pcap)\<^sup>*\<^sup>* empty_tracker s" "0 < cap" "0 < pcap"
    "try_issue ttl cap now did pcap s = (Inl (RateLimited n), s')" "now \<le> now'"
  shows "(now' \<le> now + (n - 1) * NANOS \<longrightarrow> (\<exists>m. fst (try_issue ttl cap now' did pcap s') = Inl (RateLimited m)))
    \<and> (now + n * NANOS \<le> now' \<longrightarrow> card (live now' s') < cap
         \<and> (card (live now s) < cap \<longrightarrow> (\<exists>i. fst (try_issue ttl cap now' did pcap s') = Inr i)))"
proof -
  have ok: "pc_ok s" and w: "within_caps cap pcap s"
    using pc_steps_ok[OF assms(1) empty_tracker_ok assms(3) empty_within_caps] by blast+
  note p = prune_effect(1)[OF ok, of now] and c = pruned_counts[OF ok, of now]
  have u: "card (live now s) \<le> cap" "card (live_of now s did) \<le> pcap"
    using w prune_fewer[OF ok, of now] c c(2)[of did] unfolding within_caps_def by (metis le_trans)+
  obtain q x i r C where q: "n = retry_after q now" "s' = prune now s" "q = (x, i) # r" "set q \<subseteq> set (pc_expiry s')"
      "sorted (map fst q)" "i \<in> C" "C \<subseteq> snd ` set q"
      and C: "cap \<le> card (live now s) \<and> C = live now s
       \<or> card (live now s) < cap \<and> 0 < card (live_of now s did) \<and> pcap \<le> card (live_of now s did) \<and> C = live_of now s did"
    by (rule refusal_queue[OF ok assms(2,4)])
  have l: "live t s' = live t s" "live_of t s' did = live_of t s did" if "now \<le> t" for t
    using live_pruned[OF ok that] q(2) by simp_all
  have sub: "C \<subseteq> live now s'" using C unfolding l(1)[OF order_refl] live_of_def by auto
  note h = head_expiry[OF p[folded q(2)] q(3,4,5,6) sub q(7), of now', folded q(1)]
  have m: "live now' s' \<subseteq> live now s" "live_of now' s' did \<subseteq> live_of now s did"
    unfolding l[OF assms(5)] by (rule live_antimono[OF assms(5)])+
  have f: "finite (live_of t s did)" for t unfolding live_of_def using live_finite[of t s] by simp
  note eq = try_issue_eq[OF p[folded q(2)]]
  have a: "\<exists>m. fst (try_issue ttl cap now' did pcap s') = Inl (RateLimited m)" if n: "now' \<le> now + (n - 1) * NANOS"
  proof -
    have k: "C \<subseteq> live now' s'" by (rule h(2)[OF n])
    from C show ?thesis
    proof
      assume d: "cap \<le> card (live now s) \<and> C = live now s"
      then have "live now' s' = live now s" using k m(1) by blast
      then show ?thesis using d by (simp add: eq)
    next
      assume d: "card (live now s) < cap \<and> 0 < card (live_of now s did) \<and> pcap \<le> card (live_of now s did) \<and> C = live_of now s did"
      have "C \<subseteq> live_of now' s' did" 
        unfolding l(2)[OF assms(5)] using k[unfolded l(1)[OF assms(5)]] d by (auto simp: live_of_def)
      then have "live_of now' s' did = live_of now s did" using d m(2) by blast
      then show ?thesis using d by (auto simp: eq)
    qed
  qed
  have b: "card (live now' s') < cap \<and> (card (live now s) < cap \<longrightarrow> (\<exists>i. fst (try_issue ttl cap now' did pcap s') = Inr i))"
    if n: "now + n * NANOS \<le> now'"
  proof -
    have k: "i \<notin> live now' s'" by (rule h(1)[OF n])
    have "i \<in> live now s" using q(6) sub l(1)[OF order_refl] by blast
    then have "live now' s' \<subset> live now s" using k m(1) by blast
    then have g: "card (live now' s') < cap" using psubset_card_mono[OF live_finite] u(1) by (meson less_le_trans)
    have "\<exists>i. fst (try_issue ttl cap now' did pcap s') = Inr i" if lt: "card (live now s) < cap"
    proof -
      have "i \<in> live_of now s did" using C q(6) lt by auto
      moreover have "i \<notin> live_of now' s' did" using k by (simp add: live_of_def)
      ultimately have "live_of now' s' did \<subset> live_of now s did" using m(2) by blast
      then have "card (live_of now' s' did) < pcap" using psubset_card_mono[OF f] u(2) by (meson less_le_trans)
      then show ?thesis using g by (auto simp: eq)
    qed
    then show ?thesis using g by blast
  qed
  show ?thesis using a b by blast
qed

text \<open>A DID at its cap of one, whose challenge expires 2.5 s later: refused with a wait of 3 s.\<close>

definition at_cap :: tracker where
  "at_cap = snd (try_issue 2500000000 2 0 ''a'' 1 empty_tracker)"

lemma at_cap_refuses: "try_issue 2500000000 2 7 ''a'' 1 at_cap = (Inl (RateLimited 3), at_cap)"
  by (simp add: at_cap_def empty_tracker_def try_issue_def prune_def insert_entry_def Let_def did_queue_def
      retry_after_def secs_until_def NANOS_def)

theorem challenge_retry_witness:
  "(\<exists>m. fst (try_issue 2500000000 2 2000000007 ''a'' 1 at_cap) = Inl (RateLimited m))
    \<and> card (live 3000000007 at_cap) < 2"
proof -
  note r = challenge_retry[OF issue_run[of 2500000000 2 1 empty_tracker 0 "''a''", folded at_cap_def] _ _ at_cap_refuses]
  have "\<exists>m. fst (try_issue 2500000000 2 2000000007 ''a'' 1 at_cap) = Inl (RateLimited m)"
    using r[of 2000000007] by (simp add: NANOS_def)
  moreover have "card (live 3000000007 at_cap) < 2" using r[of 3000000007] by (simp add: NANOS_def)
  ultimately show ?thesis by blast
qed

section \<open>The expiry queue is not bounded by the cap\<close>

text \<open>Released challenges leave the live set at once but stay in the expiry queue until the front of the
  queue expires: under a global cap of two, issuing and releasing a second challenge five times behind
  one live challenge leaves six members in the queue.\<close>

fun issue_release :: "nat \<Rightarrow> tracker \<Rightarrow> tracker" where
  "issue_release 0 s = s"
| "issue_release (Suc n) s = issue_release n
     (snd (release_session 1 ''s'' (snd (issue_challenge 300 2 1 1 (\<lambda>_. Inr ''s'') ''b'' s))))"

lemma expiry_queue_outgrows_cap:
  "length (pc_expiry (issue_release 5 (snd (try_issue 300 2 0 ''a'' 1 empty_tracker)))) = 6"
  by code_simp

end
