(* ===== verification/ContentCache.thy ===== *)
theory ContentCache
  imports KvStore
begin

text \<open>
  The in-memory cache of resolved content (did-hosting-server/src/cache.rs): entries with the instant
  of their insertion, readable until they are a time-to-live old. Instants are counted in
  nanoseconds; a poisoned lock is not modelled. The locale states what the cache's clients rely on.
\<close>

record cached =
  ca_data :: string
  ca_inserted_at :: nat

type_synonym content_entries = "cached ks"

definition cache_get :: "nat \<Rightarrow> nat \<Rightarrow> content_entries \<Rightarrow> string \<Rightarrow> string option" where
  "cache_get ttl now c k = (case ks_get c k of
     None \<Rightarrow> None
   | Some e \<Rightarrow> if now - ca_inserted_at e < ttl then Some (ca_data e) else None)"

definition cache_insert :: "nat \<Rightarrow> string \<Rightarrow> string \<Rightarrow> content_entries \<Rightarrow> content_entries" where
  "cache_insert now k d c = ks_put k \<lparr>ca_data = d, ca_inserted_at = now\<rparr> c"

definition cache_invalidate :: "string \<Rightarrow> content_entries \<Rightarrow> content_entries" where
  "cache_invalidate k c = ks_del k c"

definition cache_clear :: "content_entries \<Rightarrow> content_entries" where
  "cache_clear c = []"

definition evict_expired :: "nat \<Rightarrow> nat \<Rightarrow> content_entries \<Rightarrow> content_entries" where
  "evict_expired ttl now c = filter (\<lambda>(k, e). now - ca_inserted_at e < ttl) c"

section \<open>The interface\<close>

text \<open>A cache may forget at any time, but what it returns was inserted under that key since the key
  was last dropped. The client says what a key may hold (backed).\<close>

locale cache =
  fixes lookup :: "nat \<Rightarrow> 'c \<Rightarrow> string \<Rightarrow> string option"
    and insert :: "nat \<Rightarrow> string \<Rightarrow> string \<Rightarrow> 'c \<Rightarrow> 'c"
    and drop :: "string \<Rightarrow> 'c \<Rightarrow> 'c"
    and clear :: "'c \<Rightarrow> 'c"
  assumes lookup_insert: "lookup t (insert now k d c) j = Some b \<Longrightarrow> if j = k then b = d else lookup t c j = Some b"
    and lookup_drop: "lookup t (drop k c) j = (if j = k then None else lookup t c j)"
    and lookup_clear: "lookup t (clear c) j = None"
begin

definition backed :: "(string \<Rightarrow> string \<Rightarrow> bool) \<Rightarrow> 'c \<Rightarrow> bool" where
  "backed P c \<longleftrightarrow> (\<forall>t k b. lookup t c k = Some b \<longrightarrow> P k b)"

lemma backedD: "backed P c \<Longrightarrow> lookup t c k = Some b \<Longrightarrow> P k b"
  by (simp add: backed_def)

lemma backed_insert: "backed P c \<Longrightarrow> P k d \<Longrightarrow> backed P (insert now k d c)"
  unfolding backed_def by (metis lookup_insert)

text \<open>After dropping a key the client may change what that key stands for.\<close>

lemma backed_drop: "backed P c \<Longrightarrow> (\<forall>j b. j \<noteq> k \<longrightarrow> P j b \<longrightarrow> Q j b) \<Longrightarrow> backed Q (drop k c)"
  by (auto simp: backed_def lookup_drop split: if_splits)

lemma backed_clear: "backed P (clear c)"
  by (simp add: backed_def lookup_clear)

text \<open>A cache that answers nothing the other would not.\<close>

definition forgets :: "'c \<Rightarrow> 'c \<Rightarrow> bool" where
  "forgets c' c \<longleftrightarrow> (\<forall>t k b. lookup t c' k = Some b \<longrightarrow> lookup t c k = Some b)"

lemma forgets_refl [simp]: "forgets c c"
  by (simp add: forgets_def)

lemma forgets_drop [simp]: "forgets (drop k c) c"
  by (simp add: forgets_def lookup_drop)

lemma forgets_clear [simp]: "forgets (clear c) c'"
  by (simp add: forgets_def lookup_clear)

lemma forgets_trans: "forgets a b \<Longrightarrow> forgets b c \<Longrightarrow> forgets a c"
  by (simp add: forgets_def)

lemma backed_forgets: "backed P c \<Longrightarrow> forgets c' c \<Longrightarrow> backed P c'"
  unfolding backed_def forgets_def by blast

lemma backed_mono: "backed P c \<Longrightarrow> (\<forall>k b. P k b \<longrightarrow> Q k b) \<Longrightarrow> backed Q c"
  by (auto simp: backed_def)

end

interpretation content: cache "cache_get ttl" cache_insert cache_invalidate cache_clear for ttl
  by unfold_locales (auto simp: cache_get_def cache_insert_def cache_invalidate_def cache_clear_def ks_simps
      split: option.splits if_splits)

text \<open>Eviction changes no lookup that is made later.\<close>

lemma evict_lookup:
  assumes "ks_ok c" "now \<le> t"
  shows "cache_get ttl t (evict_expired ttl now c) k = cache_get ttl t c k"
proof -
  have d: "distinct (map fst c)" using assms(1) by (rule ks_ok_distinct)
  then have "map_of (filter (\<lambda>(k, e). now - ca_inserted_at e < ttl) c) k
    = (case map_of c k of Some e \<Rightarrow> if now - ca_inserted_at e < ttl then Some e else None | None \<Rightarrow> None)"
  proof (induction c)
    case (Cons r c)
    obtain j e where r: "r = (j, e)" by force
    have n: "map_of c j = None" using Cons.prems r by (simp add: map_of_eq_None_iff)
    show ?case using Cons.IH Cons.prems n by (auto simp: r)
  qed simp
  then show ?thesis using assms(2)
    by (auto simp: cache_get_def evict_expired_def ks_get_def split: option.splits)
qed

end
