(* ===== verification/Edge.thy ===== *)
theory Edge
  imports DidProps ContentCache
begin

text \<open>
  The read-only hosting server (edge): the slots it replicates from its control plane
  (did-hosting-server/src/control_register.rs), the sync operations on them
  (did-hosting-server/src/messaging.rs), the periodic cleanup (did_ops.rs), the purge of a
  domain's slots (did-hosting-common/src/server/domain_purge.rs) and the repairs of a reconcile
  (replication.rs). An operation runs after its document was verified as the control plane's, under
  the sync lock, so that it is one step. The high-water rows hw:id: and hw:slot: of the dids
  keyspace are two fields of the state; their keys meet no other.
\<close>

section \<open>State\<close>

record assignment =
  as_domain :: string
  as_assigned_at :: nat
  as_assigner :: string

record slot_mark =
  sm_identity :: string
  sm_did_id :: string
  sm_method :: string

record edge_state =
  es_rows :: did_rows
  es_hw_ids :: "string ks"
  es_hw_slots :: "slot_mark ks"
  es_cache :: content_entries
  es_assignments :: "assignment ks"
  es_store :: domain_store

text \<open>ee_did gives the library parameters and the configured public URL; ee_url_host is the host and
  port of a URL, as the url crate reads it.\<close>

record ('e, 'p, 'k) edge_env =
  ee_did :: "('e, 'p, 'k) did_env"
  ee_url_host :: "string \<Rightarrow> (string option \<times> nat option) option"
  ee_grace :: string

record sync_update =
  su_mnemonic :: string
  su_did_id :: string
  su_log :: string
  su_witness :: "string option"
  su_version_count :: nat
  su_disabled :: bool

text \<open>The messages of the validation errors, as far as sync_refusal tells them apart.\<close>

datatype sync_fault = NotBound | NotVerified | MethodChanged | NotExtended | PastDeactivation

datatype edge_error = Fault sync_fault | Other app_error

datatype sync_applied = Applied | Unchanged

abbreviation ee_lib :: "('e, 'p, 'k) edge_env \<Rightarrow> ('e, 'p, 'k) log_lib" where
  "ee_lib env \<equiv> de_lib (ee_did env)"

abbreviation ee_webs :: "('e, 'p, 'k) edge_env \<Rightarrow> webs_parser" where
  "ee_webs env \<equiv> de_webs (ee_did env)"

abbreviation ee_parse_host :: "('e, 'p, 'k) edge_env \<Rightarrow> host_parser" where
  "ee_parse_host env \<equiv> de_parse_host (ee_did env)"

definition lift_err :: "'a res \<Rightarrow> edge_error + 'a" where
  "lift_err r = (case r of Inl e \<Rightarrow> Inl (Other e) | Inr x \<Rightarrow> Inr x)"

lemma lift_err_simps [simp]: "lift_err (Inl e) = Inl (Other e)" "lift_err (Inr x) = Inr x"
  by (simp_all add: lift_err_def)

section \<open>Verifying an update (control_register.rs)\<close>

definition assignment_key :: "string \<Rightarrow> string" where
  "assignment_key d = ''assignments:'' @ d"

definition assignments :: "edge_state \<Rightarrow> assignment list" where
  "assignments st = map snd (ks_scan ''assignments:'' (es_assignments st))"

text \<open>The hosts the server serves: its public URL and, per assignment, the host of the domain and
  the domain.\<close>

definition served_bases :: "('e, 'p, 'k) edge_env \<Rightarrow> edge_state \<Rightarrow> string list" where
  "served_bases env st =
    (case de_public_url (ee_did env) of Some u \<Rightarrow> [u] | None \<Rightarrow> [])
    @ concat (map (\<lambda>a. [''https://'' @ hd (split_on (CHR ''/'') (as_domain a)), ''https://'' @ as_domain a])
        (assignments st))"

definition base_authority :: "('e, 'p, 'k) edge_env \<Rightarrow> string \<Rightarrow> string option" where
  "base_authority env base = (case ee_url_host env base of
     None \<Rightarrow> None
   | Some (h, p) \<Rightarrow>
       let h' = (case h of Some x \<Rightarrow> x | None \<Rightarrow> [])
       in Some (case p of Some n \<Rightarrow> h' @ '':'' @ show_nat n | None \<Rightarrow> h'))"

definition verify_binding ::
  "('e, 'p, 'k) edge_env \<Rightarrow> edge_state \<Rightarrow> sync_update \<Rightarrow> did_method \<Rightarrow> edge_error + unit" where
  "verify_binding env st u m =
    (if m = Webvh \<and> extract_did_id (ee_lib env) (su_log u) \<noteq> Some (su_did_id u) then Inl (Fault NotBound)
     else let bases = served_bases env st
     in if bases = [] then Inl (Fault NotBound)
        else if (case m of
              Webvh \<Rightarrow> list_ex (did_id_matches_request (ee_did env) (su_did_id u) (su_mnemonic u)) bases
            | _ \<Rightarrow> suffix ('':'' @ replace_char (CHR ''/'') (CHR '':'') (su_mnemonic u)) (su_did_id u)
                \<and> list_ex (\<lambda>b. base_authority env b = Some (host_of_did (ee_did env) (Some (su_did_id u)))) bases)
        then Inr () else Inl (Fault NotBound))"

definition webvh_scid :: "string \<Rightarrow> string option" where
  "webvh_scid did = (case strip_prefix_str ''did:webvh:'' did of
     None \<Rightarrow> None
   | Some rest \<Rightarrow> let s = hd (split_on (CHR '':'') rest) in if s = [] then None else Some s)"

text \<open>Why a log does not extend an earlier one (verify_log_extends, with its message).\<close>

definition extends_fault :: "(string \<Rightarrow> json option) \<Rightarrow> string \<Rightarrow> string \<Rightarrow> sync_fault option" where
  "extends_fault parse previous new_log =
    (if verify_log_extends parse (Some previous) new_log then None
     else let old = log_entries previous; fresh = log_entries new_log
     in if length fresh < length old \<or> take (length old) fresh \<noteq> old then Some NotExtended
        else Some PastDeactivation)"

definition history_fault ::
  "('e, 'p, 'k) edge_env \<Rightarrow> did_method \<Rightarrow> string \<Rightarrow> string \<Rightarrow> string \<Rightarrow> sync_fault option" where
  "history_fault env m did previous new_log = (case m of
     Webvh \<Rightarrow> extends_fault (json_parse (ee_lib env)) previous new_log
   | _ \<Rightarrow> if ee_webs env = None then Some NotVerified
       else (case webs_verify_continuation (ee_lib env) did previous new_log of
          Inl _ \<Rightarrow> Some NotVerified | Inr _ \<Rightarrow> None))"

definition did_identity :: "did_method \<Rightarrow> string \<Rightarrow> string option" where
  "did_identity m did = (case m of Webvh \<Rightarrow> webvh_scid did | _ \<Rightarrow> Some did)"

text \<open>The identity of the DID a record holds, read under the method of the update.\<close>

definition held_identity :: "did_method \<Rightarrow> did_record option \<Rightarrow> string option" where
  "held_identity m r = map_option (\<lambda>d. case did_identity m d of Some i \<Rightarrow> i | None \<Rightarrow> [])
     (Option.bind r dr_did_id)"

definition verify_history ::
  "('e, 'p, 'k) edge_env \<Rightarrow> edge_state \<Rightarrow> string \<Rightarrow> string \<Rightarrow> string \<Rightarrow> did_method \<Rightarrow> edge_error + string" where
  "verify_history env st mnemonic did log m =
    (let held = map_option utf8_lossy (get_raw (es_rows st) (content_log_key mnemonic));
         slot_mark = ks_get (es_hw_slots st) mnemonic
     in and_then (lift_err (get_record (es_rows st) (did_key mnemonic))) (\<lambda>held_record.
        if (case held_record of Some r \<Rightarrow> dr_method r \<noteq> method_name m | None \<Rightarrow> False)
           \<or> (case slot_mark of Some k \<Rightarrow> sm_method k \<noteq> method_name m | None \<Rightarrow> False)
        then Inl (Fault MethodChanged)
        else (case did_identity m did of
          None \<Rightarrow> Inl (Fault NotVerified)
        | Some i \<Rightarrow>
            let high_water = map_option utf8_lossy (ks_get (es_hw_ids st) i);
                same_did_held = (if held_identity m held_record = Some i then held else None)
            in (case List.map_filter (\<lambda>p. Option.bind p (\<lambda>q. history_fault env m did q log)) [same_did_held, high_water] of
                 f # _ \<Rightarrow> Inl (Fault f)
               | [] \<Rightarrow> Inr i))))"

text \<open>What verification yields: the identity and, for did:webs, the derived document. A content that
  matches no method is treated as webvh; one of a method other than webvh is accepted as it is
  unless it is did:webs, when did:webs is compiled in.\<close>

definition verify_update ::
  "('e, 'p, 'k) edge_env \<Rightarrow> edge_state \<Rightarrow> sync_update \<Rightarrow> did_method \<Rightarrow> edge_error + (string \<times> json option)" where
  "verify_update env st u m =
    and_then (verify_binding env st u m) (\<lambda>_.
    and_then (case m of
        Webvh \<Rightarrow> if verify_did_log_and_witness_proofs (ee_lib env) (su_log u) (su_witness u)
                then Inr () else Inl (Fault NotVerified)
      | _ \<Rightarrow> if ee_webs env = None then Inl (Fault NotVerified) else Inr ()) (\<lambda>_.
    and_then (if m = Webs then
          (case webs_verify_artifacts (ee_lib env) (su_did_id u) (su_log u) of
             Inl _ \<Rightarrow> Inl (Fault NotVerified) | Inr doc \<Rightarrow> Inr (Some doc))
        else Inr None) (\<lambda>doc.
    and_then (verify_history env st (su_mnemonic u) (su_did_id u) (su_log u) m) (\<lambda>i. Inr (i, doc)))))"

section \<open>Applying an update (apply_single_update)\<close>

text \<open>The method the content is recorded under; content of no known method is tried as webvh.\<close>

definition synced_method :: "('e, 'p, 'k) edge_env \<Rightarrow> string \<Rightarrow> did_method" where
  "synced_method env log = (case detect_method (ee_webs env \<noteq> None) (ee_lib env) log of
     Some m \<Rightarrow> m | None \<Rightarrow> Webvh)"

definition previous_record :: "edge_state \<Rightarrow> string \<Rightarrow> did_record option" where
  "previous_record st m = (case get_record (es_rows st) (did_key m) of Inr r \<Rightarrow> r | Inl _ \<Rightarrow> None)"

definition already_held :: "edge_state \<Rightarrow> sync_update \<Rightarrow> bool" where
  "already_held st u \<longleftrightarrow> (case previous_record st (su_mnemonic u) of
     None \<Rightarrow> False
   | Some prev \<Rightarrow> dr_did_id prev = Some (su_did_id u) \<and> dr_disabled prev = su_disabled u
       \<and> get_raw (es_rows st) (content_log_key (su_mnemonic u)) = Some (su_log u)
       \<and> map_option utf8_lossy (get_raw (es_rows st) (content_witness_key (su_mnemonic u))) = su_witness u)"

text \<open>The current DID document: the one derived from the key events, or the state of the last log
  entry.\<close>

definition synced_document :: "('e, 'p, 'k) edge_env \<Rightarrow> sync_update \<Rightarrow> json option \<Rightarrow> json option" where
  "synced_document env u doc = (case doc of Some d \<Rightarrow> Some d | None \<Rightarrow> last_state (ee_lib env) (su_log u))"

definition synced_names :: "('e, 'p, 'k) edge_env \<Rightarrow> sync_update \<Rightarrow> json option \<Rightarrow> string list" where
  "synced_names env u doc = filter (\<lambda>n. is_ok (validate_agent_name_binding n (su_mnemonic u)))
     (case synced_document env u doc of
        Some d \<Rightarrow> agent_names_from_document (agent_parse (ee_lib env)) d
                   (host_of_did (ee_did env) (Some (su_did_id u)))
      | None \<Rightarrow> [])"

definition synced_record ::
  "('e, 'p, 'k) edge_env \<Rightarrow> nat \<Rightarrow> sync_update \<Rightarrow> did_method \<Rightarrow> json option \<Rightarrow> did_record" where
  "synced_record env now u m doc =
    \<lparr>dr_owner = ''system'', dr_mnemonic = su_mnemonic u, dr_created_at = now, dr_updated_at = now,
     dr_version_count = su_version_count u, dr_did_id = Some (su_did_id u),
     dr_content_size = length (su_log u), dr_disabled = su_disabled u, dr_deleted_at = None,
     dr_method = method_name m, dr_domain = host_of_did (ee_did env) (Some (su_did_id u)),
     dr_services = map_option service_types_from_doc (synced_document env u doc),
     dr_agent_names = map (\<lambda>n. \<lparr>an_name = n, an_enabled = True, an_created_at = now\<rparr>) (synced_names env u doc)\<rparr>"

text \<open>The batch: the record, the names retired and claimed, the log, the owner row and the witness
  proofs. Retired names are removed under the host of the new DID.\<close>

definition update_writes ::
  "('e, 'p, 'k) edge_env \<Rightarrow> edge_state \<Rightarrow> sync_update \<Rightarrow> did_record \<Rightarrow> did_row ks_write list" where
  "update_writes env st u r =
    (let m = su_mnemonic u; names = map an_name (dr_agent_names r);
         retired = (case previous_record st m of
             Some prev \<Rightarrow> filter (\<lambda>n. n \<notin> set names) (map an_name (dr_agent_names prev)) | None \<Rightarrow> [])
     in [Put (did_key m) (RecRow r)]
        @ del_keys (agent_name_key (dr_domain r)) retired
        @ put_raws (agent_name_key (dr_domain r)) m names
        @ [Put (content_log_key m) (RawRow (su_log u)), Put (owner_key ''system'' m) (RawRow m),
           (case su_witness u of Some w \<Rightarrow> Put (content_witness_key m) (RawRow w) | None \<Rightarrow> Del (content_witness_key m))])"

definition stage_high_water :: "string \<Rightarrow> sync_update \<Rightarrow> did_method \<Rightarrow> edge_state \<Rightarrow> edge_state" where
  "stage_high_water i u m st = st\<lparr>es_hw_ids := ks_put i (su_log u) (es_hw_ids st),
     es_hw_slots := ks_put (su_mnemonic u)
       \<lparr>sm_identity = i, sm_did_id = su_did_id u, sm_method = method_name m\<rparr> (es_hw_slots st)\<rparr>"

definition apply_single_update ::
  "('e, 'p, 'k) edge_env \<Rightarrow> nat \<Rightarrow> sync_update \<Rightarrow> edge_state \<Rightarrow> (edge_error + sync_applied) \<times> edge_state" where
  "apply_single_update env now u st =
    (let m = synced_method env (su_log u) in case verify_update env st u m of
       Inl e \<Rightarrow> (Inl e, st)
     | Inr (i, doc) \<Rightarrow>
         if already_held st u then (Inr Unchanged, st)
         else let r = synced_record env now u m doc;
                  st1 = stage_high_water i u m (st\<lparr>es_rows := ks_commit (update_writes env st u r) (es_rows st)\<rparr>)
              in (Inr Applied, st1\<lparr>es_cache := cache_invalidate (content_log_key (su_mnemonic u)) (es_cache st1)\<rparr>))"

section \<open>Sync operations (messaging.rs)\<close>

datatype sync_code = InvalidLogCode | HistoryRewrite | DeactivatedCode

datatype op_error = Refused | Declared sync_code | StalePurge | NonCanonicalName | Transient

text \<open>OpError::from(AppError): storage and internal failures are retried.\<close>

definition op_error_of :: "app_error \<Rightarrow> op_error" where
  "op_error_of e = (if e = Store \<or> e = Internal then Transient else Refused)"

definition sync_refusal :: "edge_error \<Rightarrow> op_error" where
  "sync_refusal e = (case e of
     Fault PastDeactivation \<Rightarrow> Declared DeactivatedCode
   | Fault NotExtended \<Rightarrow> Declared HistoryRewrite
   | Fault MethodChanged \<Rightarrow> Declared HistoryRewrite
   | Fault NotBound \<Rightarrow> Declared InvalidLogCode
   | Fault NotVerified \<Rightarrow> Declared InvalidLogCode
   | Other (Validation _) \<Rightarrow> Declared InvalidLogCode
   | Other a \<Rightarrow> op_error_of a)"

definition apply_sync_entry ::
  "('e, 'p, 'k) edge_env \<Rightarrow> nat \<Rightarrow> sync_update \<Rightarrow> edge_state \<Rightarrow> (op_error + sync_applied) \<times> edge_state" where
  "apply_sync_entry env now u st =
    (if length (nonblank_lines (su_log u)) \<noteq> su_version_count u then (Inl (Declared InvalidLogCode), st)
     else (case apply_single_update env now u st of
         (Inl e, st') \<Rightarrow> (Inl (sync_refusal e), st')
       | (Inr a, st') \<Rightarrow> (Inr a, st')))"

definition do_sync_update ::
  "('e, 'p, 'k) edge_env \<Rightarrow> nat \<Rightarrow> sync_update \<Rightarrow> edge_state \<Rightarrow> (op_error + string \<times> sync_applied) \<times> edge_state" where
  "do_sync_update env now u st = (case apply_sync_entry env now u st of
     (Inl e, st') \<Rightarrow> (Inl e, st') | (Inr a, st') \<Rightarrow> (Inr (su_mnemonic u, a), st'))"

text \<open>One outcome per entry, and whether one failed for now; the entries after it are still tried.\<close>

fun batch_entries ::
  "('e, 'p, 'k) edge_env \<Rightarrow> nat \<Rightarrow> sync_update list \<Rightarrow> edge_state
   \<Rightarrow> ((string \<times> (sync_code + sync_applied)) list \<times> bool) \<times> edge_state" where
  "batch_entries env now [] st = (([], False), st)"
| "batch_entries env now (u # us) st =
    (let (r, st1) = apply_sync_entry env now u st; ((outs, transient), st2) = batch_entries env now us st1
     in case r of
          Inr a \<Rightarrow> (((su_mnemonic u, Inr a) # outs, transient), st2)
        | Inl (Declared c) \<Rightarrow> (((su_mnemonic u, Inl c) # outs, transient), st2)
        | Inl Transient \<Rightarrow> ((outs, True), st2)
        | Inl _ \<Rightarrow> (((su_mnemonic u, Inl InvalidLogCode) # outs, transient), st2))"

definition do_sync_batch ::
  "('e, 'p, 'k) edge_env \<Rightarrow> nat \<Rightarrow> sync_update list \<Rightarrow> edge_state
   \<Rightarrow> (op_error + (string \<times> (sync_code + sync_applied)) list) \<times> edge_state" where
  "do_sync_batch env now us st = (case batch_entries env now us st of
     ((outs, transient), st') \<Rightarrow> (if transient then Inl Transient else Inr outs, st'))"

text \<open>Everything stored for a record's slot: what a delete and a domain purge remove.\<close>

definition slot_removal :: "('e, 'p, 'k) edge_env \<Rightarrow> string \<Rightarrow> did_record \<Rightarrow> did_row ks_write list" where
  "slot_removal env m r =
    [Del (did_key m), Del (content_log_key m), Del (content_witness_key m), Del (owner_key (dr_owner r) m),
     Del (watcher_sync_key m)]
    @ del_keys (agent_name_key (host_of_did (ee_did env) (dr_did_id r))) (map an_name (dr_agent_names r))"

definition do_sync_delete ::
  "('e, 'p, 'k) edge_env \<Rightarrow> string \<Rightarrow> edge_state \<Rightarrow> (op_error + bool) \<times> edge_state" where
  "do_sync_delete env m st = (case get_record (es_rows st) (did_key m) of
     Inl e \<Rightarrow> (Inl (op_error_of e), st)
   | Inr None \<Rightarrow> (Inr False, st)
   | Inr (Some r) \<Rightarrow> (Inr True, st\<lparr>es_rows := ks_commit (slot_removal env m r) (es_rows st),
       es_cache := cache_invalidate (content_log_key m) (es_cache st)\<rparr>))"

section \<open>Cleanup and purge\<close>

definition SOFT_DELETE_RETENTION :: nat where
  "SOFT_DELETE_RETENTION = 30 * 24 * 3600"

definition cleanup_due :: "nat \<Rightarrow> nat \<Rightarrow> did_record \<Rightarrow> bool" where
  "cleanup_due now ttl r \<longleftrightarrow> (dr_version_count r = 0 \<and> ttl < now - dr_created_at r)
     \<or> (case dr_deleted_at r of Some d \<Rightarrow> SOFT_DELETE_RETENTION < now - d | None \<Rightarrow> False)"

fun cleanup_rows :: "nat \<Rightarrow> nat \<Rightarrow> (string \<times> did_row) list \<Rightarrow> nat \<times> did_rows \<Rightarrow> nat \<times> did_rows" where
  "cleanup_rows now ttl [] acc = acc"
| "cleanup_rows now ttl ((k, v) # kvs) (n, rows) = (case v of
     RecRow r \<Rightarrow> if cleanup_due now ttl r
       then cleanup_rows now ttl kvs (n + 1, ks_commit [Del (did_key (dr_mnemonic r)),
              Del (content_log_key (dr_mnemonic r)), Del (content_witness_key (dr_mnemonic r)),
              Del (owner_key (dr_owner r) (dr_mnemonic r))] rows)
       else cleanup_rows now ttl kvs (n, rows)
   | RawRow _ \<Rightarrow> cleanup_rows now ttl kvs (n, rows))"

definition cleanup_empty_dids :: "nat \<Rightarrow> nat \<Rightarrow> did_rows \<Rightarrow> nat \<times> did_rows" where
  "cleanup_empty_dids now ttl rows = cleanup_rows now ttl (ks_scan ''did:'' rows) (0, rows)"

record purge_report =
  pr_deleted :: nat
  pr_skipped_no_domain :: nat
  pr_skipped_other_domain :: nat

fun purge_rows ::
  "('e, 'p, 'k) edge_env \<Rightarrow> string \<Rightarrow> (string \<times> did_row) list \<Rightarrow> purge_report \<times> did_rows \<Rightarrow> purge_report \<times> did_rows" where
  "purge_rows env target [] acc = acc"
| "purge_rows env target ((k, v) # kvs) (p, rows) = (case v of
     RawRow _ \<Rightarrow> purge_rows env target kvs (p, rows)
   | RecRow r \<Rightarrow>
       if dr_domain r = [] then purge_rows env target kvs (p\<lparr>pr_skipped_no_domain := pr_skipped_no_domain p + 1\<rparr>, rows)
       else if dr_domain r \<noteq> target
       then purge_rows env target kvs (p\<lparr>pr_skipped_other_domain := pr_skipped_other_domain p + 1\<rparr>, rows)
       else purge_rows env target kvs
         (p\<lparr>pr_deleted := pr_deleted p + 1\<rparr>, ks_commit (slot_removal env (dr_mnemonic r) r) rows))"

definition purge_domain_dids ::
  "('e, 'p, 'k) edge_env \<Rightarrow> string \<Rightarrow> did_rows \<Rightarrow> purge_report \<times> did_rows" where
  "purge_domain_dids env target rows = purge_rows env target (ks_scan ''did:'' rows)
     (\<lparr>pr_deleted = 0, pr_skipped_no_domain = 0, pr_skipped_other_domain = 0\<rparr>, rows)"

section \<open>Reconcile (replication.rs)\<close>

record listed =
  li_did_id :: "string option"
  li_version_count :: nat
  li_disabled :: bool

record reconcile_report =
  rr_repaired :: "string list"
  rr_behind :: "string list"
  rr_extra :: "string list"

definition is_clean :: "reconcile_report \<Rightarrow> bool" where
  "is_clean r \<longleftrightarrow> rr_behind r = [] \<and> rr_extra r = []"

definition held_records :: "edge_state \<Rightarrow> did_record list" where
  "held_records st = filter (\<lambda>r. 0 < dr_version_count r \<and> dr_deleted_at r = None)
     (List.map_filter (\<lambda>(k, v). case v of RecRow r \<Rightarrow> Some r | RawRow _ \<Rightarrow> None) (ks_scan ''did:'' (es_rows st)))"

fun repair_records ::
  "(string \<Rightarrow> listed option) \<Rightarrow> did_record list \<Rightarrow> reconcile_report \<times> edge_state \<Rightarrow> reconcile_report \<times> edge_state" where
  "repair_records want [] acc = acc"
| "repair_records want (r # rs) (rep, st) =
    (let m = dr_mnemonic r in case want m of
       None \<Rightarrow> repair_records want rs (rep\<lparr>rr_extra := rr_extra rep @ [m]\<rparr>, st)
     | Some w \<Rightarrow>
         if li_version_count w = 0 then repair_records want rs (rep\<lparr>rr_extra := rr_extra rep @ [m]\<rparr>, st)
         else let rep1 = (if li_did_id w \<noteq> dr_did_id r \<or> dr_version_count r < li_version_count w
                          then rep\<lparr>rr_behind := rr_behind rep @ [m]\<rparr> else rep)
         in if li_disabled w \<noteq> dr_disabled r
            then repair_records want rs (rep1\<lparr>rr_repaired := rr_repaired rep1 @ [m]\<rparr>,
              st\<lparr>es_rows := ks_put (did_key m) (RecRow (r\<lparr>dr_disabled := li_disabled w\<rparr>)) (es_rows st),
                 es_cache := cache_invalidate (content_log_key m) (es_cache st)\<rparr>)
            else repair_records want rs (rep1, st))"

text \<open>The listing is a hash map built from the pages; the report's lists are sorted.\<close>

definition sort_report :: "reconcile_report \<Rightarrow> reconcile_report" where
  "sort_report r = \<lparr>rr_repaired = sort (rr_repaired r), rr_behind = sort (rr_behind r), rr_extra = sort (rr_extra r)\<rparr>"

definition apply_listing :: "(string \<times> listed) list \<Rightarrow> edge_state \<Rightarrow> reconcile_report \<times> edge_state" where
  "apply_listing listing st =
    (let held = held_records st;
         missing = map fst (filter (\<lambda>(m, w). li_version_count w \<noteq> 0 \<and> m \<notin> dr_mnemonic ` set held) listing);
         (rep, st') = repair_records (map_of listing) held
           (\<lparr>rr_repaired = [], rr_behind = missing, rr_extra = []\<rparr>, st)
     in (sort_report rep, st'))"

section \<open>What an accepted update does\<close>

lemma list_ex_hd_split: "CHR '':'' \<notin> set (hd (split_on (CHR '':'') s))"
  by (induction s) (auto simp: split: list.splits if_splits)

lemma scid_no_colon: "webvh_scid d = Some i \<Longrightarrow> CHR '':'' \<notin> set i"
  using list_ex_hd_split by (auto simp: webvh_scid_def Let_def split: option.splits if_splits)

lemma update_gets:
  "ks_get (ks_commit (update_writes env st u r) rows) (did_key n)
    = (if n = su_mnemonic u then Some (RecRow r) else ks_get rows (did_key n))"
  "ks_get (ks_commit (update_writes env st u r) rows) (content_log_key n)
    = (if n = su_mnemonic u then Some (RawRow (su_log u)) else ks_get rows (content_log_key n))"
  "ks_get (ks_commit (update_writes env st u r) rows) (content_witness_key n)
    = (if n = su_mnemonic u then map_option RawRow (su_witness u) else ks_get rows (content_witness_key n))"
  by (auto simp: update_writes_def Let_def ks_commit_append get_put_raws get_del_keys ks_simps image_iff split: option.splits)

lemma apply_cases:
  assumes "apply_single_update env now u st = (r, st')"
  obtains "st' = st" "r \<noteq> Inr Applied"
  | i doc where "r = Inr Applied" "verify_update env st u (synced_method env (su_log u)) = Inr (i, doc)"
      "es_rows st' = ks_commit (update_writes env st u (synced_record env now u (synced_method env (su_log u)) doc)) (es_rows st)"
      "es_hw_ids st' = ks_put i (su_log u) (es_hw_ids st)"
  using assms unfolding apply_single_update_def Let_def stage_high_water_def
  by (auto split: sum.splits if_splits prod.splits)

lemma verify_updateD:
  assumes "verify_update env st u m = Inr (i, doc)"
  shows "verify_binding env st u m = Inr ()"
    "m = Webvh \<Longrightarrow> verify_did_log_and_witness_proofs (ee_lib env) (su_log u) (su_witness u)"
    "verify_history env st (su_mnemonic u) (su_did_id u) (su_log u) m = Inr i"
    "m = Webvh \<Longrightarrow> doc = None"
  using assms by (auto simp: verify_update_def res_simps split: if_splits did_method.splits sum.splits)

section \<open>What the edge holds\<close>

text \<open>A record and its content: as many entries and bytes as recorded; a did:webvh log establishes the
  DID of the record and verifies with the witness proofs stored beside it.\<close>

definition slot_good :: "('e, 'p, 'k) edge_env \<Rightarrow> did_record \<Rightarrow> string option \<Rightarrow> string option \<Rightarrow> bool" where
  "slot_good env r log w \<longleftrightarrow> (case log of
     None \<Rightarrow> False
   | Some b \<Rightarrow> utf8_text b \<and> dr_content_size r = length b \<and> dr_version_count r = length (nonblank_lines b)
       \<and> (dr_method r = ''webvh'' \<longrightarrow> (\<exists>d. dr_did_id r = Some d \<and> extract_did_id (ee_lib env) b = Some d)
            \<and> verify_did_log_and_witness_proofs (ee_lib env) b w))"

lemma slot_good_flag [simp]: "slot_good env (r\<lparr>dr_disabled := x\<rparr>) l w = slot_good env r l w"
  by (cases l) (simp_all add: slot_good_def)

abbreviation log_at :: "edge_state \<Rightarrow> string \<Rightarrow> string option" where
  "log_at st m \<equiv> get_raw (es_rows st) (content_log_key m)"

abbreviation proofs_at :: "edge_state \<Rightarrow> string \<Rightarrow> string option" where
  "proofs_at st m \<equiv> get_raw (es_rows st) (content_witness_key m)"

text \<open>The log b continues the log a: it keeps a's entries, and adds none once a deactivates the DID.\<close>

definition continues :: "('e, 'p, 'k) edge_env \<Rightarrow> string \<Rightarrow> string \<Rightarrow> bool" where
  "continues env a b \<longleftrightarrow> prefix (log_entries a) (log_entries b)
     \<and> (list_ex (line_deactivates (json_parse (ee_lib env))) (log_entries a) \<longrightarrow> log_entries b = log_entries a)"

lemma continues_refl [simp]: "continues env a a"
  by (simp add: continues_def)

lemma continues_trans: "continues env a b \<Longrightarrow> continues env b c \<Longrightarrow> continues env a c"
  unfolding continues_def using prefix_order.trans by metis

lemma extends_continues: "extends_fault (json_parse (ee_lib env)) a b = None \<Longrightarrow> continues env a b"
  using extends_step[of "json_parse (ee_lib env)" a b]
  by (auto simp: extends_fault_def continues_def Let_def split: if_splits)

text \<open>The slot m serves the did:webvh log b for the DID whose SCID is i.\<close>

definition serves :: "edge_state \<Rightarrow> string \<Rightarrow> string \<Rightarrow> string \<Rightarrow> bool" where
  "serves st m i b \<longleftrightarrow> (\<exists>r d. rec_at (es_rows st) m = Some r \<and> dr_method r = ''webvh'' \<and> dr_did_id r = Some d
     \<and> webvh_scid d = Some i \<and> log_at st m = Some b)"

definition hw_covers :: "('e, 'p, 'k) edge_env \<Rightarrow> edge_state \<Rightarrow> string \<Rightarrow> string \<Rightarrow> bool" where
  "hw_covers env st i b \<longleftrightarrow> (\<exists>p. ks_get (es_hw_ids st) i = Some p \<and> utf8_text p \<and> continues env b p)"

definition edge_ok :: "('e, 'p, 'k) edge_env \<Rightarrow> edge_state \<Rightarrow> bool" where
  "edge_ok env st \<longleftrightarrow> ks_ok (es_rows st)
   \<and> (\<forall>m r. rec_at (es_rows st) m = Some r \<longrightarrow> dr_mnemonic r = m \<and> slot_good env r (log_at st m) (proofs_at st m))
   \<and> (\<forall>m i b. serves st m i b \<longrightarrow> hw_covers env st i b)"

text \<open>Nothing new is held: each remaining slot keeps its record, up to the disabled flag, and its content.\<close>

definition nothing_new :: "did_rows \<Rightarrow> did_rows \<Rightarrow> bool" where
  "nothing_new rows rows' \<longleftrightarrow> (ks_ok rows \<longrightarrow> ks_ok rows') \<and> (\<forall>m r'. rec_at rows' m = Some r' \<longrightarrow>
     (\<exists>r x. rec_at rows m = Some r \<and> r' = r\<lparr>dr_disabled := x\<rparr>
      \<and> get_raw rows' (content_log_key m) = get_raw rows (content_log_key m)
      \<and> get_raw rows' (content_witness_key m) = get_raw rows (content_witness_key m)))"

lemma nothing_new_refl [simp]: "nothing_new rows rows"
proof -
  have "r = r\<lparr>dr_disabled := dr_disabled r\<rparr>" for r :: did_record by simp
  then show ?thesis unfolding nothing_new_def by blast
qed

lemma nothing_new_trans:
  assumes "nothing_new a b" "nothing_new b c"
  shows "nothing_new a c"
  unfolding nothing_new_def
proof (intro conjI allI impI)
  show "ks_ok a \<Longrightarrow> ks_ok c" using assms by (simp add: nothing_new_def)
next
  fix m r'' assume "rec_at c m = Some r''"
  then obtain r' y where b: "rec_at b m = Some r'" "r'' = r'\<lparr>dr_disabled := y\<rparr>"
      "get_raw c (content_log_key m) = get_raw b (content_log_key m)"
      "get_raw c (content_witness_key m) = get_raw b (content_witness_key m)"
    using assms(2) unfolding nothing_new_def by blast
  obtain r x where a: "rec_at a m = Some r" "r' = r\<lparr>dr_disabled := x\<rparr>"
      "get_raw b (content_log_key m) = get_raw a (content_log_key m)"
      "get_raw b (content_witness_key m) = get_raw a (content_witness_key m)"
    using assms(1) b(1) unfolding nothing_new_def by blast
  have "r'' = r\<lparr>dr_disabled := y\<rparr>" using a(2) b(2) by simp
  then show "\<exists>r x. rec_at a m = Some r \<and> r'' = r\<lparr>dr_disabled := x\<rparr>
      \<and> get_raw c (content_log_key m) = get_raw a (content_log_key m)
      \<and> get_raw c (content_witness_key m) = get_raw a (content_witness_key m)"
    using a b by metis
qed

lemma nothing_new_serves:
  assumes "nothing_new (es_rows st) (es_rows st')" "serves st' m i b"
  shows "serves st m i b"
proof -
  obtain r' d where r': "rec_at (es_rows st') m = Some r'" "dr_method r' = ''webvh''" "dr_did_id r' = Some d"
      "webvh_scid d = Some i" "log_at st' m = Some b"
    using assms(2) unfolding serves_def by blast
  then obtain r x where "rec_at (es_rows st) m = Some r" "r' = r\<lparr>dr_disabled := x\<rparr>" "log_at st' m = log_at st m"
    using assms(1) unfolding nothing_new_def by blast
  then show ?thesis using r' unfolding serves_def by force
qed

lemma nothing_new_ok:
  assumes "edge_ok env st" "nothing_new (es_rows st) (es_rows st')" "es_hw_ids st' = es_hw_ids st"
  shows "edge_ok env st'"
  unfolding edge_ok_def
proof (intro conjI allI impI)
  show "ks_ok (es_rows st')" using assms by (simp add: edge_ok_def nothing_new_def)
  show "hw_covers env st' i b" if "serves st' m i b" for m i b
    using assms(1,3) nothing_new_serves[OF assms(2) that] by (simp add: edge_ok_def hw_covers_def)
  fix m r' assume "rec_at (es_rows st') m = Some r'"
  then obtain r x where r: "rec_at (es_rows st) m = Some r" "r' = r\<lparr>dr_disabled := x\<rparr>" "log_at st' m = log_at st m"
      "proofs_at st' m = proofs_at st m"
    using assms(2) unfolding nothing_new_def by blast
  have "dr_mnemonic r = m \<and> slot_good env r (log_at st m) (proofs_at st m)" using assms(1) r(1) by (simp add: edge_ok_def)
  then show "dr_mnemonic r' = m" "slot_good env r' (log_at st' m) (proofs_at st' m)"
    unfolding r(2-4) by simp_all
qed

lemma same_flag: "\<exists>x. r = r\<lparr>dr_disabled := x\<rparr>" for r :: did_record
  by (rule exI[of _ "dr_disabled r"]) simp

lemma slot_gone_nothing_new:
  assumes "ks_ok rows \<Longrightarrow> ks_ok rows'" "ks_get rows' (did_key m) = None"
    "\<And>n. n \<noteq> m \<Longrightarrow> ks_get rows' (did_key n) = ks_get rows (did_key n)
       \<and> ks_get rows' (content_log_key n) = ks_get rows (content_log_key n)
       \<and> ks_get rows' (content_witness_key n) = ks_get rows (content_witness_key n)"
  shows "nothing_new rows rows'"
  unfolding nothing_new_def
proof (intro conjI allI impI)
  show "ks_ok rows \<Longrightarrow> ks_ok rows'" by (rule assms(1))
  fix n r' assume a: "rec_at rows' n = Some r'"
  then have "n \<noteq> m" using assms(2) by (auto simp: rec_at_def)
  then show "\<exists>r x. rec_at rows n = Some r \<and> r' = r\<lparr>dr_disabled := x\<rparr>
      \<and> get_raw rows' (content_log_key n) = get_raw rows (content_log_key n)
      \<and> get_raw rows' (content_witness_key n) = get_raw rows (content_witness_key n)"
    using a assms(3)[of n] same_flag[of r'] by (simp add: rec_at_def get_raw_def)
qed

lemma removal_nothing_new: "nothing_new rows (ks_commit (slot_removal env m r) rows)"
  by (rule slot_gone_nothing_new[of _ _ m])
    (auto simp: slot_removal_def ks_commit_append get_del_keys ks_simps watcher_sync_key_def did_key_def
        content_log_key_def content_witness_key_def owner_key_def agent_name_key_def ks_ok_commit)

text \<open>Cleanup, purge and reconcile hold nothing new.\<close>

lemma cleanup_nothing_new: "nothing_new rows (snd (cleanup_empty_dids now ttl rows))"
proof -
  have "nothing_new (snd acc) (snd (cleanup_rows now ttl kvs acc))" for kvs acc
  proof (induction kvs arbitrary: acc)
    case (Cons kv kvs)
    obtain k v where kv: "kv = (k, v)" by force
    obtain n rs where acc: "acc = (n, rs)" by force
    have d: "nothing_new rs (ks_commit [Del (did_key m), Del (content_log_key m), Del (content_witness_key m),
        Del (owner_key ow m)] rs)" for m ow
      by (rule slot_gone_nothing_new[of _ _ m]) (auto simp: ks_simps ks_ok_commit)
    show ?case
    proof (cases v)
      case (RecRow r)
      have "nothing_new (snd (n + 1, ks_commit [Del (did_key (dr_mnemonic r)), Del (content_log_key (dr_mnemonic r)),
          Del (content_witness_key (dr_mnemonic r)), Del (owner_key (dr_owner r) (dr_mnemonic r))] rs))
        (snd (cleanup_rows now ttl kvs (n + 1, ks_commit [Del (did_key (dr_mnemonic r)), Del (content_log_key (dr_mnemonic r)),
          Del (content_witness_key (dr_mnemonic r)), Del (owner_key (dr_owner r) (dr_mnemonic r))] rs)))"
        by (rule Cons.IH)
      then have "nothing_new rs (snd (cleanup_rows now ttl kvs (n + 1, ks_commit [Del (did_key (dr_mnemonic r)), Del (content_log_key (dr_mnemonic r)),
          Del (content_witness_key (dr_mnemonic r)), Del (owner_key (dr_owner r) (dr_mnemonic r))] rs)))"
        using nothing_new_trans[OF d] by simp
      then show ?thesis using Cons.IH[of "(n, rs)"] by (simp add: kv acc RecRow)
    qed (use Cons.IH[of "(n, rs)"] in \<open>simp add: kv acc\<close>)
  qed simp
  then show ?thesis unfolding cleanup_empty_dids_def by (metis snd_conv)
qed

lemma purge_nothing_new: "nothing_new rows (snd (purge_domain_dids env d rows))"
proof -
  have "nothing_new (snd acc) (snd (purge_rows env d kvs acc))" for kvs acc
  proof (induction kvs arbitrary: acc)
    case (Cons kv kvs)
    obtain k v where kv: "kv = (k, v)" by force
    obtain p rs where acc: "acc = (p, rs)" by force
    show ?case
    proof (cases v)
      case (RecRow r)
      have "nothing_new rs (snd (purge_rows env d kvs (q, ks_commit (slot_removal env (dr_mnemonic r) r) rs)))" for q
        using Cons.IH[of "(q, ks_commit (slot_removal env (dr_mnemonic r) r) rs)"]
          nothing_new_trans[OF removal_nothing_new] by simp
      then show ?thesis using Cons.IH[of "(q, rs)" for q] by (simp add: kv acc RecRow)
    qed (use Cons.IH[of "(p, rs)"] in \<open>simp add: kv acc\<close>)
  qed simp
  then show ?thesis unfolding purge_domain_dids_def by (metis snd_conv)
qed

lemma held_recordsD:
  assumes "edge_ok env st" "r \<in> set (held_records st)"
  shows "rec_at (es_rows st) (dr_mnemonic r) = Some r"
proof -
  obtain k where k: "(k, RecRow r) \<in> set (ks_scan ''did:'' (es_rows st))"
    using assms(2) by (auto simp: held_records_def set_map_filter split: did_row.splits)
  have o: "ks_ok (es_rows st)" using assms(1) by (simp add: edge_ok_def)
  have g: "prefix ''did:'' k" "ks_get (es_rows st) k = Some (RecRow r)" using k rows.scan_mem[OF o] by blast+
  obtain m where "k = did_key m" using g(1) by (auto simp: prefix_def did_key_def)
  then have r: "rec_at (es_rows st) m = Some r" using g(2) by (simp add: rec_at_def)
  then show ?thesis using assms(1) by (simp add: edge_ok_def)
qed

lemma repair_nothing_new:
  assumes "\<forall>r \<in> set rs. rec_at rows (dr_mnemonic r) = Some r" "nothing_new rows (es_rows (snd acc))"
    "\<forall>m. get_raw (es_rows (snd acc)) (content_log_key m) = get_raw rows (content_log_key m)
       \<and> get_raw (es_rows (snd acc)) (content_witness_key m) = get_raw rows (content_witness_key m)"
  shows "nothing_new rows (es_rows (snd (repair_records want rs acc)))
    \<and> es_hw_ids (snd (repair_records want rs acc)) = es_hw_ids (snd acc)
    \<and> es_hw_slots (snd (repair_records want rs acc)) = es_hw_slots (snd acc)"
  using assms
proof (induction rs arbitrary: acc)
  case (Cons r rs)
  obtain rep st where acc: "acc = (rep, st)" by force
  let ?m = "dr_mnemonic r"
  have same: "?case" if "repair_records want (r # rs) acc = repair_records want rs (rep', st)" for rep'
    using Cons.IH[of "(rep', st)"] Cons.prems that by (simp add: acc)
  have put: "?case" if e: "repair_records want (r # rs) acc = repair_records want rs (rep',
      st\<lparr>es_rows := ks_put (did_key ?m) (RecRow (r\<lparr>dr_disabled := x\<rparr>)) (es_rows st), es_cache := c\<rparr>)" for rep' x c
  proof -
    let ?rows = "ks_put (did_key ?m) (RecRow (r\<lparr>dr_disabled := x\<rparr>)) (es_rows st)"
    have raw: "\<forall>m. get_raw ?rows (content_log_key m) = get_raw rows (content_log_key m)
       \<and> get_raw ?rows (content_witness_key m) = get_raw rows (content_witness_key m)"
      using Cons.prems(3) by (simp add: acc get_raw_def ks_simps)
    have "nothing_new rows ?rows" unfolding nothing_new_def
    proof (intro conjI allI impI)
      show "ks_ok ?rows" if "ks_ok rows" using that Cons.prems(2) by (simp add: acc nothing_new_def ks_simps)
      fix n r' assume a: "rec_at ?rows n = Some r'"
      show "\<exists>r x. rec_at rows n = Some r \<and> r' = r\<lparr>dr_disabled := x\<rparr>
          \<and> get_raw ?rows (content_log_key n) = get_raw rows (content_log_key n)
          \<and> get_raw ?rows (content_witness_key n) = get_raw rows (content_witness_key n)"
      proof (cases "n = ?m")
        case True
        then have "r' = r\<lparr>dr_disabled := x\<rparr>" using a by (simp add: rec_at_def ks_simps)
        then show ?thesis using Cons.prems(1) raw True by auto
      next
        case False
        then have "rec_at (es_rows st) n = Some r'" using a by (simp add: rec_at_def ks_simps)
        then obtain r0 y where "rec_at rows n = Some r0" "r' = r0\<lparr>dr_disabled := y\<rparr>"
          using Cons.prems(2) unfolding nothing_new_def acc snd_conv by blast
        then show ?thesis using raw by auto
      qed
    qed
    then show ?thesis
      using Cons.IH[of "(rep', st\<lparr>es_rows := ?rows, es_cache := c\<rparr>)"] Cons.prems(1) raw e by (simp add: acc)
  qed
  show ?case
  proof (cases "want ?m")
    case None
    then show ?thesis by (intro same) (simp add: acc)
  next
    case (Some w)
    show ?thesis
    proof (cases "li_version_count w = 0 \<or> li_disabled w = dr_disabled r")
      case True
      then show ?thesis by (cases "li_version_count w = 0") (rule same, simp add: acc Some Let_def)+
    next
      case False
      then show ?thesis by (intro put) (simp add: acc Some Let_def)
    qed
  qed
qed simp

lemma listing_nothing_new:
  assumes "edge_ok env st"
  shows "nothing_new (es_rows st) (es_rows (snd (apply_listing listing st)))"
    "es_hw_ids (snd (apply_listing listing st)) = es_hw_ids st"
    "es_hw_slots (snd (apply_listing listing st)) = es_hw_slots st"
  using repair_nothing_new[of "held_records st" "es_rows st" "(rep, st)" "map_of listing" for rep]
    held_recordsD[OF assms]
  by (simp_all add: apply_listing_def Let_def split: prod.splits) (metis fst_conv snd_conv)+

section \<open>An accepted update\<close>

lemma verify_historyD:
  assumes "verify_history env st m did log k = Inr i"
  shows "did_identity k did = Some i"
    "\<exists>held. List.map_filter (\<lambda>p. Option.bind p (\<lambda>q. history_fault env k did q log))
        [held, map_option utf8_lossy (ks_get (es_hw_ids st) i)] = []"
proof -
  obtain hr where hr: "lift_err (get_record (es_rows st) (did_key m)) = Inr hr"
    using assms unfolding verify_history_def Let_def by (cases "lift_err (get_record (es_rows st) (did_key m))") auto
  show a: "did_identity k did = Some i"
    using assms hr unfolding verify_history_def Let_def
    by (cases "did_identity k did") (simp_all split: if_splits list.splits)
  show "\<exists>held. List.map_filter (\<lambda>p. Option.bind p (\<lambda>q. history_fault env k did q log))
        [held, map_option utf8_lossy (ks_get (es_hw_ids st) i)] = []"
    using assms hr a unfolding verify_history_def Let_def by (simp del: List.map_filter_simps split: if_splits list.splits) blast+
qed

lemma history_webvh:
  assumes "verify_history env st m did log Webvh = Inr i"
  shows "webvh_scid did = Some i"
    "ks_get (es_hw_ids st) i = Some p \<Longrightarrow> utf8_text p \<Longrightarrow> continues env p log"
proof -
  show "webvh_scid did = Some i" using verify_historyD(1)[OF assms] by (simp add: did_identity_def)
  show "continues env p log" if h: "ks_get (es_hw_ids st) i = Some p" "utf8_text p"
  proof -
    obtain held where e: "List.map_filter (\<lambda>p. Option.bind p (\<lambda>q. history_fault env Webvh did q log)) [held, Some p] = []"
      using verify_historyD(2)[OF assms] h by (auto simp: utf8_lossy_id)
    then have "history_fault env Webvh did p log = None"
      by (cases "history_fault env Webvh did p log") (auto simp: List.map_filter_def split: if_splits)
    then show ?thesis by (simp add: history_fault_def extends_continues)
  qed
qed

lemma history_other:
  "verify_history env st m did log k = Inr i \<Longrightarrow> k \<noteq> Webvh \<Longrightarrow> i = did"
  using verify_historyD(1)[of env st m did log k i] by (cases k) (simp_all add: did_identity_def)

lemma binding_colon:
  "verify_binding env st u m = Inr () \<Longrightarrow> m \<noteq> Webvh \<Longrightarrow> CHR '':'' \<in> set (su_did_id u)"
  by (cases m) (auto simp: verify_binding_def Let_def suffix_def split: if_splits)

lemma binding_webvh:
  "verify_binding env st u Webvh = Inr () \<Longrightarrow> extract_did_id (ee_lib env) (su_log u) = Some (su_did_id u)"
  by (auto simp: verify_binding_def split: if_splits)

lemma method_name_webvh [simp]: "method_name m = ''webvh'' \<longleftrightarrow> m = Webvh"
  by (cases m) (simp_all add: method_name_def)

text \<open>What an accepted update leaves in each slot.\<close>

lemma applied_slots:
  assumes "apply_single_update env now u st = (Inr Applied, st')"
  obtains i doc where
    "verify_update env st u (synced_method env (su_log u)) = Inr (i, doc)"
    "\<forall>n. rec_at (es_rows st') n = (if n = su_mnemonic u then Some (synced_record env now u (synced_method env (su_log u)) doc)
        else rec_at (es_rows st) n)"
    "\<forall>n. log_at st' n = (if n = su_mnemonic u then Some (su_log u) else log_at st n)"
    "\<forall>n. proofs_at st' n = (if n = su_mnemonic u then su_witness u else proofs_at st n)"
    "es_hw_ids st' = ks_put i (su_log u) (es_hw_ids st)"
    "ks_ok (es_rows st) \<longrightarrow> ks_ok (es_rows st')"
proof (rule apply_cases[OF assms])
  fix i doc
  let ?r = "synced_record env now u (synced_method env (su_log u)) doc"
  assume a: "verify_update env st u (synced_method env (su_log u)) = Inr (i, doc)"
    "es_rows st' = ks_commit (update_writes env st u ?r) (es_rows st)" "es_hw_ids st' = ks_put i (su_log u) (es_hw_ids st)"
  show thesis
    by (rule that[OF a(1) _ _ _ a(3)])
      (auto simp: a(2) rec_at_def get_raw_def update_gets ks_ok_commit split: option.splits)
qed (use that in simp)

lemma sync_step:
  assumes "edge_ok env st" "utf8_text (su_log u)" "apply_sync_entry env now u st = (r, st')"
  shows "edge_ok env st'" "CHR '':'' \<notin> set i \<Longrightarrow> hw_covers env st i b \<Longrightarrow> hw_covers env st' i b"
    "serves st' m i b \<Longrightarrow> serves st m i b \<or> (\<forall>a. hw_covers env st i a \<longrightarrow> continues env a b)"
proof -
  have "edge_ok env st' \<and> (CHR '':'' \<notin> set i \<longrightarrow> hw_covers env st i b \<longrightarrow> hw_covers env st' i b)
    \<and> (serves st' m i b \<longrightarrow> serves st m i b \<or> (\<forall>a. hw_covers env st i a \<longrightarrow> continues env a b))" for m i b
  proof (cases "\<exists>st''. apply_single_update env now u st = (Inr Applied, st'') \<and> length (nonblank_lines (su_log u)) = su_version_count u")
    case False
    then have "st' = st" using assms(3) apply_cases[of env now u st]
      by (auto simp: apply_sync_entry_def split: if_splits prod.splits sum.splits)
    then show ?thesis using assms(1) by simp
  next
    case True
    then have ap: "apply_single_update env now u st = (Inr Applied, st')" and n: "length (nonblank_lines (su_log u)) = su_version_count u"
      using assms(3) by (auto simp: apply_sync_entry_def)
    let ?k = "synced_method env (su_log u)"
    obtain j doc where v: "verify_update env st u ?k = Inr (j, doc)"
      and rec: "\<forall>n. rec_at (es_rows st') n = (if n = su_mnemonic u then Some (synced_record env now u ?k doc) else rec_at (es_rows st) n)"
      and log: "\<forall>n. log_at st' n = (if n = su_mnemonic u then Some (su_log u) else log_at st n)"
      and pfs: "\<forall>n. proofs_at st' n = (if n = su_mnemonic u then su_witness u else proofs_at st n)"
      and hw: "es_hw_ids st' = ks_put j (su_log u) (es_hw_ids st)" and ok: "ks_ok (es_rows st) \<longrightarrow> ks_ok (es_rows st')"
      by (rule applied_slots[OF ap])
    note vd = verify_updateD[OF v]
    have good: "slot_good env (synced_record env now u ?k doc) (Some (su_log u)) (su_witness u)"
      using assms(2) n vd(1,2) binding_webvh[of env st u] by (auto simp: slot_good_def synced_record_def)
    have cov: "hw_covers env st' i' a \<and> (i' = j \<longrightarrow> ?k = Webvh \<longrightarrow> continues env a (su_log u))"
      if c: "hw_covers env st i' a" and nc: "i' = j \<longrightarrow> ?k = Webvh" for i' a
    proof -
      obtain p where p: "ks_get (es_hw_ids st) i' = Some p" "utf8_text p" "continues env a p" using c by (auto simp: hw_covers_def)
      show ?thesis
      proof (cases "i' = j")
        case True
        then have "continues env p (su_log u)" using history_webvh(2)[of env st "su_mnemonic u" "su_did_id u" "su_log u" j p] vd(3) nc p by simp
        then have "continues env a (su_log u)" using p(3) continues_trans by blast
        then show ?thesis using True assms(2) by (simp add: hw_covers_def hw ks_simps)
      qed (use p in \<open>auto simp: hw_covers_def hw ks_simps\<close>)
    qed
    have nc: "i' = j \<longrightarrow> ?k = Webvh" if "CHR '':'' \<notin> set i'" for i'
      using that history_other[OF vd(3)] binding_colon[OF vd(1)] by (cases "?k = Webvh") auto
    have sv: "serves st' n i' b' \<longleftrightarrow> (if n = su_mnemonic u then ?k = Webvh \<and> i' = j \<and> b' = su_log u else serves st n i' b')" for n i' b'
    proof (cases "n = su_mnemonic u")
      case True
      have "webvh_scid (su_did_id u) = Some j" if "?k = Webvh" using history_webvh(1) vd(3) that by metis
      then show ?thesis using True by (auto simp: serves_def rec log synced_record_def)
    qed (simp add: serves_def rec log)
    have e1: "edge_ok env st'" unfolding edge_ok_def
    proof (intro conjI allI impI)
      show "ks_ok (es_rows st')" using ok assms(1) by (simp add: edge_ok_def)
      show "hw_covers env st' i' b'" if s: "serves st' n i' b'" for n i' b'
      proof (cases "n = su_mnemonic u")
        case True
        then show ?thesis using s assms(2) by (simp add: sv hw_covers_def hw ks_simps)
      next
        case False
        then have o: "serves st n i' b'" using s by (simp add: sv)
        then have "hw_covers env st i' b'" using assms(1) by (simp add: edge_ok_def)
        moreover have "CHR '':'' \<notin> set i'" using o scid_no_colon by (auto simp: serves_def)
        ultimately show ?thesis using cov nc by blast
      qed
      fix n x assume x: "rec_at (es_rows st') n = Some x"
      show "dr_mnemonic x = n"
        using x assms(1) by (auto simp: rec edge_ok_def synced_record_def split: if_splits)
      show "slot_good env x (log_at st' n) (proofs_at st' n)"
        using x assms(1) good by (auto simp: rec log pfs edge_ok_def split: if_splits)
    qed
    have e3: "serves st m i b \<or> (\<forall>a. hw_covers env st i a \<longrightarrow> continues env a b)" if s: "serves st' m i b"
    proof (cases "m = su_mnemonic u")
      case True
      then have k: "?k = Webvh" "i = j" "b = su_log u" using s by (simp_all add: sv)
      then show ?thesis using cov by blast
    qed (use s in \<open>simp add: sv\<close>)
    show ?thesis using e1 e3 cov nc by blast
  qed
  then show "edge_ok env st'" "CHR '':'' \<notin> set i \<Longrightarrow> hw_covers env st i b \<Longrightarrow> hw_covers env st' i b"
    "serves st' m i b \<Longrightarrow> serves st m i b \<or> (\<forall>a. hw_covers env st i a \<longrightarrow> continues env a b)" by blast+
qed

section \<open>Everything an edge does\<close>

text \<open>The operations on an edge. Elsewhere stands for every operation that touches neither the slots nor
  the high-water marks: the domain directives, resolution, and the cache.\<close>

inductive edge_step :: "('e, 'p, 'k) edge_env \<Rightarrow> edge_state \<Rightarrow> edge_state \<Rightarrow> bool" for env where
  Sync: "utf8_text (su_log u) \<Longrightarrow> apply_sync_entry env now u st = (r, st') \<Longrightarrow> edge_step env st st'"
| Delete: "do_sync_delete env m st = (r', st') \<Longrightarrow> edge_step env st st'"
| Cleanup: "edge_step env st (st\<lparr>es_rows := snd (cleanup_empty_dids now ttl (es_rows st))\<rparr>)"
| PurgeDomain: "edge_step env st (st\<lparr>es_rows := snd (purge_domain_dids env d (es_rows st))\<rparr>)"
| Reconcile: "apply_listing listing st = (rep, st') \<Longrightarrow> edge_step env st st'"
| Elsewhere: "\<lbrakk>es_rows st' = es_rows st; es_hw_ids st' = es_hw_ids st; es_hw_slots st' = es_hw_slots st\<rbrakk> \<Longrightarrow> edge_step env st st'"

definition new_edge :: edge_state where
  "new_edge = \<lparr>es_rows = [], es_hw_ids = [], es_hw_slots = [], es_cache = [], es_assignments = [],
     es_store = \<lparr>domains = [], meta = [], purges = []\<rparr>\<rparr>"

lemma new_edge_ok: "edge_ok env new_edge"
  by (simp add: new_edge_def edge_ok_def serves_def rec_at_def)

text \<open>A batch is a run of single entries.\<close>

lemma batch_run:
  "\<forall>u \<in> set us. utf8_text (su_log u) \<Longrightarrow> (edge_step env)\<^sup>*\<^sup>* st (snd (batch_entries env now us st))"
proof (induction us arbitrary: st)
  case (Cons u us)
  obtain r st1 where a: "apply_sync_entry env now u st = (r, st1)" by force
  obtain outs t st2 where b: "batch_entries env now us st1 = ((outs, t), st2)" by (metis prod.exhaust)
  have s: "edge_step env st st1" using edge_step.Sync[OF _ a] Cons.prems by simp
  have "(edge_step env)\<^sup>*\<^sup>* st1 st2" using Cons.IH[of st1] Cons.prems b by simp
  then have "(edge_step env)\<^sup>*\<^sup>* st st2" using s by (rule converse_rtranclp_into_rtranclp[rotated])
  then show ?case by (auto simp: a b split: sum.splits op_error.splits)
qed simp

lemma delete_nothing_new:
  assumes "do_sync_delete env m st = (r, st')"
  shows "nothing_new (es_rows st) (es_rows st')" "es_hw_ids st' = es_hw_ids st"
  using assms removal_nothing_new by (auto simp: do_sync_delete_def split: sum.splits option.splits)

lemma edge_stepD:
  assumes "edge_step env st st'" "edge_ok env st"
  shows "edge_ok env st'" "CHR '':'' \<notin> set i \<Longrightarrow> hw_covers env st i a \<Longrightarrow> hw_covers env st' i a"
    "serves st' m i b \<Longrightarrow> serves st m i b \<or> (\<forall>a. hw_covers env st i a \<longrightarrow> continues env a b)"
proof -
  have "edge_ok env st' \<and> (CHR '':'' \<notin> set i \<longrightarrow> hw_covers env st i a \<longrightarrow> hw_covers env st' i a)
    \<and> (serves st' m i b \<longrightarrow> serves st m i b \<or> (\<forall>a. hw_covers env st i a \<longrightarrow> continues env a b))" for i a m b
  proof -
    have n: ?thesis if "nothing_new (es_rows st) (es_rows st')" "es_hw_ids st' = es_hw_ids st"
      using nothing_new_ok[OF assms(2) that] nothing_new_serves[OF that(1)] that(2) by (auto simp: hw_covers_def)
    from assms(1) show ?thesis
    proof cases
      case (Sync u now r)
      then show ?thesis using sync_step[OF assms(2)] by blast
    next
      case (Delete k r')
      then show ?thesis using n delete_nothing_new by blast
    next
      case (Cleanup now ttl)
      then show ?thesis by (intro n) (simp_all add: cleanup_nothing_new)
    next
      case (PurgeDomain d)
      then show ?thesis by (intro n) (simp_all add: purge_nothing_new)
    next
      case (Reconcile listing rep)
      then show ?thesis using n listing_nothing_new[OF assms(2), of listing] by simp
    next
      case Elsewhere
      then show ?thesis using n by simp
    qed
  qed
  then show "edge_ok env st'" "CHR '':'' \<notin> set i \<Longrightarrow> hw_covers env st i a \<Longrightarrow> hw_covers env st' i a"
    "serves st' m i b \<Longrightarrow> serves st m i b \<or> (\<forall>a. hw_covers env st i a \<longrightarrow> continues env a b)" by blast+
qed

lemma edge_run_ok: "(edge_step env)\<^sup>*\<^sup>* st st' \<Longrightarrow> edge_ok env st \<Longrightarrow> edge_ok env st'"
  by (induction rule: rtranclp_induct) (auto dest: edge_stepD(1))

lemma edge_run_history:
  assumes "(edge_step env)\<^sup>*\<^sup>* st st'" "edge_ok env st" "serves st m i a"
  shows "hw_covers env st' i a \<and> (\<forall>n b. serves st' n i b \<longrightarrow> serves st n i b \<or> continues env a b)"
  using assms(1)
proof (induction rule: rtranclp_induct)
  case base
  then show ?case using assms(2,3) by (auto simp: edge_ok_def)
next
  case (step y z)
  have o: "edge_ok env y" using edge_run_ok[OF step(1) assms(2)] .
  have c: "CHR '':'' \<notin> set i" using assms(3) scid_no_colon by (auto simp: serves_def)
  then show ?case using edge_stepD[OF step(2) o] step(3) by blast
qed

lemma serves_unique: "serves st m i a \<Longrightarrow> serves st m i b \<Longrightarrow> a = b"
  by (auto simp: serves_def)

section \<open>What an edge guarantees\<close>

text \<open>C23: An edge never rewrites a history it has served. Whatever its control plane sends - updates,
  batches, deletes, purges of domains, listings - and whatever is cleaned up in between, a did:webvh log
  it serves for a DID after having served another keeps every entry of the earlier one, and adds none
  once that one had deactivated the DID, even when the slot was deleted or purged in between or the
  DID moved to another slot; only a slot that already served the DID may still hold what it held.\<close>

theorem edge_never_rewrites_history:
  assumes "(edge_step env)\<^sup>*\<^sup>* new_edge st" "serves st m i a" "(edge_step env)\<^sup>*\<^sup>* st st'" "serves st' n i b"
  shows "(prefix (log_entries a) (log_entries b)
      \<and> (list_ex (line_deactivates (json_parse (de_lib (ee_did env)))) (log_entries a) \<longrightarrow> log_entries b = log_entries a))
    \<or> (n \<noteq> m \<and> serves st n i b)"
proof -
  have o: "edge_ok env st" using edge_run_ok[OF assms(1) new_edge_ok] .
  have "serves st n i b \<or> continues env a b" using edge_run_history[OF assms(3) o assms(2)] assms(4) by blast
  moreover have "continues env a b" if "n = m" "serves st n i b" using serves_unique[OF assms(2)] that by simp
  ultimately show ?thesis by (auto simp: continues_def)
qed


text \<open>An edge that has applied a first and a second version of a DID.\<close>

definition edge_sample :: "(string, nat, string \<times> nat) edge_env" where
  "edge_sample = \<lparr>ee_did = sample_env\<lparr>de_parse_host := (\<lambda>s. Some (HostDomain s)), de_public_url := Some ''https://a.org''\<rparr>,
     ee_url_host = (\<lambda>_. Some (Some ''a.org'', None)), ee_grace = ''2h''\<rparr>"

definition version_update :: "string list \<Rightarrow> sync_update" where
  "version_update ls = \<lparr>su_mnemonic = ''p'', su_did_id = ''did:webvh:q:a.org:p'', su_log = join_with [CHR 0x0A] ls,
     su_witness = None, su_version_count = length ls, su_disabled = False\<rparr>"

definition edge_first :: edge_state where
  "edge_first = snd (apply_sync_entry edge_sample 7 (version_update [''al'']) new_edge)"

definition edge_second :: edge_state where
  "edge_second = snd (apply_sync_entry edge_sample 8 (version_update [''al'', ''bl'']) (snd (do_sync_delete edge_sample ''p'' edge_first)))"

lemma edge_first_run: "(edge_step edge_sample)\<^sup>*\<^sup>* new_edge edge_first"
proof -
  have "utf8_text (su_log (version_update [''al'']))" by code_simp
  then show ?thesis unfolding edge_first_def by (metis edge_step.Sync prod.collapse r_into_rtranclp)
qed

lemma edge_second_run: "(edge_step edge_sample)\<^sup>*\<^sup>* edge_first edge_second"
proof -
  have "utf8_text (su_log (version_update [''al'', ''bl'']))" by code_simp
  then have "edge_step edge_sample (snd (do_sync_delete edge_sample ''p'' edge_first)) edge_second"
    unfolding edge_second_def by (metis edge_step.Sync prod.collapse)
  moreover have "edge_step edge_sample edge_first (snd (do_sync_delete edge_sample ''p'' edge_first))"
    by (metis edge_step.Delete prod.collapse)
  ultimately show ?thesis by (meson r_into_rtranclp rtranclp.rtrancl_into_rtrancl)
qed

lemma edge_serves_both: "serves edge_first ''p'' ''q'' ''al''"
  "serves edge_second ''p'' ''q'' (''al'' @ [CHR 0x0A] @ ''bl'')"
proof -
  have "map_option (\<lambda>r. (dr_method r, dr_did_id r)) (rec_at (es_rows edge_first) ''p'') = Some (''webvh'', Some ''did:webvh:q:a.org:p'')
    \<and> log_at edge_first ''p'' = Some ''al'' \<and> webvh_scid ''did:webvh:q:a.org:p'' = Some ''q''" by code_simp
  then show "serves edge_first ''p'' ''q'' ''al''" by (auto simp: serves_def)
  have "map_option (\<lambda>r. (dr_method r, dr_did_id r)) (rec_at (es_rows edge_second) ''p'') = Some (''webvh'', Some ''did:webvh:q:a.org:p'')
    \<and> log_at edge_second ''p'' = Some (''al'' @ [CHR 0x0A] @ ''bl'') \<and> webvh_scid ''did:webvh:q:a.org:p'' = Some ''q''" by code_simp
  then show "serves edge_second ''p'' ''q'' (''al'' @ [CHR 0x0A] @ ''bl'')" by (auto simp: serves_def)
qed

theorem edge_never_rewrites_history_witness:
  "prefix (log_entries ''al'') (log_entries (''al'' @ [CHR 0x0A] @ ''bl''))"
  using edge_never_rewrites_history[OF edge_first_run edge_serves_both(1) edge_second_run edge_serves_both(2)] by simp


end
