(* ===== verification/EdgeDomains.thy ===== *)
theory EdgeDomains
  imports Edge DomainTasks
begin

text \<open>
  Which domains an edge serves, and when it drops their data: the assignment rows
  (did-hosting-common/src/server/assignment.rs) with their first-boot seed (assignment_seed.rs), the
  replica/domain directives of the control plane (did-hosting-server/src/messaging.rs) and the sweep
  that carries out scheduled purges (did-hosting-server/src/purge_sweep.rs). Clocks are arguments;
  an upsert's entry is taken as read back from its wire shape.
\<close>

section \<open>Assignments (assignment.rs)\<close>

datatype assign_outcome = CreatedAssignment assignment | ExistingAssignment assignment

datatype unassign_outcome = RemovedAssignment assignment | MissingAssignment

definition assign :: "string \<Rightarrow> string \<Rightarrow> nat \<Rightarrow> assignment ks \<Rightarrow> assign_outcome \<times> assignment ks" where
  "assign d by_did now s = (case ks_get s (assignment_key d) of
     Some a \<Rightarrow> (ExistingAssignment a, s)
   | None \<Rightarrow> let a = \<lparr>as_domain = d, as_assigned_at = now, as_assigner = by_did\<rparr>
       in (CreatedAssignment a, ks_put (assignment_key d) a s))"

definition record_assignment :: "string \<Rightarrow> string \<Rightarrow> nat \<Rightarrow> assignment ks \<Rightarrow> assignment \<times> assignment ks" where
  "record_assignment d by_did now s =
    (let a = \<lparr>as_domain = d, as_assigned_at = now, as_assigner = by_did\<rparr> in (a, ks_put (assignment_key d) a s))"

definition unassign :: "string \<Rightarrow> assignment ks \<Rightarrow> unassign_outcome \<times> assignment ks" where
  "unassign d s = (case ks_get s (assignment_key d) of
     None \<Rightarrow> (MissingAssignment, s)
   | Some a \<Rightarrow> (RemovedAssignment a, ks_del (assignment_key d) s))"

section \<open>First boot (assignment_seed.rs)\<close>

datatype assignment_seed_tier = AlreadyAssigned | FromBootstrapDomains | FromLegacyPublicUrl | NoSeed

fun assign_all :: "nat \<Rightarrow> string list \<Rightarrow> assignment ks \<Rightarrow> string list \<times> assignment ks" where
  "assign_all now [] s = ([], s)"
| "assign_all now (d # ds) s =
    (case assign d ''bootstrap-config'' now s of (out, s1) \<Rightarrow> (case assign_all now ds s1 of (names, s2) \<Rightarrow>
       (as_domain (case out of CreatedAssignment a \<Rightarrow> a | ExistingAssignment a \<Rightarrow> a) # names, s2)))"

text \<open>The host of a URL in lower case, with the port when it is not the scheme's default.\<close>

definition assignment_host_from_public_url :: "(string \<Rightarrow> (string option \<times> nat option) option) \<Rightarrow> string \<Rightarrow> string option" where
  "assignment_host_from_public_url parse_url url = (case parse_url url of
     Some (Some h, p) \<Rightarrow> Some (case p of
         Some n \<Rightarrow> to_ascii_lowercase h @ '':'' @ show_nat n | None \<Rightarrow> to_ascii_lowercase h)
   | _ \<Rightarrow> None)"

definition seed_assignments_first_boot ::
  "(string \<Rightarrow> (string option \<times> nat option) option) \<Rightarrow> string list \<Rightarrow> string option \<Rightarrow> nat \<Rightarrow> assignment ks
   \<Rightarrow> (assignment_seed_tier \<times> string list) \<times> assignment ks" where
  "seed_assignments_first_boot parse_url bootstrap legacy now s =
    (let existing = map snd (ks_scan ''assignments:'' s)
     in if existing \<noteq> [] then ((AlreadyAssigned, map as_domain existing), s)
        else if bootstrap \<noteq> [] then (case assign_all now bootstrap s of (names, s1) \<Rightarrow> ((FromBootstrapDomains, names), s1))
        else (case Option.bind legacy (assignment_host_from_public_url parse_url) of
            Some h \<Rightarrow> (case assign h ''legacy-public-url'' now s of (out, s1) \<Rightarrow>
              ((FromLegacyPublicUrl, [as_domain (case out of CreatedAssignment a \<Rightarrow> a | ExistingAssignment a \<Rightarrow> a)]), s1))
          | None \<Rightarrow> ((NoSeed, []), s)))"

section \<open>Directives (messaging.rs)\<close>

definition canonical_domain :: "('e, 'p, 'k) edge_env \<Rightarrow> string \<Rightarrow> op_error + string" where
  "canonical_domain env name = (case normalize_domain_name (ee_parse_host env) name of
     Inl _ \<Rightarrow> Inl Refused
   | Inr canonical \<Rightarrow> if canonical \<noteq> name then Inl Refused else Inr canonical)"

abbreviation es_purges :: "edge_state \<Rightarrow> pending_purge ks" where
  "es_purges st \<equiv> purges (es_store st)"

definition do_domain_assign ::
  "('e, 'p, 'k) edge_env \<Rightarrow> string \<Rightarrow> nat \<Rightarrow> string \<Rightarrow> edge_state \<Rightarrow> (op_error + string) \<times> edge_state" where
  "do_domain_assign env control now name st = (case canonical_domain env name of
     Inl e \<Rightarrow> (Inl e, st)
   | Inr d \<Rightarrow> (Inr d, st\<lparr>es_assignments := snd (record_assignment d control now (es_assignments st)),
       es_store := (es_store st)\<lparr>purges := snd (pp_cancel d (es_purges st))\<rparr>\<rparr>))"

definition unassign_grace_seconds :: "('e, 'p, 'k) edge_env \<Rightarrow> nat" where
  "unassign_grace_seconds env = (case parse_grace_string (ee_grace env) of Some n \<Rightarrow> n | None \<Rightarrow> 2 * 60 * 60)"

text \<open>The answer states when the purge now in force is due.\<close>

definition do_domain_unassign ::
  "('e, 'p, 'k) edge_env \<Rightarrow> string \<Rightarrow> nat \<Rightarrow> string \<Rightarrow> edge_state \<Rightarrow> (op_error + string \<times> nat) \<times> edge_state" where
  "do_domain_unassign env control now name st = (case canonical_domain env name of
     Inl e \<Rightarrow> (Inl e, st)
   | Inr d \<Rightarrow> (case unassign d (es_assignments st) of
       (RemovedAssignment _, s1) \<Rightarrow>
         (Inr (d, saturating_add now (unassign_grace_seconds env)), st\<lparr>es_assignments := s1,
            es_store := (es_store st)\<lparr>purges :=
              snd (pp_schedule d now (unassign_grace_seconds env) ''grace-expired'' control (es_purges st))\<rparr>\<rparr>)
     | (MissingAssignment, s1) \<Rightarrow>
         (Inr (d, case pp_get d (es_purges st) of
              Some p \<Rightarrow> saturating_add (pp_scheduled_at p) (pp_grace_seconds p) | None \<Rightarrow> now), st)))"

definition do_domain_purge ::
  "('e, 'p, 'k) edge_env \<Rightarrow> nat \<Rightarrow> string \<Rightarrow> edge_state \<Rightarrow> (op_error + string \<times> nat) \<times> edge_state" where
  "do_domain_purge env issued_at name st = (case canonical_domain env name of
     Inl e \<Rightarrow> (Inl e, st)
   | Inr d \<Rightarrow>
       if (case ks_get (es_assignments st) (assignment_key d) of Some a \<Rightarrow> issued_at < as_assigned_at a | None \<Rightarrow> False)
       then (Inl StalePurge, st)
       else (case purge_domain_dids env d (es_rows st) of (rep, rows) \<Rightarrow>
         (Inr (d, pr_deleted rep), st\<lparr>es_rows := rows, es_cache := cache_clear (es_cache st),
            es_store := (es_store st)\<lparr>purges := snd (pp_cancel d (es_purges st))\<rparr>\<rparr>)))"

text \<open>The entry's status decides what becomes of the purge schedule.\<close>

definition upsert_schedule :: "string \<Rightarrow> string \<Rightarrow> domain_entry \<Rightarrow> pending_purge ks \<Rightarrow> pending_purge ks" where
  "upsert_schedule control d e s = (case dom_status e of
     Active \<Rightarrow> snd (pp_cancel d s)
   | Disabled \<Rightarrow> (case (dom_disabled_at e, dom_purge_at e) of
       (Some disabled_at, Some purge_at) \<Rightarrow>
         snd (pp_schedule d disabled_at (purge_at - disabled_at) DISABLE_PURGE_REASON control s)
     | _ \<Rightarrow> s))"

definition do_domain_upsert ::
  "('e, 'p, 'k) edge_env \<Rightarrow> string \<Rightarrow> domain_entry \<Rightarrow> edge_state \<Rightarrow> (op_error + string) \<times> edge_state" where
  "do_domain_upsert env control e st = (let ph = ee_parse_host env; name = dom_name e in
     case normalize_domain_name ph name of
       Inl _ \<Rightarrow> (Inl NonCanonicalName, st)
     | Inr d \<Rightarrow>
         if d \<noteq> name then (Inl NonCanonicalName, st)
         else (case and_then (get_domain ph d (es_store st)) (\<lambda>held.
               if held \<noteq> None then update_domain ph d e (es_store st) else create_domain ph e (es_store st)) of
             Inl er \<Rightarrow> (Inl (op_error_of er), st)
           | Inr s1 \<Rightarrow> (Inr d, st\<lparr>es_store := s1\<lparr>purges := upsert_schedule control d e (purges s1)\<rparr>\<rparr>)))"

section \<open>The sweep (purge_sweep.rs)\<close>

fun sweep_entries ::
  "('e, 'p, 'k) edge_env \<Rightarrow> nat \<Rightarrow> pending_purge list \<Rightarrow> nat \<times> edge_state \<Rightarrow> nat \<times> edge_state" where
  "sweep_entries env now [] acc = acc"
| "sweep_entries env now (p # ps) (purged, st) =
    (if \<not> is_ripe p now then sweep_entries env now ps (purged, st)
     else let st1 = st\<lparr>es_rows := snd (purge_domain_dids env (pp_domain p) (es_rows st))\<rparr>
     in case (if pp_reason p = DISABLE_PURGE_REASON
              then delete_domain_record (ee_parse_host env) (pp_domain p) (es_store st1) else Inr (es_store st1)) of
          Inl _ \<Rightarrow> sweep_entries env now ps (purged, st1)
        | Inr s1 \<Rightarrow> sweep_entries env now ps
            (purged + 1, st1\<lparr>es_store := s1\<lparr>purges := snd (pp_cancel (pp_domain p) (purges s1))\<rparr>\<rparr>))"

definition run_sweep_once :: "('e, 'p, 'k) edge_env \<Rightarrow> nat \<Rightarrow> edge_state \<Rightarrow> nat \<times> edge_state" where
  "run_sweep_once env now st = sweep_entries env now (pp_list (es_purges st)) (0, st)"


section \<open>A purge removes exactly the domain's slots\<close>

lemma removal_rec:
  "rec_at (ks_commit (slot_removal env m r) rows) n = (if n = m then None else rec_at rows n)"
  by (auto simp: rec_at_def slot_removal_def ks_commit_append get_del_keys ks_simps watcher_sync_key_def did_key_def
      content_log_key_def content_witness_key_def owner_key_def agent_name_key_def)

lemma purge_rows_rec:
  "rec_at (snd (purge_rows env d kvs (p, rows))) m
    = (if \<exists>k r. (k, RecRow r) \<in> set kvs \<and> dr_mnemonic r = m \<and> dr_domain r = d \<and> d \<noteq> [] then None else rec_at rows m)
   \<and> pr_deleted (fst (purge_rows env d kvs (p, rows)))
    = pr_deleted p + length (filter (\<lambda>(k, v). case v of RecRow r \<Rightarrow> dr_domain r = d \<and> d \<noteq> [] | RawRow _ \<Rightarrow> False) kvs)"
proof (induction kvs arbitrary: p rows)
  case (Cons kv kvs)
  obtain k v where kv: "kv = (k, v)" by force
  show ?case
  proof (cases v)
    case (RecRow r)
    show ?thesis using Cons.IH by (auto simp: kv RecRow removal_rec)
  qed (use Cons.IH in \<open>auto simp: kv\<close>)
qed simp

lemma scan_did_iff:
  assumes "edge_ok env st"
  shows "(\<exists>k. (k, RecRow r) \<in> set (ks_scan ''did:'' (es_rows st))) \<longleftrightarrow> rec_at (es_rows st) (dr_mnemonic r) = Some r"
proof -
  have o: "ks_ok (es_rows st)" using assms by (simp add: edge_ok_def)
  have "rec_at (es_rows st) (dr_mnemonic r) = Some r" if k: "(k, RecRow r) \<in> set (ks_scan ''did:'' (es_rows st))" for k
  proof -
    have g: "prefix ''did:'' k" "ks_get (es_rows st) k = Some (RecRow r)" using k rows.scan_mem[OF o] by blast+
    obtain m where "k = did_key m" using g(1) by (auto simp: prefix_def did_key_def)
    then have r: "rec_at (es_rows st) m = Some r" using g(2) by (simp add: rec_at_def)
    then show ?thesis using assms by (simp add: edge_ok_def)
  qed
  moreover have "(did_key (dr_mnemonic r), RecRow r) \<in> set (ks_scan ''did:'' (es_rows st))"
    if "rec_at (es_rows st) (dr_mnemonic r) = Some r"
    using that by (auto simp: rows.scan_mem[OF o] rec_at_def did_key_def split: option.splits did_row.splits)
  ultimately show ?thesis by blast
qed

lemma purge_slots:
  assumes "edge_ok env st" "d \<noteq> []"
  shows "rec_at (snd (purge_domain_dids env d (es_rows st))) m =
    (case rec_at (es_rows st) m of Some r \<Rightarrow> if dr_domain r = d then None else Some r | None \<Rightarrow> None)"
proof -
  have "(\<exists>k r. (k, RecRow r) \<in> set (ks_scan ''did:'' (es_rows st)) \<and> dr_mnemonic r = m \<and> dr_domain r = d \<and> d \<noteq> [])
    \<longleftrightarrow> (\<exists>r. rec_at (es_rows st) m = Some r \<and> dr_domain r = d)" (is "?a \<longleftrightarrow> ?b")
  proof
    assume ?a
    then obtain k r where "(k, RecRow r) \<in> set (ks_scan ''did:'' (es_rows st))" "dr_mnemonic r = m" "dr_domain r = d" by blast
    then show ?b using scan_did_iff[OF assms(1), of r] by blast
  next
    assume ?b
    then obtain r where r: "rec_at (es_rows st) m = Some r" "dr_domain r = d" by blast
    have "dr_mnemonic r = m" using assms(1) r(1) by (simp add: edge_ok_def)
    then show ?a using scan_did_iff[OF assms(1), of r] r assms(2) by blast
  qed
  then show ?thesis unfolding purge_domain_dids_def conjunct1[OF purge_rows_rec] by (auto split: option.splits)
qed

lemma purge_keeps_content:
  assumes "edge_ok env st" "rec_at (snd (purge_domain_dids env d (es_rows st))) m = Some r"
  shows "get_raw (snd (purge_domain_dids env d (es_rows st))) (content_log_key m) = log_at st m"
    "get_raw (snd (purge_domain_dids env d (es_rows st))) (content_witness_key m) = proofs_at st m"
  using purge_nothing_new[of "es_rows st" env d] assms(2) unfolding nothing_new_def by blast+

section \<open>The schedule of an edge\<close>

text \<open>Purges are filed under the domain they are for, and assignments under theirs.\<close>

interpretation schedr: keyed_rows ks_get ks_put ks_del ks_scan ks_ok pending_key "''pending_purges:''" pp_domain
  by unfold_locales (auto simp: pending_key_def)

definition schedule_ok :: "pending_purge ks \<Rightarrow> bool" where
  "schedule_ok s \<longleftrightarrow> schedr.keyed s \<and> (\<forall>j p. ks_get s j = Some p \<longrightarrow> pp_domain p \<noteq> [])"

lemma schedule_cancel: "schedule_ok s \<Longrightarrow> schedule_ok (snd (pp_cancel d s))"
  by (auto simp: schedule_ok_def schedr.keyed_def pp_cancel_rows pp_cancel_ok split: if_splits)

lemma schedule_add: "schedule_ok s \<Longrightarrow> d \<noteq> [] \<Longrightarrow> schedule_ok (snd (pp_schedule d at g reason who s))"
  by (auto simp: schedule_ok_def schedr.keyed_def pp_schedule_rows ks_simps split: if_splits)

lemma schedule_upsert: "schedule_ok s \<Longrightarrow> d \<noteq> [] \<Longrightarrow> schedule_ok (upsert_schedule control d e s)"
  using schedule_cancel schedule_add
  by (cases "dom_status e") (auto simp: upsert_schedule_def split: option.splits)

lemma schedule_listed: "schedule_ok s \<Longrightarrow> p \<in> set (pp_list s) \<longleftrightarrow> pp_get (pp_domain p) s = Some p"
  using schedr.listed_iff[of s p] by (simp add: schedule_ok_def pp_list_def pp_get_def)

text \<open>What a sweep over a list of pending purges leaves.\<close>

definition purged_by :: "nat \<Rightarrow> pending_purge list \<Rightarrow> string \<Rightarrow> bool" where
  "purged_by now ps d \<longleftrightarrow> (\<exists>p \<in> set ps. is_ripe p now \<and> pp_domain p = d)"

lemma sweep_entries_rec:
  assumes "edge_ok env st" "\<forall>p \<in> set ps. pp_domain p \<noteq> []"
  shows "rec_at (es_rows (snd (sweep_entries env now ps (n, st)))) m
    = (case rec_at (es_rows st) m of Some r \<Rightarrow> if purged_by now ps (dr_domain r) then None else Some r | None \<Rightarrow> None)"
  using assms
proof (induction ps arbitrary: n st)
  case Nil
  then show ?case by (auto simp: purged_by_def split: option.splits)
next
  case (Cons p ps)
  show ?case
  proof (cases "is_ripe p now")
    case False
    then have "purged_by now (p # ps) d \<longleftrightarrow> purged_by now ps d" for d by (simp add: purged_by_def)
    then show ?thesis using False Cons.IH[of st n] Cons.prems by (simp split: option.splits)
  next
    case True
    let ?st = "st\<lparr>es_rows := snd (purge_domain_dids env (pp_domain p) (es_rows st))\<rparr>"
    have o: "edge_ok env ?st" by (rule nothing_new_ok[OF Cons.prems(1)]) (simp_all add: purge_nothing_new)
    have s: "edge_ok env (?st\<lparr>es_store := x\<rparr>)" for x
      by (rule nothing_new_ok[OF Cons.prems(1)]) (simp_all add: purge_nothing_new)
    have r: "rec_at (es_rows ?st) m = (case rec_at (es_rows st) m of
        Some r \<Rightarrow> if dr_domain r = pp_domain p then None else Some r | None \<Rightarrow> None)"
      using purge_slots[OF Cons.prems(1)] Cons.prems(2) by simp
    have e: "\<exists>n' x. sweep_entries env now (p # ps) (n, st) = sweep_entries env now ps (n', ?st)
      \<or> sweep_entries env now (p # ps) (n, st) = sweep_entries env now ps (n', ?st\<lparr>es_store := x\<rparr>)"
      using True by (auto simp: Let_def split: sum.splits)
    then obtain n' x where "sweep_entries env now (p # ps) (n, st) = sweep_entries env now ps (n', ?st)
      \<or> sweep_entries env now (p # ps) (n, st) = sweep_entries env now ps (n', ?st\<lparr>es_store := x\<rparr>)" by blast
    then have "rec_at (es_rows (snd (sweep_entries env now (p # ps) (n, st)))) m
      = (case rec_at (es_rows ?st) m of Some r \<Rightarrow> if purged_by now ps (dr_domain r) then None else Some r | None \<Rightarrow> None)"
      using Cons.IH[OF o] Cons.IH[OF s] Cons.prems(2) by auto
    then show ?thesis unfolding r using True by (auto simp: purged_by_def split: option.splits)
  qed
qed

section \<open>Everything an edge does, with its schedule\<close>

inductive edge_op :: "('e, 'p, 'k) edge_env \<Rightarrow> edge_state \<Rightarrow> edge_state \<Rightarrow> bool" for env where
  SlotOp: "edge_step env st st' \<Longrightarrow> es_store st' = es_store st \<Longrightarrow> edge_op env st st'"
| AssignOp: "do_domain_assign env control now d st = (r, st') \<Longrightarrow> edge_op env st st'"
| UnassignOp: "do_domain_unassign env control now d st = (r', st') \<Longrightarrow> edge_op env st st'"
| PurgeOp: "do_domain_purge env issued_at d st = (r', st') \<Longrightarrow> edge_op env st st'"
| UpsertOp: "do_domain_upsert env control e st = (r, st') \<Longrightarrow> edge_op env st st'"
| SweepOp: "run_sweep_once env now st = (n, st') \<Longrightarrow> edge_op env st st'"

lemma canonical_not_Nil: "canonical_domain env name = Inr d \<Longrightarrow> d = name \<and> d \<noteq> []"
  by (auto simp: canonical_domain_def normalize_domain_name_def split: sum.splits if_splits)

lemma upsert_store:
  assumes "do_domain_upsert env control e st = (r, st')"
  shows "st' = st \<or> (dom_name e \<noteq> [] \<and> (\<exists>s. purges s = es_purges st
    \<and> st' = st\<lparr>es_store := s\<lparr>purges := upsert_schedule control (dom_name e) e (purges s)\<rparr>\<rparr>))"
proof -
  have p: "purges s = es_purges st" if "and_then (get_domain ph d (es_store st)) (\<lambda>held.
      if held \<noteq> None then update_domain ph d e (es_store st) else create_domain ph e (es_store st)) = Inr s" for ph d s
    using that by (auto simp: res_simps update_domain_Inr create_domain_Inr split: if_splits)
  show ?thesis
    using assms p normalize_id[of "ee_parse_host env" "dom_name e"]
    by (auto simp: do_domain_upsert_def Let_def normalize_domain_name_def split: sum.splits if_splits)
qed

lemma deleted_purges: "delete_domain_record ph k s = Inr x \<Longrightarrow> purges x = purges s"
  by (auto simp: delete_domain_Inr)

lemma sweep_entries_keeps:
  "edge_ok env st \<Longrightarrow> schedule_ok (es_purges st) \<Longrightarrow> edge_ok env (snd (sweep_entries env now ps (n, st)))
    \<and> schedule_ok (es_purges (snd (sweep_entries env now ps (n, st))))"
proof (induction ps arbitrary: n st)
  case (Cons p ps)
  let ?st = "st\<lparr>es_rows := snd (purge_domain_dids env (pp_domain p) (es_rows st))\<rparr>"
  have o: "edge_ok env (?st\<lparr>es_store := x\<rparr>)" for x
    by (rule nothing_new_ok[OF Cons.prems(1)]) (simp_all add: purge_nothing_new)
  have o': "edge_ok env ?st" using o[of "es_store ?st"] by simp
  show ?case
    using Cons.IH[OF Cons.prems] Cons.IH[OF o'] Cons.IH[OF o] Cons.prems(2) schedule_cancel[OF Cons.prems(2)]
    by (auto simp: Let_def dest: deleted_purges split: sum.splits if_splits)
qed simp

lemma edge_op_keeps:
  assumes "edge_op env st st'" "edge_ok env st" "schedule_ok (es_purges st)"
  shows "edge_ok env st' \<and> schedule_ok (es_purges st')"
proof -
  have k: "edge_ok env x" if "es_rows x = es_rows st" "es_hw_ids x = es_hw_ids st" for x
    by (rule nothing_new_ok[OF assms(2)]) (simp_all add: that)
  note c = schedule_cancel[OF assms(3)]
  from assms(1) show ?thesis
  proof cases
    case SlotOp
    then show ?thesis using edge_stepD(1)[OF _ assms(2)] assms(3) by simp
  next
    case (AssignOp control now d r)
    then show ?thesis using k assms(2,3) c by (auto simp: do_domain_assign_def split: sum.splits)
  next
    case (UnassignOp control now d r)
    have a: "schedule_ok (snd (pp_schedule x2 at g reason who (es_purges st)))" if "canonical_domain env d = Inr x2" for x2 at g reason who
      using schedule_add[OF assms(3)] canonical_not_Nil[OF that] by blast
    from UnassignOp show ?thesis using k assms(2,3) a
      by (auto simp: do_domain_unassign_def unassign_def split: sum.splits option.splits)
  next
    case (PurgeOp issued_at d r)
    have "nothing_new (es_rows st) (es_rows st')" "es_hw_ids st' = es_hw_ids st" "st' = st \<or> (\<exists>x. es_purges st' = snd (pp_cancel x (es_purges st)))"
      using PurgeOp purge_nothing_new[of "es_rows st" env]
      by (auto simp: do_domain_purge_def split: sum.splits if_splits prod.splits) (metis snd_conv)+
    then show ?thesis using nothing_new_ok[OF assms(2)] c assms(3) by metis
  next
    case (UpsertOp control e r)
    note UpsertOp
    then show ?thesis
    proof (rule upsert_store[THEN disjE])
      assume "dom_name e \<noteq> [] \<and> (\<exists>s. purges s = es_purges st
        \<and> st' = st\<lparr>es_store := s\<lparr>purges := upsert_schedule control (dom_name e) e (purges s)\<rparr>\<rparr>)"
      then obtain s where n: "dom_name e \<noteq> []" and s: "purges s = es_purges st"
        "st' = st\<lparr>es_store := s\<lparr>purges := upsert_schedule control (dom_name e) e (purges s)\<rparr>\<rparr>" by blast
      have "edge_ok env st'" by (rule k) (simp_all add: s(2))
      then show ?thesis using schedule_upsert[OF assms(3) n] s by simp
    qed (use assms(2,3) in simp)
  next
    case (SweepOp now n)
    then show ?thesis using sweep_entries_keeps[OF assms(2,3)] by (metis run_sweep_once_def snd_conv)
  qed
qed

lemma edge_ops_keep:
  "(edge_op env)\<^sup>*\<^sup>* st st' \<Longrightarrow> edge_ok env st \<Longrightarrow> schedule_ok (es_purges st) \<Longrightarrow> edge_ok env st' \<and> schedule_ok (es_purges st')"
  by (induction rule: rtranclp_induct) (auto dest: edge_op_keeps)

lemma new_edge_schedule: "schedule_ok (es_purges new_edge)"
  by (simp add: new_edge_def schedule_ok_def schedr.keyed_def)


section \<open>What a sweep does\<close>

lemma sweep_schedule:
  "ks_get (es_purges (snd (sweep_entries env now ps (n, st)))) j = None
    \<or> ks_get (es_purges (snd (sweep_entries env now ps (n, st)))) j = ks_get (es_purges st) j"
  "es_assignments (snd (sweep_entries env now ps (n, st))) = es_assignments st"
proof (induction ps arbitrary: n st)
  case (Cons p ps)
  {
    case 1
    let ?st = "st\<lparr>es_rows := snd (purge_domain_dids env (pp_domain p) (es_rows st))\<rparr>"
    have c: "ks_get (es_purges (?st\<lparr>es_store := x\<lparr>purges := snd (pp_cancel (pp_domain p) (purges x))\<rparr>\<rparr>)) j = None
      \<or> ks_get (es_purges (?st\<lparr>es_store := x\<lparr>purges := snd (pp_cancel (pp_domain p) (purges x))\<rparr>\<rparr>)) j = ks_get (purges x) j" for x
      by (simp add: pp_cancel_rows)
    show ?case using Cons.IH(1)[of n st] Cons.IH(1)[of n ?st]
        Cons.IH(1)[of "n + 1" "?st\<lparr>es_store := x\<lparr>purges := snd (pp_cancel (pp_domain p) (purges x))\<rparr>\<rparr>" for x] c
      by (fastforce simp: Let_def dest: deleted_purges split: sum.splits if_splits)
  next
    case 2
    show ?case using Cons.IH(2) by (auto simp: Let_def split: sum.splits if_splits)
  }
qed auto

lemma purged_by_listed:
  assumes "schedule_ok s"
  shows "purged_by now (pp_list s) d \<longleftrightarrow> (\<exists>p. pp_get d s = Some p \<and> is_ripe p now)"
proof -
  have "pp_domain p = d" if "pp_get d s = Some p" for p
    using assms that schedr.get_ident by (auto simp: schedule_ok_def pp_get_def)
  then show ?thesis using schedule_listed[OF assms] by (auto simp: purged_by_def)
qed

lemma sweep_listed_domains: "schedule_ok s \<Longrightarrow> \<forall>p \<in> set (pp_list s). pp_domain p \<noteq> []"
  using schedule_listed by (auto simp: schedule_ok_def pp_get_def)

lemma sweep_nothing_new:
  "ks_ok (es_rows st) \<Longrightarrow> nothing_new (es_rows st) (es_rows (snd (sweep_entries env now ps (n, st))))"
proof (induction ps arbitrary: n st)
  case (Cons p ps)
  let ?st = "st\<lparr>es_rows := snd (purge_domain_dids env (pp_domain p) (es_rows st))\<rparr>"
  have p: "nothing_new (es_rows st) (es_rows ?st)" by (simp add: purge_nothing_new)
  then have o: "ks_ok (es_rows ?st)" using Cons.prems by (simp add: nothing_new_def)
  have s: "nothing_new (es_rows st) (es_rows (snd (sweep_entries env now ps (n', ?st\<lparr>es_store := x\<rparr>))))" for n' x
    using nothing_new_trans[OF p] Cons.IH[of "?st\<lparr>es_store := x\<rparr>" n'] o by simp
  have s': "nothing_new (es_rows st) (es_rows (snd (sweep_entries env now ps (n', ?st))))" for n'
    using s[of n' "es_store ?st"] by simp
  show ?case using Cons.IH[OF Cons.prems] s s' by (simp add: Let_def split: sum.splits)
qed simp

lemma edge_ops_ok:
  assumes "(edge_op env)\<^sup>*\<^sup>* new_edge st"
  shows "edge_ok env st" "schedule_ok (es_purges st)"
  using edge_ops_keep[OF assms new_edge_ok new_edge_schedule] by blast+

lemma sweep_effect:
  assumes "(edge_op env)\<^sup>*\<^sup>* new_edge st" "run_sweep_once env now st = (n, st')"
  shows "rec_at (es_rows st') m = (case rec_at (es_rows st) m of
      Some r \<Rightarrow> if \<exists>p. pp_get (dr_domain r) (es_purges st) = Some p \<and> is_ripe p now then None else Some r
    | None \<Rightarrow> None)
    \<and> (rec_at (es_rows st') m \<noteq> None \<longrightarrow> log_at st' m = log_at st m \<and> proofs_at st' m = proofs_at st m)"
proof -
  note o = edge_ops_ok[OF assms(1)]
  have st: "st' = snd (sweep_entries env now (pp_list (es_purges st)) (0, st))"
    using assms(2) by (metis run_sweep_once_def snd_conv)
  have "nothing_new (es_rows st) (es_rows st')"
    unfolding st using o(1) by (intro sweep_nothing_new) (simp add: edge_ok_def)
  then show ?thesis
    using sweep_entries_rec[OF o(1) sweep_listed_domains[OF o(2)], of now 0 m]
    unfolding st purged_by_listed[OF o(2)] nothing_new_def by blast
qed

text \<open>C25: One sweep of an edge deletes exactly the slots whose domain has a scheduled purge that is due,
  and leaves the record, the log and the witness proofs of every other slot as they were.\<close>

theorem edge_sweep_exact:
  assumes "(edge_op env)\<^sup>*\<^sup>* new_edge st" "run_sweep_once env now st = (n, st')"
  shows "rec_at (es_rows st') m = (case rec_at (es_rows st) m of
      Some r \<Rightarrow> if \<exists>p. pp_get (dr_domain r) (es_purges st) = Some p \<and> is_ripe p now then None else Some r
    | None \<Rightarrow> None)
    \<and> (rec_at (es_rows st') m \<noteq> None \<longrightarrow> log_at st' m = log_at st m \<and> proofs_at st' m = proofs_at st m)"
  by (rule sweep_effect[OF assms])

text \<open>A slot whose domain has nothing scheduled survives a sweep.\<close>

lemma sweep_spares:
  assumes "(edge_op env)\<^sup>*\<^sup>* new_edge st" "run_sweep_once env now st = (n, st')"
    "rec_at (es_rows st) m = Some r" "pp_get (dr_domain r) (es_purges st) = None"
  shows "rec_at (es_rows st') m = Some r \<and> log_at st' m = log_at st m \<and> proofs_at st' m = proofs_at st m"
  using sweep_effect[OF assms(1,2), of m] assms(3,4) by simp

section \<open>An assigned domain keeps its data\<close>

text \<open>What may happen after an assignment of the domain at some time: work on slots, directives about
  other domains, further assignments, purges however old, and sweeps.\<close>

inductive spares :: "('e, 'p, 'k) edge_env \<Rightarrow> string \<Rightarrow> nat \<Rightarrow> edge_state \<Rightarrow> edge_state \<Rightarrow> bool" for env d t0 where
  SparesSlots: "\<lbrakk>edge_step env st st'; es_store st' = es_store st; es_assignments st' = es_assignments st\<rbrakk> \<Longrightarrow> spares env d t0 st st'"
| SparesAssign: "do_domain_assign env control now e st = (r, st') \<Longrightarrow> t0 \<le> now \<Longrightarrow> spares env d t0 st st'"
| SparesUnassign: "do_domain_unassign env control now e st = (r', st') \<Longrightarrow> e \<noteq> d \<Longrightarrow> spares env d t0 st st'"
| SparesPurge: "do_domain_purge env issued_at e st = (r', st') \<Longrightarrow> spares env d t0 st st'"
| SparesUpsert: "do_domain_upsert env control e st = (r, st') \<Longrightarrow> dom_name e \<noteq> d \<or> dom_status e = Active \<Longrightarrow> spares env d t0 st st'"
| SparesSweep: "run_sweep_once env now st = (n, st') \<Longrightarrow> spares env d t0 st st'"

definition assigned_since :: "string \<Rightarrow> nat \<Rightarrow> edge_state \<Rightarrow> bool" where
  "assigned_since d t0 st \<longleftrightarrow> pp_get d (es_purges st) = None
     \<and> (\<exists>a. ks_get (es_assignments st) (assignment_key d) = Some a \<and> t0 \<le> as_assigned_at a)"

lemma assignment_key_inj [simp]: "assignment_key a = assignment_key b \<longleftrightarrow> a = b"
  by (simp add: assignment_key_def)

lemma assign_assigned:
  assumes "do_domain_assign env control now d st = (Inr x, st')" "t0 \<le> now"
  shows "assigned_since d t0 st'"
  using assms canonical_not_Nil[of env d]
  by (auto simp: do_domain_assign_def assigned_since_def record_assignment_def Let_def pp_cancel_rows pp_get_def ks_simps
      split: sum.splits)

lemma upsert_schedule_spares:
  "x \<noteq> d \<or> dom_status e = Active \<Longrightarrow> pp_get d s = None \<Longrightarrow> pp_get d (upsert_schedule control x e s) = None"
  by (cases "dom_status e") (auto simp: upsert_schedule_def pp_cancel_rows pp_schedule_rows pp_get_def ks_simps split: option.splits)

lemma spares_assigned:
  assumes "spares env d t0 st st'" "assigned_since d t0 st"
  shows "assigned_since d t0 st'"
  using assms(1)
proof cases
  case (SparesAssign control now e r)
  then show ?thesis using assms(2)
    by (auto simp: do_domain_assign_def assigned_since_def record_assignment_def Let_def pp_cancel_rows pp_get_def ks_simps
        split: sum.splits)
next
  case (SparesUnassign control now e r)
  then show ?thesis using assms(2) canonical_not_Nil[of env e]
    by (auto simp: do_domain_unassign_def unassign_def assigned_since_def pp_schedule_rows pp_get_def ks_simps
        split: sum.splits option.splits)
next
  case (SparesPurge issued_at e r)
  then show ?thesis using assms(2)
    by (auto simp: do_domain_purge_def assigned_since_def pp_cancel_rows pp_get_def split: sum.splits if_splits prod.splits)
next
  case (SparesUpsert control e r)
  from SparesUpsert(1) show ?thesis
  proof (rule upsert_store[THEN disjE])
    assume "dom_name e \<noteq> [] \<and> (\<exists>s. purges s = es_purges st
      \<and> st' = st\<lparr>es_store := s\<lparr>purges := upsert_schedule control (dom_name e) e (purges s)\<rparr>\<rparr>)"
    then obtain s where s: "purges s = es_purges st"
      "st' = st\<lparr>es_store := s\<lparr>purges := upsert_schedule control (dom_name e) e (purges s)\<rparr>\<rparr>" by blast
    have "pp_get d (es_purges st') = None"
      using upsert_schedule_spares[OF SparesUpsert(2)] assms(2) s by (simp add: assigned_since_def)
    then show ?thesis using assms(2) s(2) by (simp add: assigned_since_def)
  qed (use assms(2) in simp)
next
  case (SparesSweep now n)
  then have "st' = snd (sweep_entries env now (pp_list (es_purges st)) (0, st))" by (metis run_sweep_once_def snd_conv)
  then show ?thesis using assms(2) sweep_schedule(1)[of env now "pp_list (es_purges st)" 0 st "pending_key d"]
      sweep_schedule(2)[of env now "pp_list (es_purges st)" 0 st]
    unfolding assigned_since_def pp_get_def by metis
qed (use assms(2) in \<open>simp add: assigned_since_def\<close>)

lemma spares_run: "(spares env d t0)\<^sup>*\<^sup>* st st' \<Longrightarrow> assigned_since d t0 st \<Longrightarrow> assigned_since d t0 st'"
  by (induction rule: rtranclp_induct) (auto dest: spares_assigned)

lemma spares_op: "spares env d t0 st st' \<Longrightarrow> edge_op env st st'"
  by (erule spares.cases) (blast intro: edge_op.intros)+

lemma spares_ops: "(spares env d t0)\<^sup>*\<^sup>* st st' \<Longrightarrow> (edge_op env)\<^sup>*\<^sup>* st st'"
  by (induction rule: rtranclp_induct) (auto dest: spares_op intro: rtranclp.rtrancl_into_rtrancl)


text \<open>C26: Data of an assigned domain cannot be purged by a stale decision. Once an edge has accepted the
  assignment of a domain, then - whatever was scheduled or deleted before, and whatever slot work,
  assignments, directives about other domains, purges and sweeps follow - no sweep and no purge of the
  domain issued before the assignment removes a slot of that domain or changes its content.\<close>

theorem assigned_domain_survives:
  assumes "(edge_op env)\<^sup>*\<^sup>* new_edge st0" "do_domain_assign env control t0 d st0 = (Inr d, st1)"
    "(spares env d t0)\<^sup>*\<^sup>* st1 st2"
    "run_sweep_once env now st2 = (n, st3) \<or> (do_domain_purge env issued_at e st2 = (out, st3) \<and> (e \<noteq> d \<or> issued_at < t0))"
    "rec_at (es_rows st2) m = Some r" "dr_domain r = d"
  shows "rec_at (es_rows st3) m = Some r \<and> log_at st3 m = log_at st2 m \<and> proofs_at st3 m = proofs_at st2 m"
proof -
  have a: "assigned_since d t0 st2" using spares_run[OF assms(3)] assign_assigned[OF assms(2)] by blast
  have "edge_op env st0 st1" using assms(2) by (rule edge_op.AssignOp)
  then have run: "(edge_op env)\<^sup>*\<^sup>* new_edge st2" using assms(1) spares_ops[OF assms(3)] by simp
  note o = edge_ops_ok[OF run]
  show ?thesis using assms(4)
  proof
    assume "run_sweep_once env now st2 = (n, st3)"
    then show ?thesis using sweep_spares[OF run] a assms(5,6) by (simp add: assigned_since_def)
  next
    assume p: "do_domain_purge env issued_at e st2 = (out, st3) \<and> (e \<noteq> d \<or> issued_at < t0)"
    show ?thesis
    proof (cases "st3 = st2")
      case False
      then obtain x where x: "canonical_domain env e = Inr x" "es_rows st3 = snd (purge_domain_dids env x (es_rows st2))" "x \<noteq> d"
        using p a canonical_not_Nil[of env e]
        by (fastforce simp: do_domain_purge_def assigned_since_def split: sum.splits if_splits prod.splits option.splits)
      have "x \<noteq> []" using canonical_not_Nil[OF x(1)] by blast
      then have s: "rec_at (es_rows st3) m = Some r" using purge_slots[OF o(1)] assms(5,6) x(2,3) by simp
      then show ?thesis using purge_keeps_content[OF o(1), of x m r] x(2) by simp
    qed (use assms(5) in simp)
  qed
qed


section \<open>An edge that is assigned a domain, and loses it again\<close>

definition assigned_edge :: edge_state where
  "assigned_edge = snd (do_domain_assign edge_sample ''c'' 10 ''a.org'' edge_first)"

definition leaving_edge :: edge_state where
  "leaving_edge = snd (do_domain_unassign edge_sample ''c'' 20 ''a.org'' assigned_edge)"

definition returned_edge :: edge_state where
  "returned_edge = snd (do_domain_assign edge_sample ''c'' 30 ''a.org'' leaving_edge)"

lemma edge_first_op: "(edge_op edge_sample)\<^sup>*\<^sup>* new_edge edge_first"
proof -
  have u: "utf8_text (su_log (version_update [''al'']))" by code_simp
  have "domains (es_store edge_first) = [] \<and> meta (es_store edge_first) = [] \<and> purges (es_store edge_first) = []"
    by code_simp
  then have "es_store edge_first = es_store new_edge" by (simp add: new_edge_def)
  moreover have "edge_step edge_sample new_edge edge_first"
    using edge_step.Sync[OF u, of edge_sample 7] unfolding edge_first_def by (metis prod.collapse)
  ultimately show ?thesis by (auto intro: edge_op.SlotOp)
qed

lemma leaving_run: "(edge_op edge_sample)\<^sup>*\<^sup>* new_edge leaving_edge"
proof -
  have "edge_op edge_sample edge_first assigned_edge" unfolding assigned_edge_def by (metis edge_op.AssignOp prod.collapse)
  moreover have "edge_op edge_sample assigned_edge leaving_edge"
    unfolding leaving_edge_def by (metis edge_op.UnassignOp prod.collapse)
  ultimately show ?thesis using edge_first_op by (meson rtranclp.rtrancl_into_rtrancl)
qed

theorem edge_sweep_exact_witness:
  "rec_at (es_rows leaving_edge) ''p'' \<noteq> None
    \<and> rec_at (es_rows (snd (run_sweep_once edge_sample 7220 leaving_edge))) ''p'' = None
    \<and> rec_at (es_rows (snd (run_sweep_once edge_sample 7219 leaving_edge))) ''p'' = rec_at (es_rows leaving_edge) ''p''"
proof -
  have "map_option dr_domain (rec_at (es_rows leaving_edge) ''p'') = Some ''a.org''"
    "map_option (\<lambda>p. (is_ripe p 7220, is_ripe p 7219)) (pp_get ''a.org'' (es_purges leaving_edge)) = Some (True, False)"
    by code_simp+
  then show ?thesis
    using edge_sweep_exact[OF leaving_run prod.collapse[symmetric], of 7220 "''p''"]
      edge_sweep_exact[OF leaving_run prod.collapse[symmetric], of 7219 "''p''"] by auto
qed

theorem assigned_domain_survives_witness:
  "rec_at (es_rows returned_edge) ''p'' \<noteq> None
    \<and> rec_at (es_rows (snd (run_sweep_once edge_sample 99999 returned_edge))) ''p'' = rec_at (es_rows returned_edge) ''p''
    \<and> rec_at (es_rows (snd (do_domain_purge edge_sample 29 ''a.org'' returned_edge))) ''p'' = rec_at (es_rows returned_edge) ''p''"
proof -
  have a: "do_domain_assign edge_sample ''c'' 30 ''a.org'' leaving_edge = (Inr ''a.org'', returned_edge)"
  proof -
    have "fst (do_domain_assign edge_sample ''c'' 30 ''a.org'' leaving_edge) = Inr ''a.org''" by code_simp
    then show ?thesis by (simp add: returned_edge_def prod_eq_iff)
  qed
  have "map_option dr_domain (rec_at (es_rows returned_edge) ''p'') = Some ''a.org''" by code_simp
  then obtain r where r: "rec_at (es_rows returned_edge) ''p'' = Some r" "dr_domain r = ''a.org''" by auto
  have sweep: "\<exists>n. run_sweep_once edge_sample 99999 returned_edge = (n, snd (run_sweep_once edge_sample 99999 returned_edge))"
    and purge: "\<exists>out. do_domain_purge edge_sample 29 ''a.org'' returned_edge
      = (out, snd (do_domain_purge edge_sample 29 ''a.org'' returned_edge)) \<and> (''a.org'' \<noteq> ''a.org'' \<or> 29 < (30::nat))"
    by (metis prod.collapse, simp add: prod_eq_iff)
  from sweep purge show ?thesis
    using assigned_domain_survives[OF leaving_run a rtranclp.rtrancl_refl _ r] r(1) by (metis option.distinct(1))
qed

text \<open>The purge an unassignment announced does not survive a refresh of the domain's entry: an active
  entry, which the control plane also re-sends at every registration, cancels it although the domain
  stays unassigned.\<close>

lemma refresh_cancels_unassignment:
  assumes "do_domain_upsert env control e st = (Inr d, st')" "dom_status e = Active"
  shows "pp_get d (es_purges st') = None \<and> es_assignments st' = es_assignments st \<and> es_rows st' = es_rows st"
  using assms normalize_id[of "ee_parse_host env" "dom_name e"]
  by (auto simp: do_domain_upsert_def upsert_schedule_def Let_def pp_cancel_rows pp_get_def split: sum.splits if_splits)

definition refreshed_edge :: edge_state where
  "refreshed_edge = snd (do_domain_upsert edge_sample ''c'' (new_entry ''a.org'' None 5 False) leaving_edge)"

lemma unassigned_data_kept:
  "fst (do_domain_unassign edge_sample ''c'' 20 ''a.org'' assigned_edge) = Inr (''a.org'', 7220)
    \<and> ks_get (es_assignments refreshed_edge) (assignment_key ''a.org'') = None
    \<and> rec_at (es_rows (snd (run_sweep_once edge_sample 99999 refreshed_edge))) ''p'' \<noteq> None"
  by code_simp

end
