(* ===== verification/RequestHost.thy ===== *)
theory RequestHost
  imports Prelude
begin

text \<open>
  Which host a public request is for (did-hosting-common/src/server/domain/detect.rs and
  did-hosting-server/src/routes/resolve_shared.rs): forwarded headers count only when the direct
  peer lies in a trusted network. Membership of an address in a network is the ipnetwork crate's,
  a parameter; a header that is not visible ASCII is taken as absent.
\<close>

record host_headers =
  hh_host :: "string option"
  hh_forwarded :: "string option"
  hh_x_forwarded_host :: "string option"

definition peer_is_trusted :: "('n \<Rightarrow> 'i \<Rightarrow> bool) \<Rightarrow> 'i option \<Rightarrow> 'n list \<Rightarrow> bool" where
  "peer_is_trusted contains peer cidrs = (case peer of
     None \<Rightarrow> False | Some ip \<Rightarrow> list_ex (\<lambda>n. contains n ip) cidrs)"

definition first_xff_value :: "string \<Rightarrow> string option" where
  "first_xff_value header = (let first = trim (hd (split_on (CHR '','') header))
     in if first = [] then None else Some first)"

definition strip_quotes :: "string \<Rightarrow> string" where
  "strip_quotes value = (case Option.bind (strip_prefix_str [CHR 0x22] value) (strip_suffix_str [CHR 0x22]) of
     Some s \<Rightarrow> s | None \<Rightarrow> value)"

fun forwarded_pairs :: "string list \<Rightarrow> string option" where
  "forwarded_pairs [] = None"
| "forwarded_pairs (raw # rest) = (case split_once (CHR ''='') (trim raw) of
     None \<Rightarrow> None
   | Some (name, v) \<Rightarrow>
       if \<not> eq_ignore_ascii_case (trim name) ''host'' then forwarded_pairs rest
       else let stripped = strip_quotes (trim v) in if stripped = [] then None else Some stripped)"

definition parse_forwarded_host :: "string \<Rightarrow> string option" where
  "parse_forwarded_host header = forwarded_pairs (split_on (CHR '';'') (hd (split_on (CHR '','') header)))"

definition resolve_request_host ::
  "('n \<Rightarrow> 'i \<Rightarrow> bool) \<Rightarrow> host_headers \<Rightarrow> 'i option \<Rightarrow> 'n list \<Rightarrow> string option" where
  "resolve_request_host contains h peer cidrs =
    (if peer_is_trusted contains peer cidrs
     then (case Option.bind (hh_forwarded h) parse_forwarded_host of
         Some host \<Rightarrow> Some host
       | None \<Rightarrow> (case Option.bind (hh_x_forwarded_host h) first_xff_value of
             Some first \<Rightarrow> Some first | None \<Rightarrow> hh_host h))
     else hh_host h)"

section \<open>Lemmas\<close>

text \<open>A peer outside the trusted networks cannot choose the host by forwarded headers.\<close>

lemma untrusted_peer_host:
  "\<not> peer_is_trusted contains peer cidrs \<Longrightarrow> resolve_request_host contains h peer cidrs = hh_host h"
  by (simp add: resolve_request_host_def)

definition token_char :: "char \<Rightarrow> bool" where
  "token_char c \<longleftrightarrow> is_alnum c \<or> c \<in> {CHR ''.'', CHR ''-'', CHR '':'', CHR ''['', CHR '']''}"

lemma token_char_facts: "\<not> token_char (CHR '','')" "\<not> token_char (CHR '';'')" "\<not> token_char (CHR ''='')"
  "\<not> token_char (CHR 0x22)"
  by code_simp+


lemma strip_all_plain: "\<forall>w \<in> set ws. \<not> prefix w s \<Longrightarrow> strip_all n ws s = s"
proof (cases n)
  case (Suc k)
  assume "\<forall>w \<in> set ws. \<not> prefix w s"
  then have "find (\<lambda>w. prefix w s) ws = None" by (simp add: find_None_iff)
  then show ?thesis by (simp add: Suc)
qed simp

lemma trim_token:
  assumes "s \<noteq> []" "token_char (hd s)" "token_char (last s)"
  shows "trim s = s"
proof -
  have w: "\<forall>w \<in> set white_space. w \<noteq> [] \<and> \<not> token_char (hd w) \<and> \<not> token_char (last w)" by code_simp
  have "\<not> prefix w s" if "w \<in> set white_space" for w
    using w that assms(1,2) by (auto simp: prefix_def hd_append)
  then have a: "trim_start s = s" unfolding trim_start_def by (intro strip_all_plain) blast
  have "\<not> prefix (rev w) (rev s)" if "w \<in> set white_space" for w
  proof
    assume "prefix (rev w) (rev s)"
    then obtain z where "s = z @ w" by (auto simp: suffix_to_prefix[symmetric] suffix_def)
    then show False using w that assms(3) by auto
  qed
  then have "trim_end s = s" unfolding trim_end_def by (subst strip_all_plain) auto
  then show ?thesis by (simp add: trim_def a)
qed

lemma forwarded_host_read:
  assumes "h \<noteq> []" "list_all token_char h"
  shows "parse_forwarded_host (''host='' @ h) = Some h"
proof -
  have m: "token_char c" if "c \<in> set h" for c using assms(2) that by (simp add: list_all_iff)
  have h: "CHR '','' \<notin> set h" "CHR '';'' \<notin> set h" "CHR 0x22 \<notin> set h" using m token_char_facts by blast+
  have "trim (''host='' @ h) = ''host='' @ h"
    using assms(1) m by (intro trim_token) (auto simp: token_char_def is_alnum_def is_lower_def)
  moreover have "split_once (CHR ''='') (''host='' @ h) = Some (''host'', h)" by (simp add: split_once_Some)
  moreover have "trim h = h" using assms(1) m by (intro trim_token) auto
  moreover have "strip_quotes h = h" using h(3) assms(1) by (auto simp: strip_quotes_def strip_prefix_str_def prefix_def)
  moreover have "eq_ignore_ascii_case (trim ''host'') ''host''" by code_simp
  ultimately show ?thesis
    using h assms(1) by (simp add: parse_forwarded_host_def split_on_no_sep)
qed

text \<open>The host of a request behind a proxy: a Forwarded header that names a host is believed
  exactly when the direct peer is in a trusted network; from any other peer the Host header decides,
  whatever the forwarded headers say.\<close>

theorem request_host_gated:
  assumes "h \<noteq> []" "list_all token_char h"
  shows "resolve_request_host contains \<lparr>hh_host = a, hh_forwarded = Some (''host='' @ h), hh_x_forwarded_host = x\<rparr> peer cidrs
    = (if peer_is_trusted contains peer cidrs then Some h else a)"
  using forwarded_host_read[OF assms] by (simp add: resolve_request_host_def)

theorem request_host_gated_witness:
  "resolve_request_host (=) \<lparr>hh_host = Some ''in.org'', hh_forwarded = Some (''host='' @ ''a.org:8443''),
      hh_x_forwarded_host = None\<rparr> (Some (2::nat)) [2, 5] = Some ''a.org:8443''
   \<and> resolve_request_host (=) \<lparr>hh_host = Some ''in.org'', hh_forwarded = Some (''host='' @ ''a.org:8443''),
      hh_x_forwarded_host = None\<rparr> (Some (3::nat)) [2, 5] = Some ''in.org''"
proof -
  have h: "''a.org:8443'' \<noteq> []" "list_all token_char ''a.org:8443''" by code_simp+
  have t: "peer_is_trusted (=) (Some (2::nat)) [2, 5]" "\<not> peer_is_trusted (=) (Some (3::nat)) [2, 5]" by code_simp+
  show ?thesis using t by (simp only: request_host_gated[OF h]) simp
qed

end
