(* ===== verification/Resolve.thy ===== *)
theory Resolve
  imports EdgeDomains RequestHost DidContent
begin

text \<open>
  What a hosting server answers to the public: the artifacts of did:webvh, did:webs and did:web
  slots (did-hosting-server/src/routes/resolve_webvh.rs, resolve_webs.rs, resolve_web.rs), the
  dispatcher over them (did_public.rs) and agent names (resolve_agent_name.rs). A handler runs at
  once against the state; it changes nothing but the cache. Instants are in nanoseconds, as the
  cache counts them.
\<close>

section \<open>Requests and replies\<close>

text \<open>re_listen is the address the server listens on, the base URL without a public one; the methods
  compiled in are re_webvh, re_web and the option on the did:webs parser.\<close>

record ('e, 'p, 'k, 'n, 'i) resolve_env =
  re_edge :: "('e, 'p, 'k) edge_env"
  re_listen :: string
  re_ttl :: nat
  re_trusted :: "'n list"
  re_contains :: "'n \<Rightarrow> 'i \<Rightarrow> bool"
  re_webvh :: bool
  re_web :: bool
  re_header_ok :: "string \<Rightarrow> bool"

record 'i request =
  rq_path :: string
  rq_headers :: host_headers
  rq_peer :: "'i option"
  rq_accept :: "string option"

text \<open>rp_counted: the resolve is reported to the statistics collector.\<close>

record reply =
  rp_type :: string
  rp_cache_control :: "string option"
  rp_body :: string
  rp_counted :: bool

abbreviation re_lib :: "('e, 'p, 'k, 'n, 'i) resolve_env \<Rightarrow> ('e, 'p, 'k) log_lib" where
  "re_lib env \<equiv> ee_lib (re_edge env)"

definition extract_request_host :: "('e, 'p, 'k, 'n, 'i) resolve_env \<Rightarrow> 'i request \<Rightarrow> string option" where
  "extract_request_host env rq = resolve_request_host (re_contains env) (rq_headers rq) (rq_peer rq) (re_trusted env)"

definition JSONL_TYPE :: string where
  "JSONL_TYPE = ''application/jsonl+json''"

definition PUBLIC_CACHE :: string where
  "PUBLIC_CACHE = ''public, max-age=300''"

text \<open>The gate every artifact passes: the slot is neither disabled nor deleted, and its DID may be
  resolved on the host of the request.\<close>

definition slot_open ::
  "('e, 'p, 'k, 'n, 'i) resolve_env \<Rightarrow> edge_state \<Rightarrow> string option \<Rightarrow> did_record \<Rightarrow> unit res" where
  "slot_open env st host r =
    (if dr_disabled r \<or> dr_deleted_at r \<noteq> None then Inl NotFound
     else (case dr_did_id r of
         Some did \<Rightarrow> assert_resolution_allowed (ee_parse_host (re_edge env)) (ee_webs (re_edge env)) (es_store st) host did
       | None \<Rightarrow> Inr ()))"

section \<open>did:webvh artifacts (resolve_webvh.rs)\<close>

text \<open>The bytes of a miss: the stored content, cut for a log to the part that may be served.\<close>

definition load_content ::
  "('e, 'p, 'k, 'n, 'i) resolve_env \<Rightarrow> edge_state \<Rightarrow> string \<Rightarrow> string \<Rightarrow> string \<Rightarrow> string res" where
  "load_content env st m k ctype = (case get_raw (es_rows st) k of
     None \<Rightarrow> Inl NotFound
   | Some data \<Rightarrow>
       if ctype = JSONL_TYPE
       then (if \<not> utf8_text data then Inl Internal
             else ok_or NotFound (servable_did_log (re_lib env) data
               (map_option utf8_lossy (get_raw (es_rows st) (content_witness_key m)))))
       else Inr data)"

definition serve_content ::
  "('e, 'p, 'k, 'n, 'i) resolve_env \<Rightarrow> nat \<Rightarrow> string \<Rightarrow> string \<Rightarrow> string \<Rightarrow> bool \<Rightarrow> string option
   \<Rightarrow> edge_state \<Rightarrow> reply res \<times> edge_state" where
  "serve_content env now m k ctype track host st =
    (let answer = (\<lambda>d. \<lparr>rp_type = ctype, rp_cache_control = Some PUBLIC_CACHE, rp_body = d, rp_counted = track\<rparr>)
     in case get_record (es_rows st) (did_key m) of
       Inl e \<Rightarrow> (Inl e, st)
     | Inr None \<Rightarrow> (Inl NotFound, st)
     | Inr (Some r) \<Rightarrow> (case slot_open env st host r of
         Inl e \<Rightarrow> (Inl e, st)
       | Inr _ \<Rightarrow> (case cache_get (re_ttl env) now (es_cache st) k of
           Some d \<Rightarrow> (Inr (answer d), st)
         | None \<Rightarrow> (case load_content env st m k ctype of
             Inl e \<Rightarrow> (Inl e, st)
           | Inr d \<Rightarrow> (Inr (answer d), st\<lparr>es_cache := cache_insert now k d (es_cache st)\<rparr>)))))"

definition serve_root_did_log ::
  "('e, 'p, 'k, 'n, 'i) resolve_env \<Rightarrow> nat \<Rightarrow> 'i request \<Rightarrow> edge_state \<Rightarrow> reply res \<times> edge_state" where
  "serve_root_did_log env now rq = serve_content env now ''.well-known'' ''content:.well-known:log''
     JSONL_TYPE True (extract_request_host env rq)"

definition serve_root_witness ::
  "('e, 'p, 'k, 'n, 'i) resolve_env \<Rightarrow> nat \<Rightarrow> 'i request \<Rightarrow> edge_state \<Rightarrow> reply res \<times> edge_state" where
  "serve_root_witness env now rq = serve_content env now ''.well-known'' ''content:.well-known:witness''
     ''application/json'' False (extract_request_host env rq)"

text \<open>The slot a path asks for: what precedes the suffix, when there is something.\<close>

definition artifact_slot :: "string \<Rightarrow> string \<Rightarrow> string option" where
  "artifact_slot sfx path = (case strip_suffix_str sfx (dropWhile (\<lambda>c. c = CHR ''/'') path) of
     Some m \<Rightarrow> if m = [] then None else Some m | None \<Rightarrow> None)"

text \<open>None: the path is not this method's.\<close>

definition webvh_dispatch ::
  "('e, 'p, 'k, 'n, 'i) resolve_env \<Rightarrow> nat \<Rightarrow> 'i request \<Rightarrow> edge_state \<Rightarrow> (reply res \<times> edge_state) option" where
  "webvh_dispatch env now rq st = (let host = extract_request_host env rq in
     case artifact_slot ''/did.jsonl'' (rq_path rq) of
       Some m \<Rightarrow> Some (case validate_mnemonic m of
           Inl e \<Rightarrow> (Inl e, st)
         | Inr _ \<Rightarrow> serve_content env now m (''content:'' @ m @ '':log'') JSONL_TYPE True host st)
     | None \<Rightarrow> (case artifact_slot ''/did-witness.json'' (rq_path rq) of
         Some m \<Rightarrow> Some (case validate_mnemonic m of
             Inl e \<Rightarrow> (Inl e, st)
           | Inr _ \<Rightarrow> serve_content env now m (''content:'' @ m @ '':witness'') ''application/json'' False host st)
       | None \<Rightarrow> None))"

section \<open>did:webs artifacts (resolve_webs.rs)\<close>

definition webs_record ::
  "('e, 'p, 'k, 'n, 'i) resolve_env \<Rightarrow> edge_state \<Rightarrow> string \<Rightarrow> string option \<Rightarrow> did_record option res" where
  "webs_record env st m host = and_then (get_record (es_rows st) (did_key m)) (\<lambda>r. case r of
     None \<Rightarrow> Inr None
   | Some rec \<Rightarrow> if dr_method rec \<noteq> ''webs'' then Inr None
       else and_then (slot_open env st host rec) (\<lambda>_. Inr (Some rec)))"

definition load_keri_cesr ::
  "('e, 'p, 'k, 'n, 'i) resolve_env \<Rightarrow> nat \<Rightarrow> string \<Rightarrow> edge_state \<Rightarrow> string res \<times> edge_state" where
  "load_keri_cesr env now m st = (case cache_get (re_ttl env) now (es_cache st) (content_log_key m) of
     Some d \<Rightarrow> (Inr d, st)
   | None \<Rightarrow> (case get_raw (es_rows st) (content_log_key m) of
       None \<Rightarrow> (Inl NotFound, st)
     | Some d \<Rightarrow> (Inr d, st\<lparr>es_cache := cache_insert now (content_log_key m) d (es_cache st)\<rparr>)))"

definition serve_keri_cesr ::
  "('e, 'p, 'k, 'n, 'i) resolve_env \<Rightarrow> nat \<Rightarrow> string \<Rightarrow> string option \<Rightarrow> edge_state \<Rightarrow> reply res \<times> edge_state" where
  "serve_keri_cesr env now m host st = (case webs_record env st m host of
     Inl e \<Rightarrow> (Inl e, st)
   | Inr None \<Rightarrow> (Inl NotFound, st)
   | Inr (Some _) \<Rightarrow> (case load_keri_cesr env now m st of
       (Inl e, st') \<Rightarrow> (Inl e, st')
     | (Inr d, st') \<Rightarrow> (Inr \<lparr>rp_type = ''application/cesr'', rp_cache_control = Some PUBLIC_CACHE,
         rp_body = d, rp_counted = True\<rparr>, st')))"

text \<open>The document is derived from the key events on every request.\<close>

definition serve_did_json ::
  "('e, 'p, 'k, 'n, 'i) resolve_env \<Rightarrow> nat \<Rightarrow> did_record \<Rightarrow> edge_state \<Rightarrow> reply res \<times> edge_state" where
  "serve_did_json env now r st = (case load_keri_cesr env now (dr_mnemonic r) st of
     (Inl e, st') \<Rightarrow> (Inl e, st')
   | (Inr d, st') \<Rightarrow> (case dr_did_id r of
       None \<Rightarrow> (Inl Internal, st')
     | Some did \<Rightarrow> (case webs_verify_artifacts (re_lib env) did d of
         Inl _ \<Rightarrow> (Inl Internal, st')
       | Inr doc \<Rightarrow> (Inr \<lparr>rp_type = ''application/did+json'', rp_cache_control = Some PUBLIC_CACHE,
           rp_body = json_show (re_lib env) doc, rp_counted = True\<rparr>, st'))))"

definition webs_dispatch ::
  "('e, 'p, 'k, 'n, 'i) resolve_env \<Rightarrow> nat \<Rightarrow> 'i request \<Rightarrow> edge_state \<Rightarrow> (reply res \<times> edge_state) option" where
  "webs_dispatch env now rq st = (let host = extract_request_host env rq in
     case artifact_slot ''/keri.cesr'' (rq_path rq) of
       Some m \<Rightarrow> Some (case validate_webs_mnemonic m of
           Inl e \<Rightarrow> (Inl e, st) | Inr _ \<Rightarrow> serve_keri_cesr env now m host st)
     | None \<Rightarrow> (case artifact_slot ''/did.json'' (rq_path rq) of
         None \<Rightarrow> None
       | Some m \<Rightarrow>
           if \<not> is_ok (validate_webs_mnemonic m) then None
           else (case webs_record env st m host of
               Inr None \<Rightarrow> None
             | Inr (Some r) \<Rightarrow> Some (serve_did_json env now r st)
             | Inl e \<Rightarrow> Some (Inl e, st))))"

section \<open>did:web documents (resolve_web.rs)\<close>

definition public_base_url :: "('e, 'p, 'k, 'n, 'i) resolve_env \<Rightarrow> string" where
  "public_base_url env = (case de_public_url (ee_did (re_edge env)) of Some u \<Rightarrow> u | None \<Rightarrow> re_listen env)"

definition serve_did_web ::
  "('e, 'p, 'k, 'n, 'i) resolve_env \<Rightarrow> string \<Rightarrow> string option \<Rightarrow> edge_state \<Rightarrow> reply res" where
  "serve_did_web env m host st =
    and_then (get_record (es_rows st) (did_key m)) (\<lambda>r.
    and_then (case r of Some rec \<Rightarrow> slot_open env st host rec | None \<Rightarrow> Inr ()) (\<lambda>_.
    and_then (ok_or NotFound (get_raw (es_rows st) (content_log_key m))) (\<lambda>b.
    and_then (check (utf8_text b) Internal) (\<lambda>_.
    and_then (ok_or Internal (build_did_web_id (ee_url_host (re_edge env)) (public_base_url env) m)) (\<lambda>expected.
    and_then (ok_or NotFound (extract_did_web_document (json_parse (re_lib env)) (json_show (re_lib env)) b expected)) (\<lambda>doc.
    Inr \<lparr>rp_type = ''application/did+json'', rp_cache_control = None, rp_body = doc, rp_counted = True\<rparr>))))))"

definition serve_root_did_web ::
  "('e, 'p, 'k, 'n, 'i) resolve_env \<Rightarrow> 'i request \<Rightarrow> edge_state \<Rightarrow> reply res" where
  "serve_root_did_web env rq = serve_did_web env ''.well-known'' (extract_request_host env rq)"

definition web_dispatch ::
  "('e, 'p, 'k, 'n, 'i) resolve_env \<Rightarrow> 'i request \<Rightarrow> edge_state \<Rightarrow> (reply res \<times> edge_state) option" where
  "web_dispatch env rq st = (case artifact_slot ''/did.json'' (rq_path rq) of
     None \<Rightarrow> None
   | Some m \<Rightarrow> Some (case validate_mnemonic m of
       Inl e \<Rightarrow> (Inl e, st) | Inr _ \<Rightarrow> (serve_did_web env m (extract_request_host env rq) st, st)))"

section \<open>The dispatcher (did_public.rs)\<close>

definition serve_public ::
  "('e, 'p, 'k, 'n, 'i) resolve_env \<Rightarrow> nat \<Rightarrow> 'i request \<Rightarrow> edge_state \<Rightarrow> reply res \<times> edge_state" where
  "serve_public env now rq st = (case (if re_webvh env then webvh_dispatch env now rq st else None) of
     Some r \<Rightarrow> r
   | None \<Rightarrow> (case (if ee_webs (re_edge env) \<noteq> None then webs_dispatch env now rq st else None) of
       Some r \<Rightarrow> r
     | None \<Rightarrow> (case (if re_web env then web_dispatch env rq st else None) of
         Some r \<Rightarrow> r | None \<Rightarrow> (Inl NotFound, st))))"

section \<open>Agent names (resolve_agent_name.rs)\<close>

text \<open>The location a name redirects to: the DID, or for a browser the path of the slot's log.\<close>

definition resolve_name ::
  "('e, 'p, 'k, 'n, 'i) resolve_env \<Rightarrow> string \<Rightarrow> 'i request \<Rightarrow> edge_state \<Rightarrow> string res" where
  "resolve_name env raw rq st =
    (if \<not> de_agent_names (ee_did (re_edge env)) then Inl NotFound
     else if \<not> is_ok (validate_agent_name raw) then Inl NotFound
     else let name = (case strip_prefix_str ''@'' raw of Some n \<Rightarrow> n | None \<Rightarrow> raw) in
       and_then (ok_or NotFound (extract_request_host env rq)) (\<lambda>host.
       and_then (ok_or NotFound (case get_raw (es_rows st) (agent_name_key host name) of
           Some b \<Rightarrow> if utf8_text b then Some b else None | None \<Rightarrow> None)) (\<lambda>m.
       and_then (get_record (es_rows st) (did_key m)) (\<lambda>r.
       and_then (ok_or NotFound r) (\<lambda>rec.
       if dr_disabled rec \<or> dr_deleted_at rec \<noteq> None then Inl NotFound
       else if \<not> list_ex (\<lambda>e. an_name e = name \<and> an_enabled e) (dr_agent_names rec) then Inl NotFound
       else and_then (ok_or NotFound (dr_did_id rec)) (\<lambda>did.
         let target = (if (case rq_accept rq of Some a \<Rightarrow> sublist ''text/html'' a | None \<Rightarrow> False)
                       then ''/'' @ m @ ''/did.jsonl'' else did)
         in if re_header_ok env target then Inr target else Inl NotFound))))))"

definition serve_name ::
  "('e, 'p, 'k, 'n, 'i) resolve_env \<Rightarrow> string \<Rightarrow> 'i request \<Rightarrow> edge_state \<Rightarrow> string res" where
  "serve_name env name rq st = (if name = [] then Inl NotFound else resolve_name env name rq st)"

definition serve_community ::
  "('e, 'p, 'k, 'n, 'i) resolve_env \<Rightarrow> 'i request \<Rightarrow> edge_state \<Rightarrow> string res" where
  "serve_community env rq st = resolve_name env [] rq st"


section \<open>Facts about every slot\<close>

text \<open>A fact about a slot's record, log and proofs that the disabled flag does not touch is kept by
  whatever holds nothing new, and by an update that establishes it for the slot it writes.\<close>

definition each_slot :: "(did_record \<Rightarrow> string option \<Rightarrow> string option \<Rightarrow> string \<Rightarrow> bool) \<Rightarrow> edge_state \<Rightarrow> bool" where
  "each_slot P st \<longleftrightarrow> (\<forall>m r. rec_at (es_rows st) m = Some r \<longrightarrow> P r (log_at st m) (proofs_at st m) m)"

lemma each_slot_nothing_new:
  assumes "each_slot P st" "nothing_new (es_rows st) (es_rows st')"
    "\<forall>r x l w m. P r l w m \<longrightarrow> Q (r\<lparr>dr_disabled := x\<rparr>) l w m"
  shows "each_slot Q st'"
  unfolding each_slot_def
proof (intro allI impI)
  fix m r' assume "rec_at (es_rows st') m = Some r'"
  then obtain r x where r: "rec_at (es_rows st) m = Some r" "r' = r\<lparr>dr_disabled := x\<rparr>"
    "log_at st' m = log_at st m" "proofs_at st' m = proofs_at st m"
    using assms(2) unfolding nothing_new_def by blast
  then show "Q r' (log_at st' m) (proofs_at st' m) m" using assms(1,3) by (simp add: each_slot_def)
qed

lemma sync_effect:
  assumes "apply_sync_entry env now u st = (r, st')"
  obtains "st' = st"
  | i doc where "verify_update env st u (synced_method env (su_log u)) = Inr (i, doc)"
    "\<forall>n. rec_at (es_rows st') n = (if n = su_mnemonic u then Some (synced_record env now u (synced_method env (su_log u)) doc)
        else rec_at (es_rows st) n)"
    "\<forall>n. log_at st' n = (if n = su_mnemonic u then Some (su_log u) else log_at st n)"
    "\<forall>n. proofs_at st' n = (if n = su_mnemonic u then su_witness u else proofs_at st n)"
    "es_cache st' = cache_invalidate (content_log_key (su_mnemonic u)) (es_cache st)"
proof (cases "\<exists>st''. apply_single_update env now u st = (Inr Applied, st'') \<and> length (nonblank_lines (su_log u)) = su_version_count u")
  case False
  then have "st' = st" using assms apply_cases[of env now u st]
    by (auto simp: apply_sync_entry_def split: if_splits prod.splits sum.splits)
  then show ?thesis by (rule that(1))
next
  case True
  then have a: "apply_single_update env now u st = (Inr Applied, st')"
    using assms by (auto simp: apply_sync_entry_def)
  have c: "es_cache st' = cache_invalidate (content_log_key (su_mnemonic u)) (es_cache st)"
    using a by (auto simp: apply_single_update_def Let_def stage_high_water_def split: sum.splits if_splits prod.splits)
  show ?thesis by (rule applied_slots[OF a]) (rule that(2)[OF _ _ _ _ c])
qed

lemma each_slot_sync:
  assumes "apply_sync_entry env now u st = (r, st')" "each_slot P st"
    "\<forall>i doc. verify_update env st u (synced_method env (su_log u)) = Inr (i, doc) \<longrightarrow>
       P (synced_record env now u (synced_method env (su_log u)) doc) (Some (su_log u)) (su_witness u) (su_mnemonic u)"
  shows "each_slot P st'"
  using assms(1)
proof (cases rule: sync_effect)
  case (2 i doc)
  then show ?thesis using assms(2,3) by (auto simp: each_slot_def)
qed (use assms(2) in simp)

section \<open>The cache holds what is served of the logs\<close>

definition served_by :: "('e, 'p, 'k) log_lib \<Rightarrow> did_record \<Rightarrow> string option \<Rightarrow> string option \<Rightarrow> string \<Rightarrow> bool" where
  "served_by lib r log w b \<longleftrightarrow> (if dr_method r = ''webs'' then served_of lib log w b
     else (\<exists>l. log = Some l \<and> utf8_text l \<and> servable_did_log lib l (map_option utf8_lossy w) = Some b))"

lemma served_by_flag [simp]: "served_by lib (r\<lparr>dr_disabled := x\<rparr>) = served_by lib r"
  by (simp add: served_by_def fun_eq_iff)

definition log_backed :: "('e, 'p, 'k, 'n, 'i) resolve_env \<Rightarrow> edge_state \<Rightarrow> bool" where
  "log_backed env st \<longleftrightarrow> content.backed (re_ttl env) (\<lambda>k b. \<forall>m r. k = content_log_key m \<longrightarrow>
     rec_at (es_rows st) m = Some r \<longrightarrow> served_by (re_lib env) r (log_at st m) (proofs_at st m) b) (es_cache st)"

lemma log_backed_nothing_new:
  assumes "log_backed env st" "nothing_new (es_rows st) (es_rows st')" "content.forgets (re_ttl env) (es_cache st') (es_cache st)"
  shows "log_backed env st'"
proof -
  have s: "\<exists>r x. rec_at (es_rows st) m = Some r \<and> r' = r\<lparr>dr_disabled := x\<rparr>
      \<and> log_at st' m = log_at st m \<and> proofs_at st' m = proofs_at st m" if "rec_at (es_rows st') m = Some r'" for m r'
    using assms(2) that unfolding nothing_new_def by blast
  show ?thesis
    unfolding log_backed_def
  proof (rule content.backed_mono[OF content.backed_forgets[OF assms(1)[unfolded log_backed_def] assms(3)]], intro allI impI)
    fix k b m r'
    assume b: "\<forall>m r. k = content_log_key m \<longrightarrow> rec_at (es_rows st) m = Some r \<longrightarrow> served_by (re_lib env) r (log_at st m) (proofs_at st m) b"
      and k: "k = content_log_key m" "rec_at (es_rows st') m = Some r'"
    show "served_by (re_lib env) r' (log_at st' m) (proofs_at st' m) b" using s[OF k(2)] b k(1) by auto
  qed
qed

lemma log_backed_sync:
  assumes "log_backed env st" "apply_sync_entry (re_edge env) now u st = (r, st')"
  shows "log_backed env st'"
  using assms(2)
proof (cases rule: sync_effect)
  case (2 i doc)
  show ?thesis
    unfolding log_backed_def 2(5)
    by (rule content.backed_drop[OF assms(1)[unfolded log_backed_def]]) (auto simp: 2(2-4))
qed (use assms(1) in simp)

lemma log_backed_rows:
  "log_backed env st \<Longrightarrow> es_rows st' = es_rows st \<Longrightarrow> es_cache st' = es_cache st \<Longrightarrow> log_backed env st'"
  by (simp add: log_backed_def)


lemma sweep_cache [simp]: "es_cache (snd (sweep_entries env now ps (n, st))) = es_cache st"
proof (induction ps arbitrary: n st)
  case (Cons p ps)
  then show ?case by (simp add: Let_def split: sum.splits)
qed simp

section \<open>Resolving fills the cache with what it serves\<close>

lemma log_backed_fill:
  assumes "log_backed env st"
    "\<forall>m r. k = content_log_key m \<longrightarrow> rec_at (es_rows st) m = Some r \<longrightarrow> served_by (re_lib env) r (log_at st m) (proofs_at st m) d"
  shows "log_backed env (st\<lparr>es_cache := cache_insert now k d (es_cache st)\<rparr>)"
  unfolding log_backed_def using content.backed_insert[OF assms(1)[unfolded log_backed_def]] assms(2) by simp

lemma load_log_served:
  assumes "load_content env st m (content_log_key m) JSONL_TYPE = Inr d"
  shows "served_by (re_lib env) r (log_at st m) (proofs_at st m) d"
  using assms by (auto simp: load_content_def served_by_def served_of_def ok_or_def split: option.splits if_splits)

lemma load_servable:
  "load_content env st m (content_log_key m) JSONL_TYPE = Inr d \<longleftrightarrow> (\<exists>l. log_at st m = Some l \<and> utf8_text l
     \<and> servable_did_log (re_lib env) l (map_option utf8_lossy (proofs_at st m)) = Some d)"
  by (auto simp: load_content_def ok_or_def split: option.splits if_splits)

lemma serve_content_cases:
  assumes "serve_content env now m k ctype track host st = (x, st')"
  obtains e where "x = Inl e" "st' = st"
  | r d where "x = Inr \<lparr>rp_type = ctype, rp_cache_control = Some PUBLIC_CACHE, rp_body = d, rp_counted = track\<rparr>"
      "rec_at (es_rows st) m = Some r" "slot_open env st host r = Inr ()"
      "cache_get (re_ttl env) now (es_cache st) k = Some d" "st' = st"
  | r d where "x = Inr \<lparr>rp_type = ctype, rp_cache_control = Some PUBLIC_CACHE, rp_body = d, rp_counted = track\<rparr>"
      "rec_at (es_rows st) m = Some r" "slot_open env st host r = Inr ()"
      "load_content env st m k ctype = Inr d" "st' = st\<lparr>es_cache := cache_insert now k d (es_cache st)\<rparr>"
proof -
  let ?a = "\<lambda>d. \<lparr>rp_type = ctype, rp_cache_control = Some PUBLIC_CACHE, rp_body = d, rp_counted = track\<rparr>"
  show thesis
  proof (cases "\<exists>r. get_record (es_rows st) (did_key m) = Inr (Some r) \<and> slot_open env st host r = Inr ()")
    case False
    then have "\<exists>e. x = Inl e \<and> st' = st" using assms unfolding serve_content_def Let_def
      by (cases "get_record (es_rows st) (did_key m)") (auto split: option.splits sum.splits)
    then show thesis using that(1) by blast
  next
    case True
    then obtain r where g: "get_record (es_rows st) (did_key m) = Inr (Some r)" and o: "slot_open env st host r = Inr ()" by blast
    have r: "rec_at (es_rows st) m = Some r" using g by (auto simp: get_record_def rec_at_def split: option.splits did_row.splits)
    show thesis
    proof (cases "cache_get (re_ttl env) now (es_cache st) k")
      case (Some d)
      then have "x = Inr (?a d)" "st' = st" using assms g o by (simp_all add: serve_content_def)
      then show thesis using that(2) r o Some by blast
    next
      case None
      show thesis
      proof (cases "load_content env st m k ctype")
        case (Inl e)
        then have "x = Inl e" "st' = st" using assms g o None by (simp_all add: serve_content_def)
        then show thesis by (rule that(1))
      next
        case (Inr d)
        then have "x = Inr (?a d)" "st' = st\<lparr>es_cache := cache_insert now k d (es_cache st)\<rparr>"
          using assms g o None by (simp_all add: serve_content_def)
        then show thesis using that(3) r o Inr by blast
      qed
    qed
  qed
qed

lemma serve_log_backed:
  assumes "serve_content env now m (content_log_key m) JSONL_TYPE track host st = (x, st')" "log_backed env st"
  shows "log_backed env st'"
  using assms(1)
proof (cases rule: serve_content_cases)
  case (3 r d)
  show ?thesis unfolding 3(5)
    by (rule log_backed_fill[OF assms(2)]) (auto simp: load_log_served[OF 3(4)])
qed (use assms(2) in simp_all)

lemma serve_witness_backed:
  assumes "serve_content env now m (content_witness_key m) ''application/json'' track host st = (x, st')" "log_backed env st"
  shows "log_backed env st'"
  using assms(1)
proof (cases rule: serve_content_cases)
  case (3 r d)
  show ?thesis unfolding 3(5) by (rule log_backed_fill[OF assms(2)]) simp
qed (use assms(2) in simp_all)

lemma load_cesr_backed:
  assumes "load_keri_cesr env now m st = (x, st')" "log_backed env st"
    "\<exists>r. rec_at (es_rows st) m = Some r \<and> dr_method r = ''webs''"
  shows "log_backed env st'"
proof (cases "st' = st")
  case False
  then obtain d where d: "log_at st m = Some d" "st' = st\<lparr>es_cache := cache_insert now (content_log_key m) d (es_cache st)\<rparr>"
    using assms(1) by (auto simp: load_keri_cesr_def split: option.splits)
  show ?thesis unfolding d(2)
    by (rule log_backed_fill[OF assms(2)]) (use assms(3) in \<open>auto simp: served_by_def served_of_def d(1)\<close>)
qed (use assms(2) in simp)

lemma webs_recordD:
  "webs_record env st m host = Inr (Some r) \<Longrightarrow> rec_at (es_rows st) m = Some r \<and> dr_method r = ''webs''
     \<and> slot_open env st host r = Inr ()"
  by (auto simp: webs_record_def res_simps get_record_def rec_at_def split: option.splits if_splits did_row.splits)

lemma webs_dispatch_backed:
  assumes "webs_dispatch env now rq st = Some (x, st')" "log_backed env st"
    "\<forall>m r. rec_at (es_rows st) m = Some r \<longrightarrow> dr_mnemonic r = m"
  shows "log_backed env st'"
proof -
  have l: "log_backed env s" if "webs_record env st m host = Inr (Some r)" "load_keri_cesr env now m st = (y, s)" for m host r y s
    using load_cesr_backed[OF that(2) assms(2)] webs_recordD[OF that(1)] by blast
  have c: "log_backed env st'" if s: "serve_keri_cesr env now m host st = (x, st')" for m host
  proof (cases "\<exists>r. webs_record env st m host = Inr (Some r)")
    case True
    then obtain r y s1 where r: "webs_record env st m host = Inr (Some r)" "load_keri_cesr env now m st = (y, s1)"
      by (metis prod.exhaust)
    then have "st' = s1" using s by (cases y) (simp_all add: serve_keri_cesr_def)
    then show ?thesis using l[OF r] by simp
  next
    case False
    then have "st' = st" using s by (auto simp: serve_keri_cesr_def split: sum.splits option.splits)
    then show ?thesis using assms(2) by simp
  qed
  have j: "log_backed env st'" if r: "webs_record env st m host = Inr (Some r)" and s: "serve_did_json env now r st = (x, st')" for m host r
  proof -
    have m: "dr_mnemonic r = m" using webs_recordD[OF r] assms(3) by auto
    obtain y s1 where y: "load_keri_cesr env now m st = (y, s1)" by force
    then have "st' = s1" using s m by (cases y) (auto simp: serve_did_json_def split: option.splits sum.splits)
    then show ?thesis using l[OF r y] by simp
  qed
  show ?thesis using assms(1,2) c j
    by (auto simp: webs_dispatch_def Let_def split: option.splits sum.splits if_splits)
qed

lemma serve_public_cases:
  "serve_public env now rq st = (Inl NotFound, st) \<or> webvh_dispatch env now rq st = Some (serve_public env now rq st)
    \<or> webs_dispatch env now rq st = Some (serve_public env now rq st)
    \<or> web_dispatch env rq st = Some (serve_public env now rq st)"
  by (cases "webvh_dispatch env now rq st"; cases "webs_dispatch env now rq st"; cases "web_dispatch env rq st")
    (simp_all add: serve_public_def)

lemma serve_public_backed:
  assumes "serve_public env now rq st = (x, st')" "log_backed env st" "\<forall>m r. rec_at (es_rows st) m = Some r \<longrightarrow> dr_mnemonic r = m"
  shows "log_backed env st'"
proof -
  have v: "log_backed env st'" if "webvh_dispatch env now rq st = Some (x, st')"
    using that serve_log_backed[OF _ assms(2), folded content_log_key_def] serve_witness_backed[OF _ assms(2)] assms(2)
    by (auto simp: webvh_dispatch_def Let_def content_log_key_def content_witness_key_def split: option.splits sum.splits)
  have w: "log_backed env st'" if "web_dispatch env rq st = Some (x, st')"
    using that assms(2) by (auto simp: web_dispatch_def split: option.splits sum.splits)
  show ?thesis
    using serve_public_cases[of env now rq st] v w webs_dispatch_backed[OF _ assms(2,3)] assms(1,2) by auto
qed


section \<open>An edge at work\<close>

inductive live_step :: "('e, 'p, 'k, 'n, 'i) resolve_env \<Rightarrow> edge_state \<Rightarrow> edge_state \<Rightarrow> bool" for env where
  LiveSync: "utf8_text (su_log u) \<Longrightarrow> apply_sync_entry (re_edge env) t u st = (r, st') \<Longrightarrow> live_step env st st'"
| LiveDelete: "do_sync_delete (re_edge env) m st = (r', st') \<Longrightarrow> live_step env st st'"
| LiveCleanup: "live_step env st (st\<lparr>es_rows := snd (cleanup_empty_dids t ttl (es_rows st))\<rparr>)"
| LiveReconcile: "apply_listing listing st = (rep, st') \<Longrightarrow> live_step env st st'"
| LiveAssign: "do_domain_assign (re_edge env) control t d st = (r1, st') \<Longrightarrow> live_step env st st'"
| LiveUnassign: "do_domain_unassign (re_edge env) control t d st = (r2, st') \<Longrightarrow> live_step env st st'"
| LivePurge: "do_domain_purge (re_edge env) t d st = (r2, st') \<Longrightarrow> live_step env st st'"
| LiveUpsert: "do_domain_upsert (re_edge env) control e st = (r1, st') \<Longrightarrow> live_step env st st'"
| LiveSweep: "run_sweep_once (re_edge env) t st = (n, st') \<Longrightarrow> live_step env st st'"
| LiveResolve: "serve_public env now rq st = (x, st') \<Longrightarrow> live_step env st st'"
| LiveRootLog: "serve_root_did_log env now rq st = (x, st') \<Longrightarrow> live_step env st st'"
| LiveRootWitness: "serve_root_witness env now rq st = (x, st') \<Longrightarrow> live_step env st st'"

text \<open>A resolve changes the cache and nothing else.\<close>

definition cache_only :: "edge_state \<Rightarrow> edge_state \<Rightarrow> bool" where
  "cache_only st st' \<longleftrightarrow> (\<exists>c. st' = st\<lparr>es_cache := c\<rparr>)"

lemma cache_only_refl [simp]: "cache_only st st"
  by (auto simp: cache_only_def intro: exI[of _ "es_cache st"])

lemma cache_only_fill [simp]: "cache_only st (st\<lparr>es_cache := c\<rparr>)"
  by (auto simp: cache_only_def)

lemma serve_content_frame: "cache_only st (snd (serve_content env now m k ctype tr host st))"
proof (cases "serve_content env now m k ctype tr host st")
  case (Pair x st')
  then show ?thesis by (cases rule: serve_content_cases[OF Pair]) simp_all
qed

lemma serve_content_only: "serve_content env now m k ctype tr host st = (x, st') \<Longrightarrow> cache_only st st'"
  using serve_content_frame[of st env now m k ctype tr host] by simp

lemma load_cesr_frame: "cache_only st (snd (load_keri_cesr env now m st))"
  by (simp add: load_keri_cesr_def split: option.splits)

lemma serve_cesr_frame: "cache_only st (snd (serve_keri_cesr env now m host st))"
proof -
  have "snd (serve_keri_cesr env now m host st) = st
    \<or> snd (serve_keri_cesr env now m host st) = snd (load_keri_cesr env now m st)"
    by (simp add: serve_keri_cesr_def split: sum.splits option.splits prod.splits)
  then show ?thesis using load_cesr_frame[of st env now m] by auto
qed

lemma serve_json_frame: "cache_only st (snd (serve_did_json env now r st))"
proof -
  have "snd (serve_did_json env now r st) = snd (load_keri_cesr env now (dr_mnemonic r) st)"
    by (simp add: serve_did_json_def split: sum.splits option.splits prod.splits)
  then show ?thesis using load_cesr_frame by simp
qed

lemma serve_public_frame: "cache_only st (snd (serve_public env now rq st))"
proof -
  have v: "webvh_dispatch env now rq st = Some r \<Longrightarrow> cache_only st (snd r)" for r
    unfolding webvh_dispatch_def Let_def by (auto simp: serve_content_frame split: option.splits sum.splits)
  have w: "webs_dispatch env now rq st = Some r \<Longrightarrow> cache_only st (snd r)" for r
    unfolding webs_dispatch_def Let_def
    by (auto simp: serve_cesr_frame serve_json_frame split: option.splits sum.splits if_splits)
  have b: "web_dispatch env rq st = Some r \<Longrightarrow> cache_only st (snd r)" for r
    unfolding web_dispatch_def by (auto split: option.splits sum.splits)
  show ?thesis using serve_public_cases[of env now rq st] v w b by (metis cache_only_refl snd_conv)
qed

lemma cache_only_op: "cache_only st st' \<Longrightarrow> edge_op env st st'"
  by (auto simp: cache_only_def intro!: edge_op.SlotOp edge_step.Elsewhere)

lemma live_edge_op:
  assumes "live_step env st st'"
  shows "edge_op (re_edge env) st st'"
  using assms
proof cases
  case (LiveSync u t r)
  have "es_store st' = es_store st" using LiveSync(2)
    by (auto simp: apply_sync_entry_def apply_single_update_def Let_def stage_high_water_def split: if_splits prod.splits sum.splits)
  then show ?thesis using edge_step.Sync[OF LiveSync] by (rule edge_op.SlotOp[rotated])
next
  case (LiveDelete m r')
  have "es_store st' = es_store st" using LiveDelete by (auto simp: do_sync_delete_def split: sum.splits option.splits)
  then show ?thesis using edge_step.Delete[OF LiveDelete] by (rule edge_op.SlotOp[rotated])
next
  case (LiveCleanup t ttl)
  show ?thesis unfolding LiveCleanup by (rule edge_op.SlotOp[OF edge_step.Cleanup]) simp
next
  case (LiveReconcile listing rep)
  have "es_store (snd (repair_records want rs acc)) = es_store (snd acc)" for want rs acc
    by (induction want rs acc rule: repair_records.induct) (auto simp: Let_def split: option.splits)
  then have "es_store st' = es_store st" using LiveReconcile
    by (auto simp: apply_listing_def Let_def split: prod.splits) (metis snd_conv)
  then show ?thesis using edge_step.Reconcile[OF LiveReconcile] by (rule edge_op.SlotOp[rotated])
next
  case (LiveResolve now rq x)
  then show ?thesis using serve_public_frame[of st env now rq] by (intro cache_only_op) simp
next
  case (LiveRootLog now rq x)
  then show ?thesis unfolding serve_root_did_log_def by (rule cache_only_op[OF serve_content_only])
next
  case (LiveRootWitness now rq x)
  then show ?thesis unfolding serve_root_witness_def by (rule cache_only_op[OF serve_content_only])
qed (blast intro: edge_op.intros)+

lemma live_ops: "(live_step env)\<^sup>*\<^sup>* st st' \<Longrightarrow> (edge_op (re_edge env))\<^sup>*\<^sup>* st st'"
  by (induction rule: rtranclp_induct) (auto dest: live_edge_op intro: rtranclp.rtrancl_into_rtrancl)

lemma repair_forgets: "content.forgets ttl (es_cache (snd (repair_records want rs (rep, st)))) (es_cache st)"
proof (induction rs arbitrary: rep st)
  case (Cons r rs)
  let ?st = "\<lambda>w. st\<lparr>es_rows := ks_put (did_key (dr_mnemonic r)) (RecRow (r\<lparr>dr_disabled := w\<rparr>)) (es_rows st),
     es_cache := cache_invalidate (content_log_key (dr_mnemonic r)) (es_cache st)\<rparr>"
  have s: "content.forgets ttl (es_cache (snd (repair_records want rs (rep', ?st w)))) (es_cache st)" for rep' w
    using content.forgets_trans[OF Cons.IH[of rep' "?st w"]] by simp
  show ?case using Cons.IH[of _ st] s by (simp add: Let_def split: option.splits)
qed simp

lemma upsert_frame:
  "do_domain_upsert env control e st = (r, st') \<Longrightarrow> es_rows st' = es_rows st \<and> es_cache st' = es_cache st"
  by (drule upsert_store) auto

text \<open>A step writes a slot by an update, or holds nothing new and caches nothing, or is a resolve.\<close>

lemma live_kind:
  assumes "live_step env st st'" "edge_ok (re_edge env) st"
  obtains u t r where "apply_sync_entry (re_edge env) t u st = (r, st')"
  | "nothing_new (es_rows st) (es_rows st')" "content.forgets (re_ttl env) (es_cache st') (es_cache st)"
  | "cache_only st st'" "log_backed env st \<Longrightarrow> log_backed env st'"
  using assms(1)
proof cases
  case (LiveSync u t r)
  show ?thesis by (rule that(1)[OF LiveSync(2)])
next
  case (LiveDelete m r')
  then have "es_cache st' = es_cache st \<or> es_cache st' = cache_invalidate (content_log_key m) (es_cache st)"
    by (auto simp: do_sync_delete_def split: sum.splits option.splits)
  then show ?thesis using that(2) delete_nothing_new(1)[OF LiveDelete] by auto
next
  case (LiveCleanup t ttl)
  show ?thesis by (rule that(2)) (simp_all add: LiveCleanup cleanup_nothing_new)
next
  case (LiveReconcile listing rep)
  have "content.forgets (re_ttl env) (es_cache st') (es_cache st)"
    using LiveReconcile repair_forgets[of "re_ttl env" "map_of listing" "held_records st" _ st]
    by (auto simp: apply_listing_def Let_def split: prod.splits) (metis snd_conv)
  then show ?thesis using that(2) listing_nothing_new(1)[OF assms(2), of listing] LiveReconcile by simp
next
  case (LiveAssign control t d r)
  then show ?thesis by (intro that(2)) (auto simp: do_domain_assign_def split: sum.splits)
next
  case (LiveUnassign control t d r)
  then show ?thesis by (intro that(2)) (auto simp: do_domain_unassign_def split: sum.splits unassign_outcome.splits prod.splits)
next
  case (LivePurge t d r)
  then have "st' = st \<or> (\<exists>x. es_rows st' = snd (purge_domain_dids (re_edge env) x (es_rows st)) \<and> es_cache st' = cache_clear (es_cache st))"
    by (auto simp: do_domain_purge_def split: sum.splits if_splits prod.splits) (metis snd_conv)+
  then show ?thesis using that(2) purge_nothing_new by (metis content.forgets_clear content.forgets_refl nothing_new_refl)
next
  case (LiveUpsert control e r)
  then show ?thesis using upsert_frame[OF LiveUpsert] by (intro that(2)) simp_all
next
  case (LiveSweep t k)
  then have s: "st' = snd (sweep_entries (re_edge env) t (pp_list (es_purges st)) (0, st))" by (metis run_sweep_once_def snd_conv)
  have "ks_ok (es_rows st)" using assms(2) by (simp add: edge_ok_def)
  then show ?thesis by (intro that(2)) (simp_all add: s sweep_nothing_new)
next
  case (LiveResolve now rq x)
  have "dr_mnemonic r = m" if "rec_at (es_rows st) m = Some r" for m r using assms(2) that by (simp add: edge_ok_def)
  then have "log_backed env st \<Longrightarrow> log_backed env st'" using serve_public_backed[OF LiveResolve] by blast
  moreover have "cache_only st st'" using serve_public_frame[of st env now rq] LiveResolve by simp
  ultimately show ?thesis by (intro that(3))
next
  case (LiveRootLog now rq x)
  then have s: "serve_content env now ''.well-known'' (content_log_key ''.well-known'') JSONL_TYPE True (extract_request_host env rq) st = (x, st')"
    by (simp add: serve_root_did_log_def content_log_key_def)
  show ?thesis by (rule that(3)[OF serve_content_only[OF s] serve_log_backed[OF s]])
next
  case (LiveRootWitness now rq x)
  then have s: "serve_content env now ''.well-known'' (content_witness_key ''.well-known'') ''application/json'' False (extract_request_host env rq) st = (x, st')"
    by (simp add: serve_root_witness_def content_witness_key_def)
  show ?thesis by (rule that(3)[OF serve_content_only[OF s] serve_witness_backed[OF s]])
qed

lemma live_backed:
  "live_step env st st' \<Longrightarrow> edge_ok (re_edge env) st \<Longrightarrow> log_backed env st \<Longrightarrow> log_backed env st'"
  by (erule (1) live_kind) (blast intro: log_backed_sync log_backed_nothing_new)+

lemma live_each_slot:
  assumes "live_step env st st'" "edge_ok (re_edge env) st" "each_slot P st"
    "\<forall>r x l w m. P r l w m \<longrightarrow> P (r\<lparr>dr_disabled := x\<rparr>) l w m"
    "\<forall>t u s i doc. verify_update (re_edge env) s u (synced_method (re_edge env) (su_log u)) = Inr (i, doc) \<longrightarrow>
       P (synced_record (re_edge env) t u (synced_method (re_edge env) (su_log u)) doc) (Some (su_log u)) (su_witness u) (su_mnemonic u)"
  shows "each_slot P st'"
  using assms(1,2)
proof (cases rule: live_kind)
  case (1 u t r)
  show ?thesis by (rule each_slot_sync[OF 1 assms(3)]) (use assms(5) in blast)
next
  case 2
  show ?thesis by (rule each_slot_nothing_new[OF assms(3) 2(1) assms(4)])
next
  case 3
  then show ?thesis using assms(3) by (auto simp: cache_only_def each_slot_def)
qed

lemma live_run_ok: "(live_step env)\<^sup>*\<^sup>* new_edge st \<Longrightarrow> edge_ok (re_edge env) st"
  by (rule edge_ops_ok(1)[OF live_ops])

lemma live_run_backed: "(live_step env)\<^sup>*\<^sup>* new_edge st \<Longrightarrow> log_backed env st"
proof (induction rule: rtranclp_induct)
  case base
  then show ?case by (simp add: log_backed_def new_edge_def rec_at_def content.backed_def)
next
  case (step y z)
  then show ?case using live_backed live_run_ok by blast
qed

lemma live_run_each_slot:
  assumes "(live_step env)\<^sup>*\<^sup>* new_edge st"
    "\<forall>r x l w m. P r l w m \<longrightarrow> P (r\<lparr>dr_disabled := x\<rparr>) l w m"
    "\<forall>t u s i doc. verify_update (re_edge env) s u (synced_method (re_edge env) (su_log u)) = Inr (i, doc) \<longrightarrow>
       P (synced_record (re_edge env) t u (synced_method (re_edge env) (su_log u)) doc) (Some (su_log u)) (su_witness u) (su_mnemonic u)"
  shows "each_slot P st"
  using assms(1)
proof (induction rule: rtranclp_induct)
  case base
  then show ?case by (simp add: each_slot_def new_edge_def rec_at_def)
next
  case (step y z)
  then show ?case using live_each_slot[OF step(2) live_run_ok[OF step(1)] _ assms(2,3)] by blast
qed

section \<open>What resolution guarantees\<close>

text \<open>C27: A served did:webvh log is current and verified. Whatever an edge has been sent, resolved or
  dropped before, a successful answer to a request for a slot's did.jsonl carries the servable part
  of the log the slot holds now - never an older log or another DID's, although it may come from the
  cache - for a slot that is neither disabled nor deleted, whose DID may be resolved on the host of
  the request; and that log verifies, with the witness proofs beside it, and establishes the DID.\<close>

theorem served_log_current:
  assumes "(live_step env)\<^sup>*\<^sup>* new_edge st" "re_webvh env" "artifact_slot ''/did.jsonl'' (rq_path rq) = Some m"
    "serve_public env now rq st = (Inr rp, st')"
  shows "\<exists>r l. rec_at (es_rows st) m = Some r \<and> \<not> dr_disabled r \<and> dr_deleted_at r = None
    \<and> (\<forall>d. dr_did_id r = Some d \<longrightarrow> assert_resolution_allowed (ee_parse_host (re_edge env)) (ee_webs (re_edge env))
        (es_store st) (extract_request_host env rq) d = Inr ())
    \<and> log_at st m = Some l
    \<and> (dr_method r = ''webvh'' \<longrightarrow> servable_did_log (re_lib env) l (map_option utf8_lossy (proofs_at st m)) = Some (rp_body rp)
        \<and> extract_did_id (re_lib env) l = dr_did_id r
        \<and> verify_did_log_and_witness_proofs (re_lib env) l (proofs_at st m))"
proof -
  have s: "serve_content env now m (content_log_key m) JSONL_TYPE True (extract_request_host env rq) st = (Inr rp, st')"
    using assms(2-4) by (auto simp: serve_public_def webvh_dispatch_def Let_def content_log_key_def split: sum.splits)
  obtain r where r: "rec_at (es_rows st) m = Some r" "slot_open env st (extract_request_host env rq) r = Inr ()"
    "served_by (re_lib env) r (log_at st m) (proofs_at st m) (rp_body rp)"
    using s
  proof (cases rule: serve_content_cases)
    case (2 r d)
    have "served_by (re_lib env) r (log_at st m) (proofs_at st m) d"
      using content.backedD[OF live_run_backed[OF assms(1), unfolded log_backed_def] 2(4)] 2(2) by blast
    then show thesis using that 2 by simp
  next
    case (3 r d)
    then show thesis using that load_log_served[OF 3(4), of r] by simp
  qed simp
  have g: "slot_good (re_edge env) r (log_at st m) (proofs_at st m)"
    using live_run_ok[OF assms(1)] r(1) by (simp add: edge_ok_def)
  then obtain l where l: "log_at st m = Some l" by (auto simp: slot_good_def split: option.splits)
  have o: "\<not> dr_disabled r \<and> dr_deleted_at r = None \<and> (\<forall>d. dr_did_id r = Some d \<longrightarrow>
      assert_resolution_allowed (ee_parse_host (re_edge env)) (ee_webs (re_edge env)) (es_store st) (extract_request_host env rq) d = Inr ())"
    using r(2) by (auto simp: slot_open_def split: if_splits option.splits)
  have "dr_method r = ''webvh'' \<longrightarrow> servable_did_log (re_lib env) l (map_option utf8_lossy (proofs_at st m)) = Some (rp_body rp)
      \<and> extract_did_id (re_lib env) l = dr_did_id r \<and> verify_did_log_and_witness_proofs (re_lib env) l (proofs_at st m)"
    using g r(3) l by (auto simp: slot_good_def served_by_def)
  then show ?thesis using r(1) o l by blast
qed


text \<open>The names a slot's document claims on the host of its DID.\<close>

definition claimed_names :: "('e, 'p, 'k) edge_env \<Rightarrow> did_record \<Rightarrow> string option \<Rightarrow> string list" where
  "claimed_names env r log = (case Option.bind log (last_state (ee_lib env)) of
     Some doc \<Rightarrow> agent_names_from_document (agent_parse (ee_lib env)) doc (host_of_did (ee_did env) (dr_did_id r))
   | None \<Rightarrow> [])"

lemma recorded_names_claimed:
  assumes "(live_step env)\<^sup>*\<^sup>* new_edge st" "rec_at (es_rows st) m = Some r" "dr_method r = ''webvh''"
  shows "set (map an_name (dr_agent_names r)) \<subseteq> set (claimed_names (re_edge env) r (log_at st m))"
proof -
  have "each_slot (\<lambda>r l w m. dr_method r = ''webvh'' \<longrightarrow>
      set (map an_name (dr_agent_names r)) \<subseteq> set (claimed_names (re_edge env) r l)) st"
  proof (rule live_run_each_slot[OF assms(1)])
    show "\<forall>t u s i doc. verify_update (re_edge env) s u (synced_method (re_edge env) (su_log u)) = Inr (i, doc) \<longrightarrow>
       (dr_method (synced_record (re_edge env) t u (synced_method (re_edge env) (su_log u)) doc) = ''webvh'' \<longrightarrow>
       set (map an_name (dr_agent_names (synced_record (re_edge env) t u (synced_method (re_edge env) (su_log u)) doc)))
       \<subseteq> set (claimed_names (re_edge env) (synced_record (re_edge env) t u (synced_method (re_edge env) (su_log u)) doc) (Some (su_log u))))"
      using verify_updateD(4) by (fastforce simp: synced_record_def synced_names_def synced_document_def claimed_names_def)
  qed (simp add: claimed_names_def)
  then show ?thesis using assms(2,3) by (auto simp: each_slot_def)
qed

text \<open>C28: What an agent name redirects to. A successful answer for a name on a host is the DID (or, to a
  browser, the path of the log) of a slot that the host's index names, that is neither disabled nor
  deleted, and whose record enables the name; when that DID is a did:webvh identifier of the same
  host, the current document of the DID claims the name.\<close>

theorem agent_name_claimed:
  assumes "(live_step env)\<^sup>*\<^sup>* new_edge st" "resolve_name env name rq st = Inr target" "extract_request_host env rq = Some h"
    "\<not> prefix ''@'' name"
  shows "\<exists>m r did. get_raw (es_rows st) (agent_name_key h name) = Some m \<and> rec_at (es_rows st) m = Some r
    \<and> \<not> dr_disabled r \<and> dr_deleted_at r = None \<and> (\<exists>e \<in> set (dr_agent_names r). an_name e = name \<and> an_enabled e)
    \<and> dr_did_id r = Some did \<and> (target = did \<or> target = ''/'' @ m @ ''/did.jsonl'')
    \<and> (dr_method r = ''webvh'' \<and> host_of_did (ee_did (re_edge env)) (Some did) = h \<longrightarrow>
         (\<exists>log doc. log_at st m = Some log \<and> last_state (re_lib env) log = Some doc
           \<and> name \<in> set (agent_names_from_document (agent_parse (re_lib env)) doc h)))"
proof -
  have n: "strip_prefix_str ''@'' name = None" using assms(4) by (simp add: strip_prefix_str_def)
  obtain m r did where r: "get_raw (es_rows st) (agent_name_key h name) = Some m" "get_record (es_rows st) (did_key m) = Inr (Some r)"
    "\<not> dr_disabled r" "dr_deleted_at r = None" "list_ex (\<lambda>e. an_name e = name \<and> an_enabled e) (dr_agent_names r)"
    "dr_did_id r = Some did" "target = did \<or> target = ''/'' @ m @ ''/did.jsonl''"
    using assms(2,3) n unfolding resolve_name_def
    by (auto simp: res_simps Let_def split: if_splits option.splits)
  have rec: "rec_at (es_rows st) m = Some r" using r(2) by (auto simp: get_record_def rec_at_def split: option.splits did_row.splits)
  have "\<exists>log doc. log_at st m = Some log \<and> last_state (re_lib env) log = Some doc
      \<and> name \<in> set (agent_names_from_document (agent_parse (re_lib env)) doc h)"
    if "dr_method r = ''webvh''" "host_of_did (ee_did (re_edge env)) (Some did) = h"
  proof -
    have "name \<in> set (claimed_names (re_edge env) r (log_at st m))"
      using recorded_names_claimed[OF assms(1) rec that(1)] r(5) by (auto simp: list_ex_iff)
    moreover obtain doc where d: "Option.bind (log_at st m) (last_state (re_lib env)) = Some doc"
      using calculation by (cases "Option.bind (log_at st m) (last_state (re_lib env))") (simp_all add: claimed_names_def)
    moreover obtain log where "log_at st m = Some log" using d by (cases "log_at st m") simp_all
    ultimately show ?thesis using that(2) r(6) by (simp add: claimed_names_def)
  qed
  then show ?thesis using r rec by (auto simp: list_ex_iff)
qed

section \<open>A resolving edge\<close>

definition resolve_sample :: "(string, nat, string \<times> nat, nat, nat) resolve_env" where
  "resolve_sample = \<lparr>re_edge = edge_sample, re_listen = ''http://0.0.0.0:8530'', re_ttl = 300, re_trusted = [],
     re_contains = (=), re_webvh = True, re_web = True, re_header_ok = (\<lambda>_. True)\<rparr>"

definition get_artifact :: "string \<Rightarrow> nat request" where
  "get_artifact path = \<lparr>rq_path = path, rq_headers = \<lparr>hh_host = Some ''a.org'', hh_forwarded = None, hh_x_forwarded_host = None\<rparr>,
     rq_peer = None, rq_accept = None\<rparr>"

definition slot_update :: "string list \<Rightarrow> string option \<Rightarrow> sync_update" where
  "slot_update ls w = \<lparr>su_mnemonic = ''pp'', su_did_id = ''did:webvh:q:a.org:p'', su_log = join_with [CHR 0x0A] ls,
     su_witness = w, su_version_count = length ls, su_disabled = False\<rparr>"

text \<open>The edge has the first version, has answered for it and its proofs, and then gets the second.\<close>

definition first_edge :: edge_state where
  "first_edge = snd (apply_sync_entry edge_sample 7 (slot_update [''al''] (Some ''w1'')) new_edge)"

definition read_edge :: edge_state where
  "read_edge = snd (serve_public resolve_sample 6 (get_artifact ''/pp/did-witness.json'')
     (snd (serve_public resolve_sample 5 (get_artifact ''/pp/did.jsonl'') first_edge)))"

definition updated_edge :: edge_state where
  "updated_edge = snd (apply_sync_entry edge_sample 8 (slot_update [''al'', ''bl''] (Some ''w22'')) read_edge)"

lemma first_edge_run: "(live_step resolve_sample)\<^sup>*\<^sup>* new_edge first_edge"
proof -
  have "utf8_text (su_log (slot_update [''al''] (Some ''w1'')))" "re_edge resolve_sample = edge_sample"
    by (code_simp, simp add: resolve_sample_def)
  then show ?thesis unfolding first_edge_def by (metis live_step.LiveSync prod.collapse r_into_rtranclp)
qed

lemma updated_edge_run: "(live_step resolve_sample)\<^sup>*\<^sup>* new_edge updated_edge"
proof -
  have u: "utf8_text (su_log (slot_update [''al'', ''bl''] (Some ''w22'')))" "re_edge resolve_sample = edge_sample"
    by (code_simp, simp add: resolve_sample_def)
  have s: "live_step resolve_sample st (snd (serve_public resolve_sample now rq st))" for now rq st
    by (metis live_step.LiveResolve prod.collapse)
  have "(live_step resolve_sample)\<^sup>*\<^sup>* new_edge read_edge"
    unfolding read_edge_def by (rule rtranclp.rtrancl_into_rtrancl[OF rtranclp.rtrancl_into_rtrancl[OF first_edge_run s] s])
  moreover have "live_step resolve_sample read_edge updated_edge"
    using u unfolding updated_edge_def by (metis live_step.LiveSync prod.collapse)
  ultimately show ?thesis by (rule rtranclp.rtrancl_into_rtrancl)
qed

theorem served_log_current_witness:
  "\<exists>rp. fst (serve_public resolve_sample 7 (get_artifact ''/pp/did.jsonl'') updated_edge) = Inr rp
     \<and> servable_did_log (re_lib resolve_sample) (''al'' @ [CHR 0x0A] @ ''bl'') (Some ''w22'') = Some (rp_body rp)"
proof -
  have "is_ok (fst (serve_public resolve_sample 7 (get_artifact ''/pp/did.jsonl'') updated_edge))" by code_simp
  then obtain rp where rp: "fst (serve_public resolve_sample 7 (get_artifact ''/pp/did.jsonl'') updated_edge) = Inr rp"
    by (auto simp: is_ok_iff)
  then have s: "serve_public resolve_sample 7 (get_artifact ''/pp/did.jsonl'') updated_edge
      = (Inr rp, snd (serve_public resolve_sample 7 (get_artifact ''/pp/did.jsonl'') updated_edge))" by (metis prod.collapse)
  have a: "re_webvh resolve_sample" "artifact_slot ''/did.jsonl'' (rq_path (get_artifact ''/pp/did.jsonl'')) = Some ''pp''" by code_simp+
  have "map_option dr_method (rec_at (es_rows updated_edge) ''pp'') = Some ''webvh''"
    "log_at updated_edge ''pp'' = Some (''al'' @ [CHR 0x0A] @ ''bl'')"
    "proofs_at updated_edge ''pp'' = Some ''w22''" "utf8_lossy ''w22'' = ''w22''" by code_simp+
  moreover obtain r l where "rec_at (es_rows updated_edge) ''pp'' = Some r" "log_at updated_edge ''pp'' = Some l"
    "dr_method r = ''webvh'' \<longrightarrow> servable_did_log (re_lib resolve_sample) l (map_option utf8_lossy (proofs_at updated_edge ''pp'')) = Some (rp_body rp)"
    using served_log_current[OF updated_edge_run a s] by blast
  ultimately have "servable_did_log (re_lib resolve_sample) (''al'' @ [CHR 0x0A] @ ''bl'') (Some ''w22'') = Some (rp_body rp)" by simp
  then show ?thesis using rp by blast
qed

theorem agent_name_claimed_witness:
  "\<exists>doc. last_state (re_lib resolve_sample) ''al'' = Some doc
     \<and> ''al'' \<in> set (agent_names_from_document (agent_parse (re_lib resolve_sample)) doc ''a.org'')"
proof -
  have n: "resolve_name resolve_sample ''al'' (get_artifact []) first_edge = Inr ''did:webvh:q:a.org:p''"
    "extract_request_host resolve_sample (get_artifact []) = Some ''a.org''" "\<not> prefix ''@'' ''al''" by code_simp+
  have "host_of_did (ee_did (re_edge resolve_sample)) (Some ''did:webvh:q:a.org:p'') = ''a.org''"
    "map_option (\<lambda>r. (dr_method r, dr_did_id r)) (rec_at (es_rows first_edge) ''pp'') = Some (''webvh'', Some ''did:webvh:q:a.org:p'')"
    "get_raw (es_rows first_edge) (agent_name_key ''a.org'' ''al'') = Some ''pp''" "log_at first_edge ''pp'' = Some ''al''"
    by code_simp+
  then show ?thesis using agent_name_claimed[OF first_edge_run n] by auto
qed

text \<open>The witness file has no such guarantee: an update drops the cached log only, so that the edge goes
  on answering with the old proofs beside the new log until the entry is as old as the time-to-live.\<close>

lemma witness_file_goes_stale:
  "(case (fst (serve_public resolve_sample 7 (get_artifact ''/pp/did.jsonl'') updated_edge),
          fst (serve_public resolve_sample 7 (get_artifact ''/pp/did-witness.json'') updated_edge)) of
     (Inr log, Inr proofs) \<Rightarrow> rp_body log = ''al'' @ [CHR 0x0A] @ ''bl'' \<and> rp_body proofs = ''w1''
       \<and> proofs_at updated_edge ''pp'' = Some ''w22''
   | _ \<Rightarrow> False)"
  by code_simp


text \<open>The names are retired under the host of the new DID. When a slot is taken over by a DID of another
  host that has a name of the same local part, the old host keeps redirecting the name, now to a DID
  whose document claims no name on that host.\<close>

definition two_host_lib :: "(string, nat, string \<times> nat) log_lib" where
  "two_host_lib = sample_lib\<lparr>json_parse := (\<lambda>s. Some (JObj [(''versionId'', JStr s),
        (''state'', JObj [(''id'', JStr (if s = ''al'' then ''did:webvh:q:a.org:p'' else ''did:webvh:s:b.org:p'')),
          (''alsoKnownAs'', JArr [JStr s])])])),
     agent_parse := (\<lambda>s. if s = ''al'' then Some (''a.org'', ''al'') else Some (''b.org'', ''al''))\<rparr>"

definition two_host_edge :: "(string, nat, string \<times> nat) edge_env" where
  "two_host_edge = edge_sample\<lparr>ee_did := (ee_did edge_sample)\<lparr>de_lib := two_host_lib\<rparr>\<rparr>"

definition moved_slot :: edge_state where
  "moved_slot = snd (apply_sync_entry two_host_edge 8
     ((slot_update [''bl''] None)\<lparr>su_did_id := ''did:webvh:s:b.org:p''\<rparr>)
     (snd (apply_sync_entry two_host_edge 7 (slot_update [''al''] None) new_edge)))"

lemma stale_name_redirects:
  "resolve_name (resolve_sample\<lparr>re_edge := two_host_edge\<rparr>) ''al'' (get_artifact []) moved_slot = Inr ''did:webvh:s:b.org:p''
   \<and> extract_request_host resolve_sample (get_artifact []) = Some ''a.org''
   \<and> map_option (\<lambda>doc. agent_names_from_document (agent_parse two_host_lib) doc ''a.org'') (last_state two_host_lib ''bl'') = Some []"
  by code_simp

end
