(* ===== verification/Reconcile.thy ===== *)
theory Reconcile
  imports Resolve "HOL-Library.AList"
begin

text \<open>
  The periodic reconcile of an edge with its control plane (did-hosting-server/src/replication.rs):
  reading the listing page by page, repairing the disabled flags, and the freshness the health probe
  reports. Sending a request and verifying the reply is a parameter: what the n-th request, for the
  page at an offset, comes back with. The repair itself (apply_listing) is in Edge.
\<close>

section \<open>Freshness\<close>

record replication_status =
  rs_started_at :: nat
  rs_last_reconciled_at :: nat
  rs_stale_slots :: nat
  rs_repaired_total :: nat

definition new_status :: "nat \<Rightarrow> replication_status" where
  "new_status now = \<lparr>rs_started_at = now, rs_last_reconciled_at = 0, rs_stale_slots = 0, rs_repaired_total = 0\<rparr>"

definition mark_reconciled :: "nat \<Rightarrow> replication_status \<Rightarrow> replication_status" where
  "mark_reconciled now s = s\<lparr>rs_last_reconciled_at := now, rs_stale_slots := 0\<rparr>"

definition last_reconciled_at :: "replication_status \<Rightarrow> nat option" where
  "last_reconciled_at s = (if rs_last_reconciled_at s = 0 then None else Some (rs_last_reconciled_at s))"

definition status_age :: "nat \<Rightarrow> replication_status \<Rightarrow> nat" where
  "status_age now s = now - (case last_reconciled_at s of Some t \<Rightarrow> t | None \<Rightarrow> rs_started_at s)"

definition status_fresh :: "nat \<Rightarrow> nat \<Rightarrow> replication_status \<Rightarrow> bool" where
  "status_fresh now bound s \<longleftrightarrow> status_age now s \<le> bound"

text \<open>A server without a control plane has nothing to fall behind.\<close>

definition edge_fresh :: "string option \<Rightarrow> nat \<Rightarrow> nat \<Rightarrow> replication_status \<Rightarrow> bool" where
  "edge_fresh control_did now bound s \<longleftrightarrow> control_did = None \<or> status_fresh now bound s"

section \<open>Pages of the listing\<close>

datatype reconcile_error = ExchangeFailed | BadPage | ShortListing nat nat

text \<open>An entry without a mnemonic or a version count is left out.\<close>

definition listed_entry :: "json \<Rightarrow> (string \<times> listed) option" where
  "listed_entry r = Option.bind (get_str ''mnemonic'' r) (\<lambda>m.
     Option.bind (Option.bind (json_get ''versionCount'' r) json_u64) (\<lambda>v.
       Some (m, \<lparr>li_did_id = get_str ''didId'' r, li_version_count = v, li_disabled = get_bool ''disabled'' r\<rparr>)))"

text \<open>The payload of a verified reply; fits is the schema of did/list.\<close>

definition verified_page ::
  "(json \<Rightarrow> bool) \<Rightarrow> json \<Rightarrow> reconcile_error + ((string \<times> listed) list \<times> nat)" where
  "verified_page fits payload =
    (if \<not> fits payload then Inl BadPage
     else case Option.bind (json_get ''total'' payload) json_u64 of
       None \<Rightarrow> Inl BadPage
     | Some tot \<Rightarrow> (case get_array ''records'' payload of
         None \<Rightarrow> Inl BadPage
       | Some rs \<Rightarrow> Inr (List.map_filter listed_entry rs, tot)))"

text \<open>HashMap::extend.\<close>

definition extend_listing :: "(string \<times> listed) list \<Rightarrow> (string \<times> listed) list \<Rightarrow> (string \<times> listed) list" where
  "extend_listing acc page = foldl (\<lambda>m (k, w). AList.update k w m) acc page"

type_synonym pages = "nat \<Rightarrow> nat \<Rightarrow> reconcile_error + ((string \<times> listed) list \<times> nat)"

text \<open>The loop ends only when the replies let it: None stands for a run that does not return.\<close>

partial_function (option) read_listing ::
  "pages \<Rightarrow> nat \<Rightarrow> nat \<Rightarrow> (string \<times> listed) list \<Rightarrow> (reconcile_error + (string \<times> listed) list) option" where
  "read_listing ask n offset acc = (case ask n offset of
     Inl e \<Rightarrow> Some (Inl e)
   | Inr (page, tot) \<Rightarrow>
       let acc' = extend_listing acc page; offset' = offset + length page
       in if page = [] \<or> tot \<le> offset'
          then (if length acc' < tot then Some (Inl (ShortListing (length acc') tot)) else Some (Inr acc'))
          else read_listing ask (n + 1) offset' acc')"

definition reconcile_once ::
  "pages \<Rightarrow> nat \<Rightarrow> edge_state \<times> replication_status
   \<Rightarrow> ((reconcile_error + reconcile_report) \<times> edge_state \<times> replication_status) option" where
  "reconcile_once ask now s = (case s of (st, rs) \<Rightarrow> Option.bind (read_listing ask 0 0 []) (\<lambda>r. Some (case r of
     Inl e \<Rightarrow> (Inl e, st, rs)
   | Inr listing \<Rightarrow> (case apply_listing listing st of (rep, st') \<Rightarrow>
       let rs1 = rs\<lparr>rs_repaired_total := rs_repaired_total rs + length (rr_repaired rep)\<rparr>
       in (Inr rep, st', if is_clean rep then mark_reconciled now rs1
            else rs1\<lparr>rs_stale_slots := length (rr_behind rep) + length (rr_extra rep)\<rparr>)))))"

section \<open>Reading the listing\<close>

text \<open>Filling a map from entries with distinct keys.\<close>

lemma update_all_append:
  "distinct (map fst (acc @ page)) \<Longrightarrow> foldl (\<lambda>m (k, w). AList.update k w m) acc page = acc @ page"
proof (induction page arbitrary: acc)
  case (Cons kw page)
  obtain k w where kw: "kw = (k, w)" by force
  have "k \<notin> fst ` set acc" using Cons.prems by (auto simp: kw)
  then have u: "AList.update k w acc = acc @ [(k, w)]" by (induction acc) auto
  have "foldl (\<lambda>m (k, w). AList.update k w m) (acc @ [(k, w)]) page = (acc @ [(k, w)]) @ page"
    using Cons.prems by (intro Cons.IH) (auto simp: kw)
  then show ?case by (simp add: kw u)
qed simp

lemma extend_append: "distinct (map fst (acc @ page)) \<Longrightarrow> extend_listing acc page = acc @ page"
  unfolding extend_listing_def by (rule update_all_append)

text \<open>The loop returns when the totals are bounded: every page but the last moves the offset.\<close>

lemma read_listing_returns:
  assumes "\<forall>n k p t. ask n k = Inr (p, t) \<longrightarrow> t \<le> T"
  shows "\<exists>r. read_listing ask n offset acc = Some r"
proof (induction "T - offset" arbitrary: n offset acc rule: less_induct)
  case less
  show ?case
  proof (cases "ask n offset")
    case (Inr pt)
    obtain page tot where pt: "pt = (page, tot)" by force
    show ?thesis
    proof (cases "page = [] \<or> tot \<le> offset + length page")
      case False
      then have "T - (offset + length page) < T - offset" using assms Inr pt by (cases page) fastforce+
      then show ?thesis using less[of "offset + length page"] False
        by (subst read_listing.simps) (simp add: Inr pt Let_def)
    qed (subst read_listing.simps, simp add: Inr pt Let_def)
  qed (subst read_listing.simps, simp)
qed

lemma read_listing_fixed:
  assumes "0 < limit" "distinct (map fst xs)" "\<forall>n k. ask n k = Inr (take limit (drop k xs), length xs)"
  shows "offset \<le> length xs \<Longrightarrow> read_listing ask n offset (take offset xs) = Some (Inr xs)"
proof (induction "length xs - offset" arbitrary: n offset rule: less_induct)
  case less
  let ?page = "take limit (drop offset xs)"
  have e: "extend_listing (take offset xs) ?page = take (offset + length ?page) xs"
  proof -
    have "take offset xs @ ?page = take (offset + limit) xs" by (simp add: take_add)
    moreover have "distinct (map fst (take (offset + limit) xs))"
      using assms(2) by (simp flip: take_map)
    ultimately have "extend_listing (take offset xs) ?page = take (offset + limit) xs" using extend_append by metis
    then show ?thesis by (simp add: min_def)
  qed
  show ?case
  proof (cases "length xs \<le> offset + length ?page")
    case True
    then show ?thesis using e less.prems by (subst read_listing.simps) (simp add: assms(3) Let_def)
  next
    case False
    then have "length ?page = limit" by auto
    then show ?thesis using e less.hyps[of "offset + length ?page" "n + 1"] False assms(1)
      by (subst read_listing.simps) (simp add: assms(3) Let_def)
  qed
qed


section \<open>What a reconcile repairs\<close>

definition published :: "did_record \<Rightarrow> bool" where
  "published r \<longleftrightarrow> 0 < dr_version_count r \<and> dr_deleted_at r = None"

lemma held_iff:
  assumes "edge_ok env st"
  shows "r \<in> set (held_records st) \<longleftrightarrow> rec_at (es_rows st) (dr_mnemonic r) = Some r \<and> published r"
proof -
  have "r \<in> set (held_records st) \<longleftrightarrow> (\<exists>k. (k, RecRow r) \<in> set (ks_scan ''did:'' (es_rows st))) \<and> published r"
    by (force simp: held_records_def published_def set_map_filter split: did_row.splits)
  then show ?thesis using scan_did_iff[OF assms] by blast
qed

lemma rows_distinct:
  "distinct (map fst s) \<Longrightarrow> \<forall>k r. (k, RecRow r) \<in> set s \<longrightarrow> k = did_key (dr_mnemonic r) \<Longrightarrow>
    distinct (map dr_mnemonic (List.map_filter (\<lambda>(k, v). case v of RecRow r \<Rightarrow> Some r | RawRow _ \<Rightarrow> None) s))"
proof (induction s)
  case (Cons kv s)
  obtain k v where kv: "kv = (k, v)" by force
  show ?case
  proof (cases v)
    case (RecRow r)
    have "dr_mnemonic r \<notin> dr_mnemonic ` set (List.map_filter (\<lambda>(k, v). case v of RecRow r \<Rightarrow> Some r | RawRow _ \<Rightarrow> None) s)"
    proof
      assume "dr_mnemonic r \<in> dr_mnemonic ` set (List.map_filter (\<lambda>(k, v). case v of RecRow r \<Rightarrow> Some r | RawRow _ \<Rightarrow> None) s)"
      then obtain j q where q: "(j, RecRow q) \<in> set s" "dr_mnemonic q = dr_mnemonic r"
        by (auto simp: set_map_filter split: did_row.splits)
      have "j = did_key (dr_mnemonic q)" "k = did_key (dr_mnemonic r)" using Cons.prems(2) q(1) by (auto simp: kv RecRow)
      then show False using Cons.prems(1) q by (force simp: kv)
    qed
    then show ?thesis using Cons by (simp add: kv RecRow)
  qed (use Cons in \<open>simp add: kv\<close>)
qed simp

lemma held_distinct:
  assumes "edge_ok env st"
  shows "distinct (map dr_mnemonic (held_records st))"
proof -
  have o: "ks_ok (es_rows st)" using assms by (simp add: edge_ok_def)
  have "k = did_key (dr_mnemonic r)" if "(k, RecRow r) \<in> set (ks_scan ''did:'' (es_rows st))" for k r
  proof -
    have g: "prefix ''did:'' k" "ks_get (es_rows st) k = Some (RecRow r)" using that rows.scan_mem[OF o] by blast+
    obtain m where m: "k = did_key m" using g(1) by (auto simp: prefix_def did_key_def)
    then have "rec_at (es_rows st) m = Some r" using g(2) by (simp add: rec_at_def)
    then show ?thesis using m assms by (simp add: edge_ok_def)
  qed
  then show ?thesis
    using rows_distinct[OF rows.scan_distinct[OF o]] by (simp add: held_records_def distinct_map_filter)
qed

text \<open>The repair of one record, and what the whole pass leaves.\<close>

definition repaired :: "(string \<Rightarrow> listed option) \<Rightarrow> did_record \<Rightarrow> did_record" where
  "repaired want r = (case want (dr_mnemonic r) of
     Some w \<Rightarrow> if li_version_count w \<noteq> 0 then r\<lparr>dr_disabled := li_disabled w\<rparr> else r
   | None \<Rightarrow> r)"

definition out_of_step :: "(string \<Rightarrow> listed option) \<Rightarrow> did_record \<Rightarrow> bool" where
  "out_of_step want r \<longleftrightarrow> (case want (dr_mnemonic r) of
     Some w \<Rightarrow> li_version_count w = 0 \<or> li_did_id w \<noteq> dr_did_id r \<or> dr_version_count r < li_version_count w
   | None \<Rightarrow> True)"

lemma repair_records_effect:
  assumes "distinct (map dr_mnemonic rs)" "\<forall>r \<in> set rs. rec_at (es_rows st) (dr_mnemonic r) = Some r"
  shows "rec_at (es_rows (snd (repair_records want rs (rep, st)))) m
    = (if m \<in> dr_mnemonic ` set rs then map_option (repaired want) (rec_at (es_rows st) m) else rec_at (es_rows st) m)"
    (is "?rec rep st")
    "is_clean (fst (repair_records want rs (rep, st))) \<longleftrightarrow> is_clean rep \<and> (\<forall>r \<in> set rs. \<not> out_of_step want r)"
    (is "?clean rep st")
proof -
  have "?rec rep st \<and> ?clean rep st"
    using assms
  proof (induction rs arbitrary: rep st)
    case (Cons r rs)
    let ?m = "dr_mnemonic r"
    have d: "distinct (map dr_mnemonic rs)" "?m \<notin> dr_mnemonic ` set rs" using Cons.prems(1) by auto
    have r: "rec_at (es_rows st) ?m = Some r" using Cons.prems(2) by simp
    obtain rep' st' where e: "repair_records want (r # rs) (rep, st) = repair_records want rs (rep', st')"
      and s: "\<forall>n. rec_at (es_rows st') n = (if n = ?m then Some (repaired want r) else rec_at (es_rows st) n)"
      and c: "is_clean rep' \<longleftrightarrow> is_clean rep \<and> \<not> out_of_step want r"
    proof (cases "want ?m")
      case None
      show ?thesis by (rule that[of "rep\<lparr>rr_extra := rr_extra rep @ [?m]\<rparr>" st])
          (use r None in \<open>auto simp: repaired_def out_of_step_def is_clean_def\<close>)
    next
      case (Some w)
      let ?rep = "if li_did_id w \<noteq> dr_did_id r \<or> dr_version_count r < li_version_count w
        then rep\<lparr>rr_behind := rr_behind rep @ [?m]\<rparr> else rep"
      have flag: "r\<lparr>dr_disabled := dr_disabled r\<rparr> = r" by simp
      consider "li_version_count w = 0" | "li_version_count w \<noteq> 0" "li_disabled w = dr_disabled r"
        | "li_version_count w \<noteq> 0" "li_disabled w \<noteq> dr_disabled r" by blast
      then show ?thesis
      proof cases
        case 1
        show ?thesis by (rule that[of "rep\<lparr>rr_extra := rr_extra rep @ [?m]\<rparr>" st])
            (use r Some 1 in \<open>auto simp: repaired_def out_of_step_def is_clean_def Let_def\<close>)
      next
        case 2
        show ?thesis by (rule that[of ?rep st])
            (use r Some 2 flag in \<open>auto simp: repaired_def out_of_step_def is_clean_def Let_def\<close>)
      next
        case 3
        let ?st = "st\<lparr>es_rows := ks_put (did_key ?m) (RecRow (r\<lparr>dr_disabled := li_disabled w\<rparr>)) (es_rows st),
          es_cache := cache_invalidate (content_log_key ?m) (es_cache st)\<rparr>"
        show ?thesis
        proof (rule that[of "?rep\<lparr>rr_repaired := rr_repaired ?rep @ [?m]\<rparr>" ?st])
          show "repair_records want (r # rs) (rep, st) = repair_records want rs (?rep\<lparr>rr_repaired := rr_repaired ?rep @ [?m]\<rparr>, ?st)"
            using Some 3 by (simp add: Let_def)
          show "\<forall>n. rec_at (es_rows ?st) n = (if n = ?m then Some (repaired want r) else rec_at (es_rows st) n)"
            using Some 3 by (simp add: repaired_def rec_at_def ks_simps)
          show "is_clean (?rep\<lparr>rr_repaired := rr_repaired ?rep @ [?m]\<rparr>) \<longleftrightarrow> is_clean rep \<and> \<not> out_of_step want r"
            using Some 3 by (simp add: out_of_step_def is_clean_def)
        qed
      qed
    qed
    have "\<forall>q \<in> set rs. rec_at (es_rows st') (dr_mnemonic q) = Some q"
    proof
      fix q assume q: "q \<in> set rs"
      then have "dr_mnemonic q \<noteq> ?m" using d(2) by (metis imageI)
      then show "rec_at (es_rows st') (dr_mnemonic q) = Some q" using s Cons.prems(2) q by simp
    qed
    note ih = Cons.IH[OF d(1) this, of rep']
    show ?case
    proof (cases "m = ?m")
      case True
      then show ?thesis unfolding e using ih s c r d(2) by simp
    next
      case False
      then show ?thesis unfolding e using ih s c by simp
    qed
  qed simp
  then show "?rec rep st" "?clean rep st" by blast+
qed


lemma sort_report_clean [simp]: "is_clean (sort_report rep) = is_clean rep"
  by (simp add: is_clean_def sort_report_def) (metis length_0_conv length_sort)

lemma apply_listing_effect:
  assumes "edge_ok env st" "apply_listing listing st = (rep, st')"
  shows "rec_at (es_rows st') m = (case rec_at (es_rows st) m of
      Some r \<Rightarrow> Some (if published r then repaired (map_of listing) r else r) | None \<Rightarrow> None)"
    "is_clean rep \<longleftrightarrow> (\<forall>(m, w) \<in> set listing. li_version_count w = 0 \<or> (\<exists>r. rec_at (es_rows st) m = Some r \<and> published r))
      \<and> (\<forall>m r. rec_at (es_rows st) m = Some r \<longrightarrow> published r \<longrightarrow> \<not> out_of_step (map_of listing) r)"
proof -
  let ?held = "held_records st"
  let ?missing = "map fst (filter (\<lambda>(m, w). li_version_count w \<noteq> 0 \<and> m \<notin> dr_mnemonic ` set ?held) listing)"
  let ?rep = "\<lparr>rr_repaired = [], rr_behind = ?missing, rr_extra = []\<rparr>"
  have n: "dr_mnemonic r = m" if "rec_at (es_rows st) m = Some r" for m r using assms(1) that by (simp add: edge_ok_def)
  have h: "m \<in> dr_mnemonic ` set ?held \<longleftrightarrow> (\<exists>r. rec_at (es_rows st) m = Some r \<and> published r)" for m
    using held_iff[OF assms(1)] n by (metis (no_types, lifting) image_iff)
  have e: "rep = sort_report (fst (repair_records (map_of listing) ?held (?rep, st)))"
    "st' = snd (repair_records (map_of listing) ?held (?rep, st))"
    using assms(2) by (auto simp: apply_listing_def Let_def split: prod.splits)
  have p: "\<forall>r \<in> set ?held. rec_at (es_rows st) (dr_mnemonic r) = Some r" using held_iff[OF assms(1)] by blast
  note r = repair_records_effect[OF held_distinct[OF assms(1)] p, of "map_of listing"]
  show "rec_at (es_rows st') m = (case rec_at (es_rows st) m of
      Some r \<Rightarrow> Some (if published r then repaired (map_of listing) r else r) | None \<Rightarrow> None)"
    unfolding e(2) r(1) h by (cases "rec_at (es_rows st) m") simp_all
  have "is_clean ?rep \<longleftrightarrow> (\<forall>(m, w) \<in> set listing. li_version_count w = 0 \<or> m \<in> dr_mnemonic ` set ?held)"
    by (auto simp: is_clean_def filter_empty_conv)
  moreover have "(\<forall>r \<in> set ?held. \<not> out_of_step (map_of listing) r)
      \<longleftrightarrow> (\<forall>m r. rec_at (es_rows st) m = Some r \<longrightarrow> published r \<longrightarrow> \<not> out_of_step (map_of listing) r)"
    using held_iff[OF assms(1)] n by metis
  ultimately show "is_clean rep \<longleftrightarrow> (\<forall>(m, w) \<in> set listing. li_version_count w = 0 \<or> (\<exists>r. rec_at (es_rows st) m = Some r \<and> published r))
      \<and> (\<forall>m r. rec_at (es_rows st) m = Some r \<longrightarrow> published r \<longrightarrow> \<not> out_of_step (map_of listing) r)"
    unfolding e(1) sort_report_clean r(2) h by blast
qed

text \<open>The slot m is held as the listing says: the same DID, at least as many versions, the listed flag.\<close>

definition in_step :: "edge_state \<Rightarrow> string \<Rightarrow> listed \<Rightarrow> bool" where
  "in_step st m w \<longleftrightarrow> (\<exists>r. rec_at (es_rows st) m = Some r \<and> published r \<and> dr_did_id r = li_did_id w
     \<and> li_version_count w \<le> dr_version_count r \<and> dr_disabled r = li_disabled w)"

text \<open>C29: What a reconcile achieves. After it every published slot the edge holds and the control plane
  lists as published has the disabled state of the listing, whatever else is out of step; and when the
  report is clean the edge holds exactly the listed published slots, each as the same DID, at no
  older version and with the listed disabled state.\<close>

theorem reconcile_in_step:
  assumes "(live_step env)\<^sup>*\<^sup>* new_edge st" "apply_listing listing st = (rep, st')" "distinct (map fst listing)"
  shows "(\<forall>m r w. rec_at (es_rows st') m = Some r \<longrightarrow> published r \<longrightarrow> map_of listing m = Some w \<longrightarrow> 0 < li_version_count w
      \<longrightarrow> dr_disabled r = li_disabled w)
    \<and> (is_clean rep \<longrightarrow> (\<forall>m w. (m, w) \<in> set listing \<longrightarrow> 0 < li_version_count w \<longrightarrow> in_step st' m w)
        \<and> (\<forall>m r. rec_at (es_rows st') m = Some r \<longrightarrow> published r \<longrightarrow> (\<exists>w. (m, w) \<in> set listing \<and> 0 < li_version_count w)))"
proof -
  have ok: "edge_ok (re_edge env) st" by (rule live_run_ok[OF assms(1)])
  note f = apply_listing_effect[OF ok assms(2)]
  have n: "dr_mnemonic r = m" if "rec_at (es_rows st) m = Some r" for m r using ok that by (simp add: edge_ok_def)
  have p: "published (repaired want r) \<longleftrightarrow> published r" for want r
    by (simp add: repaired_def published_def split: option.splits)
  have at: "\<exists>q. rec_at (es_rows st) m = Some q \<and> r = repaired (map_of listing) q \<and> published q"
    if "rec_at (es_rows st') m = Some r" "published r" for m r
    using that f(1)[of m] p by (auto split: option.splits if_splits)
  have flag: "dr_disabled r = li_disabled w"
    if "rec_at (es_rows st') m = Some r" "published r" "map_of listing m = Some w" "0 < li_version_count w" for m r w
    using at[OF that(1,2)] n that(3,4) by (auto simp: repaired_def)
  have held: "in_step st' m w" if c: "is_clean rep" and w: "(m, w) \<in> set listing" "0 < li_version_count w" for m w
  proof -
    have m: "map_of listing m = Some w" using w(1) assms(3) by simp
    obtain q where q: "rec_at (es_rows st) m = Some q" "published q" using c w unfolding f(2) by fastforce
    have "\<not> out_of_step (map_of listing) q" using c q unfolding f(2) by blast
    then show ?thesis using f(1)[of m] q n[OF q(1)] m w(2) p
      by (auto simp: in_step_def out_of_step_def repaired_def published_def)
  qed
  have only: "\<exists>w. (m, w) \<in> set listing \<and> 0 < li_version_count w"
    if c: "is_clean rep" and r: "rec_at (es_rows st') m = Some r" "published r" for m r
  proof -
    obtain q where q: "rec_at (es_rows st) m = Some q" "published q" using at[OF r] by blast
    have "\<not> out_of_step (map_of listing) q" using c q unfolding f(2) by blast
    then show ?thesis using n[OF q(1)] by (auto simp: out_of_step_def dest: map_of_SomeD split: option.splits)
  qed
  show ?thesis using flag held only by blast
qed

text \<open>C30: The paging loop of a reconcile returns whenever the totals of the replies are bounded, however
  else they vary from request to request, and with a control plane that answers from one listing in
  pages of a fixed positive size it returns exactly that listing.\<close>

theorem read_listing_terminates:
  assumes "\<forall>n k p t. ask n k = Inr (p, t) \<longrightarrow> t \<le> T"
  shows "\<exists>r. read_listing ask 0 0 [] = Some r
    \<and> (0 < limit \<and> distinct (map fst xs) \<and> (\<forall>n k. ask n k = Inr (take limit (drop k xs), length xs)) \<longrightarrow> r = Inr xs)"
  using read_listing_returns[OF assms, of 0 0 "[]"] read_listing_fixed[of limit xs ask 0 0] by auto


section \<open>An edge that reconciles\<close>

definition listing_of :: "bool \<Rightarrow> (string \<times> listed) list" where
  "listing_of off = [(''pp'', \<lparr>li_did_id = Some ''did:webvh:q:a.org:p'', li_version_count = 1, li_disabled = off\<rparr>),
     (''rr'', \<lparr>li_did_id = None, li_version_count = 0, li_disabled = False\<rparr>)]"

theorem reconcile_in_step_witness:
  "in_step (snd (apply_listing (listing_of True) first_edge)) ''pp''
     \<lparr>li_did_id = Some ''did:webvh:q:a.org:p'', li_version_count = 1, li_disabled = True\<rparr>"
proof -
  have "is_clean (fst (apply_listing (listing_of True) first_edge))" "distinct (map fst (listing_of True))" by code_simp+
  then show ?thesis
    using reconcile_in_step[OF first_edge_run prod.collapse[symmetric], of "listing_of True"]
    by (simp add: listing_of_def)
qed

theorem read_listing_terminates_witness:
  "read_listing (\<lambda>n k. Inr (take 1 (drop k (listing_of False)), length (listing_of False))) 0 0 [] = Some (Inr (listing_of False))"
proof -
  have "distinct (map fst (listing_of False))" by code_simp
  then show ?thesis
    using read_listing_terminates[of "\<lambda>n k. Inr (take 1 (drop k (listing_of False)), length (listing_of False))"
        "length (listing_of False)" 1 "listing_of False"] by auto
qed

text \<open>The repair trusts the listing over what arrived since: a listing fetched before the control plane
  disabled the DID, applied after the update that says so, enables the slot again.\<close>

definition disabled_edge :: edge_state where
  "disabled_edge = snd (apply_sync_entry edge_sample 9 ((slot_update [''al''] (Some ''w1''))\<lparr>su_disabled := True\<rparr>) first_edge)"

lemma stale_listing_reenables:
  "map_option dr_disabled (rec_at (es_rows disabled_edge) ''pp'') = Some True
    \<and> map_option dr_disabled (rec_at (es_rows (snd (apply_listing (listing_of False) disabled_edge))) ''pp'') = Some False
    \<and> is_clean (fst (apply_listing (listing_of False) disabled_edge))"
  by code_simp

end
