(* ===== verification/Wire.thy ===== *)
theory Wire
  imports Domains DidLog
begin

text \<open>
  A domain entry in the wire shape that replicas and administrators see
  (did-hosting-common/src/server/domain/wire.rs), with the serde shapes of the host's own settings
  (domain/types.rs). Writing and reading an RFC 3339 date are chrono's and parameters. A setting given
  as an array, which serde also takes for a struct, counts as malformed.
\<close>

section \<open>Writing (to_spec)\<close>

definition WEBVH_EXT_KEY :: string where
  "WEBVH_EXT_KEY = ''vnd.affinidi.webvh''"

definition opt_member :: "string \<Rightarrow> json option \<Rightarrow> (string \<times> json) list" where
  "opt_member k v = (case v of Some x \<Rightarrow> [(k, x)] | None \<Rightarrow> [])"

definition json_strings :: "string list \<Rightarrow> json" where
  "json_strings xs = JArr (map JStr xs)"

definition json_nat :: "nat \<Rightarrow> json" where
  "json_nat n = JInt (int n)"

definition scheme_json :: "domain_url_scheme \<Rightarrow> json" where
  "scheme_json s = JStr (case s of Https \<Rightarrow> ''https'' | Http \<Rightarrow> ''http'')"

definition branding_json :: "domain_branding \<Rightarrow> json" where
  "branding_json b = JObj (opt_member ''display_name'' (map_option JStr (display_name b))
     @ opt_member ''logo_url'' (map_option JStr (logo_url b))
     @ opt_member ''tos_url'' (map_option JStr (tos_url b))
     @ opt_member ''contact_email'' (map_option JStr (contact_email b)))"

definition quota_json :: "domain_quota \<Rightarrow> json" where
  "quota_json q = JObj (opt_member ''max_dids_in_domain'' (map_option json_nat (max_dids_in_domain q))
     @ opt_member ''max_total_size_in_domain'' (map_option json_nat (max_total_size_in_domain q)))"

definition host_settings :: "domain_entry \<Rightarrow> json" where
  "host_settings e = JObj ([(''scheme'', scheme_json (dom_scheme e)), (''wellKnownEnabled'', JBool (dom_well_known_enabled e))]
     @ opt_member ''branding'' (map_option branding_json (dom_branding e))
     @ opt_member ''witnesses'' (map_option json_strings (dom_witnesses e))
     @ opt_member ''watchers'' (map_option json_strings (dom_watchers e))
     @ opt_member ''quota'' (map_option quota_json (dom_quota e)))"

definition to_spec :: "(nat \<Rightarrow> string) \<Rightarrow> domain_entry \<Rightarrow> json" where
  "to_spec date e = JObj ([(''name'', JStr (dom_name e))]
     @ opt_member ''label'' (map_option JStr (dom_label e))
     @ [(''status'', JStr (case dom_status e of Active \<Rightarrow> ''active'' | Disabled \<Rightarrow> ''disabled'')),
        (''defaultDomain'', JBool (dom_default_domain e)), (''createdAt'', JStr (date (dom_created_at e)))]
     @ (if dom_status e = Disabled
        then opt_member ''disabledAt'' (map_option (JStr \<circ> date) (dom_disabled_at e))
           @ opt_member ''purgeAt'' (map_option (JStr \<circ> date) (dom_purge_at e))
        else [])
     @ [(''ext'', JObj [(WEBVH_EXT_KEY, host_settings e)])])"

section \<open>Reading (from_spec)\<close>

datatype wire_error = MissingName | BadStatus | BadDate | MissingCreatedAt | BadSetting

text \<open>A member that is absent or null, or read by f.\<close>

definition nullable :: "(json \<Rightarrow> 'a option) \<Rightarrow> string \<Rightarrow> json \<Rightarrow> 'a option option" where
  "nullable f k v = (case json_get k v of
     None \<Rightarrow> Some None | Some JNull \<Rightarrow> Some None | Some x \<Rightarrow> map_option Some (f x))"

definition secs :: "(string \<Rightarrow> int option) \<Rightarrow> json \<Rightarrow> string \<Rightarrow> wire_error + nat option" where
  "secs parse_date v k = ok_or BadDate
     (nullable (\<lambda>x. Option.bind (json_str x) (\<lambda>t. map_option (\<lambda>n. nat (max n 0)) (parse_date t))) k v)"

definition host_setting :: "(json \<Rightarrow> 'a option) \<Rightarrow> json \<Rightarrow> string \<Rightarrow> wire_error + 'a option" where
  "host_setting f host k = ok_or BadSetting (nullable f k host)"

fun read_all :: "(json \<Rightarrow> 'a option) \<Rightarrow> json list \<Rightarrow> 'a list option" where
  "read_all f [] = Some []"
| "read_all f (x # xs) = Option.bind (f x) (\<lambda>y. Option.bind (read_all f xs) (\<lambda>ys. Some (y # ys)))"

definition read_strings :: "json \<Rightarrow> string list option" where
  "read_strings v = Option.bind (json_array v) (read_all json_str)"

definition read_scheme :: "json \<Rightarrow> domain_url_scheme option" where
  "read_scheme v = (if json_str v = Some ''https'' then Some Https
     else if json_str v = Some ''http'' then Some Http else None)"

definition is_object :: "json \<Rightarrow> bool" where
  "is_object v = (case v of JObj _ \<Rightarrow> True | _ \<Rightarrow> False)"

definition read_branding :: "json \<Rightarrow> domain_branding option" where
  "read_branding v = (if \<not> is_object v then None
     else Option.bind (nullable json_str ''display_name'' v) (\<lambda>a.
          Option.bind (nullable json_str ''logo_url'' v) (\<lambda>b.
          Option.bind (nullable json_str ''tos_url'' v) (\<lambda>c.
          Option.bind (nullable json_str ''contact_email'' v) (\<lambda>d.
          Some \<lparr>display_name = a, logo_url = b, tos_url = c, contact_email = d\<rparr>)))))"

definition read_quota :: "json \<Rightarrow> domain_quota option" where
  "read_quota v = (if \<not> is_object v then None
     else Option.bind (nullable json_u64 ''max_dids_in_domain'' v) (\<lambda>a.
          Option.bind (nullable json_u64 ''max_total_size_in_domain'' v) (\<lambda>b.
          Some \<lparr>max_dids_in_domain = a, max_total_size_in_domain = b\<rparr>)))"

definition host_of_entry :: "json \<Rightarrow> json" where
  "host_of_entry v = (case Option.bind (json_get ''ext'' v) (json_get WEBVH_EXT_KEY) of Some h \<Rightarrow> h | None \<Rightarrow> JNull)"

definition from_spec :: "(string \<Rightarrow> int option) \<Rightarrow> json \<Rightarrow> wire_error + domain_entry" where
  "from_spec parse_date v =
    and_then (ok_or MissingName (get_str ''name'' v)) (\<lambda>name.
    and_then (if get_str ''status'' v = Some ''active'' then Inr Active
              else if get_str ''status'' v = Some ''disabled'' then Inr Disabled else Inl BadStatus) (\<lambda>status.
    and_then (and_then (secs parse_date v ''createdAt'') (ok_or MissingCreatedAt)) (\<lambda>created_at.
    let host = host_of_entry v in
    and_then (host_setting read_scheme host ''scheme'') (\<lambda>scheme.
    and_then (host_setting json_bool host ''wellKnownEnabled'') (\<lambda>well_known.
    and_then (host_setting read_branding host ''branding'') (\<lambda>branding.
    and_then (host_setting read_strings host ''witnesses'') (\<lambda>witnesses.
    and_then (host_setting read_strings host ''watchers'') (\<lambda>watchers.
    and_then (host_setting read_quota host ''quota'') (\<lambda>quota.
    and_then (secs parse_date v ''disabledAt'') (\<lambda>disabled_at.
    and_then (secs parse_date v ''purgeAt'') (\<lambda>purge_at.
    Inr \<lparr>dom_name = name, dom_label = get_str ''label'' v,
         dom_scheme = (case scheme of Some s \<Rightarrow> s | None \<Rightarrow> Https), dom_status = status, dom_created_at = created_at,
         dom_default_domain = get_bool ''defaultDomain'' v, dom_branding = branding, dom_witnesses = witnesses,
         dom_watchers = watchers, dom_quota = quota,
         dom_well_known_enabled = (case well_known of Some b \<Rightarrow> b | None \<Rightarrow> False),
         dom_disabled_at = disabled_at, dom_purge_at = purge_at\<rparr>)))))))))))"

section \<open>Round trip\<close>

named_theorems wire

lemma get_obj [wire]: "json_get k (JObj ms) = map_of ms k"
  by (simp add: json_get_def)

lemma map_of_opt [wire]:
  "(m ++ map_of (opt_member k v)) j = (if j = k \<and> v \<noteq> None then v else m j)"
  "map_of (opt_member k v) j = (if j = k then v else None)"
  by (cases v; simp add: opt_member_def map_add_def)+

lemma nullable_opt:
  "json_get k v = map_option g x \<Longrightarrow> (\<And>y. x = Some y \<Longrightarrow> g y \<noteq> JNull \<and> f (g y) = Some y) \<Longrightarrow> nullable f k v = Some x"
  by (cases x) (auto simp: nullable_def split: json.splits)

lemma read_all_map: "(\<And>x. x \<in> set xs \<Longrightarrow> f (g x) = Some x) \<Longrightarrow> read_all f (map g xs) = Some xs"
  by (induction xs) simp_all

lemma read_scheme_json: "read_scheme (scheme_json s) = Some s"
  by (cases s) (simp_all add: read_scheme_def scheme_json_def json_str_def)

lemma read_strings_json: "read_strings (json_strings xs) = Some xs"
  by (simp add: read_strings_def json_strings_def json_array_def read_all_map json_str_def)

lemma read_branding_json: "read_branding (branding_json b) = Some b"
proof -
  have "nullable json_str ''display_name'' (branding_json b) = Some (display_name b)"
    "nullable json_str ''logo_url'' (branding_json b) = Some (logo_url b)"
    "nullable json_str ''tos_url'' (branding_json b) = Some (tos_url b)"
    "nullable json_str ''contact_email'' (branding_json b) = Some (contact_email b)"
    by (rule nullable_opt[where g = JStr]; simp add: branding_json_def wire json_str_def)+
  then show ?thesis by (simp add: read_branding_def branding_json_def is_object_def)
qed

definition u64_quota :: "domain_quota \<Rightarrow> bool" where
  "u64_quota q \<longleftrightarrow> pred_option (\<lambda>n. n < u64_lim) (max_dids_in_domain q) \<and> pred_option (\<lambda>n. n < u64_lim) (max_total_size_in_domain q)"

lemma read_quota_json: "u64_quota q \<Longrightarrow> read_quota (quota_json q) = Some q"
proof -
  assume q: "u64_quota q"
  have "nullable json_u64 ''max_dids_in_domain'' (quota_json q) = Some (max_dids_in_domain q)"
    "nullable json_u64 ''max_total_size_in_domain'' (quota_json q) = Some (max_total_size_in_domain q)"
    using q by (intro nullable_opt[where g = json_nat];
      simp add: quota_json_def wire json_u64_def json_nat_def u64_quota_def u64_lim_def)+
  then show ?thesis by (simp add: read_quota_def quota_json_def is_object_def)
qed

text \<open>Dates up to a bound are written so that reading them gives the same second.\<close>

definition dates_ok :: "(nat \<Rightarrow> string) \<Rightarrow> (string \<Rightarrow> int option) \<Rightarrow> nat \<Rightarrow> bool" where
  "dates_ok date parse_date T \<longleftrightarrow> (\<forall>n \<le> T. parse_date (date n) = Some (int n))"

definition entry_in_range :: "nat \<Rightarrow> domain_entry \<Rightarrow> bool" where
  "entry_in_range T e \<longleftrightarrow> dom_created_at e \<le> T \<and> pred_option (\<lambda>n. n \<le> T) (dom_disabled_at e)
     \<and> pred_option (\<lambda>n. n \<le> T) (dom_purge_at e) \<and> pred_option u64_quota (dom_quota e)"

text \<open>The times that travel: those of a disabled entry.\<close>

definition sent_entry_of :: "domain_entry \<Rightarrow> domain_entry" where
  "sent_entry_of e = (if dom_status e = Disabled then e else e\<lparr>dom_disabled_at := None, dom_purge_at := None\<rparr>)"

lemma host_of_to_spec: "host_of_entry (to_spec date e) = host_settings e"
  by (simp add: host_of_entry_def to_spec_def wire WEBVH_EXT_KEY_def)

lemma read_settings:
  assumes "pred_option u64_quota (dom_quota e)"
  shows "host_setting read_scheme (host_settings e) ''scheme'' = Inr (Some (dom_scheme e))"
    "host_setting json_bool (host_settings e) ''wellKnownEnabled'' = Inr (Some (dom_well_known_enabled e))"
    "host_setting read_branding (host_settings e) ''branding'' = Inr (dom_branding e)"
    "host_setting read_strings (host_settings e) ''witnesses'' = Inr (dom_witnesses e)"
    "host_setting read_strings (host_settings e) ''watchers'' = Inr (dom_watchers e)"
    "host_setting read_quota (host_settings e) ''quota'' = Inr (dom_quota e)"
proof -
  have b: "branding_json x \<noteq> JNull" "json_strings xs \<noteq> JNull" "quota_json q \<noteq> JNull" "scheme_json c \<noteq> JNull" for x xs q c
    by (simp_all add: branding_json_def json_strings_def quota_json_def scheme_json_def)
  have "nullable read_scheme ''scheme'' (host_settings e) = Some (Some (dom_scheme e))"
    "nullable json_bool ''wellKnownEnabled'' (host_settings e) = Some (Some (dom_well_known_enabled e))"
    by (cases "dom_scheme e"; simp add: nullable_def host_settings_def wire read_scheme_def json_bool_def json_str_def scheme_json_def)+
  moreover have "nullable read_branding ''branding'' (host_settings e) = Some (dom_branding e)"
    by (rule nullable_opt[where g = branding_json]) (simp_all add: host_settings_def wire b read_branding_json)
  moreover have "nullable read_strings ''witnesses'' (host_settings e) = Some (dom_witnesses e)"
    "nullable read_strings ''watchers'' (host_settings e) = Some (dom_watchers e)"
    by (rule nullable_opt[where g = json_strings]; simp add: host_settings_def wire b read_strings_json)+
  moreover have "nullable read_quota ''quota'' (host_settings e) = Some (dom_quota e)"
    by (rule nullable_opt[where g = quota_json]) (use assms in \<open>simp_all add: host_settings_def wire b read_quota_json\<close>)
  ultimately show "host_setting read_scheme (host_settings e) ''scheme'' = Inr (Some (dom_scheme e))"
    "host_setting json_bool (host_settings e) ''wellKnownEnabled'' = Inr (Some (dom_well_known_enabled e))"
    "host_setting read_branding (host_settings e) ''branding'' = Inr (dom_branding e)"
    "host_setting read_strings (host_settings e) ''witnesses'' = Inr (dom_witnesses e)"
    "host_setting read_strings (host_settings e) ''watchers'' = Inr (dom_watchers e)"
    "host_setting read_quota (host_settings e) ''quota'' = Inr (dom_quota e)"
    by (simp_all add: host_setting_def ok_or_def)
qed

lemma read_dates:
  assumes "dates_ok date parse_date T" "entry_in_range T e"
  shows "secs parse_date (to_spec date e) ''createdAt'' = Inr (Some (dom_created_at e))"
    "secs parse_date (to_spec date e) ''disabledAt'' = Inr (dom_disabled_at (sent_entry_of e))"
    "secs parse_date (to_spec date e) ''purgeAt'' = Inr (dom_purge_at (sent_entry_of e))"
proof -
  let ?f = "\<lambda>x. Option.bind (json_str x) (\<lambda>t. map_option (\<lambda>n. nat (max n 0)) (parse_date t))"
  have f: "?f (JStr (date n)) = Some n" if "n \<le> T" for n
    using assms(1) that by (simp add: dates_ok_def json_str_def)
  have "nullable ?f ''createdAt'' (to_spec date e) = Some (Some (dom_created_at e))"
    by (rule nullable_opt[where g = "JStr \<circ> date"]) (use assms(2) f in \<open>auto simp: to_spec_def wire entry_in_range_def\<close>)
  moreover have "nullable ?f ''disabledAt'' (to_spec date e) = Some (dom_disabled_at (sent_entry_of e))"
    by (rule nullable_opt[where g = "JStr \<circ> date"])
      (use assms(2) f in \<open>auto simp: to_spec_def wire entry_in_range_def sent_entry_of_def split: if_splits\<close>)
  moreover have "nullable ?f ''purgeAt'' (to_spec date e) = Some (dom_purge_at (sent_entry_of e))"
    by (rule nullable_opt[where g = "JStr \<circ> date"])
      (use assms(2) f in \<open>auto simp: to_spec_def wire entry_in_range_def sent_entry_of_def split: if_splits\<close>)
  ultimately show "secs parse_date (to_spec date e) ''createdAt'' = Inr (Some (dom_created_at e))"
    "secs parse_date (to_spec date e) ''disabledAt'' = Inr (dom_disabled_at (sent_entry_of e))"
    "secs parse_date (to_spec date e) ''purgeAt'' = Inr (dom_purge_at (sent_entry_of e))"
    by (simp_all add: secs_def ok_or_def)
qed

lemma read_members:
  "get_str ''name'' (to_spec date e) = Some (dom_name e)" "get_str ''label'' (to_spec date e) = dom_label e"
  "get_str ''status'' (to_spec date e) = Some (case dom_status e of Active \<Rightarrow> ''active'' | Disabled \<Rightarrow> ''disabled'')"
  "get_bool ''defaultDomain'' (to_spec date e) = dom_default_domain e"
  by (cases "dom_label e"; simp add: get_str_def get_bool_def to_spec_def wire json_str_def json_bool_def)+

text \<open>A domain entry survives the wire: what a replica reads back from the shape the control plane sends is
  the entry itself - label, scheme, status, default flag, branding, witness and watcher lists, quota,
  well-known switch and times - except that an active entry loses stale disable and purge times.\<close>

theorem domain_entry_roundtrip:
  assumes "dates_ok date parse_date T" "entry_in_range T e"
  shows "from_spec parse_date (to_spec date e) = Inr (sent_entry_of e)"
proof -
  have q: "pred_option u64_quota (dom_quota e)" using assms(2) by (simp add: entry_in_range_def)
  have s: "dom_status e = Active \<or> dom_status e = Disabled" by (cases "dom_status e") simp_all
  show ?thesis
    using s by (auto simp: from_spec_def read_members read_dates[OF assms] host_of_to_spec read_settings[OF q] ok_or_def
        and_then_def sent_entry_of_def)
qed

theorem domain_entry_roundtrip_witness:
  "from_spec (\<lambda>t. Some (int (length t))) (to_spec (\<lambda>n. replicate n (CHR ''t''))
      \<lparr>dom_name = ''a.org'', dom_label = None, dom_scheme = Http, dom_status = Disabled, dom_created_at = 3,
       dom_default_domain = False, dom_branding = None, dom_witnesses = Some [''w''], dom_watchers = None,
       dom_quota = Some \<lparr>max_dids_in_domain = Some 9, max_total_size_in_domain = None\<rparr>,
       dom_well_known_enabled = True, dom_disabled_at = Some 5, dom_purge_at = Some 8\<rparr>)
    = Inr \<lparr>dom_name = ''a.org'', dom_label = None, dom_scheme = Http, dom_status = Disabled, dom_created_at = 3,
       dom_default_domain = False, dom_branding = None, dom_witnesses = Some [''w''], dom_watchers = None,
       dom_quota = Some \<lparr>max_dids_in_domain = Some 9, max_total_size_in_domain = None\<rparr>,
       dom_well_known_enabled = True, dom_disabled_at = Some 5, dom_purge_at = Some 8\<rparr>"
proof -
  have "dates_ok (\<lambda>n. replicate n (CHR ''t'')) (\<lambda>t. Some (int (length t))) 10" by (simp add: dates_ok_def)
  from domain_entry_roundtrip[OF this] show ?thesis
    by (subst domain_entry_roundtrip[OF \<open>dates_ok _ _ 10\<close>])
      (simp_all add: entry_in_range_def u64_quota_def u64_lim_def sent_entry_of_def)
qed

end
