(* ===== verification/Registry.thy ===== *)
theory Registry
  imports Acl DomainTasks Wire
begin

text \<open>
  The registry keyspace of the control plane: the service instances it knows
  (did-hosting-control/src/registry.rs) with their health verdicts (run_health_checks of server.rs),
  the latest domain directive sent to each server (DomainIntent of server_push.rs), the handlers of a
  server's signed messages that change them (messaging.rs) and the administrator's tasks on the
  registry (control_tasks/registry.rs). The URL parser, the classification of literal addresses, the
  DID resolver, the outcome of a ping and the date format are parameters; the generated response
  types are left out.
\<close>

section \<open>Instances (registry.rs)\<close>

datatype service_type = Server | Witness | Watcher

definition service_type_name :: "service_type \<Rightarrow> string" where
  "service_type_name t = (case t of Server \<Rightarrow> ''server'' | Witness \<Rightarrow> ''witness'' | Watcher \<Rightarrow> ''watcher'')"

datatype service_status = ActiveService | Degraded | Unreachable

datatype observed_transport = Tsp | Didcomm | Https

record service_instance =
  si_instance_id :: string
  si_service_type :: service_type
  si_label :: "string option"
  si_url :: string
  si_status :: service_status
  si_last_health_check :: "nat option"
  si_registered_at :: nat
  si_metadata :: json
  si_enabled_methods :: "string list"
  si_served_domains :: "string list"
  si_protocol_version :: string
  si_advertised_services :: "string list option"
  si_services_checked_at :: "nat option"
  si_trust_task_capable :: bool
  si_sync_batch_capable :: bool
  si_last_inbound_transport :: "observed_transport option"
  si_last_inbound_at :: "nat option"
  si_last_outbound_transport :: "observed_transport option"
  si_last_outbound_at :: "nat option"
  si_last_ack_at :: "nat option"
  si_last_reconcile_at :: "nat option"

datatype domain_op = OpAssign | OpUnassign | OpPurge

record domain_intent =
  di_domain :: string
  di_op :: domain_op
  di_at :: nat

text \<open>One keyspace holds both; a typed read of the other kind fails to deserialise.\<close>

datatype registry_row = InstanceRow service_instance | IntentRow domain_intent

type_synonym registry = "registry_row ks"

definition instance_key :: "string \<Rightarrow> string" where
  "instance_key i = ''instance:'' @ i"

definition instance_id_of :: "string \<Rightarrow> string" where
  "instance_id_of did = replace_char (CHR '':'') (CHR ''_'') did"

definition register_instance :: "service_instance \<Rightarrow> registry \<Rightarrow> registry" where
  "register_instance i s = ks_put (instance_key (si_instance_id i)) (InstanceRow i) s"

definition deregister_instance :: "string \<Rightarrow> registry \<Rightarrow> registry" where
  "deregister_instance i s = ks_del (instance_key i) s"

definition get_instance :: "registry \<Rightarrow> string \<Rightarrow> service_instance option res" where
  "get_instance s i = (case ks_get s (instance_key i) of
     None \<Rightarrow> Inr None
   | Some (InstanceRow x) \<Rightarrow> Inr (Some x)
   | Some (IntentRow _) \<Rightarrow> Inl Serialization)"

definition list_instances :: "registry \<Rightarrow> service_instance list" where
  "list_instances s = List.map_filter
     (\<lambda>(k, v). case v of InstanceRow i \<Rightarrow> Some i | IntentRow _ \<Rightarrow> None) (ks_scan ''instance:'' s)"

definition list_instances_by_type :: "service_type \<Rightarrow> registry \<Rightarrow> service_instance list" where
  "list_instances_by_type t s = filter (\<lambda>i. si_service_type i = t) (list_instances s)"

definition si_did :: "service_instance \<Rightarrow> string option" where
  "si_did i = get_str ''did'' (si_metadata i)"

definition update_instance :: "string \<Rightarrow> (service_instance \<Rightarrow> service_instance) \<Rightarrow> registry \<Rightarrow> registry" where
  "update_instance did change s = (case get_instance s (instance_id_of did) of
     Inr (Some i) \<Rightarrow> register_instance (change i) s | _ \<Rightarrow> s)"

definition record_ack :: "string \<Rightarrow> nat \<Rightarrow> registry \<Rightarrow> registry" where
  "record_ack did now s = update_instance did (\<lambda>i. i\<lparr>si_last_ack_at := Some now\<rparr>) s"

definition record_reconcile :: "string \<Rightarrow> nat \<Rightarrow> registry \<Rightarrow> registry" where
  "record_reconcile did now s = update_instance did (\<lambda>i. i\<lparr>si_last_reconcile_at := Some now\<rparr>) s"

text \<open>The resolver is absent, or yields the services a DID's document advertises; a failed resolution
  keeps what was cached.\<close>

definition refresh_advertised_services ::
  "(string \<Rightarrow> string list option) option \<Rightarrow> string \<Rightarrow> nat \<Rightarrow> registry \<Rightarrow> unit res \<times> registry" where
  "refresh_advertised_services resolver i now s = (case resolver of
     None \<Rightarrow> (Inr (), s)
   | Some resolve \<Rightarrow> (case get_instance s i of
       Inl e \<Rightarrow> (Inl e, s)
     | Inr None \<Rightarrow> (Inr (), s)
     | Inr (Some x) \<Rightarrow> (case Option.bind (si_did x) resolve of
         None \<Rightarrow> (Inr (), s)
       | Some services \<Rightarrow> (Inr (), register_instance
           (x\<lparr>si_advertised_services := Some services, si_services_checked_at := Some now\<rparr>) s))))"

definition record_inbound_transport :: "string \<Rightarrow> observed_transport \<Rightarrow> nat \<Rightarrow> registry \<Rightarrow> registry" where
  "record_inbound_transport sender transport now s =
    (case find (\<lambda>i. si_did i = Some sender) (list_instances s) of
       None \<Rightarrow> s
     | Some i \<Rightarrow> register_instance
         (i\<lparr>si_last_inbound_transport := Some transport, si_last_inbound_at := Some now\<rparr>) s)"

definition record_outbound_transport :: "string \<Rightarrow> observed_transport \<Rightarrow> nat \<Rightarrow> registry \<Rightarrow> registry" where
  "record_outbound_transport i transport now s = (case get_instance s i of
     Inr (Some x) \<Rightarrow> register_instance
       (x\<lparr>si_last_outbound_transport := Some transport, si_last_outbound_at := Some now\<rparr>) s
   | _ \<Rightarrow> s)"

definition update_instance_status ::
  "string \<Rightarrow> service_status \<Rightarrow> nat \<Rightarrow> registry \<Rightarrow> unit res \<times> registry" where
  "update_instance_status i status timestamp s = (case get_instance s i of
     Inl e \<Rightarrow> (Inl e, s)
   | Inr None \<Rightarrow> (Inr (), s)
   | Inr (Some x) \<Rightarrow> (Inr (), register_instance
       (x\<lparr>si_status := status, si_last_health_check := Some timestamp\<rparr>) s))"

text \<open>What the control plane knows beside the keyspace: the URL parser of the url crate, whether a host
  is a literal address and then a globally routable one, the configured hosts and the resolver.\<close>

record registry_env =
  rg_parse_url :: "string \<Rightarrow> (string option \<times> nat option) option"
  rg_literal_routable :: "string \<Rightarrow> bool option"
  rg_allowlist :: "string list"
  rg_resolver :: "(string \<Rightarrow> string list option) option"
  rg_parse_host :: host_parser

definition allowlisted :: "string list \<Rightarrow> string \<Rightarrow> bool" where
  "allowlisted allowlist host \<longleftrightarrow> list_ex (\<lambda>e. to_ascii_lowercase e = to_ascii_lowercase host) allowlist"

definition validate_registered_url :: "registry_env \<Rightarrow> string \<Rightarrow> unit res" where
  "validate_registered_url env url = (case rg_parse_url env url of
     None \<Rightarrow> Inl Forbidden
   | Some (None, _) \<Rightarrow> Inl Forbidden
   | Some (Some h, _) \<Rightarrow> let host = to_ascii_lowercase h in
       if rg_literal_routable env host = Some False \<and> \<not> allowlisted (rg_allowlist env) host then Inl Forbidden
       else if rg_allowlist env = [] then Inr ()
       else if allowlisted (rg_allowlist env) host then Inr () else Inl Forbidden)"

definition health_status_from_timestamp :: "service_instance \<Rightarrow> nat \<Rightarrow> nat \<Rightarrow> service_status" where
  "health_status_from_timestamp i now timeout = (case si_last_health_check i of
     Some ts \<Rightarrow> if now - ts \<le> timeout then ActiveService
               else if now - ts \<le> timeout * 2 then Degraded else Unreachable
   | None \<Rightarrow> if now - si_registered_at i \<le> timeout * 2 then ActiveService else Unreachable)"

section \<open>Health checks (server.rs)\<close>

text \<open>What a ping came to: the transport it went out on and when, or none.\<close>

type_synonym ping = "service_instance \<Rightarrow> (observed_transport \<times> nat) option"

definition send_ping :: "ping \<Rightarrow> service_instance \<Rightarrow> registry \<Rightarrow> registry" where
  "send_ping ping i s = (if si_did i = None then s else case ping i of
     Some (t, at) \<Rightarrow> record_outbound_transport (si_instance_id i) t at s | None \<Rightarrow> s)"

fun check_statuses :: "nat \<Rightarrow> nat \<Rightarrow> service_instance list \<Rightarrow> registry \<Rightarrow> unit res \<times> registry" where
  "check_statuses now timeout [] s = (Inr (), s)"
| "check_statuses now timeout (i # is) s =
    (let new_status = health_status_from_timestamp i now timeout
     in if new_status = si_status i then check_statuses now timeout is s
        else (case update_instance_status (si_instance_id i) new_status now s of
            (Inl e, s1) \<Rightarrow> (Inl e, s1)
          | (Inr _, s1) \<Rightarrow> check_statuses now timeout is s1))"

definition refresh_if_addressed ::
  "(string \<Rightarrow> string list option) option \<Rightarrow> nat \<Rightarrow> service_instance \<Rightarrow> registry \<Rightarrow> registry" where
  "refresh_if_addressed resolver now i s = (if si_did i = None then s
     else snd (refresh_advertised_services resolver (si_instance_id i) now s))"

text \<open>The verdicts are computed from the rows as listed at the start.\<close>

definition run_health_checks ::
  "registry_env \<Rightarrow> ping \<Rightarrow> nat \<Rightarrow> nat \<Rightarrow> registry \<Rightarrow> unit res \<times> registry" where
  "run_health_checks env ping now timeout s =
    (let instances = list_instances s; s1 = fold (send_ping ping) instances s
     in case check_statuses now timeout instances s1 of
          (Inl e, s2) \<Rightarrow> (Inl e, s2)
        | (Inr _, s2) \<Rightarrow> (Inr (), fold (refresh_if_addressed (rg_resolver env) now) instances s2))"

section \<open>Domain intents (server_push.rs)\<close>

definition domain_intent_prefix :: "string \<Rightarrow> string" where
  "domain_intent_prefix server_did = ''domain-intent:'' @ server_did @ ''|''"

definition domain_intent_key :: "string \<Rightarrow> string \<Rightarrow> string" where
  "domain_intent_key server_did d = domain_intent_prefix server_did @ d"

definition record_domain_intent :: "nat \<Rightarrow> string \<Rightarrow> string \<Rightarrow> domain_op \<Rightarrow> registry \<Rightarrow> registry" where
  "record_domain_intent now server_did d op s =
    ks_put (domain_intent_key server_did d) (IntentRow \<lparr>di_domain = d, di_op = op, di_at = now\<rparr>) s"

definition domain_intents :: "registry \<Rightarrow> string \<Rightarrow> domain_intent list" where
  "domain_intents s server_did = List.map_filter
     (\<lambda>(k, v). case v of IntentRow i \<Rightarrow> Some i | InstanceRow _ \<Rightarrow> None) (ks_scan (domain_intent_prefix server_did) s)"

definition intent_at :: "registry \<Rightarrow> string \<Rightarrow> string \<Rightarrow> domain_intent option" where
  "intent_at s server_did d = (case ks_get s (domain_intent_key server_did d) of
     Some (IntentRow i) \<Rightarrow> Some i | _ \<Rightarrow> None)"

definition settle_domain_intent :: "string \<Rightarrow> string \<Rightarrow> domain_op \<Rightarrow> registry \<Rightarrow> registry" where
  "settle_domain_intent server_did d op s =
    (if op = OpAssign then s
     else case intent_at s server_did d of
       Some i \<Rightarrow> if di_op i = op then ks_del (domain_intent_key server_did d) s else s
     | None \<Rightarrow> s)"

section \<open>A server's messages (messaging.rs)\<close>

definition do_health_pong :: "acl \<Rightarrow> string \<Rightarrow> nat \<Rightarrow> registry \<Rightarrow> registry" where
  "do_health_pong a signer now s = (if check_acl a signer \<noteq> Inr Service then s
     else snd (update_instance_status (instance_id_of signer) ActiveService now s))"

text \<open>The acknowledgement of a directive op, with the status and domain of its body.\<close>

definition acked_domains :: "domain_op \<Rightarrow> string option \<Rightarrow> string \<Rightarrow> string list \<Rightarrow> string list" where
  "acked_domains op status d served =
    (if op = OpAssign \<and> status = Some ''applied''
     then (if d \<in> set served then served else sort (served @ [d]))
     else filter (\<lambda>x. x \<noteq> d) served)"

definition do_domain_ack :: "acl \<Rightarrow> string \<Rightarrow> domain_op \<Rightarrow> json \<Rightarrow> registry \<Rightarrow> registry" where
  "do_domain_ack a signer op body s = (case get_str ''domain'' body of
     None \<Rightarrow> s
   | Some d \<Rightarrow> if check_acl a signer \<noteq> Inr Service then s
     else let s1 = settle_domain_intent signer d op s
     in (case get_instance s1 (instance_id_of signer) of
          Inr (Some i) \<Rightarrow> (let served = acked_domains op (get_str ''status'' body) d (si_served_domains i)
            in if served = si_served_domains i then s1 else register_instance (i\<lparr>si_served_domains := served\<rparr>) s1)
        | _ \<Rightarrow> s1))"

datatype infra_rejection = RegistrationUnauthorized | RegistrationForbiddenUrl

definition str_array :: "string \<Rightarrow> json \<Rightarrow> string list option" where
  "str_array k body = map_option (List.map_filter json_str) (get_array k body)"

definition get_bool_or :: "bool \<Rightarrow> string \<Rightarrow> json \<Rightarrow> bool" where
  "get_bool_or dflt k body = (case Option.bind (json_get k body) json_bool of Some b \<Rightarrow> b | None \<Rightarrow> dflt)"

definition or_default :: "'a \<Rightarrow> 'a option \<Rightarrow> 'a" where
  "or_default dflt x = (case x of Some v \<Rightarrow> v | None \<Rightarrow> dflt)"

text \<open>The names of a list the control plane has a domain entry for.\<close>

definition known_domains :: "registry_env \<Rightarrow> domain_store \<Rightarrow> string list \<Rightarrow> string list" where
  "known_domains env store names = filter
     (\<lambda>n. case get_domain (rg_parse_host env) n store of Inr (Some _) \<Rightarrow> True | _ \<Rightarrow> False) names"

text \<open>The instance a registration writes, what was cached of a previous one carried over.\<close>

definition registered_server ::
  "registry_env \<Rightarrow> domain_store \<Rightarrow> string \<Rightarrow> json \<Rightarrow> nat \<Rightarrow> service_instance option \<Rightarrow> service_instance" where
  "registered_server env store signer body now previous =
    \<lparr>si_instance_id = instance_id_of signer, si_service_type = Server, si_label = get_str ''label'' body,
      si_url = or_default [] (get_str ''public_url'' body), si_status = ActiveService,
      si_last_health_check = None, si_registered_at = now, si_metadata = JObj [(''did'', JStr signer)],
      si_enabled_methods = or_default [''webvh''] (str_array ''enabled_methods'' body),
      si_served_domains = known_domains env store (or_default [] (str_array ''served_domains'' body)),
      si_protocol_version = or_default ''1.0'' (get_str ''protocol_version'' body),
      si_advertised_services = Option.bind previous si_advertised_services,
      si_services_checked_at = Option.bind previous si_services_checked_at,
      si_trust_task_capable = get_bool_or False ''trust_task_capable'' body,
      si_sync_batch_capable = get_bool_or False ''sync_batch'' body,
      si_last_inbound_transport = Option.bind previous si_last_inbound_transport,
      si_last_inbound_at = Option.bind previous si_last_inbound_at,
      si_last_outbound_transport = Option.bind previous si_last_outbound_transport,
      si_last_outbound_at = Option.bind previous si_last_outbound_at,
      si_last_ack_at = Option.bind previous si_last_ack_at,
      si_last_reconcile_at = Option.bind previous si_last_reconcile_at\<rparr>"

text \<open>The registration up to the pushes that follow it.\<close>

definition admit_server ::
  "registry_env \<Rightarrow> acl \<Rightarrow> domain_store \<Rightarrow> string \<Rightarrow> json \<Rightarrow> nat \<Rightarrow> registry
   \<Rightarrow> (infra_rejection + string) \<times> registry" where
  "admit_server env a store signer body now s =
    (if check_acl a signer \<noteq> Inr Service then (Inl RegistrationUnauthorized, s)
     else if \<not> is_ok (validate_registered_url env (or_default [] (get_str ''public_url'' body)))
     then (Inl RegistrationForbiddenUrl, s)
     else let i = instance_id_of signer;
              previous = (case get_instance s i of Inr p \<Rightarrow> p | Inl _ \<Rightarrow> None);
              s1 = register_instance (registered_server env store signer body now previous) s
     in (Inr i, snd (refresh_advertised_services (rg_resolver env) i now s1)))"

section \<open>The administrator's tasks (control_tasks/registry.rs)\<close>

datatype registry_code = InstanceExists | NoInstance | NotAServer | NoSuchDomain | StillAssigned

datatype registry_error = RDeclared registry_code | RPermissionDenied | RApp app_error

definition lift_registry :: "'a res \<Rightarrow> registry_error + 'a" where
  "lift_registry r = (case r of Inl e \<Rightarrow> Inl (RApp e) | Inr x \<Rightarrow> Inr x)"

definition instance_did :: "service_instance \<Rightarrow> string option" where
  "instance_did i = (case si_did i of Some d \<Rightarrow> if d = [] then None else Some d | None \<Rightarrow> None)"

definition transport_name :: "observed_transport \<Rightarrow> string" where
  "transport_name t = (case t of Tsp \<Rightarrow> ''tsp'' | Didcomm \<Rightarrow> ''didcomm'' | Https \<Rightarrow> ''https'')"

definition status_name :: "service_status \<Rightarrow> string" where
  "status_name s = (case s of ActiveService \<Rightarrow> ''active'' | Degraded \<Rightarrow> ''degraded'' | Unreachable \<Rightarrow> ''unreachable'')"

definition observed :: "(nat \<Rightarrow> json) \<Rightarrow> observed_transport option \<Rightarrow> nat option \<Rightarrow> json option" where
  "observed date t at = (case (t, at) of
     (Some x, Some n) \<Rightarrow> Some (JObj [(''transport'', JStr (transport_name x)), (''at'', date n)])
   | _ \<Rightarrow> None)"

definition spec_instance :: "(nat \<Rightarrow> json) \<Rightarrow> service_instance \<Rightarrow> json option" where
  "spec_instance date i = map_option (\<lambda>did. JObj (
     [(''instanceId'', JStr (si_instance_id i)), (''did'', JStr did),
      (''serviceType'', JStr (service_type_name (si_service_type i)))]
     @ opt_member ''label'' (map_option JStr (si_label i))
     @ opt_member ''publicUrl'' (if si_url i = [] then None else Some (JStr (si_url i)))
     @ [(''status'', JStr (status_name (si_status i))), (''servedDomains'', json_strings (si_served_domains i))]
     @ opt_member ''enabledMethods''
         (if si_enabled_methods i = [] then None else Some (json_strings (si_enabled_methods i)))
     @ (case si_advertised_services i of
          Some services \<Rightarrow> (''advertisedServices'', json_strings services)
            # opt_member ''servicesCheckedAt'' (map_option date (si_services_checked_at i))
        | None \<Rightarrow> [])
     @ opt_member ''lastInbound'' (observed date (si_last_inbound_transport i) (si_last_inbound_at i))
     @ opt_member ''lastOutbound'' (observed date (si_last_outbound_transport i) (si_last_outbound_at i))
     @ opt_member ''lastHealthCheck'' (map_option date (si_last_health_check i))
     @ [(''registeredAt'', date (si_registered_at i))])) (instance_did i)"

definition registry_list ::
  "(nat \<Rightarrow> json) \<Rightarrow> (registry_error + auth_claims) \<Rightarrow> string option \<Rightarrow> string option \<Rightarrow> registry
   \<Rightarrow> registry_error + json list" where
  "registry_list date admin want_type want_status s = and_then admin (\<lambda>_. Inr (
     filter (\<lambda>j. want_status = None \<or> get_str ''status'' j = want_status)
       (List.map_filter (spec_instance date)
         (filter (\<lambda>i. want_type = None \<or> want_type = Some (service_type_name (si_service_type i)))
           (sort_key si_instance_id (list_instances s))))))"

definition wire_instance :: "(nat \<Rightarrow> json) \<Rightarrow> string \<Rightarrow> registry \<Rightarrow> registry_error + json" where
  "wire_instance date i s = and_then (lift_registry (get_instance s i)) (\<lambda>x.
     ok_or (RDeclared NoInstance) (Option.bind x (spec_instance date)))"

definition registry_get ::
  "(nat \<Rightarrow> json) \<Rightarrow> (registry_error + auth_claims) \<Rightarrow> string \<Rightarrow> registry \<Rightarrow> registry_error + json" where
  "registry_get date admin i s = and_then admin (\<lambda>_. wire_instance date i s)"

definition registry_check ::
  "registry_env \<Rightarrow> (nat \<Rightarrow> json) \<Rightarrow> (registry_error + auth_claims) \<Rightarrow> nat \<Rightarrow> nat \<Rightarrow> string \<Rightarrow> registry
   \<Rightarrow> (registry_error + json) \<times> registry" where
  "registry_check env date admin now interval i s =
    (case and_then admin (\<lambda>_. and_then (lift_registry (get_instance s i)) (ok_or (RDeclared NoInstance))) of
       Inl e \<Rightarrow> (Inl e, s)
     | Inr x \<Rightarrow> (case update_instance_status i (health_status_from_timestamp x now (max interval 10)) now s of
         (Inl e, s1) \<Rightarrow> (Inl (RApp e), s1)
       | (Inr _, s1) \<Rightarrow> let s2 = snd (refresh_advertised_services (rg_resolver env) i now s1)
           in (wire_instance date i s2, s2)))"

fun canonical_all :: "host_parser \<Rightarrow> string list \<Rightarrow> string list res" where
  "canonical_all ph [] = Inr []"
| "canonical_all ph (d # ds) = and_then (normalize_domain_name ph d) (\<lambda>c.
     and_then (canonical_all ph ds) (\<lambda>cs. Inr (c # cs)))"

definition admin_register ::
  "registry_env \<Rightarrow> (registry_error + auth_claims) \<Rightarrow> nat \<Rightarrow> string \<Rightarrow> string \<Rightarrow> string option \<Rightarrow> string \<Rightarrow> string list
   \<Rightarrow> registry \<Rightarrow> (registry_error + service_instance) \<times> registry" where
  "admin_register env admin now i did label url domain_names s =
    (case and_then admin (\<lambda>_. and_then (lift_registry (get_instance s i)) (\<lambda>x.
            and_then (check (x = None) (RDeclared InstanceExists)) (\<lambda>_.
            and_then (lift_registry (validate_registered_url env url)) (\<lambda>_.
            lift_registry (canonical_all (rg_parse_host env) domain_names))))) of
       Inl e \<Rightarrow> (Inl e, s)
     | Inr served \<Rightarrow> let x = \<lparr>si_instance_id = i, si_service_type = Server, si_label = label, si_url = url,
          si_status = ActiveService, si_last_health_check = None, si_registered_at = now,
          si_metadata = JObj [(''did'', JStr did)], si_enabled_methods = [''webvh''], si_served_domains = served,
          si_protocol_version = ''1.0'', si_advertised_services = None, si_services_checked_at = None,
          si_trust_task_capable = True, si_sync_batch_capable = False, si_last_inbound_transport = None,
          si_last_inbound_at = None, si_last_outbound_transport = None, si_last_outbound_at = None,
          si_last_ack_at = None, si_last_reconcile_at = None\<rparr>
       in (Inr x, register_instance x s))"

definition registry_deregister ::
  "(registry_error + auth_claims) \<Rightarrow> string \<Rightarrow> registry \<Rightarrow> (registry_error + string) \<times> registry" where
  "registry_deregister admin i s =
    (case and_then admin (\<lambda>_. and_then (lift_registry (get_instance s i)) (ok_or (RDeclared NoInstance))) of
       Inl e \<Rightarrow> (Inl e, s) | Inr _ \<Rightarrow> (Inr i, deregister_instance i s))"

text \<open>The checks of a purge-domain task: the server to address and the canonical domain.\<close>

definition purge_domain_target ::
  "registry_env \<Rightarrow> (registry_error + auth_claims) \<Rightarrow> domain_store \<Rightarrow> string \<Rightarrow> string \<Rightarrow> registry
   \<Rightarrow> registry_error + string \<times> string" where
  "purge_domain_target env admin store i name s = and_then admin (\<lambda>_.
     and_then (lift_registry (get_instance s i)) (\<lambda>x.
     and_then (ok_or (RDeclared NoInstance) x) (\<lambda>inst.
     and_then (check (si_service_type inst = Server) (RDeclared NotAServer)) (\<lambda>_.
     and_then (case normalize_domain_name (rg_parse_host env) name of
        Inl _ \<Rightarrow> Inl (RDeclared NoSuchDomain) | Inr d \<Rightarrow> Inr d) (\<lambda>d.
     and_then (lift_registry (get_domain (rg_parse_host env) d store)) (\<lambda>known.
     and_then (check (known \<noteq> None) (RDeclared NoSuchDomain)) (\<lambda>_.
     and_then (check (d \<notin> set (si_served_domains inst)) (RDeclared StillAssigned)) (\<lambda>_.
     and_then (ok_or (RDeclared NoInstance) (instance_did inst)) (\<lambda>target. Inr (target, d))))))))))"

section \<open>Rows\<close>

definition row_filed :: "string \<Rightarrow> registry_row \<Rightarrow> bool" where
  "row_filed k v \<longleftrightarrow> (case v of InstanceRow i \<Rightarrow> k = instance_key (si_instance_id i)
     | IntentRow d \<Rightarrow> \<exists>server_did. CHR ''|'' \<notin> set server_did \<and> k = domain_intent_key server_did (di_domain d))"

definition registry_ok :: "registry \<Rightarrow> bool" where
  "registry_ok s \<longleftrightarrow> ks_ok s \<and> (\<forall>k v. ks_get s k = Some v \<longrightarrow> row_filed k v)"

lemma instance_key_inj [simp]: "instance_key a = instance_key b \<longleftrightarrow> a = b"
  by (simp add: instance_key_def)

lemma instance_not_intent [simp]: "instance_key a \<noteq> domain_intent_key b c" "domain_intent_key b c \<noteq> instance_key a"
  by (simp_all add: instance_key_def domain_intent_key_def domain_intent_prefix_def)

lemma instance_row_key:
  assumes "registry_ok s" "ks_get s (instance_key a) = Some v"
  shows "\<exists>i. v = InstanceRow i \<and> si_instance_id i = a"
proof -
  have "row_filed (instance_key a) v" using assms by (simp add: registry_ok_def)
  then show ?thesis by (cases v) (simp_all add: row_filed_def)
qed

lemma get_instance_row:
  "registry_ok s \<Longrightarrow> get_instance s a = Inr (case ks_get s (instance_key a) of Some (InstanceRow i) \<Rightarrow> Some i | _ \<Rightarrow> None)"
  using instance_row_key[of s a] by (force simp: get_instance_def split: option.splits)

lemma get_instanceD:
  assumes "registry_ok s" "get_instance s a = Inr (Some i)"
  shows "ks_get s (instance_key a) = Some (InstanceRow i)" "si_instance_id i = a"
  using assms instance_row_key[of s a] by (auto simp: get_instance_def split: option.splits registry_row.splits)

lemma listed_instance:
  assumes "registry_ok s"
  shows "i \<in> set (list_instances s) \<longleftrightarrow> ks_get s (instance_key (si_instance_id i)) = Some (InstanceRow i)"
proof -
  have "i \<in> set (list_instances s) \<longleftrightarrow> (\<exists>k. prefix ''instance:'' k \<and> ks_get s k = Some (InstanceRow i))"
    using rows.scan_mem[of s] assms
    by (force simp: list_instances_def set_map_filter registry_ok_def split: registry_row.splits)
  moreover have "k = instance_key (si_instance_id i)" if "ks_get s k = Some (InstanceRow i)" for k
  proof -
    have "row_filed k (InstanceRow i)" using assms that by (simp add: registry_ok_def)
    then show ?thesis by (simp add: row_filed_def)
  qed
  ultimately show ?thesis by (metis instance_key_def prefixI)
qed

lemma register_ok: "registry_ok s \<Longrightarrow> registry_ok (register_instance i s)"
  by (auto simp: registry_ok_def register_instance_def row_filed_def ks_simps)

text \<open>The instances of a registry and what the operations make of them.\<close>

definition instance_at :: "registry \<Rightarrow> string \<Rightarrow> service_instance option" where
  "instance_at s a = (case ks_get s (instance_key a) of Some (InstanceRow i) \<Rightarrow> Some i | _ \<Rightarrow> None)"

lemma get_instance_at: "registry_ok s \<Longrightarrow> get_instance s a = Inr (instance_at s a)"
  using get_instance_row by (simp add: instance_at_def)

lemma instance_at_id: "registry_ok s \<Longrightarrow> instance_at s a = Some i \<Longrightarrow> si_instance_id i = a"
  using get_instanceD(2) get_instance_at by metis

lemma listed_at: "registry_ok s \<Longrightarrow> i \<in> set (list_instances s) \<longleftrightarrow> instance_at s (si_instance_id i) = Some i"
  by (auto simp: listed_instance instance_at_def split: option.splits registry_row.splits)

lemma register_at: "instance_at (register_instance i s) a = (if a = si_instance_id i then Some i else instance_at s a)"
  by (simp add: instance_at_def register_instance_def ks_simps)

section \<open>Who is in the registry\<close>

text \<open>Everything that changes the keyspace, with the DIDs let in so far: by the Service role of the
  signer or by an administrator. A vertical bar cannot occur in a DID.\<close>

inductive registry_run :: "registry_env \<Rightarrow> registry \<Rightarrow> string set \<Rightarrow> bool" for env where
  NoInstances: "registry_run env [] {}"
| ServerRegisters: "registry_run env s D \<Longrightarrow>
    registry_run env (snd (admit_server env a store signer body now s))
      (if check_acl a signer = Inr Service then insert signer D else D)"
| AdminRegisters: "registry_run env s D \<Longrightarrow>
    registry_run env (snd (admin_register env admin now i did label url names s)) (if is_ok admin then insert did D else D)"
| AdminDeregisters: "registry_run env s D \<Longrightarrow> registry_run env (snd (registry_deregister admin i s)) D"
| AdminChecks: "registry_run env s D \<Longrightarrow> registry_run env (snd (registry_check env date admin now interval i s)) D"
| Pong: "registry_run env s D \<Longrightarrow> registry_run env (do_health_pong a signer now s) D"
| DomainAck: "registry_run env s D \<Longrightarrow> registry_run env (do_domain_ack a signer op body s) D"
| Settled: "registry_run env s D \<Longrightarrow> registry_run env (record_ack did now s) D"
| Reconciled: "registry_run env s D \<Longrightarrow> registry_run env (record_reconcile did now s) D"
| Inbound: "registry_run env s D \<Longrightarrow> registry_run env (record_inbound_transport did t now s) D"
| HealthChecks: "registry_run env s D \<Longrightarrow> registry_run env (snd (run_health_checks env ping now timeout s)) D"
| Directive: "registry_run env s D \<Longrightarrow> CHR ''|'' \<notin> set did \<Longrightarrow> registry_run env (record_domain_intent now did d op s) D"

text \<open>The rows satisfying a predicate that only looks at what names an instance and its URL.\<close>

definition admitted :: "registry_env \<Rightarrow> string set \<Rightarrow> service_instance \<Rightarrow> bool" where
  "admitted env D i \<longleftrightarrow> is_ok (validate_registered_url env (si_url i)) \<and> (\<exists>d \<in> D. si_did i = Some d)"

definition all_admitted :: "registry_env \<Rightarrow> string set \<Rightarrow> registry \<Rightarrow> bool" where
  "all_admitted env D s \<longleftrightarrow> registry_ok s \<and> (\<forall>a i. instance_at s a = Some i \<longrightarrow> admitted env D i)"

lemma admitted_same: "si_url j = si_url i \<Longrightarrow> si_metadata j = si_metadata i \<Longrightarrow> admitted env D j = admitted env D i"
  by (simp add: admitted_def si_did_def)

named_theorems admits

lemma admits_register [admits]: "all_admitted env D s \<Longrightarrow> admitted env D i \<Longrightarrow> all_admitted env D (register_instance i s)"
  by (simp add: all_admitted_def register_ok register_at)

lemma admits_at: "all_admitted env D s \<Longrightarrow> get_instance s a = Inr (Some i) \<Longrightarrow> admitted env D i"
  by (simp add: all_admitted_def get_instance_at)

lemma admits_listed: "all_admitted env D s \<Longrightarrow> i \<in> set (list_instances s) \<Longrightarrow> admitted env D i"
  using listed_at by (metis all_admitted_def)

lemma admits_insert: "all_admitted env D s \<Longrightarrow> D \<subseteq> E \<Longrightarrow> all_admitted env E s"
  unfolding all_admitted_def admitted_def by blast

lemma admits_del [admits]: "all_admitted env D s \<Longrightarrow> all_admitted env D (ks_del k s)"
  by (auto simp: all_admitted_def registry_ok_def instance_at_def ks_simps split: if_splits)

lemma admits_intent [admits]: "all_admitted env D s \<Longrightarrow> CHR ''|'' \<notin> set did \<Longrightarrow> all_admitted env D (record_domain_intent now did d op s)"
  by (auto simp: all_admitted_def registry_ok_def instance_at_def record_domain_intent_def row_filed_def ks_simps
      split: if_splits)

lemma admits_update [admits]:
  assumes "all_admitted env D s" "\<And>i. si_url (f i) = si_url i" "\<And>i. si_metadata (f i) = si_metadata i"
  shows "all_admitted env D (update_instance did f s)"
proof -
  have "admitted env D (f i)" if "get_instance s (instance_id_of did) = Inr (Some i)" for i
    using admits_at[OF assms(1) that] admitted_same[OF assms(2,3)] by simp
  then show ?thesis using assms(1) by (auto simp: update_instance_def admits split: sum.splits option.splits)
qed

lemma admits_status [admits]:
  assumes "all_admitted env D s"
  shows "all_admitted env D (snd (update_instance_status a status now s))"
proof -
  have "admitted env D (i\<lparr>si_status := x, si_last_health_check := y\<rparr>)" if "get_instance s a = Inr (Some i)" for i x y
    using admits_at[OF assms that] by (simp add: admitted_def si_did_def)
  then show ?thesis using assms by (auto simp: update_instance_status_def admits split: sum.splits option.splits)
qed

lemma admits_refresh [admits]:
  assumes "all_admitted env D s"
  shows "all_admitted env D (snd (refresh_advertised_services r a now s))"
proof -
  have "admitted env D (i\<lparr>si_advertised_services := x, si_services_checked_at := y\<rparr>)" if "get_instance s a = Inr (Some i)" for i x y
    using admits_at[OF assms that] by (simp add: admitted_def si_did_def)
  then show ?thesis using assms by (auto simp: refresh_advertised_services_def admits split: sum.splits option.splits)
qed

lemma admits_inbound [admits]:
  assumes "all_admitted env D s"
  shows "all_admitted env D (record_inbound_transport did t now s)"
proof -
  have "admitted env D (i\<lparr>si_last_inbound_transport := x, si_last_inbound_at := y\<rparr>)"
    if "find (\<lambda>i. si_did i = Some did) (list_instances s) = Some i" for i x y
    using admits_listed[OF assms, of i] that by (auto simp: admitted_def si_did_def dest: find_mem)
  then show ?thesis using assms by (auto simp: record_inbound_transport_def admits split: option.splits)
qed

lemma admits_ping [admits]:
  assumes "all_admitted env D s"
  shows "all_admitted env D (send_ping ping i s)"
proof -
  have "admitted env D (i\<lparr>si_last_outbound_transport := x, si_last_outbound_at := y\<rparr>)" if "get_instance s a = Inr (Some i)" for i a x y
    using admits_at[OF assms that] by (simp add: admitted_def si_did_def)
  then show ?thesis
    using assms by (auto simp: send_ping_def record_outbound_transport_def admits split: sum.splits option.splits)
qed

lemma admits_fold: "(\<And>i s. all_admitted env D s \<Longrightarrow> all_admitted env D (f i s)) \<Longrightarrow> all_admitted env D s \<Longrightarrow>
    all_admitted env D (fold f is s)"
  by (induction "is" arbitrary: s) simp_all

lemma admits_statuses [admits]: "all_admitted env D s \<Longrightarrow> all_admitted env D (snd (check_statuses now timeout is s))"
proof (induction "is" arbitrary: s)
  case (Cons i "is")
  show ?case using Cons admits_status[OF Cons.prems, of "si_instance_id i" _ now]
    by (auto simp: Let_def split: prod.splits sum.splits) (metis snd_conv)+
qed simp

lemma admits_deregister [admits]: "all_admitted env D s \<Longrightarrow> all_admitted env D (snd (registry_deregister admin i s))"
  by (auto simp: registry_deregister_def deregister_instance_def admits split: sum.splits)

lemma admits_check [admits]:
  assumes "all_admitted env D s"
  shows "all_admitted env D (snd (registry_check e date admin now interval i s))"
proof -
  have "all_admitted env D t" if "update_instance_status i v now s = (x, t)" for v x t
    using admits_status[OF assms, of i v now] by (simp add: that)
  then show ?thesis
    by (auto simp: registry_check_def Let_def assms intro: admits_refresh split: sum.splits prod.splits)
qed

lemma admits_server:
  assumes "all_admitted env D s"
  shows "all_admitted env (if check_acl a signer = Inr Service then insert signer D else D)
    (snd (admit_server env a store signer body now s))"
proof (cases "check_acl a signer = Inr Service \<and> is_ok (validate_registered_url env (or_default [] (get_str ''public_url'' body)))")
  case True
  have "admitted env (insert signer D) (registered_server env store signer body now p)" for p
    using True by (simp add: admitted_def registered_server_def si_did_def get_str_def json_get_def json_str_def)
  then show ?thesis
    using True admits_insert[OF assms subset_insertI] by (simp add: admit_server_def Let_def admits)
next
  case False
  then show ?thesis using assms admits_insert[OF assms subset_insertI] by (auto simp: admit_server_def)
qed

lemma admits_admin:
  assumes "all_admitted env D s"
  shows "all_admitted env (if is_ok admin then insert did D else D)
    (snd (admin_register env admin now i did label url names s))"
proof -
  have i: "all_admitted env (insert did D) s" by (rule admits_insert[OF assms]) blast
  show ?thesis
    using assms i
    by (auto simp: admin_register_def Let_def res_simps is_ok_iff lift_registry_def admitted_def si_did_def get_str_def
        json_get_def json_str_def intro!: admits_register split: sum.splits)
qed

lemma registry_run_admits: "registry_run env s D \<Longrightarrow> all_admitted env D s"
proof (induction rule: registry_run.induct)
  case NoInstances
  then show ?case by (simp add: all_admitted_def registry_ok_def instance_at_def)
next
  case (Pong s D a signer now)
  then show ?case by (simp add: do_health_pong_def admits)
next
  case (DomainAck s D a signer op body)
  have s: "all_admitted env D (settle_domain_intent signer d op s)" for d
    using DomainAck by (auto simp: settle_domain_intent_def admits split: option.splits)
  have "admitted env D (i\<lparr>si_served_domains := x\<rparr>)" if "get_instance (settle_domain_intent signer d op s) j = Inr (Some i)" for d i j x
    using admits_at[OF s that] by (simp add: admitted_def si_did_def)
  then show ?case using s DomainAck by (auto simp: do_domain_ack_def Let_def admits split: option.splits sum.splits)
next
  case (HealthChecks s D ping now timeout)
  let ?s1 = "fold (send_ping ping) (list_instances s) s"
  have f: "all_admitted env D ?s1" using HealthChecks by (intro admits_fold admits)
  have "all_admitted env D (snd (check_statuses now timeout (list_instances s) ?s1))" by (rule admits_statuses[OF f])
  moreover have "all_admitted env D (fold (refresh_if_addressed (rg_resolver env) now) is t)" if "all_admitted env D t" for "is" t
    by (rule admits_fold[OF _ that]) (simp add: refresh_if_addressed_def admits)
  ultimately show ?case by (auto simp: run_health_checks_def Let_def split: prod.splits sum.splits)
next
  case (Settled s D did now)
  then show ?case by (auto simp: record_ack_def intro!: admits_update)
next
  case (Reconciled s D did now)
  then show ?case by (auto simp: record_reconcile_def intro!: admits_update)
qed (simp_all add: admits admits_server admits_admin)

section \<open>The latest directive of each domain\<close>

lemma intent_key_inj:
  assumes "CHR ''|'' \<notin> set a" "CHR ''|'' \<notin> set b"
  shows "domain_intent_key a d = domain_intent_key b e \<longleftrightarrow> a = b \<and> d = e"
proof -
  have "split_once (CHR ''|'') (a @ CHR ''|'' # d) = Some (a, d)" "split_once (CHR ''|'') (b @ CHR ''|'' # e) = Some (b, e)"
    using assms by (simp_all add: split_once_Some)
  then have "a @ CHR ''|'' # d = b @ CHR ''|'' # e \<longleftrightarrow> a = b \<and> d = e" by (metis option.inject prod.inject)
  then show ?thesis by (simp add: domain_intent_key_def domain_intent_prefix_def)
qed

lemma intent_prefix_key:
  assumes "CHR ''|'' \<notin> set a" "CHR ''|'' \<notin> set b" "prefix (domain_intent_prefix a) (domain_intent_key b d)"
  shows "b = a"
proof -
  obtain e where "domain_intent_key b d = domain_intent_key a e"
    using assms(3) by (auto simp: prefix_def domain_intent_key_def)
  then show ?thesis using intent_key_inj[OF assms(2,1)] by simp
qed

lemma intent_recorded:
  "CHR ''|'' \<notin> set a \<Longrightarrow> CHR ''|'' \<notin> set b \<Longrightarrow> intent_at (record_domain_intent now a d op s) b e
    = (if b = a \<and> e = d then Some \<lparr>di_domain = d, di_op = op, di_at = now\<rparr> else intent_at s b e)"
  by (auto simp: intent_at_def record_domain_intent_def ks_simps intent_key_inj)

lemma intent_settled:
  "CHR ''|'' \<notin> set a \<Longrightarrow> CHR ''|'' \<notin> set b \<Longrightarrow> intent_at (settle_domain_intent a d op s) b e
    = (if b = a \<and> e = d \<and> op \<noteq> OpAssign \<and> map_option di_op (intent_at s a d) = Some op then None else intent_at s b e)"
proof (cases "op \<noteq> OpAssign \<and> map_option di_op (intent_at s a d) = Some op")
  case True
  then have "settle_domain_intent a d op s = ks_del (domain_intent_key a d) s"
    by (auto simp: settle_domain_intent_def)
  moreover assume "CHR ''|'' \<notin> set a" "CHR ''|'' \<notin> set b"
  ultimately show ?thesis using True by (auto simp: intent_at_def ks_simps intent_key_inj)
next
  case False
  then have "settle_domain_intent a d op s = s" by (auto simp: settle_domain_intent_def split: option.splits)
  then show ?thesis using False by auto
qed

text \<open>The intents of one server, as its rows.\<close>

lemma intent_scan:
  assumes "registry_ok s" "CHR ''|'' \<notin> set a"
  shows "ks_scan (domain_intent_prefix a) s = map (\<lambda>i. (domain_intent_key a (di_domain i), IntentRow i)) (domain_intents s a)"
proof -
  have row: "\<exists>i. v = IntentRow i \<and> k = domain_intent_key a (di_domain i)" if "(k, v) \<in> set (ks_scan (domain_intent_prefix a) s)" for k v
  proof -
    have g: "prefix (domain_intent_prefix a) k" "ks_get s k = Some v"
      using that rows.scan_mem[of s] assms(1) by (auto simp: registry_ok_def)
    then have f: "row_filed k v" using assms(1) by (simp add: registry_ok_def)
    show ?thesis
    proof (cases v)
      case (InstanceRow i)
      then have "k = instance_key (si_instance_id i)" using f by (simp add: row_filed_def)
      then show ?thesis using g(1) by (simp add: instance_key_def domain_intent_prefix_def)
    next
      case (IntentRow i)
      then obtain b where "CHR ''|'' \<notin> set b" "k = domain_intent_key b (di_domain i)" using f by (auto simp: row_filed_def)
      then show ?thesis using intent_prefix_key[OF assms(2)] g(1) IntentRow by auto
    qed
  qed
  have "kvs = map (\<lambda>i. (domain_intent_key a (di_domain i), IntentRow i))
      (List.map_filter (\<lambda>(k, v). case v of IntentRow i \<Rightarrow> Some i | InstanceRow _ \<Rightarrow> None) kvs)"
    if "\<And>k v. (k, v) \<in> set kvs \<Longrightarrow> \<exists>i. v = IntentRow i \<and> k = domain_intent_key a (di_domain i)" for kvs
    using that
  proof (induction kvs)
    case (Cons kv kvs)
    obtain i where "kv = (domain_intent_key a (di_domain i), IntentRow i)" using Cons.prems by (cases kv) force
    then show ?case using Cons by simp
  qed simp
  from this[OF row] show ?thesis by (simp add: domain_intents_def)
qed

lemma intents_distinct: "registry_ok s \<Longrightarrow> CHR ''|'' \<notin> set a \<Longrightarrow> distinct (map di_domain (domain_intents s a))"
  using rows.scan_distinct[of s "domain_intent_prefix a"] intent_scan[of s a]
  by (simp add: registry_ok_def distinct_map inj_on_def intent_key_inj) 

lemma intents_listed:
  assumes "registry_ok s" "CHR ''|'' \<notin> set a"
  shows "i \<in> set (domain_intents s a) \<longleftrightarrow> intent_at s a (di_domain i) = Some i"
proof -
  have o: "ks_ok s" using assms(1) by (simp add: registry_ok_def)
  have "i \<in> set (domain_intents s a) \<longleftrightarrow> (domain_intent_key a (di_domain i), IntentRow i) \<in> set (ks_scan (domain_intent_prefix a) s)"
    unfolding intent_scan[OF assms] by (auto simp: intent_key_inj[OF assms(2,2)])
  then show ?thesis
    by (auto simp: rows.scan_mem[OF o] intent_at_def domain_intent_key_def split: option.splits registry_row.splits)
qed

lemma intent_domain: "registry_ok s \<Longrightarrow> CHR ''|'' \<notin> set a \<Longrightarrow> intent_at s a d = Some i \<Longrightarrow> di_domain i = d"
proof -
  assume a: "registry_ok s" "CHR ''|'' \<notin> set a" "intent_at s a d = Some i"
  have "row_filed (domain_intent_key a d) (IntentRow i)"
    using a(1,3) by (auto simp: registry_ok_def intent_at_def split: option.splits registry_row.splits)
  then show ?thesis using a(2) by (auto simp: row_filed_def intent_key_inj)
qed

section \<open>Who the control plane may push to\<close>

lemma url_gate:
  "is_ok (validate_registered_url env url) \<longleftrightarrow> (\<exists>h p. rg_parse_url env url = Some (Some h, p)
    \<and> (allowlisted (rg_allowlist env) (to_ascii_lowercase h)
       \<or> rg_allowlist env = [] \<and> rg_literal_routable env (to_ascii_lowercase h) \<noteq> Some False))"
proof -
  have "\<not> allowlisted [] h" for h by (simp add: allowlisted_def)
  then show ?thesis by (auto simp: validate_registered_url_def Let_def is_ok_iff split: option.splits)
qed


definition registry_sample :: registry_env where
  "registry_sample = \<lparr>rg_parse_url = (\<lambda>u. Some (Some u, None)), rg_literal_routable = (\<lambda>h. if h = ''10.0.0.1'' then Some False else None),
     rg_allowlist = [], rg_resolver = None, rg_parse_host = (\<lambda>h. Some (HostDomain h))\<rparr>"

definition service_acl :: "string \<Rightarrow> acl" where
  "service_acl did = [(acl_key did, \<lparr>acl_did = did, acl_role = Service, acl_label = None, acl_created_at = 0,
     acl_max_total_size = None, acl_max_did_count = None, acl_domains = ScopeAll\<rparr>)]"

definition edge_registers :: "string \<Rightarrow> nat \<Rightarrow> registry \<Rightarrow> registry" where
  "edge_registers url now s = snd (admit_server registry_sample (service_acl ''did:x:e'') empty_domain_store ''did:x:e''
     (JObj [(''public_url'', JStr url), (''sync_batch'', JBool True)]) now s)"


text \<open>An internal address is refused, and so is a signer without the role.\<close>

lemma internal_url_refused: "edge_registers ''10.0.0.1'' 7 [] = []"
  by code_simp

section \<open>Silence is not noticed for long\<close>

text \<open>run_health_checks stores a changed verdict with the time of the check, in the field that
  otherwise holds the time of the last pong. The next check, one interval later, takes it for a pong.\<close>

lemma verdict_counts_as_pong:
  "t' \<le> t + timeout \<Longrightarrow> health_status_from_timestamp (i\<lparr>si_status := v, si_last_health_check := Some t\<rparr>) t' timeout = ActiveService"
  by (simp add: health_status_from_timestamp_def)

fun statuses_at :: "nat list \<Rightarrow> nat \<Rightarrow> registry \<Rightarrow> service_status list" where
  "statuses_at [] timeout s = []"
| "statuses_at (t # ts) timeout s = (case snd (run_health_checks registry_sample (\<lambda>_. None) t timeout s) of
     s1 \<Rightarrow> map si_status (list_instances s1) @ statuses_at ts timeout s1)"

text \<open>A server that never answers a ping, checked every 60 seconds.\<close>

lemma silent_server_turns_active:
  "statuses_at [60, 120, 180, 240, 300, 360, 420, 480, 540, 600] 60 (edge_registers ''e.org'' 0 [])
    = [ActiveService, ActiveService, Unreachable, ActiveService, ActiveService, Degraded, ActiveService, ActiveService,
       Degraded, ActiveService]"
  by code_simp

text \<open>The acknowledgement of an unassignment that a later assignment superseded settles the unassignment
  ordered after that, which is then not sent again when the server registers anew.\<close>

definition reordered :: registry where
  "reordered = record_domain_intent 3 ''did:x:e'' ''a.org'' OpUnassign
     (record_domain_intent 2 ''did:x:e'' ''a.org'' OpAssign (record_domain_intent 1 ''did:x:e'' ''a.org'' OpUnassign []))"

lemma old_ack_settles_newer_unassign:
  "map di_op (domain_intents reordered ''did:x:e'') = [OpUnassign]
   \<and> domain_intents (do_domain_ack (service_acl ''did:x:e'') ''did:x:e'' OpUnassign
        (JObj [(''domain'', JStr ''a.org''), (''status'', JStr ''scheduled'')]) reordered) ''did:x:e'' = []"
  by code_simp

end
