(* ===== verification/Push.thy ===== *)
theory Push
  imports Outbox Registry Reconcile
begin

text \<open>
  What the control plane sends its servers and watchers (did-hosting-control/src/server_push.rs): the
  updates of a changed DID, the resync of a server that registers, the domain directives and their
  re-sending. Everything goes into the outbound queue; a storage failure, which the code logs and skips,
  is not modelled. The JSON parser and printer, the schema of sync/update and the date format are
  parameters; the clock and the uuid of the n-th entry queued are functions of n. What these functions
  spawn runs to its end at once.
\<close>

section \<open>Messages (didcomm_types.rs)\<close>

definition MSG_SYNC_UPDATE :: string where
  "MSG_SYNC_UPDATE = ''https://trusttasks.org/spec/webvh/sync/update/0.2''"
definition MSG_SYNC_DELETE :: string where
  "MSG_SYNC_DELETE = ''https://trusttasks.org/spec/webvh/sync/delete/0.2''"
definition MSG_SYNC_BATCH :: string where
  "MSG_SYNC_BATCH = ''https://trusttasks.org/spec/webvh/sync/batch/0.1''"
definition MSG_REPLICA_DOMAIN_ASSIGN :: string where
  "MSG_REPLICA_DOMAIN_ASSIGN = ''https://trusttasks.org/spec/did-management/replica/domain/assign/0.1''"
definition MSG_REPLICA_DOMAIN_UNASSIGN :: string where
  "MSG_REPLICA_DOMAIN_UNASSIGN = ''https://trusttasks.org/spec/did-management/replica/domain/unassign/0.1''"
definition MSG_REPLICA_DOMAIN_UPSERT :: string where
  "MSG_REPLICA_DOMAIN_UPSERT = ''https://trusttasks.org/spec/did-management/replica/domain/upsert/0.1''"
definition MSG_REPLICA_DOMAIN_PURGE :: string where
  "MSG_REPLICA_DOMAIN_PURGE = ''https://trusttasks.org/spec/did-management/replica/domain/purge/0.1''"

section \<open>State\<close>

record push_env =
  pe_parse :: "string \<Rightarrow> json option"
  pe_show :: "json \<Rightarrow> string"
  pe_fits :: "json \<Rightarrow> bool"
  pe_date :: "nat \<Rightarrow> string"
  pe_watchers :: "(string \<times> string) list"
  pe_seconds :: "nat \<Rightarrow> nat"
  pe_micros :: "nat \<Rightarrow> nat"
  pe_uuid :: "nat \<Rightarrow> string"

text \<open>The rows notified_watchers:{mnemonic} of the dids keyspace, which no other prefix reaches, are a
  field of their own; pu_queued counts the entries queued so far.\<close>

record push_state =
  pu_registry :: Registry.registry
  pu_dids :: did_rows
  pu_notified :: "string list ks"
  pu_store :: domain_store
  pu_outbox :: "json outbox"
  pu_queued :: nat

type_synonym frame = "string \<times> json"

text \<open>outbox::enqueue of one message.\<close>

definition send :: "push_env \<Rightarrow> string \<Rightarrow> frame \<Rightarrow> push_state \<Rightarrow> push_state" where
  "send env target f st = (let n = pu_queued st in
     st\<lparr>pu_outbox := enqueue (pe_seconds env n) (pe_micros env n) (pe_uuid env n) target (fst f) (snd f) (pu_outbox st),
        pu_queued := n + 1\<rparr>)"

definition send_all :: "push_env \<Rightarrow> string \<Rightarrow> frame list \<Rightarrow> push_state \<Rightarrow> push_state" where
  "send_all env target fs st = fold (send env target) fs st"

definition send_each :: "push_env \<Rightarrow> frame \<Rightarrow> string list \<Rightarrow> push_state \<Rightarrow> push_state" where
  "send_each env f targets st = fold (\<lambda>t. send env t f) targets st"

section \<open>What a server reports\<close>

record reported_did =
  rd_did_id :: "string option"
  rd_version_count :: nat
  rd_disabled :: "bool option"

definition edge_is_current :: "did_record \<Rightarrow> reported_did option \<Rightarrow> bool" where
  "edge_is_current r reported = (case reported of
     None \<Rightarrow> False
   | Some have \<Rightarrow> rd_did_id have \<noteq> None \<and> rd_did_id have = dr_did_id r \<and> dr_version_count r \<le> rd_version_count have
       \<and> (rd_disabled have = None \<or> rd_disabled have = Some (dr_disabled r)))"

definition reported_entry :: "json \<Rightarrow> (string \<times> reported_did) option" where
  "reported_entry e = Option.bind (get_str ''mnemonic'' e) (\<lambda>m.
     Option.bind (Option.bind (json_get ''version_count'' e) json_u64) (\<lambda>v.
       Some (m, \<lparr>rd_did_id = get_str ''did_id'' e, rd_version_count = v,
                 rd_disabled = Option.bind (json_get ''disabled'' e) json_bool\<rparr>)))"

definition parse_reported :: "json \<Rightarrow> (string \<times> reported_did) list" where
  "parse_reported body = (case get_array ''preloaded_dids'' body of
     None \<Rightarrow> []
   | Some es \<Rightarrow> foldl (\<lambda>m (k, v). AList.update k v m) [] (List.map_filter reported_entry es))"

section \<open>The payload of an update\<close>

definition sync_update_json :: "sync_update \<Rightarrow> json" where
  "sync_update_json u = JObj ([(''mnemonic'', JStr (su_mnemonic u)), (''didId'', JStr (su_did_id u)),
      (''logContent'', JStr (su_log u))]
     @ opt_member ''witnessContent'' (map_option JStr (su_witness u))
     @ [(''versionCount'', json_nat (su_version_count u)), (''disabled'', JBool (su_disabled u))])"

definition sync_update_body :: "push_env \<Rightarrow> did_record \<Rightarrow> string \<Rightarrow> string option \<Rightarrow> json option" where
  "sync_update_body env r log_content witness_content = (case dr_did_id r of
     None \<Rightarrow> None
   | Some d \<Rightarrow> if d = [] then None else
       let body = sync_update_json \<lparr>su_mnemonic = dr_mnemonic r, su_did_id = d, su_log = log_content,
             su_witness = (if witness_content = Some [] then None else witness_content),
             su_version_count = dr_version_count r, su_disabled = dr_disabled r\<rparr>
       in if pe_fits env body then Some body else None)"

definition raw_text :: "did_rows \<Rightarrow> string \<Rightarrow> string option" where
  "raw_text rows k = (case get_raw rows k of Some b \<Rightarrow> if utf8_text b then Some b else None | None \<Rightarrow> None)"

definition slot_body :: "push_env \<Rightarrow> did_rows \<Rightarrow> did_record \<Rightarrow> json option" where
  "slot_body env rows r = Option.bind (raw_text rows (content_log_key (dr_mnemonic r)))
     (\<lambda>log. sync_update_body env r log (raw_text rows (content_witness_key (dr_mnemonic r))))"

section \<open>The resync of a server (sync_all_dids_to_server)\<close>

definition SYNC_BATCH_MAX_COUNT :: nat where "SYNC_BATCH_MAX_COUNT = 50"
definition SYNC_BATCH_MAX_BYTES :: nat where "SYNC_BATCH_MAX_BYTES = 512 * 1024"

definition batch_frame :: "json list \<Rightarrow> frame" where
  "batch_frame updates = (MSG_SYNC_BATCH, JObj [(''updates'', JArr updates)])"

fun batch_frames :: "push_env \<Rightarrow> json list \<Rightarrow> json list \<Rightarrow> nat \<Rightarrow> frame list" where
  "batch_frames env [] pending pending_bytes = (if pending \<noteq> [] then [batch_frame pending] else [])"
| "batch_frames env (body # bodies) pending pending_bytes =
    (let sz = length (pe_show env body)
     in if pending \<noteq> [] \<and> (SYNC_BATCH_MAX_COUNT \<le> length pending \<or> SYNC_BATCH_MAX_BYTES < pending_bytes + sz)
        then batch_frame pending # batch_frames env bodies [body] sz
        else batch_frames env bodies (pending @ [body]) (pending_bytes + sz))"

definition published_records :: "did_rows \<Rightarrow> did_record list" where
  "published_records rows = filter (\<lambda>r. dr_version_count r \<noteq> 0)
     (List.map_filter (\<lambda>(k, v). case v of RecRow r \<Rightarrow> Some r | RawRow _ \<Rightarrow> None) (ks_scan ''did:'' rows))"

definition delete_frame :: "string \<Rightarrow> frame" where
  "delete_frame m = (MSG_SYNC_DELETE, JObj [(''mnemonic'', JStr m)])"

definition resync_bodies :: "push_env \<Rightarrow> (string \<times> reported_did) list \<Rightarrow> did_rows \<Rightarrow> json list" where
  "resync_bodies env reported rows = List.map_filter (slot_body env rows)
     (filter (\<lambda>r. \<not> edge_is_current r (map_of reported (dr_mnemonic r))) (published_records rows))"

text \<open>The keys of the reported map come in its own order.\<close>

definition resync_frames :: "push_env \<Rightarrow> bool \<Rightarrow> (string \<times> reported_did) list \<Rightarrow> did_rows \<Rightarrow> frame list" where
  "resync_frames env batch reported rows =
    (let bodies = resync_bodies env reported rows; published_names = map dr_mnemonic (published_records rows)
     in (if batch then batch_frames env bodies [] 0 else map (Pair MSG_SYNC_UPDATE) bodies)
        @ map delete_frame (filter (\<lambda>m. m \<notin> set published_names) (map fst reported)))"

definition sync_all_dids_to_server ::
  "push_env \<Rightarrow> string \<Rightarrow> (string \<times> reported_did) list \<Rightarrow> push_state \<Rightarrow> push_state" where
  "sync_all_dids_to_server env server_did reported st =
    (let batch = (case get_instance (pu_registry st) (instance_id_of server_did) of
         Inr (Some i) \<Rightarrow> si_sync_batch_capable i | _ \<Rightarrow> False)
     in send_all env server_did (resync_frames env batch reported (pu_dids st)) st)"

section \<open>Watchers\<close>

definition notified_watchers_key :: "string \<Rightarrow> string" where
  "notified_watchers_key m = ''notified_watchers:'' @ m"

definition trim_end_slashes :: "string \<Rightarrow> string" where
  "trim_end_slashes s = rev (dropWhile (\<lambda>c. c = CHR ''/'') (rev s))"

definition named_by_line :: "(string \<Rightarrow> json option) \<Rightarrow> string \<Rightarrow> string list option" where
  "named_by_line parse line = Option.bind (parse line) (\<lambda>e.
     Option.bind (Option.bind (json_get ''parameters'' e) (json_get ''watchers'')) (\<lambda>w.
       Some (case json_array w of Some a \<Rightarrow> map trim_end_slashes (List.map_filter json_str a) | None \<Rightarrow> [])))"

text \<open>The parameter as last set.\<close>

definition watchers_named :: "(string \<Rightarrow> json option) \<Rightarrow> string \<Rightarrow> string list" where
  "watchers_named parse log = foldl (\<lambda>current line. case named_by_line parse line of Some w \<Rightarrow> w | None \<Rightarrow> current)
     [] (nonblank_lines log)"

fun watcher_dids :: "(string \<times> string) list \<Rightarrow> string list \<Rightarrow> string list \<Rightarrow> string list" where
  "watcher_dids peers [] dids = dids"
| "watcher_dids peers (url # urls) dids = (case find (\<lambda>(u, d). trim_end_slashes u = url) peers of
     Some (u, d) \<Rightarrow> watcher_dids peers urls (if d \<in> set dids then dids else dids @ [d])
   | None \<Rightarrow> watcher_dids peers urls dids)"

definition watcher_dids_for :: "push_env \<Rightarrow> string \<Rightarrow> string list" where
  "watcher_dids_for env log = watcher_dids (pe_watchers env) (watchers_named (pe_parse env) log) []"

definition is_configured_watcher :: "push_env \<Rightarrow> string \<Rightarrow> bool" where
  "is_configured_watcher env did \<longleftrightarrow> did \<in> snd ` set (pe_watchers env)"

section \<open>A changed or deleted DID\<close>

definition get_active_servers :: "Registry.registry \<Rightarrow> string list" where
  "get_active_servers s = List.map_filter si_did
     (filter (\<lambda>i. si_service_type i = Server \<and> si_status i = ActiveService) (list_instances s))"

definition notify_servers_did :: "push_env \<Rightarrow> string \<Rightarrow> push_state \<Rightarrow> push_state" where
  "notify_servers_did env m st =
    (case Option.bind (case get_record (pu_dids st) (did_key m) of Inr r \<Rightarrow> r | Inl _ \<Rightarrow> None) (\<lambda>r.
          Option.bind (raw_text (pu_dids st) (content_log_key m)) (\<lambda>log.
          map_option (Pair log) (sync_update_body env r log (raw_text (pu_dids st) (content_witness_key m))))) of
       None \<Rightarrow> st
     | Some (log, body) \<Rightarrow>
         let watchers = watcher_dids_for env log;
             st1 = send_each env (MSG_SYNC_UPDATE, body) watchers st;
             st2 = st1\<lparr>pu_notified := ks_put (notified_watchers_key m) watchers (pu_notified st1)\<rparr>
         in send_each env (MSG_SYNC_UPDATE, body) (get_active_servers (pu_registry st2)) st2)"

definition notify_servers_delete :: "push_env \<Rightarrow> string \<Rightarrow> push_state \<Rightarrow> push_state" where
  "notify_servers_delete env m st =
    (let watchers = (case ks_get (pu_notified st) (notified_watchers_key m) of Some w \<Rightarrow> w | None \<Rightarrow> []);
         st1 = send_each env (delete_frame m) watchers st;
         st2 = st1\<lparr>pu_notified := ks_del (notified_watchers_key m) (pu_notified st1)\<rparr>
     in send_each env (delete_frame m) (get_active_servers (pu_registry st2)) st2)"

section \<open>Domain directives\<close>

definition domain_body :: "string \<Rightarrow> json" where
  "domain_body d = JObj [(''domain'', JStr d)]"

definition noting :: "push_env \<Rightarrow> string \<Rightarrow> string \<Rightarrow> domain_op \<Rightarrow> push_state \<Rightarrow> push_state" where
  "noting env target d op st =
    st\<lparr>pu_registry := record_domain_intent (pe_seconds env (pu_queued st)) target d op (pu_registry st)\<rparr>"

definition send_domain_assign :: "push_env \<Rightarrow> string \<Rightarrow> string \<Rightarrow> push_state \<Rightarrow> push_state" where
  "send_domain_assign env target d st =
    (let st1 = noting env target d OpAssign st;
         st2 = st1\<lparr>pu_outbox := snd (drop_queued target MSG_REPLICA_DOMAIN_PURGE
                      (\<lambda>body. get_str ''domain'' body = Some d) (pu_outbox st1))\<rparr>
     in send env target (MSG_REPLICA_DOMAIN_ASSIGN, domain_body d) st2)"

definition send_domain_purge :: "push_env \<Rightarrow> string \<Rightarrow> string \<Rightarrow> push_state \<Rightarrow> push_state" where
  "send_domain_purge env target d st =
    send env target (MSG_REPLICA_DOMAIN_PURGE, domain_body d) (noting env target d OpPurge st)"

definition send_domain_unassign :: "push_env \<Rightarrow> string \<Rightarrow> string \<Rightarrow> push_state \<Rightarrow> push_state" where
  "send_domain_unassign env target d st =
    send env target (MSG_REPLICA_DOMAIN_UNASSIGN, domain_body d) (noting env target d OpUnassign st)"

definition intent_frames :: "domain_intent \<Rightarrow> frame list" where
  "intent_frames i = map (\<lambda>op. (op, domain_body (di_domain i))) (case di_op i of
     OpAssign \<Rightarrow> [MSG_REPLICA_DOMAIN_ASSIGN]
   | OpUnassign \<Rightarrow> [MSG_REPLICA_DOMAIN_UNASSIGN]
   | OpPurge \<Rightarrow> [MSG_REPLICA_DOMAIN_UNASSIGN, MSG_REPLICA_DOMAIN_PURGE])"

definition resend_domain_intents :: "push_env \<Rightarrow> string \<Rightarrow> push_state \<Rightarrow> push_state" where
  "resend_domain_intents env server_did st =
    send_all env server_did (concat (map intent_frames (domain_intents (pu_registry st) server_did))) st"

definition upsert_frame :: "push_env \<Rightarrow> domain_entry \<Rightarrow> frame" where
  "upsert_frame env e = (MSG_REPLICA_DOMAIN_UPSERT, JObj [(''entry'', to_spec (pe_date env) e)])"

definition sync_all_domains_now :: "push_env \<Rightarrow> string \<Rightarrow> push_state \<Rightarrow> push_state" where
  "sync_all_domains_now env server_did st =
    resend_domain_intents env server_did
      (send_all env server_did (map (upsert_frame env) (list_domains (pu_store st))) st)"

text \<open>The servers reached and the instances without a DID, which are skipped.\<close>

definition fanout_domain_upsert :: "push_env \<Rightarrow> domain_entry \<Rightarrow> push_state \<Rightarrow> (nat \<times> nat) \<times> push_state" where
  "fanout_domain_upsert env e st =
    (let is = list_instances (pu_registry st); targets = List.map_filter si_did is
     in ((length targets, length is - length targets), send_each env (upsert_frame env e) targets st))"

text \<open>The fan-out of a purge task: every instance that serves the domain, those without a DID failing.\<close>

definition purge_fanout :: "push_env \<Rightarrow> string \<Rightarrow> push_state \<Rightarrow> (string \<times> bool) list \<times> push_state" where
  "purge_fanout env d st =
    (let is = filter (\<lambda>i. d \<in> set (si_served_domains i)) (list_instances (pu_registry st))
     in (map (\<lambda>i. (si_instance_id i, si_did i \<noteq> None)) is,
         fold (\<lambda>t. send_domain_purge env t d) (List.map_filter si_did is) st))"

section \<open>What registers, acknowledges and assigns\<close>

definition do_server_register ::
  "push_env \<Rightarrow> registry_env \<Rightarrow> acl \<Rightarrow> string \<Rightarrow> json \<Rightarrow> nat \<Rightarrow> push_state
   \<Rightarrow> (infra_rejection + string) \<times> push_state" where
  "do_server_register env renv a signer body now st =
    (case admit_server renv a (pu_store st) signer body now (pu_registry st) of
       (Inl e, s) \<Rightarrow> (Inl e, st\<lparr>pu_registry := s\<rparr>)
     | (Inr i, s) \<Rightarrow> (Inr i, sync_all_domains_now env signer
         (sync_all_dids_to_server env signer (parse_reported body) (st\<lparr>pu_registry := s\<rparr>))))"

text \<open>The settling of a signed acknowledgement, and whether the sender may settle anything. The document
  answered is the thread, or named by inResponseTo.\<close>

definition acked_document :: "string option \<Rightarrow> json \<Rightarrow> string option" where
  "acked_document thread_id payload = (case thread_id of Some t \<Rightarrow> Some t
     | None \<Rightarrow> Option.bind (json_get ''inResponseTo'' payload) (get_str ''id''))"

definition acknowledge_outbox ::
  "push_env \<Rightarrow> acl \<Rightarrow> string \<Rightarrow> string option \<Rightarrow> json \<Rightarrow> nat \<Rightarrow> push_state \<Rightarrow> push_state" where
  "acknowledge_outbox env a sender thread_id payload now st = (case acked_document thread_id payload of
     None \<Rightarrow> st
   | Some doc \<Rightarrow>
       if \<not> is_configured_watcher env sender \<and> check_acl a sender \<noteq> Inr Service then st
       else (case acknowledge sender doc (pu_outbox st) of
          (True, q) \<Rightarrow> st\<lparr>pu_outbox := q, pu_registry := record_ack sender now (pu_registry st)\<rparr>
        | (False, q) \<Rightarrow> st\<lparr>pu_outbox := q\<rparr>))"

text \<open>The tasks domain/assign and domain/unassign queue a directive for one instance; registry/purge-domain
  a purge, unless the registry records the domain as served.\<close>

definition queue_for_instance ::
  "registry_env \<Rightarrow> (task_error + DomainTasks.auth_claims) \<Rightarrow> string \<Rightarrow> string \<Rightarrow> push_state
   \<Rightarrow> (registry_error + string \<times> string)" where
  "queue_for_instance renv admin i d st = (case and_then admin (\<lambda>_.
       and_then (canonical_name (rg_parse_host renv) d UnknownDomain) (\<lambda>name.
       and_then (existing_domain (rg_parse_host renv) name UnknownDomain (pu_store st)) (\<lambda>_. Inr name))) of
     Inl (task_error.App e) \<Rightarrow> Inl (RApp e)
   | Inl PermissionDenied \<Rightarrow> Inl RPermissionDenied
   | Inl (task_error.Declared _) \<Rightarrow> Inl (RDeclared NoSuchDomain)
   | Inr name \<Rightarrow> and_then (lift_registry (get_instance (pu_registry st) i)) (\<lambda>x.
       and_then (ok_or (RDeclared NoInstance) (Option.bind x si_did)) (\<lambda>target. Inr (target, name))))"

definition task_assign ::
  "push_env \<Rightarrow> registry_env \<Rightarrow> (task_error + DomainTasks.auth_claims) \<Rightarrow> string \<Rightarrow> string \<Rightarrow> push_state
   \<Rightarrow> (registry_error + string) \<times> push_state" where
  "task_assign env renv admin i d st = (case queue_for_instance renv admin i d st of
     Inl e \<Rightarrow> (Inl e, st) | Inr (target, name) \<Rightarrow> (Inr name, send_domain_assign env target name st))"

definition task_unassign ::
  "push_env \<Rightarrow> registry_env \<Rightarrow> (task_error + DomainTasks.auth_claims) \<Rightarrow> string \<Rightarrow> string \<Rightarrow> push_state
   \<Rightarrow> (registry_error + string) \<times> push_state" where
  "task_unassign env renv admin i d st = (case queue_for_instance renv admin i d st of
     Inl e \<Rightarrow> (Inl e, st) | Inr (target, name) \<Rightarrow> (Inr name, send_domain_unassign env target name st))"

definition registry_purge_domain ::
  "push_env \<Rightarrow> registry_env \<Rightarrow> (registry_error + DomainTasks.auth_claims) \<Rightarrow> string \<Rightarrow> string \<Rightarrow> push_state
   \<Rightarrow> (registry_error + string) \<times> push_state" where
  "registry_purge_domain env renv admin i d st = (case purge_domain_target renv admin (pu_store st) i d (pu_registry st) of
     Inl e \<Rightarrow> (Inl e, st) | Inr (target, name) \<Rightarrow> (Inr name, send_domain_purge env target name st))"

end
