(* ===== verification/Replicate.thy ===== *)
theory Replicate
  imports Push
begin

text \<open>
  The two ends of replication put together: what an edge reports when it registers
  (did-hosting-server/src/control_register.rs), how it reads and applies the control plane's messages
  (dispatch_control_plane_op of did-hosting-server/src/messaging.rs, after the document was verified),
  and what the edge holds after it has applied what a registration makes the control plane queue. The
  generated payload types are a parameter, oe_fits, and so are the names of their error codes; reading the members is the code's.
\<close>

section \<open>The report of a registration (control_register.rs)\<close>

definition reported_json :: "did_record \<Rightarrow> json" where
  "reported_json r = JObj [(''mnemonic'', JStr (dr_mnemonic r)),
     (''did_id'', case dr_did_id r of Some d \<Rightarrow> JStr d | None \<Rightarrow> JNull),
     (''version_count'', json_nat (dr_version_count r)), (''disabled'', JBool (dr_disabled r))]"

definition register_body :: "string option \<Rightarrow> string list \<Rightarrow> edge_state \<Rightarrow> json" where
  "register_body public_url methods st = JObj
     [(''public_url'', JStr (or_default [] public_url)), (''label'', JStr ''did-hosting-server''),
      (''enabled_methods'', json_strings methods),
      (''served_domains'', json_strings (map dom_name (filter (\<lambda>e. dom_status e = Active) (list_domains (es_store st))))),
      (''protocol_version'', JStr ''1.0''), (''trust_task_capable'', JBool True), (''sync_batch'', JBool True),
      (''preloaded_dids'', JArr (map reported_json (published_records (es_rows st))))]"

section \<open>Applying the control plane's messages (messaging.rs)\<close>

record verified_control_plane =
  vc_did :: string
  vc_issued_at :: nat

record ('e, 'p, 'k) op_env =
  oe_edge :: "('e, 'p, 'k) edge_env"
  oe_fits :: "string \<Rightarrow> json \<Rightarrow> bool"
  oe_code :: "sync_code \<Rightarrow> string"
  oe_date :: "nat \<Rightarrow> string"
  oe_parse_date :: "string \<Rightarrow> int option"

definition read_update :: "json \<Rightarrow> sync_update option" where
  "read_update b = Option.bind (get_str ''mnemonic'' b) (\<lambda>m. Option.bind (get_str ''didId'' b) (\<lambda>d.
     Option.bind (get_str ''logContent'' b) (\<lambda>l. Option.bind (nullable json_str ''witnessContent'' b) (\<lambda>w.
     Option.bind (Option.bind (json_get ''versionCount'' b) json_u64) (\<lambda>v.
     Option.bind (Option.bind (json_get ''disabled'' b) json_bool) (\<lambda>x.
       Some \<lparr>su_mnemonic = m, su_did_id = d, su_log = l, su_witness = w, su_version_count = v, su_disabled = x\<rparr>))))))"

definition status_str :: "sync_applied \<Rightarrow> string" where
  "status_str s = (case s of Applied \<Rightarrow> ''applied'' | Unchanged \<Rightarrow> ''unchanged'')"

definition result_json :: "(sync_code \<Rightarrow> string) \<Rightarrow> string \<times> (sync_code + sync_applied) \<Rightarrow> json" where
  "result_json code r = (case r of
     (m, Inr s) \<Rightarrow> JObj [(''mnemonic'', JStr m), (''status'', JStr (status_str s))]
   | (m, Inl c) \<Rightarrow> JObj [(''mnemonic'', JStr m), (''status'', JStr ''refused''), (''code'', JStr (code c))])"

definition op_sync_update :: "('e, 'p, 'k) op_env \<Rightarrow> nat \<Rightarrow> json \<Rightarrow> edge_state \<Rightarrow> (op_error + json) \<times> edge_state" where
  "op_sync_update env now body st =
    (case (if oe_fits env MSG_SYNC_UPDATE body then read_update body else None) of
       None \<Rightarrow> (Inl Refused, st)
     | Some u \<Rightarrow> (case do_sync_update (oe_edge env) now u st of
         (Inl e, st') \<Rightarrow> (Inl e, st') | (Inr (m, a), st') \<Rightarrow> (Inr (result_json (oe_code env) (m, Inr a)), st')))"

definition op_sync_batch :: "('e, 'p, 'k) op_env \<Rightarrow> nat \<Rightarrow> json \<Rightarrow> edge_state \<Rightarrow> (op_error + json) \<times> edge_state" where
  "op_sync_batch env now body st =
    (case (if oe_fits env MSG_SYNC_BATCH body then Option.bind (get_array ''updates'' body) (read_all read_update) else None) of
       None \<Rightarrow> (Inl Refused, st)
     | Some us \<Rightarrow> (case do_sync_batch (oe_edge env) now us st of
         (Inl e, st') \<Rightarrow> (Inl e, st') | (Inr rs, st') \<Rightarrow> (Inr (JObj [(''results'', JArr (map (result_json (oe_code env)) rs))]), st')))"

definition op_sync_delete :: "('e, 'p, 'k) op_env \<Rightarrow> json \<Rightarrow> edge_state \<Rightarrow> (op_error + json) \<times> edge_state" where
  "op_sync_delete env body st =
    (case (if oe_fits env MSG_SYNC_DELETE body then get_str ''mnemonic'' body else None) of
       None \<Rightarrow> (Inl Refused, st)
     | Some m \<Rightarrow> (case do_sync_delete (oe_edge env) m st of
         (Inl e, st') \<Rightarrow> (Inl e, st')
       | (Inr deleted, st') \<Rightarrow> (Inr (JObj [(''mnemonic'', JStr m), (''status'', JStr (if deleted then ''deleted'' else ''absent''))]), st')))"

definition directive_domain :: "('e, 'p, 'k) op_env \<Rightarrow> string \<Rightarrow> json \<Rightarrow> string option" where
  "directive_domain env uri body = (if oe_fits env uri body then get_str ''domain'' body else None)"

definition domain_reply :: "string \<Rightarrow> string \<Rightarrow> (string \<times> json) list \<Rightarrow> json" where
  "domain_reply d status members = JObj ([(''domain'', JStr d), (''status'', JStr status)] @ members)"

definition op_domain_assign ::
  "('e, 'p, 'k) op_env \<Rightarrow> verified_control_plane \<Rightarrow> nat \<Rightarrow> json \<Rightarrow> edge_state \<Rightarrow> (op_error + json) \<times> edge_state" where
  "op_domain_assign env vc now body st = (case directive_domain env MSG_REPLICA_DOMAIN_ASSIGN body of
     None \<Rightarrow> (Inl Refused, st)
   | Some name \<Rightarrow> (case do_domain_assign (oe_edge env) (vc_did vc) now name st of
       (Inl e, st') \<Rightarrow> (Inl e, st') | (Inr d, st') \<Rightarrow> (Inr (domain_reply d ''applied'' []), st')))"

definition op_domain_unassign ::
  "('e, 'p, 'k) op_env \<Rightarrow> verified_control_plane \<Rightarrow> nat \<Rightarrow> json \<Rightarrow> edge_state \<Rightarrow> (op_error + json) \<times> edge_state" where
  "op_domain_unassign env vc now body st = (case directive_domain env MSG_REPLICA_DOMAIN_UNASSIGN body of
     None \<Rightarrow> (Inl Refused, st)
   | Some name \<Rightarrow> (case do_domain_unassign (oe_edge env) (vc_did vc) now name st of
       (Inl e, st') \<Rightarrow> (Inl e, st')
     | (Inr (d, purge_at), st') \<Rightarrow> (Inr (domain_reply d ''scheduled'' [(''purgeAt'', JStr (oe_date env purge_at))]), st')))"

definition op_domain_purge ::
  "('e, 'p, 'k) op_env \<Rightarrow> verified_control_plane \<Rightarrow> json \<Rightarrow> edge_state \<Rightarrow> (op_error + json) \<times> edge_state" where
  "op_domain_purge env vc body st = (case directive_domain env MSG_REPLICA_DOMAIN_PURGE body of
     None \<Rightarrow> (Inl Refused, st)
   | Some name \<Rightarrow> (case do_domain_purge (oe_edge env) (vc_issued_at vc) name st of
       (Inl e, st') \<Rightarrow> (Inl e, st')
     | (Inr (d, n), st') \<Rightarrow> (Inr (domain_reply d ''purged'' [(''removed'', json_nat n)]), st')))"

text \<open>The name is checked before the rest of the entry is read.\<close>

definition op_domain_upsert ::
  "('e, 'p, 'k) op_env \<Rightarrow> verified_control_plane \<Rightarrow> json \<Rightarrow> edge_state \<Rightarrow> (op_error + json) \<times> edge_state" where
  "op_domain_upsert env vc body st =
    (case (if oe_fits env MSG_REPLICA_DOMAIN_UPSERT body
           then Option.bind (json_get ''entry'' body) (\<lambda>e. map_option (Pair e) (get_str ''name'' e)) else None) of
       None \<Rightarrow> (Inl Refused, st)
     | Some (v, name) \<Rightarrow>
         if normalize_domain_name (ee_parse_host (oe_edge env)) name \<noteq> Inr name then (Inl NonCanonicalName, st)
         else (case from_spec (oe_parse_date env) v of
           Inl _ \<Rightarrow> (Inl Refused, st)
         | Inr e \<Rightarrow> (case do_domain_upsert (oe_edge env) (vc_did vc) e st of
             (Inl er, st') \<Rightarrow> (Inl er, st')
           | (Inr d, st') \<Rightarrow> (Inr (JObj [(''name'', JStr d), (''status'', JStr ''applied'')]), st'))))"

text \<open>None is a type that is not a control-plane operation on the store.\<close>

definition dispatch_op ::
  "('e, 'p, 'k) op_env \<Rightarrow> verified_control_plane \<Rightarrow> nat \<Rightarrow> frame \<Rightarrow> edge_state \<Rightarrow> (op_error + json) option \<times> edge_state" where
  "dispatch_op env vc now f st = (case f of (uri, body) \<Rightarrow>
     let done = (\<lambda>(r, st'). (Some r, st'))
     in if uri = MSG_SYNC_UPDATE then done (op_sync_update env now body st)
        else if uri = MSG_SYNC_BATCH then done (op_sync_batch env now body st)
        else if uri = MSG_SYNC_DELETE then done (op_sync_delete env body st)
        else if uri = MSG_REPLICA_DOMAIN_ASSIGN then done (op_domain_assign env vc now body st)
        else if uri = MSG_REPLICA_DOMAIN_UNASSIGN then done (op_domain_unassign env vc now body st)
        else if uri = MSG_REPLICA_DOMAIN_PURGE then done (op_domain_purge env vc body st)
        else if uri = MSG_REPLICA_DOMAIN_UPSERT then done (op_domain_upsert env vc body st)
        else (None, st))"

text \<open>A list of messages, each with the document that carried it and the time it is applied at.\<close>

definition deliver_all ::
  "('e, 'p, 'k) op_env \<Rightarrow> (verified_control_plane \<times> nat \<times> frame) list \<Rightarrow> edge_state \<Rightarrow> edge_state" where
  "deliver_all env ds st = fold (\<lambda>(vc, now, f) s. snd (dispatch_op env vc now f s)) ds st"

section \<open>Queueing in order\<close>

text \<open>The clock advances over the first N entries, within the digits of a key, and every entry queued so
  far is older.\<close>

definition push_clock :: "push_env \<Rightarrow> nat \<Rightarrow> bool" where
  "push_clock env N \<longleftrightarrow> (\<forall>i j. i < j \<longrightarrow> j < N \<longrightarrow> pe_micros env i < pe_micros env j) \<and> (\<forall>n < N. pe_micros env n < 10 ^ 20)"

definition queued_before :: "push_env \<Rightarrow> string set \<Rightarrow> push_state \<Rightarrow> bool" where
  "queued_before env T st \<longleftrightarrow> ks_ok (pu_outbox st) \<and> (\<forall>k e. ks_get (pu_outbox st) k = Some e \<longrightarrow>
     (\<exists>t \<in> T. \<exists>n u. n < pu_queued st \<and> k = outbox_key t (pe_micros env n) u))"

definition frames_of :: "json outbox \<Rightarrow> string \<Rightarrow> frame list" where
  "frames_of rows t = map (\<lambda>e. (ob_msg_type e, ob_body e)) (queue rows t)"

lemma queue_enqueue:
  assumes "push_clock env N" "queued_before env T st" "targets_apart T" "t \<in> T" "pu_queued st < N"
  shows "frames_of (pu_outbox (send env t f st)) t = frames_of (pu_outbox st) t @ [f]"
    "queued_before env T (send env t f st)"
proof -
  let ?n = "pu_queued st" and ?rows = "pu_outbox st"
  let ?k = "outbox_key t (pe_micros env ?n) (pe_uuid env ?n)"
  have m: "pe_micros env i < pe_micros env ?n" if "i < ?n" for i using assms(1,5) that by (simp add: push_clock_def)
  have l: "pe_micros env ?n < 10 ^ 20" using assms(1,5) by (simp add: push_clock_def)
  have o: "ks_ok ?rows" using assms(2) by (simp add: queued_before_def)
  have less: "j < ?k" if "(j, v) \<in> set (ks_scan (target_prefix t) ?rows)" for j v
  proof -
    have g: "prefix (target_prefix t) j" "ks_get ?rows j = Some v" using that rows.scan_mem[OF o] by blast+
    then obtain u i x where u: "u \<in> T" "i < ?n" "j = outbox_key u (pe_micros env i) x"
      using assms(2) unfolding queued_before_def by blast
    then have "t = u" using apart_key[OF assms(3,4)] g(1) by blast
    then show ?thesis using u outbox_key_less[OF m l] by simp
  qed
  have p: "prefix (target_prefix t) ?k" by (simp add: outbox_key_def)
  have ok': "ks_ok (pu_outbox (send env t f st))" using o by (simp add: send_def Let_def enqueue_def ks_simps)
  show "frames_of (pu_outbox (send env t f st)) t = frames_of ?rows t @ [f]"
    unfolding frames_of_def queue_def pending_scan[OF o] pending_scan[OF ok']
    by (simp add: send_def Let_def enqueue_def scan_put_last[OF p less])
  show "queued_before env T (send env t f st)"
    using assms(2,4) ok' unfolding queued_before_def send_def Let_def enqueue_def
    by (auto simp: ks_simps split: if_splits) (meson less_SucI lessI)+
qed

lemma queue_sent:
  assumes "push_clock env N" "targets_apart T" "t \<in> T"
  shows "queued_before env T st \<Longrightarrow> pu_queued st + length fs \<le> N \<Longrightarrow> frames_of (pu_outbox (send_all env t fs st)) t = frames_of (pu_outbox st) t @ fs
    \<and> queued_before env T (send_all env t fs st)"
proof (induction fs arbitrary: st)
  case (Cons f fs)
  have n: "pu_queued st < N" using Cons.prems(2) by simp
  note q = queue_enqueue[OF assms(1) Cons.prems(1) assms(2,3) n, of f]
  have "pu_queued (send env t f st) + length fs \<le> N" using Cons.prems(2) by (simp add: send_def Let_def)
  then show ?case using Cons.IH[OF q(2)] q(1) by (simp add: send_all_def)
qed (simp add: send_all_def)

lemma send_frame [simp]:
  "pu_registry (send env t f st) = pu_registry st" "pu_dids (send env t f st) = pu_dids st"
  "pu_store (send env t f st) = pu_store st"
  by (simp_all add: send_def Let_def)

lemma send_all_frame [simp]:
  "pu_registry (send_all env t fs st) = pu_registry st" "pu_dids (send_all env t fs st) = pu_dids st"
  "pu_store (send_all env t fs st) = pu_store st"
  by (induction fs arbitrary: st) (simp_all add: send_all_def)

lemma sent_count [simp]: "pu_queued (send_all env t fs st) = pu_queued st + length fs"
  by (induction fs arbitrary: st) (simp_all add: send_all_def send_def Let_def)

section \<open>Reading what was written\<close>

lemma nullable_opt_str: "json_get k v = map_option JStr x \<Longrightarrow> nullable json_str k v = Some x"
  by (rule nullable_opt[where g = JStr]) (simp_all add: json_str_def)

lemma read_update_json:
  assumes "su_version_count u < u64_lim"
  shows "read_update (sync_update_json u) = Some u"
proof -
  have n: "nullable json_str ''witnessContent'' (sync_update_json u) = Some (su_witness u)"
    by (rule nullable_opt_str) (simp add: sync_update_json_def wire)
  have g: "get_str ''mnemonic'' (sync_update_json u) = Some (su_mnemonic u)" "get_str ''didId'' (sync_update_json u) = Some (su_did_id u)"
    "get_str ''logContent'' (sync_update_json u) = Some (su_log u)"
    "Option.bind (json_get ''versionCount'' (sync_update_json u)) json_u64 = Some (su_version_count u)"
    "Option.bind (json_get ''disabled'' (sync_update_json u)) json_bool = Some (su_disabled u)"
    using assms by (simp_all add: sync_update_json_def get_str_def wire json_str_def json_u64_def json_nat_def json_bool_def)
  show ?thesis by (simp add: read_update_def n g)
qed

lemma reported_read:
  "dr_version_count r < u64_lim \<Longrightarrow> reported_entry (reported_json r)
    = Some (dr_mnemonic r, \<lparr>rd_did_id = dr_did_id r, rd_version_count = dr_version_count r, rd_disabled = Some (dr_disabled r)\<rparr>)"
  by (cases "dr_did_id r") (simp_all add: reported_entry_def reported_json_def get_str_def wire json_str_def json_u64_def json_nat_def json_bool_def)

section \<open>What a store publishes and an edge reports\<close>

definition rows_named :: "did_rows \<Rightarrow> bool" where
  "rows_named rows \<longleftrightarrow> ks_ok rows \<and> (\<forall>m r. rec_at rows m = Some r \<longrightarrow> dr_mnemonic r = m)"

lemma edge_named: "edge_ok env st \<Longrightarrow> rows_named (es_rows st)"
  by (simp add: edge_ok_def rows_named_def)

lemma did_named: "did_inv rows \<Longrightarrow> rows_named rows"
proof -
  assume "did_inv rows"
  note t = inv_typed[OF this]
  show ?thesis using t rec_at_mnemonic[OF t] unfolding rows_named_def rows_typed_def by blast
qed

lemma option_eqI: "(\<And>v. a = Some v \<longleftrightarrow> b = Some v) \<Longrightarrow> a = b"
  by (cases a) (metis option.exhaust)+

lemma scan_rec:
  assumes "rows_named rows"
  shows "(k, RecRow r) \<in> set (ks_scan ''did:'' rows) \<longleftrightarrow> k = did_key (dr_mnemonic r) \<and> rec_at rows (dr_mnemonic r) = Some r"
proof -
  have o: "ks_ok rows" using assms by (simp add: rows_named_def)
  have k: "k = did_key (dr_mnemonic r) \<and> rec_at rows (dr_mnemonic r) = Some r"
    if p: "prefix ''did:'' k" "ks_get rows k = Some (RecRow r)"
  proof -
    obtain m where m: "k = did_key m" using p(1) by (auto simp: prefix_def did_key_def)
    then have "rec_at rows m = Some r" using p(2) by (simp add: rec_at_def)
    then show ?thesis using m assms by (simp add: rows_named_def)
  qed
  have b: "prefix ''did:'' (did_key n)" "rec_at rows n = Some r \<Longrightarrow> ks_get rows (did_key n) = Some (RecRow r)" for n
    by (auto simp: did_key_def rec_at_def split: option.splits did_row.splits)
  show ?thesis unfolding rows.scan_mem[OF o] using k b by blast
qed

lemma published_iff:
  "rows_named rows \<Longrightarrow> r \<in> set (published_records rows) \<longleftrightarrow> rec_at rows (dr_mnemonic r) = Some r \<and> dr_version_count r \<noteq> 0"
proof -
  assume n: "rows_named rows"
  have "r \<in> set (published_records rows) \<longleftrightarrow> (\<exists>k. (k, RecRow r) \<in> set (ks_scan ''did:'' rows)) \<and> dr_version_count r \<noteq> 0"
    by (force simp: published_records_def set_map_filter split: did_row.splits)
  then show ?thesis using scan_rec[OF n] by blast
qed

lemma published_distinct: "rows_named rows \<Longrightarrow> distinct (map dr_mnemonic (published_records rows))"
  using rows_distinct[of "ks_scan ''did:'' rows"] rows.scan_distinct[of rows "''did:''"] scan_rec[of rows]
  by (simp add: published_records_def distinct_map_filter rows_named_def)

definition report_of :: "did_record \<Rightarrow> reported_did" where
  "report_of r = \<lparr>rd_did_id = dr_did_id r, rd_version_count = dr_version_count r, rd_disabled = Some (dr_disabled r)\<rparr>"

definition u64_rows :: "did_rows \<Rightarrow> bool" where
  "u64_rows rows \<longleftrightarrow> (\<forall>m r. rec_at rows m = Some r \<longrightarrow> dr_version_count r < u64_lim)"

lemma parse_report:
  assumes "rows_named (es_rows st)" "u64_rows (es_rows st)"
  shows "parse_reported (register_body url methods st) = map (\<lambda>r. (dr_mnemonic r, report_of r)) (published_records (es_rows st))"
proof -
  let ?rs = "published_records (es_rows st)"
  have b: "dr_version_count r < u64_lim" if "r \<in> set ?rs" for r
    using published_iff[OF assms(1), of r] that assms(2) unfolding u64_rows_def by blast
  have m: "List.map_filter reported_entry (map reported_json rs) = map (\<lambda>r. (dr_mnemonic r, report_of r)) rs"
    if "\<forall>r \<in> set rs. dr_version_count r < u64_lim" for rs
    using that by (induction rs) (simp_all add: reported_read report_of_def)
  have g: "get_array ''preloaded_dids'' (register_body url methods st) = Some (map reported_json ?rs)"
    by (simp add: register_body_def get_array_def wire json_array_def)
  have "distinct (map fst ([] @ map (\<lambda>r. (dr_mnemonic r, report_of r)) ?rs))"
    using published_distinct[OF assms(1)] by (simp add: comp_def)
  from update_all_append[OF this] show ?thesis using m[of ?rs] b by (simp add: parse_reported_def g)
qed

lemma reported_at:
  assumes "rows_named (es_rows st)" "u64_rows (es_rows st)"
  shows "map_of (parse_reported (register_body url methods st)) m = (case rec_at (es_rows st) m of
      Some r \<Rightarrow> if dr_version_count r \<noteq> 0 then Some (report_of r) else None | None \<Rightarrow> None)"
proof -
  let ?rs = "published_records (es_rows st)"
  have d: "distinct (map fst (map (\<lambda>r. (dr_mnemonic r, report_of r)) ?rs))"
    using published_distinct[OF assms(1)] by (simp add: comp_def)
  have q: "map_of (map (\<lambda>r. (dr_mnemonic r, report_of r)) ?rs) m = Some v \<longleftrightarrow>
      (\<exists>r. rec_at (es_rows st) m = Some r \<and> dr_version_count r \<noteq> 0 \<and> v = report_of r)" for v
  proof -
    have "map_of (map (\<lambda>r. (dr_mnemonic r, report_of r)) ?rs) m = Some v
        \<longleftrightarrow> (\<exists>r \<in> set ?rs. dr_mnemonic r = m \<and> v = report_of r)"
      using d by (auto simp: map_of_eq_Some_iff)
    moreover have "r \<in> set ?rs \<and> dr_mnemonic r = m \<longleftrightarrow> rec_at (es_rows st) m = Some r \<and> dr_version_count r \<noteq> 0" for r
      using assms(1) by (auto simp: published_iff[OF assms(1)] rows_named_def)
    ultimately show ?thesis by blast
  qed
  have e: "map_of (map (\<lambda>r. (dr_mnemonic r, report_of r)) ?rs) m = Some v \<longleftrightarrow>
      (case rec_at (es_rows st) m of Some r \<Rightarrow> if dr_version_count r \<noteq> 0 then Some (report_of r) else None | None \<Rightarrow> None) = Some v" for v
    using q[of v] by (cases "rec_at (es_rows st) m") auto
  show ?thesis unfolding parse_report[OF assms] by (rule option_eqI) (rule e)
qed

section \<open>The updates of a resync\<close>

definition slot_update :: "push_env \<Rightarrow> did_rows \<Rightarrow> did_record \<Rightarrow> sync_update option" where
  "slot_update env rows r = Option.bind (raw_text rows (content_log_key (dr_mnemonic r))) (\<lambda>log.
     Option.bind (dr_did_id r) (\<lambda>d.
       let w = raw_text rows (content_witness_key (dr_mnemonic r));
           u = \<lparr>su_mnemonic = dr_mnemonic r, su_did_id = d, su_log = log, su_witness = (if w = Some [] then None else w),
             su_version_count = dr_version_count r, su_disabled = dr_disabled r\<rparr>
       in if d \<noteq> [] \<and> pe_fits env (sync_update_json u) then Some u else None))"

lemma slot_body_update: "slot_body env rows r = map_option sync_update_json (slot_update env rows r)"
  by (cases "raw_text rows (content_log_key (dr_mnemonic r))"; cases "dr_did_id r")
    (simp_all add: slot_body_def slot_update_def sync_update_body_def Let_def)

lemma slot_updateD:
  assumes "slot_update env rows r = Some u"
  shows "su_mnemonic u = dr_mnemonic r" "dr_did_id r = Some (su_did_id u)" "su_version_count u = dr_version_count r"
    "su_disabled u = dr_disabled r" "utf8_text (su_log u)" "pe_fits env (sync_update_json u)"
  using assms by (auto simp: slot_update_def raw_text_def Let_def bind_eq_Some_conv split: if_splits option.splits)

definition due_records :: "(string \<times> reported_did) list \<Rightarrow> did_rows \<Rightarrow> did_record list" where
  "due_records reported rows = filter (\<lambda>r. \<not> edge_is_current r (map_of reported (dr_mnemonic r))) (published_records rows)"

definition resync_updates :: "push_env \<Rightarrow> (string \<times> reported_did) list \<Rightarrow> did_rows \<Rightarrow> sync_update list" where
  "resync_updates env reported rows = List.map_filter (slot_update env rows) (due_records reported rows)"

lemma resync_bodies_updates: "resync_bodies env reported rows = map sync_update_json (resync_updates env reported rows)"
proof -
  have "List.map_filter (slot_body env rows) rs = map sync_update_json (List.map_filter (slot_update env rows) rs)" for rs
    by (induction rs) (simp_all add: slot_body_update split: option.splits)
  then show ?thesis by (simp add: resync_bodies_def resync_updates_def due_records_def)
qed

lemma resync_distinct:
  assumes "rows_named rows"
  shows "distinct (map su_mnemonic (resync_updates env reported rows))"
proof -
  have "distinct (map su_mnemonic (List.map_filter (slot_update env rows) rs)) \<and>
      su_mnemonic ` set (List.map_filter (slot_update env rows) rs) \<subseteq> dr_mnemonic ` set rs" if "distinct (map dr_mnemonic rs)" for rs
    using that
  proof (induction rs)
    case (Cons r rs)
    then show ?case using slot_updateD(1) by (cases "slot_update env rows r") auto
  qed simp
  moreover have "distinct (map dr_mnemonic (due_records reported rows))"
    using published_distinct[OF assms] by (simp add: due_records_def distinct_map_filter)
  ultimately show ?thesis by (simp add: resync_updates_def)
qed

text \<open>A batch stays within its caps: at most fifty updates, and more than one only within the byte budget.\<close>

definition within_caps :: "push_env \<Rightarrow> json list \<Rightarrow> bool" where
  "within_caps env bs \<longleftrightarrow> 0 < length bs \<and> length bs \<le> SYNC_BATCH_MAX_COUNT
     \<and> (length bs \<le> 1 \<or> (\<Sum>b\<leftarrow>bs. length (pe_show env b)) \<le> SYNC_BATCH_MAX_BYTES)"

lemma batch_frames_caps:
  assumes "pending = [] \<or> within_caps env pending" "n = (\<Sum>b\<leftarrow>pending. length (pe_show env b))"
  shows "\<exists>bss. batch_frames env bodies pending n = map batch_frame bss \<and> concat bss = pending @ bodies
    \<and> list_all (within_caps env) bss"
  using assms
proof (induction bodies arbitrary: pending n)
  case Nil
  then show ?case by (cases "pending = []") (auto intro: exI[of _ "[]"] exI[of _ "[pending]"])
next
  case (Cons b bodies)
  show ?case
  proof (cases "pending \<noteq> [] \<and> (SYNC_BATCH_MAX_COUNT \<le> length pending \<or> SYNC_BATCH_MAX_BYTES < n + length (pe_show env b))")
    case True
    have "within_caps env [b]" by (simp add: within_caps_def SYNC_BATCH_MAX_COUNT_def)
    then obtain bss where "batch_frames env bodies [b] (length (pe_show env b)) = map batch_frame bss"
        "concat bss = [b] @ bodies" "list_all (within_caps env) bss"
      using Cons.IH[of "[b]"] by auto
    then show ?thesis using True Cons.prems(1) by (intro exI[of _ "pending # bss"]) (auto simp: Let_def)
  next
    case False
    have "within_caps env (pending @ [b])"
      using False Cons.prems by (cases "pending = []") (auto simp: within_caps_def SYNC_BATCH_MAX_COUNT_def)
    then show ?thesis using Cons.IH[of "pending @ [b]"] False Cons.prems(2) by (auto simp: Let_def)
  qed
qed

section \<open>Delivering updates and deletes\<close>

inductive applies :: "('e, 'p, 'k) edge_env \<Rightarrow> sync_update list \<Rightarrow> edge_state \<Rightarrow> edge_state \<Rightarrow> bool" for env where
  applies_Nil: "applies env [] st st"
| applies_Cons: "apply_sync_entry env now u st = (r, st1) \<Longrightarrow> applies env us st1 st2 \<Longrightarrow> applies env (u # us) st st2"

inductive_simps applies_simps [simp]: "applies env [] st st'" "applies env (u # us) st st'"

lemma applies_append: "applies env us st st1 \<Longrightarrow> applies env vs st1 st2 \<Longrightarrow> applies env (us @ vs) st st2"
  by (induction rule: applies.induct) auto

lemma batch_applies: "applies env us st (snd (batch_entries env now us st))"
proof (induction us arbitrary: st)
  case (Cons u us)
  obtain r st1 where a: "apply_sync_entry env now u st = (r, st1)" by force
  obtain outs tr st2 where b: "batch_entries env now us st1 = ((outs, tr), st2)" by (metis prod.exhaust)
  have "snd (batch_entries env now (u # us) st) = st2"
    using a b by (auto simp: Let_def split: sum.splits op_error.splits)
  then show ?case using Cons.IH[of st1] a b by auto
qed simp

definition schemas_agree :: "push_env \<Rightarrow> ('e, 'p, 'k) op_env \<Rightarrow> bool" where
  "schemas_agree pe oe \<longleftrightarrow> (\<forall>b. pe_fits pe b \<longrightarrow> oe_fits oe MSG_SYNC_UPDATE b)
     \<and> (\<forall>bs. list_all (oe_fits oe MSG_SYNC_UPDATE) bs \<longrightarrow> oe_fits oe MSG_SYNC_BATCH (snd (batch_frame bs)))
     \<and> (\<forall>m. oe_fits oe MSG_SYNC_DELETE (snd (delete_frame m)))
     \<and> (\<forall>d. oe_fits oe MSG_REPLICA_DOMAIN_ASSIGN (domain_body d) \<and> oe_fits oe MSG_REPLICA_DOMAIN_UNASSIGN (domain_body d)
          \<and> oe_fits oe MSG_REPLICA_DOMAIN_PURGE (domain_body d))"

lemmas msg_uris = MSG_SYNC_UPDATE_def MSG_SYNC_BATCH_def MSG_SYNC_DELETE_def MSG_REPLICA_DOMAIN_ASSIGN_def
  MSG_REPLICA_DOMAIN_UNASSIGN_def MSG_REPLICA_DOMAIN_PURGE_def MSG_REPLICA_DOMAIN_UPSERT_def

lemma uris_differ [simp]:
  "MSG_SYNC_BATCH \<noteq> MSG_SYNC_UPDATE" "MSG_SYNC_DELETE \<noteq> MSG_SYNC_UPDATE" "MSG_SYNC_DELETE \<noteq> MSG_SYNC_BATCH"
  "MSG_REPLICA_DOMAIN_ASSIGN \<notin> {MSG_SYNC_UPDATE, MSG_SYNC_BATCH, MSG_SYNC_DELETE}"
  "MSG_REPLICA_DOMAIN_UNASSIGN \<notin> {MSG_SYNC_UPDATE, MSG_SYNC_BATCH, MSG_SYNC_DELETE, MSG_REPLICA_DOMAIN_ASSIGN}"
  "MSG_REPLICA_DOMAIN_PURGE \<notin> {MSG_SYNC_UPDATE, MSG_SYNC_BATCH, MSG_SYNC_DELETE, MSG_REPLICA_DOMAIN_ASSIGN, MSG_REPLICA_DOMAIN_UNASSIGN}"
  by (simp_all add: msg_uris)

definition sendable :: "('e, 'p, 'k) op_env \<Rightarrow> sync_update \<Rightarrow> bool" where
  "sendable oe u \<longleftrightarrow> su_version_count u < u64_lim \<and> oe_fits oe MSG_SYNC_UPDATE (sync_update_json u) \<and> utf8_text (su_log u)"

lemma dispatch_update:
  "sendable oe u \<Longrightarrow> snd (dispatch_op oe vc now (MSG_SYNC_UPDATE, sync_update_json u) st) = snd (apply_sync_entry (oe_edge oe) now u st)"
  by (auto simp: dispatch_op_def op_sync_update_def sendable_def read_update_json do_sync_update_def split: prod.splits sum.splits)

lemma read_all_updates: "list_all (sendable oe) us \<Longrightarrow> read_all read_update (map sync_update_json us) = Some us"
  by (intro read_all_map) (auto simp: list_all_iff sendable_def read_update_json)

lemma dispatch_batch:
  assumes "schemas_agree pe oe" "list_all (sendable oe) us"
  shows "snd (dispatch_op oe vc now (batch_frame (map sync_update_json us)) st) = snd (batch_entries (oe_edge oe) now us st)"
proof -
  have f: "oe_fits oe MSG_SYNC_BATCH (JObj [(''updates'', JArr (map sync_update_json us))])"
    using assms by (auto simp: schemas_agree_def batch_frame_def list_all_iff sendable_def)
  have g: "get_array ''updates'' (JObj [(''updates'', JArr (map sync_update_json us))]) = Some (map sync_update_json us)"
    by (simp add: get_array_def wire json_array_def)
  show ?thesis
    by (auto simp: batch_frame_def dispatch_op_def op_sync_batch_def f g read_all_updates[OF assms(2)] do_sync_batch_def
        split: prod.splits sum.splits if_splits)
qed

lemma dispatch_delete:
  assumes "schemas_agree pe oe"
  shows "snd (dispatch_op oe vc now (delete_frame m) st) = snd (do_sync_delete (oe_edge oe) m st)"
proof -
  have f: "oe_fits oe MSG_SYNC_DELETE (JObj [(''mnemonic'', JStr m)])"
    using assms by (auto simp: schemas_agree_def delete_frame_def)
  show ?thesis
    by (auto simp: delete_frame_def dispatch_op_def op_sync_delete_def f get_str_def wire json_str_def
        split: prod.splits sum.splits)
qed

lemma deliver_simps [simp]:
  "deliver_all oe [] st = st"
  "deliver_all oe ((vc, now, f) # ds) st = deliver_all oe ds (snd (dispatch_op oe vc now f st))"
  "deliver_all oe (ds @ es) st = deliver_all oe es (deliver_all oe ds st)"
  by (simp_all add: deliver_all_def)

definition frames :: "('a \<times> 'b \<times> frame) list \<Rightarrow> frame list" where
  "frames ds = map (snd \<circ> snd) ds"

lemma frames_Cons: "frames ds = f # fs \<longleftrightarrow> (\<exists>vc now es. ds = (vc, now, f) # es \<and> frames es = fs)"
  by (cases ds) (auto simp: frames_def)

lemma frames_append: "frames ds = fs @ gs \<longleftrightarrow> (\<exists>d1 d2. ds = d1 @ d2 \<and> frames d1 = fs \<and> frames d2 = gs)"
  by (auto simp: frames_def map_eq_append_conv)

lemma deliver_updates:
  "frames ds = map (Pair MSG_SYNC_UPDATE) (map sync_update_json us) \<Longrightarrow> list_all (sendable oe) us
   \<Longrightarrow> applies (oe_edge oe) us st (deliver_all oe ds st)"
proof (induction us arbitrary: ds st)
  case Nil
  then show ?case by (simp add: frames_def)
next
  case (Cons u us)
  then obtain vc now es where d: "ds = (vc, now, MSG_SYNC_UPDATE, sync_update_json u) # es"
    "frames es = map (Pair MSG_SYNC_UPDATE) (map sync_update_json us)" by (auto simp: frames_Cons)
  have "applies (oe_edge oe) us (snd (apply_sync_entry (oe_edge oe) now u st)) (deliver_all oe ds st)"
    using Cons.IH[OF d(2)] Cons.prems(2) by (simp add: d(1) dispatch_update)
  then show ?case by (metis applies_Cons prod.collapse)
qed

lemma deliver_batches:
  assumes "schemas_agree pe oe"
  shows "frames ds = map batch_frame (map (map sync_update_json) uss) \<Longrightarrow> list_all (list_all (sendable oe)) uss
   \<Longrightarrow> applies (oe_edge oe) (concat uss) st (deliver_all oe ds st)"
proof (induction uss arbitrary: ds st)
  case Nil
  then show ?case by (simp add: frames_def)
next
  case (Cons us uss)
  then obtain vc now es where d: "ds = (vc, now, batch_frame (map sync_update_json us)) # es"
    "frames es = map batch_frame (map (map sync_update_json) uss)" by (auto simp: frames_Cons)
  have "applies (oe_edge oe) (concat uss) (snd (batch_entries (oe_edge oe) now us st)) (deliver_all oe ds st)"
    using Cons.IH[OF d(2)] Cons.prems(2) by (simp add: d(1) dispatch_batch[OF assms])
  then show ?case using applies_append[OF batch_applies] by simp
qed

lemma concat_map_split: "concat bss = map f us \<Longrightarrow> \<exists>uss. bss = map (map f) uss \<and> concat uss = us"
proof (induction bss arbitrary: us)
  case (Cons b bss)
  then obtain u1 u2 where u: "us = u1 @ u2" "b = map f u1" "concat bss = map f u2" by (auto simp: append_eq_map_conv)
  then obtain uss where "bss = map (map f) uss" "concat uss = u2" using Cons.IH by blast
  then show ?case using u by (intro exI[of _ "u1 # uss"]) simp
qed simp

lemma delete_slot:
  "rec_at (es_rows (snd (do_sync_delete env m st))) n = (if n = m then None else rec_at (es_rows st) n)"
  by (auto simp: do_sync_delete_def slot_removal_def ks_commit_append get_del_keys ks_simps rec_at_def get_record_def
      watcher_sync_key_def did_key_def content_log_key_def content_witness_key_def owner_key_def agent_name_key_def
      split: option.splits did_row.splits)

lemma deliver_deletes:
  assumes "schemas_agree pe oe"
  shows "frames ds = map delete_frame ms
    \<Longrightarrow> rec_at (es_rows (deliver_all oe ds st)) n = (if n \<in> set ms then None else rec_at (es_rows st) n)"
proof (induction ms arbitrary: ds st)
  case Nil
  then show ?case by (simp add: frames_def)
next
  case (Cons m ms)
  then obtain vc now es where d: "ds = (vc, now, delete_frame m) # es" "frames es = map delete_frame ms" by (auto simp: frames_Cons)
  show ?case using Cons.IH[OF d(2)] by (simp add: d(1) dispatch_delete[OF assms] delete_slot)
qed

section \<open>What an applied update leaves\<close>

text \<open>The slot of r is held as the same DID, at no older version and with its disabled state.\<close>

definition held_as :: "edge_state \<Rightarrow> did_record \<Rightarrow> bool" where
  "held_as st r \<longleftrightarrow> (\<exists>e. rec_at (es_rows st) (dr_mnemonic r) = Some e \<and> dr_did_id e = dr_did_id r
     \<and> dr_version_count r \<le> dr_version_count e \<and> dr_disabled e = dr_disabled r)"

definition holds_update :: "edge_state \<Rightarrow> sync_update \<Rightarrow> bool" where
  "holds_update st u \<longleftrightarrow> (\<exists>e. rec_at (es_rows st) (su_mnemonic u) = Some e \<and> dr_did_id e = Some (su_did_id u)
     \<and> dr_version_count e = su_version_count u \<and> dr_disabled e = su_disabled u)"

lemma refused_unchanged: "apply_sync_entry env now u st = (Inl e, st') \<Longrightarrow> st' = st"
  by (auto simp: apply_sync_entry_def apply_single_update_def Let_def split: if_splits prod.splits sum.splits)

lemma entry_elsewhere:
  "apply_sync_entry env now u st = (r, st') \<Longrightarrow> n \<noteq> su_mnemonic u \<Longrightarrow> rec_at (es_rows st') n = rec_at (es_rows st) n"
  by (erule sync_effect) auto

lemma entry_held:
  assumes "apply_sync_entry env now u st = (Inr a, st')" "edge_ok env st"
  shows "holds_update st' u"
proof -
  have c: "length (nonblank_lines (su_log u)) = su_version_count u" "apply_single_update env now u st = (Inr a, st')"
    using assms(1) by (auto simp: apply_sync_entry_def split: if_splits prod.splits sum.splits)
  show ?thesis
  proof (cases a)
    case Applied
    show ?thesis
      by (rule applied_slots[OF c(2)[unfolded Applied]]) (simp add: holds_update_def synced_record_def)
  next
    case Unchanged
    then have s: "st' = st" "already_held st u"
      using c(2) by (auto simp: apply_single_update_def Let_def split: if_splits prod.splits sum.splits)
    obtain p where p: "previous_record st (su_mnemonic u) = Some p" "dr_did_id p = Some (su_did_id u)" "dr_disabled p = su_disabled u"
      "log_at st (su_mnemonic u) = Some (su_log u)" using s(2) by (auto simp: already_held_def split: option.splits)
    have r: "rec_at (es_rows st) (su_mnemonic u) = Some p"
      using p(1) by (auto simp: previous_record_def get_record_def rec_at_def split: option.splits did_row.splits)
    then have "slot_good env p (log_at st (su_mnemonic u)) (proofs_at st (su_mnemonic u))" using assms(2) by (simp add: edge_ok_def)
    then show ?thesis using p r c(1) s(1) by (simp add: holds_update_def slot_good_def)
  qed
qed

text \<open>The update u was refused when its turn came.\<close>

definition refused_in_turn :: "('e, 'p, 'k) edge_env \<Rightarrow> sync_update list \<Rightarrow> edge_state \<Rightarrow> sync_update \<Rightarrow> bool" where
  "refused_in_turn env us st u \<longleftrightarrow> (\<exists>us1 us2 st1 now e. us = us1 @ u # us2 \<and> applies env us1 st st1
     \<and> apply_sync_entry env now u st1 = (Inl e, st1))"

lemma refused_later: "apply_sync_entry env now v st = (r, st1) \<Longrightarrow> refused_in_turn env us st1 u \<Longrightarrow> refused_in_turn env (v # us) st u"
  unfolding refused_in_turn_def by (metis append_Cons applies_Cons)

lemma applies_effect:
  assumes "applies env us st st2" "edge_ok env st" "distinct (map su_mnemonic us)" "list_all (\<lambda>u. utf8_text (su_log u)) us"
  shows "(\<forall>m. m \<notin> su_mnemonic ` set us \<longrightarrow> rec_at (es_rows st2) m = rec_at (es_rows st) m)
    \<and> (\<forall>u \<in> set us. holds_update st2 u
        \<or> refused_in_turn env us st u \<and> rec_at (es_rows st2) (su_mnemonic u) = rec_at (es_rows st) (su_mnemonic u))"
  using assms
proof (induction rule: applies.induct)
  case (applies_Cons now u st r st1 us st2)
  have ok: "edge_ok env st1" using sync_step(1)[OF applies_Cons.prems(1) _ applies_Cons.hyps(1)] applies_Cons.prems(3) by simp
  have u: "su_mnemonic u \<notin> su_mnemonic ` set us" using applies_Cons.prems(2) by auto
  note e = entry_elsewhere[OF applies_Cons.hyps(1)]
  have ih: "\<forall>m. m \<notin> su_mnemonic ` set us \<longrightarrow> rec_at (es_rows st2) m = rec_at (es_rows st1) m"
    "\<forall>v \<in> set us. holds_update st2 v
      \<or> refused_in_turn env us st1 v \<and> rec_at (es_rows st2) (su_mnemonic v) = rec_at (es_rows st1) (su_mnemonic v)"
    using applies_Cons.IH[OF ok] applies_Cons.prems by simp_all
  have first: "holds_update st2 u
      \<or> refused_in_turn env (u # us) st u \<and> rec_at (es_rows st2) (su_mnemonic u) = rec_at (es_rows st) (su_mnemonic u)"
  proof (cases r)
    case (Inl x)
    then have "st1 = st" "apply_sync_entry env now u st = (Inl x, st)" using refused_unchanged applies_Cons.hyps(1) by auto
    then have "refused_in_turn env (u # us) st u" unfolding refused_in_turn_def using applies_Nil by (metis append_Nil)
    then show ?thesis using ih(1) u \<open>st1 = st\<close> by simp
  next
    case (Inr a)
    then have "holds_update st1 u" using entry_held applies_Cons.hyps(1) applies_Cons.prems(1) by blast
    then show ?thesis using ih(1) u by (simp add: holds_update_def)
  qed
  have rest: "holds_update st2 v
      \<or> refused_in_turn env (u # us) st v \<and> rec_at (es_rows st2) (su_mnemonic v) = rec_at (es_rows st) (su_mnemonic v)"
    if "v \<in> set us" for v
  proof -
    have "su_mnemonic v \<noteq> su_mnemonic u" using u that by (metis imageI)
    then show ?thesis using ih(2) that e refused_later[OF applies_Cons.hyps(1)] by metis
  qed
  show ?case using first rest ih(1) e by auto
qed simp

section \<open>A resync brings the edge into step\<close>

lemma due_update:
  assumes "rows_named rows" "rec_at rows m = Some r" "dr_version_count r \<noteq> 0" "slot_update env rows r = Some u"
    "\<not> edge_is_current r (map_of reported m)"
  shows "u \<in> set (resync_updates env reported rows)" "su_mnemonic u = m"
proof -
  have m: "dr_mnemonic r = m" using assms(1,2) by (simp add: rows_named_def)
  then have "r \<in> set (due_records reported rows)" using assms published_iff[OF assms(1), of r] by (simp add: due_records_def)
  then show "u \<in> set (resync_updates env reported rows)" using assms(4) by (auto simp: resync_updates_def set_map_filter)
  show "su_mnemonic u = m" using slot_updateD(1)[OF assms(4)] m by simp
qed

lemma resync_updateD:
  assumes "rows_named rows" "u \<in> set (resync_updates env reported rows)"
  obtains r where "rec_at rows (su_mnemonic u) = Some r" "dr_version_count r \<noteq> 0" "slot_update env rows r = Some u"
    "\<not> edge_is_current r (map_of reported (su_mnemonic u))"
  using assms(2) published_iff[OF assms(1)] slot_updateD(1)
  by (fastforce simp: resync_updates_def due_records_def set_map_filter)

lemma updates_sendable:
  assumes "schemas_agree pe oe" "rows_named rows" "u64_rows rows"
  shows "list_all (sendable oe) (resync_updates pe reported rows)"
  unfolding list_all_iff
proof
  fix u assume "u \<in> set (resync_updates pe reported rows)"
  then obtain r where r: "rec_at rows (su_mnemonic u) = Some r" "slot_update pe rows r = Some u" by (rule resync_updateD[OF assms(2)])
  note d = slot_updateD[OF r(2)]
  show "sendable oe u" using d(3,5,6) r(1) assms(1,3) by (auto simp: sendable_def schemas_agree_def u64_rows_def)
qed

text \<open>The messages of a resync, delivered in order, apply its updates and then its deletes.\<close>

lemma deliver_resync:
  assumes "schemas_agree pe oe" "rows_named rows" "u64_rows rows" "frames ds = resync_frames pe batch reported rows"
  shows "\<exists>st1. applies (oe_edge oe) (resync_updates pe reported rows) st st1
    \<and> (\<forall>n. rec_at (es_rows (deliver_all oe ds st)) n =
        (if n \<in> fst ` set reported - dr_mnemonic ` set (published_records rows) then None else rec_at (es_rows st1) n))"
proof -
  let ?us = "resync_updates pe reported rows"
  let ?ms = "filter (\<lambda>m. m \<notin> set (map dr_mnemonic (published_records rows))) (map fst reported)"
  note s = updates_sendable[OF assms(1-3), of reported]
  obtain d1 d2 where d: "ds = d1 @ d2" "frames d2 = map delete_frame ?ms"
    "frames d1 = (if batch then batch_frames pe (map sync_update_json ?us) [] 0 else map (Pair MSG_SYNC_UPDATE) (map sync_update_json ?us))"
    using assms(4) by (auto simp: resync_frames_def Let_def frames_append resync_bodies_updates)
  have a: "applies (oe_edge oe) ?us st (deliver_all oe d1 st)"
  proof (cases batch)
    case True
    obtain bss where b: "batch_frames pe (map sync_update_json ?us) [] 0 = map batch_frame bss" "concat bss = map sync_update_json ?us"
      using batch_frames_caps[of "[]" pe 0 "map sync_update_json ?us"] by auto
    obtain uss where u: "bss = map (map sync_update_json) uss" "concat uss = ?us" using concat_map_split[OF b(2)] by blast
    have "list_all (list_all (sendable oe)) uss" using s unfolding u(2)[symmetric] by (auto simp: list_all_iff)
    then show ?thesis using deliver_batches[OF assms(1), of d1 uss] d(3) True b(1) u by simp
  next
    case False
    then show ?thesis using deliver_updates[OF _ s, of d1] d(3) by simp
  qed
  have "\<forall>n. rec_at (es_rows (deliver_all oe ds st)) n =
      (if n \<in> fst ` set reported - dr_mnemonic ` set (published_records rows) then None else rec_at (es_rows (deliver_all oe d1 st)) n)"
    using deliver_deletes[OF assms(1) d(2)] by (auto simp: d(1))
  then show ?thesis using a by blast
qed

text \<open>The messages a resync appends for its target.\<close>

definition resync_queued :: "push_env \<Rightarrow> string \<Rightarrow> json \<Rightarrow> push_state \<Rightarrow> frame list" where
  "resync_queued pe t body ps = drop (length (frames_of (pu_outbox ps) t))
     (frames_of (pu_outbox (sync_all_dids_to_server pe t (parse_reported body) ps)) t)"

text \<open>C32: A registration brings the server into step. When the messages that the resync of a registering
  server queues for it - single updates or batches, then deletes - are applied in the order they are
  queued, every DID the control plane publishes is held by the server as the same DID, at no older
  version and with the same disabled state - unless the control plane has nothing it can send for
  the slot, or the server refused the update at its turn, and then the slot is as it was - and every
  slot the server publishes is one the control plane publishes: nothing it dropped is still served.\<close>

theorem resync_converges:
  assumes "(live_step renv)\<^sup>*\<^sup>* new_edge st" "oe_edge oe = re_edge renv" "schemas_agree pe oe"
    "\<forall>(denv, auth, t, op) \<in> set rqs. op_ok op" "pu_dids ps = ds_rows (did_run rqs no_dids)"
    "u64_rows (es_rows st)" "u64_rows (pu_dids ps)"
    "push_clock pe (pu_queued (sync_all_dids_to_server pe t (parse_reported (register_body url methods st)) ps))" "queued_before pe T ps" "targets_apart T" "t \<in> T"
    "frames ds = resync_queued pe t (register_body url methods st) ps"
  shows "(\<forall>m r. rec_at (pu_dids ps) m = Some r \<longrightarrow> dr_version_count r \<noteq> 0 \<longrightarrow>
      held_as (deliver_all oe ds st) r
      \<or> rec_at (es_rows (deliver_all oe ds st)) m = rec_at (es_rows st) m
        \<and> (slot_body pe (pu_dids ps) r = None
           \<or> (\<exists>u. slot_body pe (pu_dids ps) r = Some (sync_update_json u) \<and> su_mnemonic u = m
              \<and> refused_in_turn (oe_edge oe) (resync_updates pe (parse_reported (register_body url methods st)) (pu_dids ps)) st u)))
    \<and> (\<forall>m e. rec_at (es_rows (deliver_all oe ds st)) m = Some e \<longrightarrow> dr_version_count e \<noteq> 0 \<longrightarrow>
      (\<exists>r. rec_at (pu_dids ps) m = Some r \<and> dr_version_count r \<noteq> 0))"
proof -
  let ?rep = "parse_reported (register_body url methods st)" and ?rows = "pu_dids ps"
  let ?us = "resync_updates pe ?rep ?rows" and ?pub = "dr_mnemonic ` set (published_records ?rows)"
  have ok: "edge_ok (oe_edge oe) st" using live_run_ok[OF assms(1)] assms(2) by simp
  have ns: "rows_named (es_rows st)" by (rule edge_named[OF ok])
  have nr: "rows_named ?rows" using did_named[OF did_run_inv[OF no_dids_inv assms(4)]] assms(5) by simp
  have pub: "m \<in> ?pub \<longleftrightarrow> (\<exists>r. rec_at ?rows m = Some r \<and> dr_version_count r \<noteq> 0)" for m
    using nr published_iff[OF nr] by (auto simp: rows_named_def image_iff)
  have rep: "map_of ?rep m = (case rec_at (es_rows st) m of
      Some r \<Rightarrow> if dr_version_count r \<noteq> 0 then Some (report_of r) else None | None \<Rightarrow> None)" for m
    by (rule reported_at[OF ns assms(6)])
  define batch where "batch = (case get_instance (pu_registry ps) (instance_id_of t) of Inr (Some i) \<Rightarrow> si_sync_batch_capable i | _ \<Rightarrow> False)"
  let ?fs = "resync_frames pe batch ?rep ?rows"
  have sent: "sync_all_dids_to_server pe t ?rep ps = send_all pe t ?fs ps"
    unfolding sync_all_dids_to_server_def Let_def batch_def ..
  have n: "pu_queued ps + length ?fs \<le> pu_queued (sync_all_dids_to_server pe t ?rep ps)" unfolding sent sent_count ..
  have "frames ds = ?fs"
    unfolding assms(12) resync_queued_def using queue_sent[OF assms(8,10,11,9) n] unfolding sent by simp
  then obtain st1 where st1: "applies (oe_edge oe) ?us st st1"
    "\<And>n. rec_at (es_rows (deliver_all oe ds st)) n = (if n \<in> fst ` set ?rep - ?pub then None else rec_at (es_rows st1) n)"
    using deliver_resync[OF assms(3) nr assms(7), of ds batch ?rep st] by blast
  have "list_all (\<lambda>u. utf8_text (su_log u)) ?us"
    using updates_sendable[OF assms(3) nr assms(7)] by (auto simp: list_all_iff sendable_def)
  note e = applies_effect[OF st1(1) ok resync_distinct[OF nr] this]
  have named: "\<exists>r. rec_at ?rows m = Some r \<and> dr_version_count r \<noteq> 0 \<and> \<not> edge_is_current r (map_of ?rep m)"
    if "m \<in> su_mnemonic ` set ?us" for m
  proof -
    obtain u where u: "u \<in> set ?us" "m = su_mnemonic u" using \<open>m \<in> su_mnemonic ` set ?us\<close> by blast
    show ?thesis by (rule resync_updateD[OF nr u(1)]) (use u(2) in blast)
  qed
  have keep: "held_as (deliver_all oe ds st) r \<or> rec_at (es_rows (deliver_all oe ds st)) m = rec_at (es_rows st) m
      \<and> (slot_body pe ?rows r = None \<or> (\<exists>u. slot_body pe ?rows r = Some (sync_update_json u) \<and> su_mnemonic u = m
         \<and> refused_in_turn (oe_edge oe) ?us st u))"
    if r: "rec_at ?rows m = Some r" "dr_version_count r \<noteq> 0" for m r
  proof -
    have m: "dr_mnemonic r = m" using nr r(1) by (simp add: rows_named_def)
    have at: "rec_at (es_rows (deliver_all oe ds st)) m = rec_at (es_rows st1) m" using st1(2)[of m] pub[of m] r by auto
    show ?thesis
    proof (cases "edge_is_current r (map_of ?rep m)")
      case True
      then have "m \<notin> su_mnemonic ` set ?us" using named r(1) by fastforce
      then have "rec_at (es_rows (deliver_all oe ds st)) m = rec_at (es_rows st) m" using e at by simp
      then show ?thesis using True m unfolding rep
        by (auto simp: edge_is_current_def held_as_def report_of_def split: option.splits if_splits)
    next
      case False
      show ?thesis
      proof (cases "slot_update pe ?rows r")
        case None
        have "m \<notin> su_mnemonic ` set ?us"
        proof
          assume "m \<in> su_mnemonic ` set ?us"
          then obtain u where "u \<in> set ?us" "m = su_mnemonic u" by blast
          then show False using r(1) None by (auto elim: resync_updateD[OF nr])
        qed
        then show ?thesis using e at None by (simp add: slot_body_update)
      next
        case (Some u)
        note d = due_update[OF nr r Some False] and s = slot_updateD[OF Some]
        have "holds_update st1 u \<or> refused_in_turn (oe_edge oe) ?us st u \<and> rec_at (es_rows st1) m = rec_at (es_rows st) m"
          using e d by blast
        then show ?thesis
        proof
          assume "holds_update st1 u"
          then have "held_as (deliver_all oe ds st) r" using at d(2) s m by (auto simp: holds_update_def held_as_def)
          then show ?thesis ..
        next
          assume "refused_in_turn (oe_edge oe) ?us st u \<and> rec_at (es_rows st1) m = rec_at (es_rows st) m"
          then show ?thesis using at d(2) Some by (auto simp: slot_body_update)
        qed
      qed
    qed
  qed
  have only: "\<exists>r. rec_at ?rows m = Some r \<and> dr_version_count r \<noteq> 0"
    if q: "rec_at (es_rows (deliver_all oe ds st)) m = Some q" "dr_version_count q \<noteq> 0" for m q
  proof (rule ccontr)
    assume n: "\<not> ?thesis"
    then have o: "m \<notin> su_mnemonic ` set ?us" "m \<notin> ?pub" using named pub by blast+
    have g: "m \<notin> fst ` set ?rep" "rec_at (es_rows st1) m = Some q" using q(1) st1(2)[of m] o(2) by (auto split: if_splits)
    have "rec_at (es_rows st) m = Some q" using g(2) e o(1) by simp
    then have "map_of ?rep m \<noteq> None" using rep[of m] q(2) by simp
    then show False using g(1) by (simp add: map_of_eq_None_iff)
  qed
  show ?thesis using keep only by blast
qed

section \<open>A server one version behind\<close>

definition two_versions :: did_rows where
  "two_versions = ds_rows (did_run [(sample_env, sample_owner, 7, Register ''pp'' ''al'' False None),
     (sample_env, sample_owner, 8, Publish ''pp'' (''al'' @ [CHR 0x0A] @ ''bl'') None)] no_dids)"

definition push_sample :: push_env where
  "push_sample = \<lparr>pe_parse = (\<lambda>_. None), pe_show = (\<lambda>_. []), pe_fits = (\<lambda>_. True), pe_date = (\<lambda>_. []), pe_watchers = [],
     pe_seconds = (\<lambda>n. n), pe_micros = (\<lambda>n. n), pe_uuid = (\<lambda>_. ''u'')\<rparr>"

definition op_sample :: "(string, nat, string \<times> nat) op_env" where
  "op_sample = \<lparr>oe_edge = edge_sample, oe_fits = (\<lambda>_ _. True), oe_code = (\<lambda>_. []), oe_date = (\<lambda>_. []), oe_parse_date = (\<lambda>_. None)\<rparr>"

definition push_idle :: push_state where
  "push_idle = \<lparr>pu_registry = [], pu_dids = two_versions, pu_notified = [], pu_store = empty_domain_store, pu_outbox = [], pu_queued = 0\<rparr>"

definition resync_sample :: "frame list" where
  "resync_sample = resync_queued push_sample ''did:e'' (register_body None [] first_edge) push_idle"

definition resynced :: edge_state where
  "resynced = deliver_all op_sample (map (\<lambda>f. (\<lparr>vc_did = ''did:c'', vc_issued_at = 9\<rparr>, 9, f)) resync_sample) first_edge"

lemma u64_listed:
  "list_all (\<lambda>(k, v). case v of RecRow r \<Rightarrow> dr_version_count r < u64_lim | RawRow _ \<Rightarrow> True) rows \<Longrightarrow> u64_rows rows"
  unfolding u64_rows_def rec_at_def
  by (auto simp: list_all_iff ks_get_def split: option.splits did_row.splits dest!: map_of_SomeD)

theorem resync_converges_witness:
  "\<exists>r e. rec_at two_versions ''pp'' = Some r \<and> rec_at (es_rows resynced) ''pp'' = Some e
     \<and> dr_did_id e = dr_did_id r \<and> dr_version_count e = 2 \<and> map fst resync_sample = [MSG_SYNC_UPDATE]"
proof -
  let ?ds = "map (\<lambda>f. (\<lparr>vc_did = ''did:c'', vc_issued_at = 9\<rparr>, 9::nat, f)) resync_sample"
  have e: "oe_edge op_sample = re_edge resolve_sample" "frames ?ds = resync_sample" "schemas_agree push_sample op_sample"
    by (simp_all add: op_sample_def resolve_sample_def frames_def comp_def schemas_agree_def)
  have p: "pu_dids push_idle = two_versions" by (simp add: push_idle_def)
  have op: "\<forall>(denv, auth, t, op) \<in> set [(sample_env, sample_owner, 7, Register ''pp'' ''al'' False None),
     (sample_env, sample_owner, 8, Publish ''pp'' (''al'' @ [CHR 0x0A] @ ''bl'') None)]. op_ok op" by simp
  have one: "u64_rows (es_rows first_edge)" "u64_rows (pu_dids push_idle)"
    unfolding p by (rule u64_listed, code_simp)+
  have "pu_queued (sync_all_dids_to_server push_sample ''did:e'' (parse_reported (register_body None [] first_edge)) push_idle) = 1"
    by code_simp
  then have q: "push_clock push_sample (pu_queued (sync_all_dids_to_server push_sample ''did:e'' (parse_reported (register_body None [] first_edge)) push_idle))"
    "queued_before push_sample {''did:e''} push_idle" "targets_apart {''did:e''}"
    by (simp_all add: push_clock_def push_sample_def queued_before_def push_idle_def targets_apart_def ks_simps)
  have "map_option (\<lambda>r. (dr_mnemonic r, dr_version_count r)) (rec_at two_versions ''pp'') = Some (''pp'', 2)"
    "map_option dr_version_count (rec_at (es_rows resynced) ''pp'') = Some 2"
    "map_option dr_version_count (rec_at (es_rows first_edge) ''pp'') = Some 1"
    "map fst resync_sample = [MSG_SYNC_UPDATE]"
    by code_simp+
  then obtain r e x where r: "rec_at two_versions ''pp'' = Some r" "dr_mnemonic r = ''pp''" "dr_version_count r = 2"
    and d: "rec_at (es_rows resynced) ''pp'' = Some e" "dr_version_count e = 2"
    and b: "rec_at (es_rows first_edge) ''pp'' = Some x" "dr_version_count x = 1" and f: "map fst resync_sample = [MSG_SYNC_UPDATE]"
    by auto
  have c: "\<forall>m r. rec_at (pu_dids push_idle) m = Some r \<longrightarrow> dr_version_count r \<noteq> 0 \<longrightarrow>
      held_as resynced r \<or> rec_at (es_rows resynced) m = rec_at (es_rows first_edge) m"
    using resync_converges[OF first_edge_run e(1,3) op p[unfolded two_versions_def] one q singletonI e(2)[unfolded resync_sample_def]]
    unfolding resynced_def[unfolded resync_sample_def, symmetric] by blast
  have "rec_at (es_rows resynced) ''pp'' \<noteq> rec_at (es_rows first_edge) ''pp''" using b d by auto
  then have "held_as resynced r" using c[unfolded p, rule_format, OF r(1)] r(3) by simp
  then show ?thesis using r d f by (auto simp: held_as_def)
qed

end
