(* ===== verification/Directives.thy ===== *)
theory Directives
  imports Replicate
begin

text \<open>
  What re-sending the standing domain directives achieves: the latest directive of each domain, which the
  control plane keeps per server (record_domain_intent in did-hosting-control/src/server_push.rs), is
  carried out by the edge that gets them again at a registration, whatever it did before.
\<close>

definition assigned :: "edge_state \<Rightarrow> string \<Rightarrow> bool" where
  "assigned st d \<longleftrightarrow> ks_get (es_assignments st) (assignment_key d) \<noteq> None"

text \<open>A directive about d was carried out between the two states, or nothing was done about d.\<close>

definition carried_out :: "domain_op \<Rightarrow> string \<Rightarrow> edge_state \<Rightarrow> edge_state \<Rightarrow> bool" where
  "carried_out op d st st' \<longleftrightarrow> (assigned st' d \<longleftrightarrow> op = OpAssign)
     \<and> (op = OpAssign \<longrightarrow> pp_get d (es_purges st') = None)
     \<and> (op = OpUnassign \<and> assigned st d \<longrightarrow> pp_get d (es_purges st') \<noteq> None)
     \<and> (\<forall>m r. dr_domain r = d \<longrightarrow> (rec_at (es_rows st') m = Some r \<longleftrightarrow> op \<noteq> OpPurge \<and> rec_at (es_rows st) m = Some r))"

definition untouched :: "string \<Rightarrow> edge_state \<Rightarrow> edge_state \<Rightarrow> bool" where
  "untouched d st st' \<longleftrightarrow> ks_get (es_assignments st') (assignment_key d) = ks_get (es_assignments st) (assignment_key d)
     \<and> pp_get d (es_purges st') = pp_get d (es_purges st)
     \<and> (\<forall>m r. dr_domain r = d \<longrightarrow> (rec_at (es_rows st') m = Some r \<longleftrightarrow> rec_at (es_rows st) m = Some r))"

lemma untouched_refl [simp]: "untouched d st st"
  by (simp add: untouched_def)

lemma untouched_trans: "untouched d a b \<Longrightarrow> untouched d b c \<Longrightarrow> untouched d a c"
  by (simp add: untouched_def)

lemma carried_later: "untouched d a b \<Longrightarrow> carried_out op d b c \<Longrightarrow> carried_out op d a c"
  by (simp add: untouched_def carried_out_def assigned_def)

lemma carried_earlier: "carried_out op d a b \<Longrightarrow> untouched d b c \<Longrightarrow> carried_out op d a c"
  by (simp add: untouched_def carried_out_def assigned_def)

section \<open>One directive\<close>

lemma assign_effect:
  assumes "canonical_domain env d = Inr d"
  shows "carried_out OpAssign d st (snd (do_domain_assign env c now d st))"
    "e \<noteq> d \<Longrightarrow> untouched e st (snd (do_domain_assign env c now d st))"
    "es_rows (snd (do_domain_assign env c now d st)) = es_rows st" "es_hw_ids (snd (do_domain_assign env c now d st)) = es_hw_ids st"
  using assms by (simp_all add: do_domain_assign_def carried_out_def untouched_def assigned_def record_assignment_def Let_def
      pp_get_def pp_cancel_rows ks_simps)

lemma unassign_effect:
  assumes "canonical_domain env d = Inr d"
  shows "carried_out OpUnassign d st (snd (do_domain_unassign env c now d st))"
    "e \<noteq> d \<Longrightarrow> untouched e st (snd (do_domain_unassign env c now d st))"
    "es_rows (snd (do_domain_unassign env c now d st)) = es_rows st" "es_hw_ids (snd (do_domain_unassign env c now d st)) = es_hw_ids st"
  using assms by (cases "ks_get (es_assignments st) (assignment_key d)";
      simp add: do_domain_unassign_def unassign_def carried_out_def untouched_def assigned_def pp_get_def pp_schedule_rows ks_simps)+

lemma purge_effect:
  assumes "canonical_domain env d = Inr d" "\<not> assigned st d" "edge_ok env st"
  shows "carried_out OpPurge d st (snd (do_domain_purge env t d st))"
    "e \<noteq> d \<Longrightarrow> untouched e st (snd (do_domain_purge env t d st))"
    "edge_ok env (snd (do_domain_purge env t d st))"
proof -
  let ?st = "snd (do_domain_purge env t d st)"
  obtain rep rows where p: "purge_domain_dids env d (es_rows st) = (rep, rows)" by force
  have st: "es_rows ?st = rows" "es_hw_ids ?st = es_hw_ids st" "es_assignments ?st = es_assignments st"
    "es_purges ?st = snd (pp_cancel d (es_purges st))"
    using assms(1,2) p by (simp_all add: do_domain_purge_def assigned_def)
  have r: "rec_at rows m = (case rec_at (es_rows st) m of Some r \<Rightarrow> if dr_domain r = d then None else Some r | None \<Rightarrow> None)" for m
    using purge_slots[OF assms(3), of d m] canonical_not_Nil[OF assms(1)] p by simp
  show "carried_out OpPurge d st ?st"
    using assms(2) by (auto simp: carried_out_def assigned_def st r split: option.splits if_splits)
  show "untouched e st ?st" if "e \<noteq> d"
    using that by (auto simp: untouched_def st r pp_get_def pp_cancel_rows split: option.splits if_splits)
  show "edge_ok env ?st"
    using nothing_new_ok[OF assms(3), of ?st] purge_nothing_new[of "es_rows st" env d] p st by simp
qed

lemma edge_ok_rows: "edge_ok env st \<Longrightarrow> es_rows st' = es_rows st \<Longrightarrow> es_hw_ids st' = es_hw_ids st \<Longrightarrow> edge_ok env st'"
  by (rule nothing_new_ok) simp_all

section \<open>The messages of one intent\<close>

lemma domain_body_read: "get_str ''domain'' (domain_body d) = Some d"
  by (simp add: domain_body_def get_str_def wire json_str_def)

lemma dispatch_directive:
  assumes "schemas_agree pe oe"
  shows "snd (dispatch_op oe vc now (MSG_REPLICA_DOMAIN_ASSIGN, domain_body d) st) = snd (do_domain_assign (oe_edge oe) (vc_did vc) now d st)"
    "snd (dispatch_op oe vc now (MSG_REPLICA_DOMAIN_UNASSIGN, domain_body d) st) = snd (do_domain_unassign (oe_edge oe) (vc_did vc) now d st)"
    "snd (dispatch_op oe vc now (MSG_REPLICA_DOMAIN_PURGE, domain_body d) st) = snd (do_domain_purge (oe_edge oe) (vc_issued_at vc) d st)"
proof -
  have f: "directive_domain oe uri (domain_body d) = Some d" if "oe_fits oe uri (domain_body d)" for uri
    using that by (simp add: directive_domain_def domain_body_read)
  note g = assms[unfolded schemas_agree_def, THEN conjunct2, THEN conjunct2, THEN conjunct2, rule_format, of d]
  have d: "MSG_REPLICA_DOMAIN_ASSIGN \<noteq> MSG_SYNC_UPDATE" "MSG_REPLICA_DOMAIN_ASSIGN \<noteq> MSG_SYNC_BATCH" "MSG_REPLICA_DOMAIN_ASSIGN \<noteq> MSG_SYNC_DELETE"
    "MSG_REPLICA_DOMAIN_UNASSIGN \<noteq> MSG_SYNC_UPDATE" "MSG_REPLICA_DOMAIN_UNASSIGN \<noteq> MSG_SYNC_BATCH" "MSG_REPLICA_DOMAIN_UNASSIGN \<noteq> MSG_SYNC_DELETE"
    "MSG_REPLICA_DOMAIN_UNASSIGN \<noteq> MSG_REPLICA_DOMAIN_ASSIGN" "MSG_REPLICA_DOMAIN_PURGE \<noteq> MSG_SYNC_UPDATE"
    "MSG_REPLICA_DOMAIN_PURGE \<noteq> MSG_SYNC_BATCH" "MSG_REPLICA_DOMAIN_PURGE \<noteq> MSG_SYNC_DELETE"
    "MSG_REPLICA_DOMAIN_PURGE \<noteq> MSG_REPLICA_DOMAIN_ASSIGN" "MSG_REPLICA_DOMAIN_PURGE \<noteq> MSG_REPLICA_DOMAIN_UNASSIGN"
    using uris_differ by simp_all
  show "snd (dispatch_op oe vc now (MSG_REPLICA_DOMAIN_ASSIGN, domain_body d) st) = snd (do_domain_assign (oe_edge oe) (vc_did vc) now d st)"
    using g by (auto simp: dispatch_op_def op_domain_assign_def f d split: prod.splits sum.splits)
  show "snd (dispatch_op oe vc now (MSG_REPLICA_DOMAIN_UNASSIGN, domain_body d) st) = snd (do_domain_unassign (oe_edge oe) (vc_did vc) now d st)"
    using g by (auto simp: dispatch_op_def op_domain_unassign_def f d split: prod.splits sum.splits)
  show "snd (dispatch_op oe vc now (MSG_REPLICA_DOMAIN_PURGE, domain_body d) st) = snd (do_domain_purge (oe_edge oe) (vc_issued_at vc) d st)"
    using g by (auto simp: dispatch_op_def op_domain_purge_def f d split: prod.splits sum.splits)
qed

lemma deliver_intent:
  assumes "schemas_agree pe oe" "edge_ok (oe_edge oe) st" "canonical_domain (oe_edge oe) (di_domain i) = Inr (di_domain i)"
    "frames ds = intent_frames i"
  shows "carried_out (di_op i) (di_domain i) st (deliver_all oe ds st)"
    "e \<noteq> di_domain i \<Longrightarrow> untouched e st (deliver_all oe ds st)" "edge_ok (oe_edge oe) (deliver_all oe ds st)"
proof -
  let ?d = "di_domain i" and ?env = "oe_edge oe"
  note q = dispatch_directive[OF assms(1)]
  have "carried_out (di_op i) ?d st (deliver_all oe ds st) \<and> (\<forall>e. e \<noteq> ?d \<longrightarrow> untouched e st (deliver_all oe ds st))
      \<and> edge_ok ?env (deliver_all oe ds st)"
  proof (cases "di_op i")
    case OpAssign
    then obtain vc now where "ds = [(vc, now, MSG_REPLICA_DOMAIN_ASSIGN, domain_body ?d)]"
      using assms(4) by (auto simp: intent_frames_def frames_def)
    then show ?thesis using assign_effect[OF assms(3), where st = st] edge_ok_rows[OF assms(2)] OpAssign by (simp add: q)
  next
    case OpUnassign
    then obtain vc now where "ds = [(vc, now, MSG_REPLICA_DOMAIN_UNASSIGN, domain_body ?d)]"
      using assms(4) by (auto simp: intent_frames_def frames_def)
    then show ?thesis using unassign_effect[OF assms(3), where st = st] edge_ok_rows[OF assms(2)] OpUnassign by (simp add: q)
  next
    case OpPurge
    then obtain vc1 t1 vc2 t2 where ds: "ds = [(vc1, t1, MSG_REPLICA_DOMAIN_UNASSIGN, domain_body ?d), (vc2, t2, MSG_REPLICA_DOMAIN_PURGE, domain_body ?d)]"
      using assms(4) by (auto simp: intent_frames_def frames_def)
    let ?st = "snd (do_domain_unassign ?env (vc_did vc1) t1 ?d st)"
    note u = unassign_effect[OF assms(3), where st = st and c = "vc_did vc1" and now = t1]
    have n: "\<not> assigned ?st ?d" using u(1) by (simp add: carried_out_def)
    note p = purge_effect[OF assms(3) n edge_ok_rows[OF assms(2) u(3,4)], where t = "vc_issued_at vc2"]
    have "carried_out OpPurge ?d st (snd (do_domain_purge ?env (vc_issued_at vc2) ?d ?st))"
      using p(1) by (simp add: carried_out_def)
    then show ?thesis using u(2) p(2,3) untouched_trans OpPurge by (simp add: ds q) blast
  qed
  then show "carried_out (di_op i) ?d st (deliver_all oe ds st)" "e \<noteq> ?d \<Longrightarrow> untouched e st (deliver_all oe ds st)"
    "edge_ok ?env (deliver_all oe ds st)" by blast+
qed

lemma deliver_intents:
  assumes "schemas_agree pe oe"
  shows "edge_ok (oe_edge oe) st \<Longrightarrow> distinct (map di_domain is) \<Longrightarrow>
    \<forall>i \<in> set is. canonical_domain (oe_edge oe) (di_domain i) = Inr (di_domain i) \<Longrightarrow> frames ds = concat (map intent_frames is) \<Longrightarrow>
    (\<forall>i \<in> set is. carried_out (di_op i) (di_domain i) st (deliver_all oe ds st))
    \<and> (\<forall>e. e \<notin> di_domain ` set is \<longrightarrow> untouched e st (deliver_all oe ds st))"
proof (induction "is" arbitrary: ds st)
  case Nil
  then show ?case by (simp add: frames_def)
next
  case (Cons i "is")
  then obtain d1 d2 where d: "ds = d1 @ d2" "frames d1 = intent_frames i" "frames d2 = concat (map intent_frames is)"
    by (auto simp: frames_append)
  have "canonical_domain (oe_edge oe) (di_domain i) = Inr (di_domain i)" using Cons.prems(3) by simp
  note f = deliver_intent[OF assms Cons.prems(1) this d(2)]
  have ih: "\<forall>j \<in> set is. carried_out (di_op j) (di_domain j) (deliver_all oe d1 st) (deliver_all oe ds st)"
    "\<forall>e. e \<notin> di_domain ` set is \<longrightarrow> untouched e (deliver_all oe d1 st) (deliver_all oe ds st)"
    using Cons.IH[OF f(3) _ _ d(3)] Cons.prems(2,3) by (simp_all add: d(1))
  have i: "di_domain i \<notin> di_domain ` set is" using Cons.prems(2) by simp
  have "carried_out (di_op j) (di_domain j) st (deliver_all oe ds st)" if "j \<in> set is" for j
  proof -
    have "di_domain j \<noteq> di_domain i" using i that by (metis imageI)
    then show ?thesis using carried_later[OF f(2)] ih(1) that by blast
  qed
  moreover have "carried_out (di_op i) (di_domain i) st (deliver_all oe ds st)" using carried_earlier[OF f(1)] ih(2) i by blast
  moreover have "untouched e st (deliver_all oe ds st)" if "e \<notin> di_domain ` set (i # is)" for e
    using untouched_trans[OF f(2)] ih(2) that by simp
  ultimately show ?case by simp
qed

text \<open>C33: A registration restores the domain directives. When the messages in which the control plane
  re-sends the standing directives of a server are applied in order - by an edge in whatever state, in
  particular one that missed the originals - then every domain with a standing directive ends as its
  latest one says: assigned with no purge pending, unassigned with the purge scheduled if it had been
  assigned, or unassigned with none of its slots left; and every other domain's assignment, pending
  purge and slots are as they were.\<close>

theorem directives_converge:
  assumes "(edge_op (oe_edge oe))\<^sup>*\<^sup>* new_edge st" "schemas_agree pe oe"
    "registry_run renv s D" "CHR ''|'' \<notin> set t"
    "\<forall>i \<in> set (domain_intents s t). canonical_domain (oe_edge oe) (di_domain i) = Inr (di_domain i)"
    "frames ds = concat (map intent_frames (domain_intents s t))"
  shows "case intent_at s t d of
      Some i \<Rightarrow> carried_out (di_op i) d st (deliver_all oe ds st)
    | None \<Rightarrow> untouched d st (deliver_all oe ds st)"
proof -
  have ok: "registry_ok s" using registry_run_admits[OF assms(3)] by (simp add: all_admitted_def)
  note e = deliver_intents[OF assms(2) edge_ops_ok(1)[OF assms(1)] intents_distinct[OF ok assms(4)] assms(5,6)]
  show ?thesis
  proof (cases "intent_at s t d")
    case None
    have "d \<notin> di_domain ` set (domain_intents s t)" using intents_listed[OF ok assms(4)] None by auto
    then show ?thesis using e None by simp
  next
    case (Some i)
    have "di_domain i = d" by (rule intent_domain[OF ok assms(4) Some])
    then show ?thesis using e intents_listed[OF ok assms(4), of i] Some by auto
  qed
qed

section \<open>A server that missed an unassignment and a purge\<close>

text \<open>The control plane purged a.org at the server, which still serves it.\<close>

definition purge_noted :: Registry.registry where
  "purge_noted = record_domain_intent 5 ''did:e'' ''a.org'' OpPurge []"

definition resent :: "(verified_control_plane \<times> nat \<times> frame) list" where
  "resent = map (\<lambda>f. (\<lparr>vc_did = ''c'', vc_issued_at = 40\<rparr>, 40, f)) (concat (map intent_frames (domain_intents purge_noted ''did:e'')))"

theorem directives_converge_witness:
  "assigned returned_edge ''a.org'' \<and> rec_at (es_rows returned_edge) ''p'' \<noteq> None
    \<and> \<not> assigned (deliver_all op_sample resent returned_edge) ''a.org''
    \<and> rec_at (es_rows (deliver_all op_sample resent returned_edge)) ''p'' = None"
proof -
  have r: "registry_run registry_sample purge_noted {}"
    unfolding purge_noted_def by (rule Directive[OF NoInstances]) simp
  have o: "oe_edge op_sample = edge_sample" "schemas_agree push_sample op_sample" by (simp_all add: op_sample_def schemas_agree_def)
  have "edge_op edge_sample leaving_edge returned_edge" unfolding returned_edge_def by (metis edge_op.AssignOp prod.collapse)
  then have e: "(edge_op (oe_edge op_sample))\<^sup>*\<^sup>* new_edge returned_edge" unfolding o(1) using leaving_run by simp
  have c: "\<forall>i \<in> set (domain_intents purge_noted ''did:e''). canonical_domain (oe_edge op_sample) (di_domain i) = Inr (di_domain i)"
    unfolding o(1) by code_simp
  have f: "frames resent = concat (map intent_frames (domain_intents purge_noted ''did:e''))" by (simp add: resent_def frames_def comp_def)
  have t: "CHR ''|'' \<notin> set ''did:e''" by simp
  note dc = directives_converge[OF e o(2) r t c f]
  have n: "map_option di_op (intent_at purge_noted ''did:e'' ''a.org'') = Some OpPurge"
    "map_option as_assigned_at (ks_get (es_assignments returned_edge) (assignment_key ''a.org'')) = Some 30"
    "map_option dr_domain (rec_at (es_rows returned_edge) ''p'') = Some ''a.org''"
    by code_simp+
  then have g: "carried_out OpPurge ''a.org'' returned_edge (deliver_all op_sample resent returned_edge)"
    using dc[of "''a.org''"] by auto
  have "rec_at (es_rows (deliver_all op_sample resent returned_edge)) ''p'' \<noteq> Some r" for r
  proof
    assume k: "rec_at (es_rows (deliver_all op_sample resent returned_edge)) ''p'' = Some r"
    then have d: "dr_domain r \<noteq> ''a.org''" using g by (auto simp: carried_out_def)
    then have "intent_at purge_noted ''did:e'' (dr_domain r) = None" by (simp add: purge_noted_def intent_recorded) (simp add: intent_at_def)
    then have "rec_at (es_rows returned_edge) ''p'' = Some r" using dc[of "dr_domain r"] k by (simp add: untouched_def)
    then show False using n(3) d by simp
  qed
  moreover have "\<not> assigned (deliver_all op_sample resent returned_edge) ''a.org''" using g by (simp add: carried_out_def)
  moreover have "assigned returned_edge ''a.org''" using n(2) by (auto simp: assigned_def)
  ultimately show ?thesis using n(3) by auto
qed

end
