(* ===== verification/ReplayCache.thy ===== *)
theory ReplayCache
  imports Prelude "HOL-Library.AList"
begin

text \<open>
  The memory of accepted documents (did-hosting-common/src/server/replay.rs): (signer, id) pairs with the
  second they were recorded, in a map and in a queue of insertion order, with a count per signer. The
  two hash maps are association lists. Each call is one critical section.
\<close>

section \<open>Windows and bounds\<close>

definition FRESHNESS_WINDOW_SECS :: nat where "FRESHNESS_WINDOW_SECS = 300"
definition FUTURE_SKEW_SECS :: nat where "FUTURE_SKEW_SECS = 60"
definition REPLAY_WINDOW_SECS :: nat where "REPLAY_WINDOW_SECS = FRESHNESS_WINDOW_SECS + FUTURE_SKEW_SECS"
definition MAX_ENTRIES :: nat where "MAX_ENTRIES = 50000"
definition MAX_ENTRIES_PER_SIGNER :: nat where "MAX_ENTRIES_PER_SIGNER = 5000"

section \<open>The cache\<close>

datatype replay_error = Duplicate | Full

definition replay_app_error :: "replay_error \<Rightarrow> app_error" where
  "replay_app_error e = (case e of
     Duplicate \<Rightarrow> Validation OtherValidation | Full \<Rightarrow> Internal)"

type_synonym replay_key = "string \<times> string"

record replay_cache =
  rc_seen :: "(replay_key \<times> nat) list"
  rc_order :: "(nat \<times> replay_key) list"
  rc_per_signer :: "(string \<times> nat) list"

definition new_replay_cache :: replay_cache where
  "new_replay_cache = \<lparr>rc_seen = [], rc_order = [], rc_per_signer = []\<rparr>"

text \<open>Dropping the record at the front: from the map, and off its signer's count, which goes at zero. The
  subtraction would panic at zero; no count in a cache is zero.\<close>

definition forget_record :: "replay_key \<Rightarrow> replay_cache \<Rightarrow> replay_cache" where
  "forget_record key c = c\<lparr>rc_seen := AList.delete key (rc_seen c),
     rc_per_signer := (case map_of (rc_per_signer c) (fst key) of
         None \<Rightarrow> rc_per_signer c
       | Some n \<Rightarrow> if n - 1 = 0 then AList.delete (fst key) (rc_per_signer c)
                    else AList.update (fst key) (n - 1) (rc_per_signer c))\<rparr>"

fun expire_from :: "nat \<Rightarrow> (nat \<times> replay_key) list \<Rightarrow> replay_cache \<Rightarrow> replay_cache" where
  "expire_from now [] c = c\<lparr>rc_order := []\<rparr>"
| "expire_from now ((at, key) # order) c =
    (if now - at \<le> REPLAY_WINDOW_SECS then c\<lparr>rc_order := (at, key) # order\<rparr>
     else expire_from now order (forget_record key c))"

definition expire :: "nat \<Rightarrow> replay_cache \<Rightarrow> replay_cache" where
  "expire now c = expire_from now (rc_order c) c"

definition signer_count :: "replay_cache \<Rightarrow> string \<Rightarrow> nat" where
  "signer_count c s = (case map_of (rc_per_signer c) s of Some n \<Rightarrow> n | None \<Rightarrow> 0)"

definition check_at :: "string \<Rightarrow> string \<Rightarrow> nat \<Rightarrow> replay_cache \<Rightarrow> (replay_error + unit) \<times> replay_cache" where
  "check_at signer i now c0 = (let c = expire now c0; key = (signer, i) in
     if map_of (rc_seen c) key \<noteq> None then (Inl Duplicate, c)
     else if MAX_ENTRIES \<le> length (rc_seen c) \<or> MAX_ENTRIES_PER_SIGNER \<le> signer_count c signer then (Inl Full, c)
     else (Inr (), c\<lparr>rc_seen := AList.update key now (rc_seen c), rc_order := rc_order c @ [(now, key)],
        rc_per_signer := AList.update signer (signer_count c signer + 1) (rc_per_signer c)\<rparr>))"

definition check_and_insert :: "string \<Rightarrow> string \<Rightarrow> nat \<Rightarrow> replay_cache \<Rightarrow> unit res \<times> replay_cache" where
  "check_and_insert signer i now c = (case check_at signer i now c of
     (Inl e, c') \<Rightarrow> (Inl (replay_app_error e), c') | (Inr u, c') \<Rightarrow> (Inr u, c'))"

section \<open>The three structures agree\<close>

definition recorded :: "string \<Rightarrow> (nat \<times> replay_key) list \<Rightarrow> nat" where
  "recorded s order = length (filter (\<lambda>(_, key). fst key = s) order)"

definition replay_ok :: "replay_cache \<Rightarrow> bool" where
  "replay_ok c \<longleftrightarrow> distinct (map snd (rc_order c)) \<and> distinct (map fst (rc_seen c)) \<and> distinct (map fst (rc_per_signer c))
     \<and> (\<forall>key at. map_of (rc_seen c) key = Some at \<longleftrightarrow> (at, key) \<in> set (rc_order c))
     \<and> (\<forall>s. signer_count c s = recorded s (rc_order c)) \<and> (\<forall>s. map_of (rc_per_signer c) s \<noteq> Some 0)"

lemma recorded_simps [simp]:
  "recorded s [] = 0" "recorded s ((at, key) # order) = (if fst key = s then 1 else 0) + recorded s order"
  "recorded s (order @ order') = recorded s order + recorded s order'"
  by (simp_all add: recorded_def)

lemma new_replay_ok: "replay_ok new_replay_cache"
  by (simp add: replay_ok_def new_replay_cache_def signer_count_def)

lemma forget_ok:
  assumes "replay_ok (c\<lparr>rc_order := (at, key) # order\<rparr>)"
  shows "replay_ok ((forget_record key c)\<lparr>rc_order := order\<rparr>)"
proof -
  let ?c = "c\<lparr>rc_order := (at, key) # order\<rparr>" and ?d = "(forget_record key c)\<lparr>rc_order := order\<rparr>"
  have a: "distinct (map snd order)" "key \<notin> snd ` set order" "distinct (map fst (rc_seen c))" "distinct (map fst (rc_per_signer c))"
    "\<And>k t. map_of (rc_seen c) k = Some t \<longleftrightarrow> (t, k) = (at, key) \<or> (t, k) \<in> set order"
    "\<And>s. signer_count ?c s = (if fst key = s then 1 else 0) + recorded s order" "\<And>s. map_of (rc_per_signer c) s \<noteq> Some 0"
    using assms by (auto simp: replay_ok_def)
  have n: "\<exists>n. map_of (rc_per_signer c) (fst key) = Some (Suc n)"
    using a(6)[of "fst key"] by (cases "map_of (rc_per_signer c) (fst key)") (simp_all add: signer_count_def)
  then obtain n where n: "map_of (rc_per_signer c) (fst key) = Some (Suc n)" by blast
  have seen: "map_of (rc_seen ?d) k = Some t \<longleftrightarrow> (t, k) \<in> set order" for k t
    using a(2) a(5)[of k t] by (auto simp: forget_record_def delete_conv' image_iff)
  have count: "signer_count ?d s = recorded s order" for s
    using a(6)[of s] n by (auto simp: forget_record_def signer_count_def delete_conv' update_conv' split: if_splits)
  have zero: "map_of (rc_per_signer ?d) s \<noteq> Some 0" for s
    using a(7)[of s] n by (auto simp: forget_record_def delete_conv' update_conv')
  show ?thesis
    unfolding replay_ok_def using seen count zero a(1,3,4) n
    by (simp add: forget_record_def distinct_delete distinct_update)
qed

lemma expire_ok: "replay_ok (c\<lparr>rc_order := order\<rparr>) \<Longrightarrow> replay_ok (expire_from now order c)"
proof (induction now order c rule: expire_from.induct)
  case (2 now at key order c)
  then show ?case using forget_ok by (cases "now - at \<le> REPLAY_WINDOW_SECS") simp_all
qed simp

lemma insert_replay_ok:
  assumes "replay_ok c" "map_of (rc_seen c) key = None"
  shows "replay_ok (c\<lparr>rc_seen := AList.update key now (rc_seen c), rc_order := rc_order c @ [(now, key)],
     rc_per_signer := AList.update (fst key) (signer_count c (fst key) + 1) (rc_per_signer c)\<rparr>)" (is "replay_ok ?d")
proof -
  have a: "distinct (map snd (rc_order c))" "distinct (map fst (rc_seen c))" "distinct (map fst (rc_per_signer c))"
    "\<And>k t. map_of (rc_seen c) k = Some t \<longleftrightarrow> (t, k) \<in> set (rc_order c)"
    "\<And>s. signer_count c s = recorded s (rc_order c)" "\<And>s. map_of (rc_per_signer c) s \<noteq> Some 0"
    using assms(1) by (auto simp: replay_ok_def)
  have n: "key \<notin> snd ` set (rc_order c)" using a(4)[of key] assms(2) by (metis (no_types, lifting) imageE option.distinct(1) prod.collapse)
  have seen: "map_of (rc_seen ?d) k = Some t \<longleftrightarrow> (t, k) \<in> set (rc_order ?d)" for k t
    using a(4)[of k t] n by (auto simp: update_conv' image_iff)
  have count: "signer_count ?d s = recorded s (rc_order ?d)" for s
    using a(5)[of s] by (auto simp: signer_count_def update_conv')
  have zero: "map_of (rc_per_signer ?d) s \<noteq> Some 0" for s
    using a(6)[of s] by (auto simp: update_conv')
  show ?thesis unfolding replay_ok_def using seen count zero a(1,2,3) n by (simp add: distinct_update)
qed

lemma check_ok: "replay_ok c \<Longrightarrow> replay_ok (snd (check_at signer i now c))"
proof -
  assume c: "replay_ok c"
  have "replay_ok (expire now c)" using expire_ok[where c = c and order = "rc_order c"] c by (simp add: expire_def)
  then show ?thesis using insert_replay_ok[where key = "(signer, i)"] by (simp add: check_at_def Let_def)
qed

section \<open>A record is kept for its window\<close>

lemma expire_keeps: "(at, key) \<in> set order \<Longrightarrow> now - at \<le> REPLAY_WINDOW_SECS \<Longrightarrow> (at, key) \<in> set (rc_order (expire_from now order c))"
  by (induction now order c rule: expire_from.induct) auto

lemma check_keeps:
  "(at, key) \<in> set (rc_order c) \<Longrightarrow> now - at \<le> REPLAY_WINDOW_SECS \<Longrightarrow> (at, key) \<in> set (rc_order (snd (check_at signer i now c)))"
  using expire_keeps[where order = "rc_order c" and c = c] by (auto simp: check_at_def Let_def expire_def)

lemma check_records: "check_at signer i now c = (Inr (), c') \<Longrightarrow> (now, (signer, i)) \<in> set (rc_order c')"
  by (auto simp: check_at_def Let_def split: if_splits)

lemma check_refuses:
  assumes "replay_ok c" "(at, (signer, i)) \<in> set (rc_order c)" "now - at \<le> REPLAY_WINDOW_SECS"
  shows "fst (check_at signer i now c) = Inl Duplicate"
proof -
  have "(at, (signer, i)) \<in> set (rc_order (expire now c))" using expire_keeps[OF assms(2,3)] by (simp add: expire_def)
  moreover have "replay_ok (expire now c)" using expire_ok[where c = c and order = "rc_order c"] assms(1) by (simp add: expire_def)
  ultimately have "map_of (rc_seen (expire now c)) (signer, i) = Some at" by (simp add: replay_ok_def)
  then show ?thesis by (simp add: check_at_def Let_def)
qed

section \<open>Nothing is forgotten to make room\<close>

definition within_bounds :: "replay_cache \<Rightarrow> bool" where
  "within_bounds c \<longleftrightarrow> length (rc_seen c) \<le> MAX_ENTRIES \<and> (\<forall>s. signer_count c s \<le> MAX_ENTRIES_PER_SIGNER)"

lemma forget_bounds: "within_bounds c \<Longrightarrow> within_bounds ((forget_record key c)\<lparr>rc_order := order\<rparr>)"
proof -
  assume b: "within_bounds c"
  let ?d = "(forget_record key c)\<lparr>rc_order := order\<rparr>"
  have "length (rc_seen ?d) \<le> length (rc_seen c)" by (simp add: forget_record_def length_delete_le)
  moreover have "signer_count ?d s \<le> signer_count c s" for s
    by (cases "map_of (rc_per_signer c) (fst key)")
      (auto simp: signer_count_def forget_record_def delete_conv' update_conv')
  ultimately show ?thesis using b unfolding within_bounds_def by (meson le_trans)
qed

lemma expire_bounds: "within_bounds c \<Longrightarrow> within_bounds (expire_from now order c)"
proof (induction now order c rule: expire_from.induct)
  case (2 now at key order c)
  have "within_bounds (forget_record key c)" using forget_bounds[OF 2(2), where key = key and order = "rc_order (forget_record key c)"] by simp
  then show ?case using 2 by (simp add: within_bounds_def signer_count_def)
qed (simp add: within_bounds_def signer_count_def)

lemma check_bounds: "within_bounds c \<Longrightarrow> within_bounds (snd (check_at signer i now c))"
proof -
  assume b: "within_bounds c"
  have l: "length (AList.update k v xs) \<le> Suc (length xs)" for k v and xs :: "(replay_key \<times> nat) list"
    by (induction xs) auto
  have e: "within_bounds (expire now c)" using expire_bounds[OF b] by (simp add: expire_def)
  show ?thesis
  proof (cases "fst (check_at signer i now c)")
    case (Inr u)
    then have "length (rc_seen (expire now c)) < MAX_ENTRIES" "signer_count (expire now c) signer < MAX_ENTRIES_PER_SIGNER"
      by (auto simp: check_at_def Let_def split: if_splits)
    then show ?thesis
      using e l[of "(signer, i)" now "rc_seen (expire now c)"] Inr
      by (auto simp: check_at_def Let_def within_bounds_def signer_count_def update_conv' split: if_splits)
  qed (use e in \<open>auto simp: check_at_def Let_def split: if_splits\<close>)
qed

section \<open>What a gate relies on\<close>

text \<open>A guard against replays: what is accepted is held, what is held stays for the window whatever else is
  checked, and what is held is refused.\<close>

locale replay_guard =
  fixes try_record :: "string \<Rightarrow> string \<Rightarrow> nat \<Rightarrow> 'c \<Rightarrow> ('e + unit) \<times> 'c"
    and sound :: "'c \<Rightarrow> bool" and held :: "nat \<Rightarrow> string \<Rightarrow> string \<Rightarrow> 'c \<Rightarrow> bool" and window :: nat
  assumes check_sound: "sound c \<Longrightarrow> sound (snd (try_record s i now c))"
    and accepted_held: "try_record s i now c = (Inr (), c') \<Longrightarrow> held now s i c'"
    and held_stays: "held at s i c \<Longrightarrow> now - at \<le> window \<Longrightarrow> held at s i (snd (try_record s' i' now c))"
    and held_refused: "sound c \<Longrightarrow> held at s i c \<Longrightarrow> now - at \<le> window \<Longrightarrow> \<not> is_ok (fst (try_record s i now c))"
begin

text \<open>Steps that only check within the window.\<close>

definition only_checks :: "nat \<Rightarrow> ('x \<Rightarrow> 'c \<Rightarrow> 'c) \<Rightarrow> 'x list \<Rightarrow> bool" where
  "only_checks at step xs \<longleftrightarrow> (\<forall>x \<in> set xs. \<forall>c. step x c = c \<or> (\<exists>s i now. now - at \<le> window \<and> step x c = snd (try_record s i now c)))"

lemma held_through:
  "only_checks at step xs \<Longrightarrow> sound c \<Longrightarrow> held at s i c \<Longrightarrow> sound (fold step xs c) \<and> held at s i (fold step xs c)"
proof (induction xs arbitrary: c)
  case (Cons x xs)
  have "sound (step x c) \<and> held at s i (step x c)"
  proof -
    from Cons.prems(1) consider "step x c = c" | s' i' now where "now - at \<le> window" "step x c = snd (try_record s' i' now c)"
      unfolding only_checks_def by (metis list.set_intros(1))
    then show ?thesis using check_sound[OF Cons.prems(2)] held_stays[OF Cons.prems(3)] Cons.prems(2,3) by cases simp_all
  qed
  then show ?case using Cons by (simp add: only_checks_def)
qed simp

lemma accepted_once:
  assumes "sound c" "try_record s i at c = (Inr (), c1)" "only_checks at step xs" "now - at \<le> window"
  shows "\<not> is_ok (fst (try_record s i now (fold step xs c1)))"
  using held_refused[OF _ _ assms(4)] held_through[OF assms(3) _ accepted_held[OF assms(2)]] check_sound[OF assms(1), of s i at] assms(2)
  by simp

end

interpretation replay: replay_guard check_at replay_ok "\<lambda>at s i c. (at, (s, i)) \<in> set (rc_order c)" REPLAY_WINDOW_SECS
proof unfold_locales
  fix c s i now
  show "replay_ok c \<Longrightarrow> replay_ok (snd (check_at s i now c))" by (rule check_ok)
next
  fix s i now c c'
  show "check_at s i now c = (Inr (), c') \<Longrightarrow> (now, s, i) \<in> set (rc_order c')" by (rule check_records)
next
  fix at s i c now s' i'
  show "(at, s, i) \<in> set (rc_order c) \<Longrightarrow> now - at \<le> REPLAY_WINDOW_SECS \<Longrightarrow> (at, s, i) \<in> set (rc_order (snd (check_at s' i' now c)))"
    by (rule check_keeps)
next
  fix c at s i now
  assume "replay_ok c" "(at, s, i) \<in> set (rc_order c)" "now - at \<le> REPLAY_WINDOW_SECS"
  then show "\<not> is_ok (fst (check_at s i now c))" using check_refuses[of c at s i now] by (simp add: is_ok_def)
qed

end
