(* ===== verification/DocumentSize.thy ===== *)
theory DocumentSize
  imports Acl DidLog "HOL-Library.AList"
begin

text \<open>
  How large an inbound document may be, decided before it is parsed, and the budget for large documents of
  callers that are not verified yet (did-hosting-common/src/server/trust_tasks/size.rs). The JSON
  parser is a parameter; the two derived readers keep its one member. The raised types are a parameter
  as well, since their names are those of the generated specifications. The bucket map is an
  association list, and the clock of a call is an argument.
\<close>

section \<open>Limits\<close>

definition DEFAULT_MAX_DOCUMENT_BYTES :: nat where "DEFAULT_MAX_DOCUMENT_BYTES = 64 * 1024"

definition largest_in :: "(string \<times> nat) list \<Rightarrow> string list \<Rightarrow> nat" where
  "largest_in declared served = foldl max DEFAULT_MAX_DOCUMENT_BYTES
     (map snd (filter (\<lambda>(uri, _). uri \<in> set served) declared))"

definition max_in :: "string \<Rightarrow> (string \<times> nat) list \<Rightarrow> string list \<Rightarrow> nat" where
  "max_in type_uri declared served = (case find (\<lambda>(uri, _). uri = type_uri \<and> uri \<in> set served) declared of
     Some (_, mx) \<Rightarrow> mx | None \<Rightarrow> DEFAULT_MAX_DOCUMENT_BYTES)"

text \<open>A derived reader of one string member: every other member is skipped, a second one of the name is
  refused, and an array of just the value is taken as well.\<close>

definition peek_member :: "string \<Rightarrow> json \<Rightarrow> string option" where
  "peek_member k v = (case v of
     JObj ms \<Rightarrow> (case filter (\<lambda>(n, _). n = k) ms of [(_, x)] \<Rightarrow> json_str x | _ \<Rightarrow> None)
   | JArr [x] \<Rightarrow> json_str x
   | _ \<Rightarrow> None)"

definition peek_type :: "(string \<Rightarrow> json option) \<Rightarrow> string \<Rightarrow> string option" where
  "peek_type parse body = Option.bind (parse body) (peek_member ''type'')"

definition peek_issuer :: "(string \<Rightarrow> json option) \<Rightarrow> string \<Rightarrow> string option" where
  "peek_issuer parse body = Option.bind (parse body) (peek_member ''issuer'')"

datatype size_refusal = TooLarge nat | BudgetSpent nat

definition check_with :: "(string \<Rightarrow> json option) \<Rightarrow> string \<Rightarrow> (string \<Rightarrow> nat) \<Rightarrow> size_refusal + unit" where
  "check_with parse body limit =
    (if length body \<le> DEFAULT_MAX_DOCUMENT_BYTES then Inr ()
     else let mx = (case peek_type parse body of Some t \<Rightarrow> limit t | None \<Rightarrow> DEFAULT_MAX_DOCUMENT_BYTES)
     in if length body \<le> mx then Inr () else Inl (TooLarge mx))"

definition check_size :: "(string \<Rightarrow> json option) \<Rightarrow> (string \<times> nat) list \<Rightarrow> string list \<Rightarrow> string \<Rightarrow> size_refusal + unit" where
  "check_size parse declared served body = check_with parse body (\<lambda>t. max_in t declared served)"

section \<open>The budget\<close>

definition LARGE_DOCUMENT_BUDGET_PER_WINDOW :: nat where "LARGE_DOCUMENT_BUDGET_PER_WINDOW = 5"
definition LARGE_DOCUMENT_BUDGET_WINDOW_SECS :: nat where "LARGE_DOCUMENT_BUDGET_WINDOW_SECS = 60"
definition LARGE_DOCUMENT_GLOBAL_BUDGET_PER_WINDOW :: nat where "LARGE_DOCUMENT_GLOBAL_BUDGET_PER_WINDOW = 60"
definition MAX_TRACKED_ADDRESSES :: nat where "MAX_TRACKED_ADDRESSES = 10000"

lemmas budget_consts = LARGE_DOCUMENT_BUDGET_PER_WINDOW_def LARGE_DOCUMENT_BUDGET_WINDOW_SECS_def
  LARGE_DOCUMENT_GLOBAL_BUDGET_PER_WINDOW_def

record bucket =
  bk_spent :: nat
  bk_window_start :: nat
  bk_cost :: nat

record budget =
  bg_buckets :: "(string \<times> bucket) list"
  bg_global_spent :: nat
  bg_global_window_start :: nat

definition new_budget :: budget where
  "new_budget = \<lparr>bg_buckets = [], bg_global_spent = 0, bg_global_window_start = 0\<rparr>"

text \<open>Rolling the two windows over, and making room: only what has nothing at stake is dropped.\<close>

definition roll_global :: "nat \<Rightarrow> budget \<Rightarrow> budget" where
  "roll_global now b = (if LARGE_DOCUMENT_BUDGET_WINDOW_SECS \<le> now - bg_global_window_start b
     then b\<lparr>bg_global_spent := 0, bg_global_window_start := now\<rparr> else b)"

definition make_room :: "string \<Rightarrow> nat \<Rightarrow> budget \<Rightarrow> budget" where
  "make_room address now b =
    (if MAX_TRACKED_ADDRESSES \<le> length (bg_buckets b) \<and> map_of (bg_buckets b) address = None
     then b\<lparr>bg_buckets := filter (\<lambda>(_, k). 1 < bk_cost k \<or> now - bk_window_start k < LARGE_DOCUMENT_BUDGET_WINDOW_SECS) (bg_buckets b)\<rparr>
     else b)"

definition roll_bucket :: "nat \<Rightarrow> bucket \<Rightarrow> bucket" where
  "roll_bucket now k = (if LARGE_DOCUMENT_BUDGET_WINDOW_SECS \<le> now - bk_window_start k
     then k\<lparr>bk_spent := 0, bk_window_start := now\<rparr> else k)"

definition put_bucket :: "string \<Rightarrow> bucket \<Rightarrow> budget \<Rightarrow> budget" where
  "put_bucket address k b = b\<lparr>bg_buckets := AList.update address k (bg_buckets b)\<rparr>"

definition try_charge :: "string \<Rightarrow> nat \<Rightarrow> budget \<Rightarrow> (nat + unit) \<times> budget" where
  "try_charge address now b0 =
    (let b = roll_global now b0;
         global_retry = bg_global_window_start b + LARGE_DOCUMENT_BUDGET_WINDOW_SECS - now
     in if LARGE_DOCUMENT_GLOBAL_BUDGET_PER_WINDOW \<le> bg_global_spent b then (Inl global_retry, b)
     else let b1 = make_room address now b
     in if map_of (bg_buckets b1) address = None \<and> MAX_TRACKED_ADDRESSES \<le> length (bg_buckets b1) then (Inl global_retry, b1)
     else let k = roll_bucket now (case map_of (bg_buckets b1) address of Some k \<Rightarrow> k
            | None \<Rightarrow> \<lparr>bk_spent = 0, bk_window_start = now, bk_cost = 1\<rparr>)
     in if LARGE_DOCUMENT_BUDGET_PER_WINDOW < saturating_add (bk_spent k) (bk_cost k)
        then (Inl (bk_window_start k + LARGE_DOCUMENT_BUDGET_WINDOW_SECS - now), put_bucket address k b1)
        else (Inr (), (put_bucket address (k\<lparr>bk_spent := bk_spent k + bk_cost k\<rparr>) b1)
                \<lparr>bg_global_spent := bg_global_spent b1 + 1\<rparr>))"

definition penalize :: "string \<Rightarrow> budget \<Rightarrow> budget" where
  "penalize address b =
    (let k = (case map_of (bg_buckets b) address of Some k \<Rightarrow> k
        | None \<Rightarrow> \<lparr>bk_spent = 0, bk_window_start = 0, bk_cost = 1\<rparr>)
     in put_bucket address (k\<lparr>bk_cost := min (saturating_mul (bk_cost k) 2) (2 ^ 20)\<rparr>) b)"

record large_document_charge =
  lc_address :: string
  lc_claimed_issuer :: string

definition check_for_known_issuer ::
  "(string \<Rightarrow> json option) \<Rightarrow> (string \<times> nat) list \<Rightarrow> string list \<Rightarrow> acl \<Rightarrow> string \<Rightarrow> string \<Rightarrow> nat \<Rightarrow> budget
   \<Rightarrow> (size_refusal + large_document_charge option) \<times> budget" where
  "check_for_known_issuer parse declared served a body address now b =
    (if length body \<le> DEFAULT_MAX_DOCUMENT_BYTES then (Inr None, b)
     else (case (case peek_issuer parse body of Some i \<Rightarrow> if get_acl_entry a i \<noteq> None then Some i else None | None \<Rightarrow> None) of
       None \<Rightarrow> (and_then (check_with parse body (\<lambda>_. DEFAULT_MAX_DOCUMENT_BYTES)) (\<lambda>_. Inr None), b)
     | Some claimed \<Rightarrow> (case try_charge address now b of
         (Inl retry, b1) \<Rightarrow> (Inl (BudgetSpent retry), b1)
       | (Inr _, b1) \<Rightarrow> (and_then (check_size parse declared served body)
           (\<lambda>_. Inr (Some \<lparr>lc_address = address, lc_claimed_issuer = claimed\<rparr>)), b1))))"

definition settle_large_document_charge :: "large_document_charge option \<Rightarrow> string option \<Rightarrow> budget \<Rightarrow> budget" where
  "settle_large_document_charge charge verified_issuer b = (case charge of
     None \<Rightarrow> b
   | Some c \<Rightarrow> if verified_issuer \<noteq> Some (lc_claimed_issuer c) then penalize (lc_address c) b else b)"

section \<open>A raised limit needs a declared, served type, a known issuer and budget\<close>

lemma max_in_raised: "DEFAULT_MAX_DOCUMENT_BYTES < max_in t declared served \<Longrightarrow> t \<in> set served \<and> (t, max_in t declared served) \<in> set declared"
  by (auto simp: max_in_def split: option.splits dest!: find_mem)

lemma max_in_largest: "max_in t declared served \<le> largest_in declared served"
proof -
  have l: "foldl max m xs = Max (insert m (set xs))" for m :: nat and xs
  proof (induction xs arbitrary: m)
    case (Cons x xs)
    then show ?case by (cases "xs = []") (simp_all add: max.assoc)
  qed simp
  show ?thesis
    unfolding max_in_def largest_in_def l
    by (force split: option.splits intro!: Max_ge dest!: find_mem)
qed

lemma admitted_large:
  assumes "check_for_known_issuer parse declared served a body address now b = (Inr c, b')" "DEFAULT_MAX_DOCUMENT_BYTES < length body"
  shows "\<exists>i t. peek_issuer parse body = Some i \<and> get_acl_entry a i \<noteq> None \<and> c = Some \<lparr>lc_address = address, lc_claimed_issuer = i\<rparr>
    \<and> try_charge address now b = (Inr (), b') \<and> peek_type parse body = Some t \<and> t \<in> set served \<and> length body \<le> max_in t declared served"
proof -
  have n: "\<not> is_ok (check_with parse body (\<lambda>_. DEFAULT_MAX_DOCUMENT_BYTES))"
    using assms(2) by (auto simp: check_with_def Let_def split: option.splits)
  then obtain i where i: "peek_issuer parse body = Some i" "get_acl_entry a i \<noteq> None" "c = Some \<lparr>lc_address = address, lc_claimed_issuer = i\<rparr>"
    "try_charge address now b = (Inr (), b')" "check_size parse declared served body = Inr ()"
    using assms by (auto simp: check_for_known_issuer_def res_simps is_ok_iff split: option.splits if_splits prod.splits sum.splits)
  then obtain t where "peek_type parse body = Some t" "length body \<le> max_in t declared served"
    using assms(2) by (auto simp: check_size_def check_with_def Let_def split: if_splits option.splits)
  then show ?thesis using i max_in_raised[of t declared served] assms(2) by auto
qed

section \<open>What the budget bounds\<close>

datatype budget_event = Charge string nat | Penalise string

fun granted :: "budget_event list \<Rightarrow> budget \<Rightarrow> string list" where
  "granted [] b = []"
| "granted (Charge a now # es) b = (case try_charge a now b of
     (Inr _, b') \<Rightarrow> a # granted es b' | (Inl _, b') \<Rightarrow> granted es b')"
| "granted (Penalise a # es) b = granted es (penalize a b)"

definition budget_step :: "budget_event \<Rightarrow> budget \<Rightarrow> budget" where
  "budget_step e b = (case e of Charge a now \<Rightarrow> snd (try_charge a now b) | Penalise a \<Rightarrow> penalize a b)"

definition costs_ok :: "budget \<Rightarrow> bool" where
  "costs_ok b \<longleftrightarrow> (\<forall>a k. map_of (bg_buckets b) a = Some k \<longrightarrow> 1 \<le> bk_cost k) \<and> distinct (map fst (bg_buckets b))"

lemma put_bucket_at: "map_of (bg_buckets (put_bucket a k b)) c = (if c = a then Some k else map_of (bg_buckets b) c)"
  by (simp add: put_bucket_def update_conv')

lemma map_of_filter_distinct:
  "distinct (map fst xs) \<Longrightarrow> map_of (filter P xs) a = (case map_of xs a of Some v \<Rightarrow> if P (a, v) then Some v else None | None \<Rightarrow> None)"
  by (induction xs) (auto split: option.splits dest: map_of_SomeD simp: image_iff)

lemma roll_frame [simp]: "bg_buckets (roll_global now b) = bg_buckets b" "bk_cost (roll_bucket now k) = bk_cost k"
  by (simp_all add: roll_global_def roll_bucket_def)

lemma make_room_at:
  assumes "distinct (map fst (bg_buckets b))"
  shows "map_of (bg_buckets (make_room a now b)) c = (case map_of (bg_buckets b) c of
      Some k \<Rightarrow> if MAX_TRACKED_ADDRESSES \<le> length (bg_buckets b) \<and> map_of (bg_buckets b) a = None
          \<and> \<not> (1 < bk_cost k \<or> now - bk_window_start k < LARGE_DOCUMENT_BUDGET_WINDOW_SECS) then None else Some k
    | None \<Rightarrow> None)"
  using assms by (auto simp: make_room_def map_of_filter_distinct split: option.splits)

text \<open>A charge: refused with the buckets as they were or with room made, refused by its bucket, or
  granted.\<close>

lemma charge_cases:
  assumes "try_charge a now b = (r, b')" "costs_ok b"
  obtains (refused) x where "r = Inl x" "bg_buckets b' = bg_buckets b \<or> b' = make_room a now (roll_global now b)"
      "bg_global_spent b' = bg_global_spent (roll_global now b)" "bg_global_window_start b' = bg_global_window_start (roll_global now b)"
      "bg_buckets b' = bg_buckets (make_room a now b) \<or> bg_buckets b' = bg_buckets b"
  | (spent) k x where "r = Inl x" "b' = put_bucket a (roll_bucket now k) (make_room a now (roll_global now b))"
      "map_of (bg_buckets b) a = Some k \<or> map_of (bg_buckets b) a = None \<and> k = \<lparr>bk_spent = 0, bk_window_start = now, bk_cost = 1\<rparr>"
      "LARGE_DOCUMENT_BUDGET_PER_WINDOW < saturating_add (bk_spent (roll_bucket now k)) (bk_cost k)"
  | (granted) k where "r = Inr ()"
      "map_of (bg_buckets b) a = Some k \<or> map_of (bg_buckets b) a = None \<and> k = \<lparr>bk_spent = 0, bk_window_start = now, bk_cost = 1\<rparr>"
      "b' = (put_bucket a ((roll_bucket now k)\<lparr>bk_spent := bk_spent (roll_bucket now k) + bk_cost k\<rparr>) (make_room a now (roll_global now b)))
         \<lparr>bg_global_spent := bg_global_spent (roll_global now b) + 1\<rparr>"
      "saturating_add (bk_spent (roll_bucket now k)) (bk_cost k) \<le> LARGE_DOCUMENT_BUDGET_PER_WINDOW"
      "bg_global_spent (roll_global now b) < LARGE_DOCUMENT_GLOBAL_BUDGET_PER_WINDOW"
proof -
  let ?b = "roll_global now b"
  let ?m = "make_room a now ?b"
  have d: "distinct (map fst (bg_buckets ?b))" using assms(2) by (simp add: costs_ok_def)
  have at: "map_of (bg_buckets ?m) a = map_of (bg_buckets b) a"
    unfolding make_room_at[OF d] by (auto split: option.splits)
  have fr: "bg_global_spent ?m = bg_global_spent ?b" "bg_global_window_start ?m = bg_global_window_start ?b"
    by (simp_all add: make_room_def)
  have mb: "bg_buckets ?m = bg_buckets (make_room a now b)" by (simp add: make_room_def)
  consider (g) "LARGE_DOCUMENT_GLOBAL_BUDGET_PER_WINDOW \<le> bg_global_spent ?b"
    | (f) "bg_global_spent ?b < LARGE_DOCUMENT_GLOBAL_BUDGET_PER_WINDOW" "map_of (bg_buckets b) a = None" "MAX_TRACKED_ADDRESSES \<le> length (bg_buckets ?m)"
    | (e) "bg_global_spent ?b < LARGE_DOCUMENT_GLOBAL_BUDGET_PER_WINDOW" "\<not> (map_of (bg_buckets b) a = None \<and> MAX_TRACKED_ADDRESSES \<le> length (bg_buckets ?m))"
    by fastforce
  then show thesis
  proof cases
    case g
    then have "r = Inl (bg_global_window_start ?b + LARGE_DOCUMENT_BUDGET_WINDOW_SECS - now)" "b' = ?b"
      using assms(1) by (auto simp: try_charge_def Let_def)
    then show ?thesis by (intro refused) simp_all
  next
    case f
    then have "r = Inl (bg_global_window_start ?b + LARGE_DOCUMENT_BUDGET_WINDOW_SECS - now)" "b' = ?m"
      using assms(1) at by (auto simp: try_charge_def Let_def)
    then show ?thesis using fr mb by (intro refused) simp_all
  next
    case e
    define k where "k = (case map_of (bg_buckets b) a of Some k \<Rightarrow> k | None \<Rightarrow> \<lparr>bk_spent = 0, bk_window_start = now, bk_cost = 1\<rparr>)"
    have k: "map_of (bg_buckets b) a = Some k \<or> map_of (bg_buckets b) a = None \<and> k = \<lparr>bk_spent = 0, bk_window_start = now, bk_cost = 1\<rparr>"
      by (cases "map_of (bg_buckets b) a") (simp_all add: k_def)
    have t: "try_charge a now b = (if LARGE_DOCUMENT_BUDGET_PER_WINDOW < saturating_add (bk_spent (roll_bucket now k)) (bk_cost k)
        then (Inl (bk_window_start (roll_bucket now k) + LARGE_DOCUMENT_BUDGET_WINDOW_SECS - now), put_bucket a (roll_bucket now k) ?m)
        else (Inr (), (put_bucket a ((roll_bucket now k)\<lparr>bk_spent := bk_spent (roll_bucket now k) + bk_cost k\<rparr>) ?m)
           \<lparr>bg_global_spent := bg_global_spent ?b + 1\<rparr>))"
      using e at by (cases "map_of (bg_buckets b) a") (simp_all add: try_charge_def Let_def k_def fr)
    show ?thesis
    proof (cases "LARGE_DOCUMENT_BUDGET_PER_WINDOW < saturating_add (bk_spent (roll_bucket now k)) (bk_cost k)")
      case True
      then show ?thesis using t assms(1) k by (intro spent) auto
    next
      case False
      then show ?thesis using t assms(1) k e(1) by (intro granted) auto
    qed
  qed
qed

lemma charge_keeps_costs: "costs_ok b \<Longrightarrow> costs_ok (snd (try_charge a now b))"
proof -
  assume c: "costs_ok b"
  obtain r b' where t: "try_charge a now b = (r, b')" by force
  have d: "distinct (map fst (bg_buckets (roll_global now b)))" using c by (simp add: costs_ok_def)
  have m: "costs_ok (make_room a now (roll_global now b))" "costs_ok (make_room a now b)"
    using c d make_room_at[OF d] make_room_at[of b a now]
    by (auto simp: costs_ok_def make_room_def distinct_map_filter split: option.splits if_splits)
  have p: "costs_ok (put_bucket a k x)" if "costs_ok x" "1 \<le> bk_cost k" for k x
    using that by (auto simp: costs_ok_def put_bucket_def update_conv' distinct_update)
  have s: "costs_ok (x\<lparr>bg_global_spent := n\<rparr>) = costs_ok x" for x n by (simp add: costs_ok_def)
  from t c have "costs_ok b'"
  proof (cases rule: charge_cases)
    case (refused x)
    then show ?thesis using c m by (auto simp: costs_ok_def)
  next
    case (spent k x)
    then have "1 \<le> bk_cost k" using c by (auto simp: costs_ok_def)
    then show ?thesis using p m spent by simp
  next
    case (granted k)
    then have "1 \<le> bk_cost k" using c by (auto simp: costs_ok_def)
    then show ?thesis using p m granted by (simp add: s)
  qed
  then show ?thesis using t by simp
qed

lemma penalty_keeps_costs: "costs_ok b \<Longrightarrow> costs_ok (penalize a b)"
  by (auto simp: costs_ok_def penalize_def put_bucket_def Let_def update_conv' distinct_update saturating_mul_def u64_max_def u64_lim_def
      split: option.splits)

lemma step_keeps_costs: "costs_ok b \<Longrightarrow> costs_ok (budget_step e b)"
  by (simp add: budget_step_def charge_keeps_costs penalty_keeps_costs split: budget_event.split)

lemma granted_step: "granted (e # es) b = (case e of Charge a now \<Rightarrow> (if is_ok (fst (try_charge a now b)) then [a] else [])
     | Penalise _ \<Rightarrow> []) @ granted es (budget_step e b)"
  by (cases e) (auto simp: budget_step_def is_ok_def split: prod.splits sum.splits)

text \<open>What can still be granted at times from t until a window later: overall, and to an address.\<close>

definition global_room :: "nat \<Rightarrow> budget \<Rightarrow> nat" where
  "global_room t b = (LARGE_DOCUMENT_GLOBAL_BUDGET_PER_WINDOW - bg_global_spent b)
     + (if t \<le> bg_global_window_start b then 0 else LARGE_DOCUMENT_GLOBAL_BUDGET_PER_WINDOW)"

definition bucket_room :: "nat \<Rightarrow> bucket option \<Rightarrow> nat" where
  "bucket_room t x = (case x of
     None \<Rightarrow> LARGE_DOCUMENT_BUDGET_PER_WINDOW
   | Some k \<Rightarrow> if t \<le> bk_window_start k then LARGE_DOCUMENT_BUDGET_PER_WINDOW - bk_spent k
       else if bk_window_start k + LARGE_DOCUMENT_BUDGET_WINDOW_SECS \<le> t then LARGE_DOCUMENT_BUDGET_PER_WINDOW
       else (LARGE_DOCUMENT_BUDGET_PER_WINDOW - bk_spent k) + LARGE_DOCUMENT_BUDGET_PER_WINDOW)"

definition timed_in :: "nat \<Rightarrow> budget_event \<Rightarrow> bool" where
  "timed_in t e \<longleftrightarrow> (case e of Charge _ now \<Rightarrow> t \<le> now \<and> now < t + LARGE_DOCUMENT_BUDGET_WINDOW_SECS | Penalise _ \<Rightarrow> True)"

lemma global_step:
  assumes "costs_ok b" "timed_in t e"
  shows "length (granted [e] b) + global_room t (budget_step e b) \<le> global_room t b"
proof (cases e)
  case (Penalise a)
  then show ?thesis by (simp add: budget_step_def penalize_def put_bucket_def Let_def global_room_def)
next
  case (Charge a now)
  then have n: "t \<le> now" "now < t + LARGE_DOCUMENT_BUDGET_WINDOW_SECS" using assms(2) by (simp_all add: timed_in_def)
  obtain r b' where c: "try_charge a now b = (r, b')" by force
  have r: "global_room t (roll_global now b) \<le> global_room t b"
    using n by (auto simp: global_room_def roll_global_def budget_consts)
  have f: "bg_global_spent (make_room a now x) = bg_global_spent x" "bg_global_window_start (make_room a now x) = bg_global_window_start x" for x
    by (simp_all add: make_room_def)
  from c assms(1) show ?thesis
  proof (cases rule: charge_cases)
    case (refused x)
    then show ?thesis using r by (simp add: Charge budget_step_def c global_room_def)
  next
    case (spent k x)
    then show ?thesis using r by (simp add: Charge budget_step_def c global_room_def put_bucket_def f)
  next
    case (granted k)
    then show ?thesis using r by (simp add: Charge budget_step_def c global_room_def put_bucket_def f)
  qed
qed

lemma granted_within:
  assumes step: "\<And>e b. costs_ok b \<Longrightarrow> timed_in t e \<Longrightarrow> length (filter P (granted [e] b)) + room (budget_step e b) \<le> (room b :: nat)"
  shows "costs_ok b \<Longrightarrow> list_all (timed_in t) es \<Longrightarrow> length (filter P (granted es b)) \<le> room b"
proof (induction es arbitrary: b)
  case (Cons e es)
  have "length (filter P (granted es (budget_step e b))) \<le> room (budget_step e b)"
    using Cons.IH[OF step_keeps_costs[OF Cons.prems(1)]] Cons.prems(2) by simp
  moreover have "granted (e # es) b = granted [e] b @ granted es (budget_step e b)"
    unfolding granted_step[of e] by (simp split: budget_event.split)
  ultimately show ?case using step[OF Cons.prems(1), of e] Cons.prems(2) by simp
qed simp

lemma bucket_dropped: "\<lbrakk>LARGE_DOCUMENT_BUDGET_WINDOW_SECS \<le> now - bk_window_start k; now < t + LARGE_DOCUMENT_BUDGET_WINDOW_SECS\<rbrakk>
    \<Longrightarrow> LARGE_DOCUMENT_BUDGET_PER_WINDOW \<le> bucket_room t (Some k)"
  by (auto simp: bucket_room_def budget_consts)

lemma bucket_rolled:
  assumes "t \<le> now" "now < t + LARGE_DOCUMENT_BUDGET_WINDOW_SECS"
  shows "bucket_room t (Some (roll_bucket now k)) \<le> bucket_room t (Some k)"
    "bk_window_start (roll_bucket now k) + LARGE_DOCUMENT_BUDGET_WINDOW_SECS \<le> t \<Longrightarrow> False"
  using assms by (auto simp: bucket_room_def roll_bucket_def budget_consts split: if_splits)

lemma bucket_granted:
  assumes "t \<le> now" "now < t + LARGE_DOCUMENT_BUDGET_WINDOW_SECS" "1 \<le> bk_cost k"
    "saturating_add (bk_spent (roll_bucket now k)) (bk_cost k) \<le> LARGE_DOCUMENT_BUDGET_PER_WINDOW"
  shows "1 + bucket_room t (Some ((roll_bucket now k)\<lparr>bk_spent := bk_spent (roll_bucket now k) + bk_cost k\<rparr>)) \<le> bucket_room t (Some k)"
proof -
  let ?k = "roll_bucket now k"
  have s: "bk_spent ?k + bk_cost k \<le> 5" using assms(4) by (simp add: saturating_add_def budget_consts u64_max_def u64_lim_def)
  have "1 + bucket_room t (Some (?k\<lparr>bk_spent := bk_spent ?k + bk_cost k\<rparr>)) \<le> bucket_room t (Some ?k)"
    using s assms(3) bucket_rolled(2)[OF assms(1,2), of k] by (auto simp: bucket_room_def budget_consts)
  then show ?thesis using bucket_rolled(1)[OF assms(1,2), of k] by simp
qed

lemma address_step:
  assumes "costs_ok b" "timed_in t e" "LARGE_DOCUMENT_BUDGET_WINDOW_SECS \<le> t"
  shows "length (filter (\<lambda>x. x = a) (granted [e] b)) + bucket_room t (map_of (bg_buckets (budget_step e b)) a)
    \<le> bucket_room t (map_of (bg_buckets b) a)"
proof (cases e)
  case (Penalise c)
  have "bucket_room t (Some (k\<lparr>bk_cost := x\<rparr>)) = bucket_room t (Some k)" for k x by (simp add: bucket_room_def)
  moreover have "bucket_room t (Some \<lparr>bk_spent = 0, bk_window_start = 0, bk_cost = x\<rparr>) = bucket_room t None" for x
    using assms(3) by (simp add: bucket_room_def budget_consts)
  ultimately show ?thesis using assms(1)
    by (auto simp: Penalise budget_step_def penalize_def Let_def put_bucket_at split: option.splits)
next
  case (Charge c now)
  then have n: "t \<le> now" "now < t + LARGE_DOCUMENT_BUDGET_WINDOW_SECS" using assms(2) by (simp_all add: timed_in_def)
  obtain r b' where ch: "try_charge c now b = (r, b')" by force
  have d: "distinct (map fst (bg_buckets b))" "distinct (map fst (bg_buckets (roll_global now b)))" using assms(1) by (simp_all add: costs_ok_def)
  have m: "bucket_room t (map_of (bg_buckets (make_room c now x)) a) \<le> bucket_room t (map_of (bg_buckets b) a)"
    if "bg_buckets x = bg_buckets b" for x
  proof (cases "map_of (bg_buckets b) a")
    case (Some k)
    have "bucket_room t None \<le> bucket_room t (Some k)" if "\<not> now - bk_window_start k < LARGE_DOCUMENT_BUDGET_WINDOW_SECS"
      using bucket_dropped[OF _ n(2), of k] that by (simp add: bucket_room_def)
    then show ?thesis using make_room_at[of x c now a] d(1) that Some by simp
  qed (use make_room_at[of x c now a] d(1) that in simp)
  have other: ?thesis if "a \<noteq> c" "map_of (bg_buckets b') a = map_of (bg_buckets (make_room c now (roll_global now b))) a"
  proof -
    have "filter (\<lambda>x. x = a) (granted [e] b) = []" using that(1) by (simp add: Charge ch split: sum.splits)
    then show ?thesis using m[of "roll_global now b"] that(2) by (simp add: Charge budget_step_def ch)
  qed
  have new: "bucket_room t (Some \<lparr>bk_spent = 0, bk_window_start = now, bk_cost = 1\<rparr>) = bucket_room t None"
    using n by (simp add: bucket_room_def)
  from ch assms(1) show ?thesis
  proof (cases rule: charge_cases)
    case (refused x)
    then show ?thesis using m[of b] by (auto simp: Charge budget_step_def ch)
  next
    case (spent k x)
    show ?thesis
    proof (cases "a = c")
      case True
      then show ?thesis using spent bucket_rolled(1)[OF n, of k] new by (auto simp: Charge budget_step_def ch put_bucket_at)
    next
      case False
      then show ?thesis by (intro other) (simp_all add: spent(2) put_bucket_at)
    qed
  next
    case (granted k)
    show ?thesis
    proof (cases "a = c")
      case True
      have "1 \<le> bk_cost k" using granted(2) assms(1) by (auto simp: costs_ok_def)
      note g = bucket_granted[OF n this granted(4)]
      show ?thesis using granted(1-3) g new True by (auto simp: Charge budget_step_def ch put_bucket_def update_conv')
    next
      case False
      then show ?thesis by (intro other) (simp_all add: granted(3) put_bucket_def update_conv')
    qed
  qed
qed

text \<open>C37: Unverified callers buy a bounded amount of work. Whatever happened before, during any 60 seconds
  at most 120 large documents are let through to be parsed and verified, and at most 10 of one
  address, however the charges of addresses, penalties and refusals interleave in that time.\<close>

theorem large_documents_bounded:
  assumes "list_all (timed_in t) es" "LARGE_DOCUMENT_BUDGET_WINDOW_SECS \<le> t"
  shows "length (granted es (fold budget_step es0 new_budget)) \<le> 120
    \<and> length (filter (\<lambda>x. x = a) (granted es (fold budget_step es0 new_budget))) \<le> 10"
proof -
  let ?b = "fold budget_step es0 new_budget"
  have "costs_ok b \<Longrightarrow> costs_ok (fold budget_step es0 b)" for b by (induction es0 arbitrary: b) (simp_all add: step_keeps_costs)
  moreover have "costs_ok new_budget" by (simp add: costs_ok_def new_budget_def)
  ultimately have c: "costs_ok ?b" by blast
  have "length (filter (\<lambda>_. True) (granted es ?b)) \<le> global_room t ?b"
    by (rule granted_within[OF _ c assms(1)]) (use global_step in simp)
  moreover have "global_room t x \<le> 120" for x
  proof -
    have "60 - bg_global_spent x \<le> 60" by simp
    then show ?thesis unfolding global_room_def budget_consts by (cases "t \<le> bg_global_window_start x") simp_all
  qed
  moreover have "length (filter (\<lambda>x. x = a) (granted es ?b)) \<le> bucket_room t (map_of (bg_buckets ?b) a)"
    by (rule granted_within[OF _ c assms(1)]) (rule address_step[OF _ _ assms(2)])
  moreover have "bucket_room t x \<le> 10" for x
  proof (cases x)
    case (Some k)
    have l: "5 - bk_spent k \<le> 10" by (rule le_trans[OF diff_le_self]) simp
    show ?thesis unfolding Some bucket_room_def budget_consts using l by (auto simp del: diff_le_self)
  qed (simp add: bucket_room_def budget_consts)
  ultimately show ?thesis by simp (meson le_trans)
qed

text \<open>Nine for one address do happen: four at the end of a window and five at the start of the next.\<close>

definition busy_times :: "budget_event list" where
  "busy_times = map (Charge ''a'') [110, 111, 112, 113, 165, 166, 167, 168, 169]"

theorem large_documents_bounded_witness:
  "length (granted busy_times (fold budget_step [Charge ''a'' 105] new_budget)) = 9
    \<and> length (granted busy_times (fold budget_step [Charge ''a'' 105] new_budget)) \<le> 120"
proof -
  have "list_all (timed_in 110) busy_times" "LARGE_DOCUMENT_BUDGET_WINDOW_SECS \<le> 110" by code_simp+
  note l = large_documents_bounded[OF this, of "[Charge ''a'' 105]"]
  have "length (granted busy_times (fold budget_step [Charge ''a'' 105] new_budget)) = 9" by code_simp
  then show ?thesis using l by blast
qed

section \<open>Penalties are never lifted\<close>

text \<open>An address whose charges cost more than a whole window's budget is refused at every later time,
  although each refusal names a time to retry at.\<close>

definition locked_out :: "string \<Rightarrow> budget \<Rightarrow> bool" where
  "locked_out a b \<longleftrightarrow> (\<exists>k. map_of (bg_buckets b) a = Some k \<and> LARGE_DOCUMENT_BUDGET_PER_WINDOW < bk_cost k)"

lemma locked_out_stays:
  assumes "costs_ok b" "locked_out a b"
  shows "locked_out a (budget_step e b) \<and> a \<notin> set (granted [e] b)"
proof -
  obtain k where k: "map_of (bg_buckets b) a = Some k" "5 < bk_cost k" using assms(2) by (auto simp: locked_out_def budget_consts)
  show ?thesis
  proof (cases e)
    case (Penalise c)
    then show ?thesis using k
      by (auto simp: locked_out_def budget_step_def penalize_def Let_def put_bucket_at budget_consts saturating_mul_def u64_max_def u64_lim_def)
  next
    case (Charge c now)
    obtain r b' where ch: "try_charge c now b = (r, b')" by force
    have d: "distinct (map fst (bg_buckets (roll_global now b)))" "distinct (map fst (bg_buckets b))" using assms(1) by (simp_all add: costs_ok_def)
    have m: "map_of (bg_buckets (make_room c now (roll_global now b))) a = Some k" "map_of (bg_buckets (make_room c now b)) a = Some k"
      using k make_room_at[OF d(1)] make_room_at[OF d(2)] by simp_all
    from ch assms(1) show ?thesis
    proof (cases rule: charge_cases)
      case (refused x)
      then show ?thesis using k m by (auto simp: Charge budget_step_def ch locked_out_def budget_consts)
    next
      case (spent q x)
      then show ?thesis using k m by (auto simp: Charge budget_step_def ch locked_out_def put_bucket_at budget_consts)
    next
      case (granted q)
      have "bk_cost q \<le> 5" using granted(4) by (auto simp: saturating_add_def budget_consts u64_max_def u64_lim_def)
      then have "a \<noteq> c" using granted(2) k by auto
      then show ?thesis using granted k m by (auto simp: Charge budget_step_def ch locked_out_def put_bucket_def update_conv' budget_consts)
    qed
  qed
qed

lemma locked_out_forever:
  "costs_ok b \<Longrightarrow> locked_out a b \<Longrightarrow> a \<notin> set (granted es b)"
proof (induction es arbitrary: b)
  case (Cons e es)
  have "granted (e # es) b = granted [e] b @ granted es (budget_step e b)"
    unfolding granted_step[of e] by (simp split: budget_event.split)
  then show ?case using Cons.IH[OF step_keeps_costs[OF Cons.prems(1)]] locked_out_stays[OF Cons.prems] by simp
qed simp

text \<open>Three failed claims are enough, for instance by someone else behind the same address.\<close>

lemma three_failures_lock_out:
  "locked_out ''a'' (fold budget_step [Charge ''a'' 100, Penalise ''a'', Charge ''a'' 101, Penalise ''a'', Charge ''a'' 160, Penalise ''a''] new_budget)
    \<and> fst (try_charge ''a'' 9999 (fold budget_step [Charge ''a'' 100, Penalise ''a'', Charge ''a'' 101, Penalise ''a'', Charge ''a'' 160, Penalise ''a''] new_budget)) = Inl 60"
proof -
  let ?b = "fold budget_step [Charge ''a'' 100, Penalise ''a'', Charge ''a'' 101, Penalise ''a'', Charge ''a'' 160, Penalise ''a''] new_budget"
  have "map_option (\<lambda>k. bk_cost k = 8) (map_of (bg_buckets ?b) ''a'') = Some True" "fst (try_charge ''a'' 9999 ?b) = Inl 60" by code_simp+
  then show ?thesis by (auto simp: locked_out_def budget_consts)
qed

end
