(* ===== verification/Gate.thy ===== *)
theory Gate
  imports Replicate ReplayCache DocumentSize
begin

text \<open>
  Who an inbound document is from: proofs bound to their issuer
  (did-hosting-common/src/server/trust_tasks/verifier.rs), documents bound to their sender (bound.rs), the
  edge's check that a document is its control plane's (verify_control_plane of
  did-hosting-server/src/messaging.rs) and the proof gate of the control plane (route_trust_task_doc of
  did-hosting-control/src/messaging.rs, up to the dispatch). Signatures, key resolution and the dispatch
  table of proof rules are parameters. Instants are in nanoseconds since the epoch; a check reads the
  clock before the proof is verified, and the replay cache reads it again afterwards.
\<close>

section \<open>Documents\<close>

record proof_member =
  pf_method :: string
  pf_purpose :: string

record document =
  d_id :: string
  d_type :: string
  d_thread :: "string option"
  d_issuer :: "string option"
  d_recipient :: "string option"
  d_issued_at :: "int option"
  d_expires_at :: "int option"
  d_proof :: "proof_member option"
  d_payload :: json

definition NANOS :: int where "NANOS = 1000000000"

definition epoch_seconds :: "int \<Rightarrow> nat" where
  "epoch_seconds t = nat (t div NANOS)"

section \<open>Proofs bound to their issuer (verifier.rs)\<close>

definition OPERATIONAL_PROOF_PURPOSE :: string where "OPERATIONAL_PROOF_PURPOSE = ''authentication''"
definition APPROVAL_PROOF_PURPOSE :: string where "APPROVAL_PROOF_PURPOSE = ''assertionMethod''"

text \<open>The errors of the data-integrity library that the code tells apart, and what it makes of them.\<close>

datatype integrity_error =
    UnsupportedCryptoSuite | KeyTypeMismatch | InvalidSignature | InvalidPublicKey | Canonicalization | MalformedIntegrityProof
  | ResolverError string | OtherIntegrity string

datatype verification_error =
    UnsupportedCryptosuite | IssuerMismatch | SignatureInvalid | MalformedProof | OtherVerification string

definition map_error :: "(integrity_error \<Rightarrow> string) \<Rightarrow> integrity_error \<Rightarrow> verification_error" where
  "map_error show_error e = (case e of
     UnsupportedCryptoSuite \<Rightarrow> UnsupportedCryptosuite
   | KeyTypeMismatch \<Rightarrow> IssuerMismatch
   | InvalidSignature \<Rightarrow> SignatureInvalid
   | InvalidPublicKey \<Rightarrow> MalformedProof
   | Canonicalization \<Rightarrow> OtherVerification ''canonicalisation''
   | MalformedIntegrityProof \<Rightarrow> MalformedProof
   | _ \<Rightarrow> OtherVerification (show_error e))"

definition UNREACHABLE :: string where "UNREACHABLE = ''signer DID unreachable''"
definition DEACTIVATED :: string where "DEACTIVATED = ''is deactivated; its keys are no longer valid''"

definition is_unreachable :: "verification_error \<Rightarrow> bool" where
  "is_unreachable e = (case e of OtherVerification m \<Rightarrow> sublist UNREACHABLE m | _ \<Rightarrow> False)"

definition controller_did :: "string \<Rightarrow> string" where
  "controller_did vm = hd (split_on (CHR ''#'') vm)"

text \<open>One attempt checks the signature against the key resolved for a purpose, from the cached document or
  from a fresh one; a refresh says whether the next lookup will resolve afresh. The delegate is the
  principal and the key of one bearer session.\<close>

record verifier =
  ve_attempt :: "bool \<Rightarrow> string \<Rightarrow> document \<Rightarrow> integrity_error option"
  ve_show :: "integrity_error \<Rightarrow> string"
  ve_parses :: "proof_member \<Rightarrow> bool"
  ve_purpose :: "string \<Rightarrow> string option"
  ve_refresh :: "string \<Rightarrow> bool"
  ve_delegate :: "(string \<times> string) option"

definition prepare :: "verifier \<Rightarrow> document \<Rightarrow> bool \<Rightarrow> verification_error + unit" where
  "prepare v doc delegation = (case d_proof doc of
     None \<Rightarrow> Inl MalformedProof
   | Some p \<Rightarrow> if \<not> ve_parses v p then Inl MalformedProof
       else (case d_issuer doc of
         None \<Rightarrow> Inl IssuerMismatch
       | Some issuer \<Rightarrow>
           if controller_did (pf_method p) = issuer \<or> (delegation \<and> ve_delegate v = Some (issuer, pf_method p))
           then Inr () else Inl IssuerMismatch))"

definition retryable_error :: "integrity_error \<Rightarrow> bool" where
  "retryable_error e = (case e of ResolverError m \<Rightarrow> \<not> sublist DEACTIVATED m | InvalidSignature \<Rightarrow> True | _ \<Rightarrow> False)"

definition verify_with :: "verifier \<Rightarrow> document \<Rightarrow> string \<Rightarrow> bool \<Rightarrow> verification_error + unit" where
  "verify_with v doc purpose delegation = and_then (prepare v doc delegation) (\<lambda>_.
     case ve_attempt v False purpose doc of
       None \<Rightarrow> Inr ()
     | Some e \<Rightarrow>
         let vm = (case d_proof doc of Some p \<Rightarrow> pf_method p | None \<Rightarrow> [])
         in if retryable_error e \<and> ve_refresh v (controller_did vm)
            then (case ve_attempt v True purpose doc of None \<Rightarrow> Inr () | Some e' \<Rightarrow> Inl (map_error (ve_show v) e'))
            else Inl (map_error (ve_show v) e))"

definition wrong_purpose :: "document \<Rightarrow> string \<Rightarrow> bool" where
  "wrong_purpose doc purpose = (case d_proof doc of Some p \<Rightarrow> pf_purpose p \<noteq> purpose | None \<Rightarrow> False)"

definition verify_operational :: "verifier \<Rightarrow> document \<Rightarrow> verification_error + unit" where
  "verify_operational v doc = (if wrong_purpose doc OPERATIONAL_PROOF_PURPOSE then Inl MalformedProof
     else verify_with v doc OPERATIONAL_PROOF_PURPOSE True)"

definition verify_approval :: "verifier \<Rightarrow> document \<Rightarrow> verification_error + unit" where
  "verify_approval v doc = (if wrong_purpose doc APPROVAL_PROOF_PURPOSE then Inl MalformedProof
     else verify_with v doc APPROVAL_PROOF_PURPOSE False)"

text \<open>The general check, for the purpose the proof declares.\<close>

definition verify_declared :: "verifier \<Rightarrow> document \<Rightarrow> verification_error + unit" where
  "verify_declared v doc = (case d_proof doc of
     None \<Rightarrow> verify_with v doc OPERATIONAL_PROOF_PURPOSE True
   | Some p \<Rightarrow> (case ve_purpose v (pf_purpose p) of
       None \<Rightarrow> Inl MalformedProof
     | Some purpose \<Rightarrow> verify_with v doc purpose (purpose \<noteq> APPROVAL_PROOF_PURPOSE)))"

section \<open>Documents bound to their sender (bound.rs)\<close>

datatype bound_error =
    MissingProof | MissingIssuer | UnexpectedIssuer string string | SenderMismatch string string | MissingRecipient
  | WrongRecipient string string | MissingIssuedAt | Stale | Expired int | BoundProof verification_error

datatype reject_reason =
    ProofRequired | MalformedRequest | WrongRecipientReason string string | ExpiredReason int | PermissionDeniedReason
  | ProofInvalid | Unavailable | IdConflict

definition is_transient :: "bound_error \<Rightarrow> bool" where
  "is_transient e = (case e of BoundProof v \<Rightarrow> is_unreachable v | _ \<Rightarrow> False)"

definition bound_reject_reason :: "bound_error \<Rightarrow> reject_reason" where
  "bound_reject_reason e = (if is_transient e then Unavailable else case e of
     MissingProof \<Rightarrow> ProofRequired
   | MissingIssuer \<Rightarrow> MalformedRequest | MissingRecipient \<Rightarrow> MalformedRequest | MissingIssuedAt \<Rightarrow> MalformedRequest
   | WrongRecipient got expected \<Rightarrow> WrongRecipientReason got expected
   | Expired at \<Rightarrow> ExpiredReason at
   | Stale \<Rightarrow> MalformedRequest
   | UnexpectedIssuer _ _ \<Rightarrow> PermissionDeniedReason | SenderMismatch _ _ \<Rightarrow> PermissionDeniedReason
   | BoundProof _ \<Rightarrow> ProofInvalid)"

datatype relationship = AuthenticationKey | AssertionMethodKey

definition verify_bound ::
  "verifier \<Rightarrow> document \<Rightarrow> string option \<Rightarrow> string option \<Rightarrow> string \<Rightarrow> int \<Rightarrow> relationship \<Rightarrow> bound_error + string" where
  "verify_bound v doc expected_issuer transport_sender my_vid now rel =
    (if d_proof doc = None then Inl MissingProof else
     and_then (ok_or MissingIssuer (d_issuer doc)) (\<lambda>issuer.
     and_then (case expected_issuer of
         Some e \<Rightarrow> if issuer \<noteq> e then Inl (UnexpectedIssuer issuer e) else Inr () | None \<Rightarrow> Inr ()) (\<lambda>_.
     and_then (case transport_sender of
         Some s \<Rightarrow> if controller_did s \<noteq> issuer then Inl (SenderMismatch issuer s) else Inr () | None \<Rightarrow> Inr ()) (\<lambda>_.
     and_then (ok_or MissingRecipient (d_recipient doc)) (\<lambda>recipient.
     if recipient \<noteq> my_vid then Inl (WrongRecipient recipient my_vid) else
     and_then (ok_or MissingIssuedAt (d_issued_at doc)) (\<lambda>issued_at.
     if issued_at < now - int FRESHNESS_WINDOW_SECS * NANOS \<or> now + int FUTURE_SKEW_SECS * NANOS < issued_at then Inl Stale
     else (case (case d_expires_at doc of Some x \<Rightarrow> if x \<le> now then Some x else None | None \<Rightarrow> None) of
         Some x \<Rightarrow> Inl (Expired x)
       | None \<Rightarrow> (case (case rel of AuthenticationKey \<Rightarrow> verify_operational v doc | AssertionMethodKey \<Rightarrow> verify_approval v doc) of
           Inl e \<Rightarrow> Inl (BoundProof e) | Inr _ \<Rightarrow> Inr issuer))))))))"

definition verify_sender_bound ::
  "verifier \<Rightarrow> document \<Rightarrow> string option \<Rightarrow> string option \<Rightarrow> string \<Rightarrow> int \<Rightarrow> bound_error + string" where
  "verify_sender_bound v doc expected_issuer transport_sender my_vid now =
     verify_bound v doc expected_issuer transport_sender my_vid now AuthenticationKey"

definition verify_sender_bound_approval :: "verifier \<Rightarrow> document \<Rightarrow> string option \<Rightarrow> string \<Rightarrow> int \<Rightarrow> bound_error + string" where
  "verify_sender_bound_approval v doc transport_sender my_vid now =
     verify_bound v doc None transport_sender my_vid now AssertionMethodKey"

datatype bound_key_error = KeyUnsupported | KeyMissingProof | NotIssuerKey | WrongPurpose string | KeyProof verification_error

definition bound_key_reject_reason :: "bound_key_error \<Rightarrow> reject_reason" where
  "bound_key_reject_reason e = (case e of
     KeyMissingProof \<Rightarrow> ProofRequired | KeyUnsupported \<Rightarrow> PermissionDeniedReason | _ \<Rightarrow> ProofInvalid)"

text \<open>The verifier here resolves did:key identifiers only, without any network.\<close>

definition verify_bound_key ::
  "verifier \<Rightarrow> (string \<Rightarrow> bool) \<Rightarrow> document \<Rightarrow> string list \<Rightarrow> bound_key_error + string" where
  "verify_bound_key key_verifier is_ed25519_multikey doc purposes =
    (let issuer = (case d_issuer doc of Some i \<Rightarrow> i | None \<Rightarrow> []) in
     case (case strip_prefix_str ''did:key:'' issuer of Some mk \<Rightarrow> if is_ed25519_multikey mk then Some mk else None | None \<Rightarrow> None) of
       None \<Rightarrow> Inl KeyUnsupported
     | Some multikey \<Rightarrow> (case d_proof doc of
         None \<Rightarrow> Inl KeyMissingProof
       | Some p \<Rightarrow>
           if pf_method p \<noteq> issuer @ ''#'' @ multikey then Inl NotIssuerKey
           else if pf_purpose p \<notin> set purposes then Inl (WrongPurpose (pf_purpose p))
           else (case verify_declared key_verifier doc of Inl e \<Rightarrow> Inl (KeyProof e) | Inr _ \<Rightarrow> Inr issuer)))"

section \<open>The edge's gate (messaging.rs of the server)\<close>

definition MSG_SERVER_METRICS :: string where
  "MSG_SERVER_METRICS = ''https://trusttasks.org/spec/did-management/server/metrics/0.1''"

definition CONTROL_PLANE_OPS :: "string list" where
  "CONTROL_PLANE_OPS = [MSG_SYNC_UPDATE, MSG_SYNC_BATCH, MSG_SYNC_DELETE, MSG_REPLICA_DOMAIN_ASSIGN,
     MSG_REPLICA_DOMAIN_UNASSIGN, MSG_REPLICA_DOMAIN_PURGE, MSG_REPLICA_DOMAIN_UPSERT, MSG_SERVER_METRICS]"

record ('e, 'p, 'k) edge_gate =
  eg_ops :: "('e, 'p, 'k) op_env"
  eg_verifier :: verifier
  eg_control_did :: "string option"
  eg_server_did :: "string option"
  eg_metrics :: "edge_state \<Rightarrow> json \<Rightarrow> op_error + json"

datatype refusal = Unverified reject_reason | NotAuthorized string

definition verify_control_plane ::
  "('e, 'p, 'k) edge_gate \<Rightarrow> string option \<Rightarrow> document \<Rightarrow> int \<Rightarrow> int \<Rightarrow> replay_cache \<Rightarrow> (refusal + verified_control_plane) \<times> replay_cache" where
  "verify_control_plane g transport_sender doc now later c0 = (case (eg_control_did g, eg_server_did g) of
     (Some control_did, Some my_did) \<Rightarrow>
       if d_issuer doc \<noteq> Some control_did then (Inl (Unverified PermissionDeniedReason), c0)
       else (case verify_sender_bound (eg_verifier g) doc None transport_sender my_did now of
           Inl e \<Rightarrow> (Inl (Unverified (bound_reject_reason e)), c0)
         | Inr did \<Rightarrow>
             if did \<noteq> control_did then (Inl (NotAuthorized did), c0)
             else (case check_at did (d_id doc) (epoch_seconds later) c0 of
                 (Inl Duplicate, c) \<Rightarrow> (Inl (Unverified IdConflict), c)
               | (Inl Full, c) \<Rightarrow> (Inl (Unverified Unavailable), c)
               | (Inr _, c) \<Rightarrow> (Inr \<lparr>vc_did = did, vc_issued_at = (case d_issued_at doc of Some t \<Rightarrow> epoch_seconds t | None \<Rightarrow> 0)\<rparr>, c)))
   | _ \<Rightarrow> (Inl (Unverified PermissionDeniedReason), c0))"

text \<open>The reply to a document of the control plane, the answer to a stranger, or the silence an unverified
  document gets. None is a type that is not a control-plane operation.\<close>

datatype control_plane_reply = Replied "op_error + json" | NotOurControlPlane string | NoReply reject_reason

definition dispatch_control_plane_op ::
  "('e, 'p, 'k) edge_gate \<Rightarrow> string option \<Rightarrow> document \<Rightarrow> int \<Rightarrow> int \<Rightarrow> replay_cache \<times> edge_state
   \<Rightarrow> control_plane_reply option \<times> replay_cache \<times> edge_state" where
  "dispatch_control_plane_op g transport_sender doc now later s = (case s of (c0, st) \<Rightarrow>
     if d_type doc \<notin> set CONTROL_PLANE_OPS then (None, c0, st)
     else (case verify_control_plane g transport_sender doc now later c0 of
         (Inl (NotAuthorized issuer), c) \<Rightarrow> (Some (NotOurControlPlane issuer), c, st)
       | (Inl (Unverified r), c) \<Rightarrow> (Some (NoReply r), c, st)
       | (Inr vc, c) \<Rightarrow>
           if d_type doc = MSG_SERVER_METRICS then (Some (Replied (eg_metrics g st (d_payload doc))), c, st)
           else (case dispatch_op (eg_ops g) vc (epoch_seconds later) (d_type doc, d_payload doc) st of
               (r, st') \<Rightarrow> (map_option Replied r, c, st'))))"

section \<open>The control plane's gate (messaging.rs of the control plane)\<close>

datatype proof_rule = RuleOptional | RuleAuthentication | RuleAssertionMethod | RuleSessionKey | RuleBoundKey "string list"

definition uses_shared_replay_cache :: "proof_rule \<Rightarrow> bool" where
  "uses_shared_replay_cache r = (case r of RuleBoundKey _ \<Rightarrow> False | _ \<Rightarrow> True)"

record route_env =
  rt_rule :: "string \<Rightarrow> proof_rule"
  rt_error_prefix :: string
  rt_ack_types :: "string list"
  rt_my_did :: string
  rt_verifier :: verifier
  rt_key_verifier :: verifier
  rt_is_ed25519 :: "string \<Rightarrow> bool"
  rt_admit_bound :: "document \<Rightarrow> bool"
  rt_push :: push_env

record gate_state =
  gs_replay :: replay_cache
  gs_budget :: budget
  gs_push :: push_state

text \<open>Ignored: a terminal error, which may settle an entry. Sealed: refused in the exchange's own form.
  Admitted: the principal everything below authorises on.\<close>

datatype gate_verdict = Ignored | Sealed | Rejected reject_reason | Admitted string

definition terminal_error ::
  "route_env \<Rightarrow> acl \<Rightarrow> string \<Rightarrow> document \<Rightarrow> int \<Rightarrow> int \<Rightarrow> gate_state \<Rightarrow> gate_state" where
  "terminal_error env a sender doc now later s =
    (let retryable = (case Option.bind (json_get ''retryable'' (d_payload doc)) json_bool of Some b \<Rightarrow> b | None \<Rightarrow> False)
     in if d_proof doc \<noteq> None \<and> \<not> retryable \<and> (is_configured_watcher (rt_push env) sender \<or> get_acl_entry a sender \<noteq> None)
        then (case verify_sender_bound (rt_verifier env) doc None (Some sender) (rt_my_did env) now of
            Inl _ \<Rightarrow> s
          | Inr signer \<Rightarrow> s\<lparr>gs_push := acknowledge_outbox (rt_push env) a signer (d_thread doc) (d_payload doc) (epoch_seconds later) (gs_push s)\<rparr>)
        else s)"

definition principal_of ::
  "route_env \<Rightarrow> proof_rule \<Rightarrow> string \<Rightarrow> document \<Rightarrow> int \<Rightarrow> gate_verdict" where
  "principal_of env rule sender doc now = (case rule of
     RuleAssertionMethod \<Rightarrow> (case verify_sender_bound_approval (rt_verifier env) doc (Some sender) (rt_my_did env) now of
         Inl e \<Rightarrow> Rejected (bound_reject_reason e) | Inr p \<Rightarrow> Admitted p)
   | RuleBoundKey purposes \<Rightarrow> (case verify_bound_key (rt_key_verifier env) (rt_is_ed25519 env) doc purposes of
         Inl _ \<Rightarrow> Sealed | Inr p \<Rightarrow> Admitted p)
   | _ \<Rightarrow> (case verify_sender_bound (rt_verifier env) doc None (Some sender) (rt_my_did env) now of
         Inl e \<Rightarrow> Rejected (bound_reject_reason e) | Inr p \<Rightarrow> Admitted p))"

definition replay_gate :: "proof_rule \<Rightarrow> bool \<Rightarrow> string \<Rightarrow> document \<Rightarrow> int \<Rightarrow> gate_state \<Rightarrow> gate_verdict \<times> gate_state" where
  "replay_gate rule signed who doc later s =
    (if \<not> (signed \<and> uses_shared_replay_cache rule) then (Admitted who, s)
     else (case check_at who (d_id doc) (epoch_seconds later) (gs_replay s) of
         (Inl Duplicate, c) \<Rightarrow> (Rejected IdConflict, s\<lparr>gs_replay := c\<rparr>)
       | (Inl Full, c) \<Rightarrow> (Rejected Unavailable, s\<lparr>gs_replay := c\<rparr>)
       | (Inr _, c) \<Rightarrow> (Admitted who, s\<lparr>gs_replay := c\<rparr>)))"

definition route_gate ::
  "route_env \<Rightarrow> acl \<Rightarrow> bool \<Rightarrow> string \<Rightarrow> document \<Rightarrow> large_document_charge option \<Rightarrow> int \<Rightarrow> int \<Rightarrow> gate_state
   \<Rightarrow> gate_verdict \<times> gate_state" where
  "route_gate env a https sender doc charge now later s =
    (let rule = rt_rule env (d_type doc);
         bound_key = (case rule of RuleBoundKey _ \<Rightarrow> True | _ \<Rightarrow> False);
         signed = (rule \<noteq> RuleOptional \<or> d_proof doc \<noteq> None);
         needs_acl = (rule = RuleAuthentication \<or> rule = RuleAssertionMethod);
         watcher_ack = (d_type doc \<in> set (rt_ack_types env) \<and> is_configured_watcher (rt_push env) sender)
     in if prefix (rt_error_prefix env) (d_type doc) then (Ignored, terminal_error env a sender doc now later s)
        else if bound_key \<and> \<not> https then (Rejected PermissionDeniedReason, s)
        else if bound_key \<and> \<not> rt_admit_bound env doc then (Sealed, s)
        else if rule = RuleSessionKey \<and> (case d_proof doc of Some p \<Rightarrow> \<not> prefix ''did:key:'' (pf_method p) | None \<Rightarrow> False)
        then (Rejected PermissionDeniedReason, s)
        else if needs_acl \<and> \<not> watcher_ack \<and> get_acl_entry a sender = None then (Rejected PermissionDeniedReason, s)
        else if \<not> signed then (Admitted sender, s)
        else let v = principal_of env rule sender doc now;
                 s1 = s\<lparr>gs_budget := settle_large_document_charge charge (case v of Admitted p \<Rightarrow> Some p | _ \<Rightarrow> None) (gs_budget s)\<rparr>
        in (case v of Admitted p \<Rightarrow> replay_gate rule signed p doc later s1 | _ \<Rightarrow> (v, s1)))"

section \<open>What a verified document proves\<close>

definition proven :: "verifier \<Rightarrow> document \<Rightarrow> string \<Rightarrow> bool \<Rightarrow> string \<Rightarrow> bool" where
  "proven v doc purpose delegation who \<longleftrightarrow> (\<exists>p. d_proof doc = Some p \<and> pf_purpose p = purpose
     \<and> (controller_did (pf_method p) = who \<or> delegation \<and> ve_delegate v = Some (who, pf_method p))
     \<and> (ve_attempt v False purpose doc = None \<or> ve_attempt v True purpose doc = None))"

definition fresh_at :: "document \<Rightarrow> int \<Rightarrow> bool" where
  "fresh_at doc now \<longleftrightarrow> (\<exists>t. d_issued_at doc = Some t \<and> now - int FRESHNESS_WINDOW_SECS * NANOS \<le> t
     \<and> t \<le> now + int FUTURE_SKEW_SECS * NANOS) \<and> (\<forall>x. d_expires_at doc = Some x \<longrightarrow> now < x)"

text \<open>The rule a document is held to, with the DID it proves.\<close>

definition sender_bound :: "verifier \<Rightarrow> document \<Rightarrow> string option \<Rightarrow> string \<Rightarrow> int \<Rightarrow> relationship \<Rightarrow> string \<Rightarrow> bool" where
  "sender_bound v doc sender my_vid now rel who \<longleftrightarrow> d_issuer doc = Some who \<and> d_recipient doc = Some my_vid \<and> fresh_at doc now
     \<and> (\<forall>s. sender = Some s \<longrightarrow> controller_did s = who)
     \<and> (case rel of AuthenticationKey \<Rightarrow> proven v doc OPERATIONAL_PROOF_PURPOSE True who
          | AssertionMethodKey \<Rightarrow> proven v doc APPROVAL_PROOF_PURPOSE False who)"

lemma verify_with_proven:
  "verify_with v doc purpose d = Inr () \<Longrightarrow> \<not> wrong_purpose doc purpose \<Longrightarrow> d_issuer doc = Some who \<Longrightarrow> proven v doc purpose d who"
  by (auto simp: verify_with_def prepare_def wrong_purpose_def proven_def Let_def res_simps split: option.splits if_splits)

lemma verify_bound_sound:
  assumes "verify_bound v doc e sender my_vid now rel = Inr who"
  shows "sender_bound v doc sender my_vid now rel who"
proof -
  have "d_issuer doc = Some who \<and> d_recipient doc = Some my_vid \<and> fresh_at doc now \<and> (\<forall>s. sender = Some s \<longrightarrow> controller_did s = who)
    \<and> (case rel of AuthenticationKey \<Rightarrow> verify_operational v doc = Inr () | AssertionMethodKey \<Rightarrow> verify_approval v doc = Inr ())"
    using assms by (auto simp: verify_bound_def fresh_at_def res_simps ok_or_def not_less not_le
        split: option.splits if_splits sum.splits relationship.splits)
  then show ?thesis
    using verify_with_proven[of v doc] by (auto simp: sender_bound_def verify_operational_def verify_approval_def split: relationship.splits if_splits)
qed

lemma verify_control_plane_cases:
  assumes "verify_control_plane g sender doc now later c = (r, c')"
  obtains (untouched) e where "r = Inl e" "c' = c"
  | (checked) who my where "eg_control_did g = Some who" "eg_server_did g = Some my"
      "sender_bound (eg_verifier g) doc sender my now AuthenticationKey who"
      "c' = snd (check_at who (d_id doc) (epoch_seconds later) c)"
      "is_ok r \<longleftrightarrow> is_ok (fst (check_at who (d_id doc) (epoch_seconds later) c))"
      "\<And>x. r = Inr x \<Longrightarrow> vc_did x = who"
  using assms
  by (auto simp: verify_control_plane_def verify_sender_bound_def dest!: verify_bound_sound
      split: option.splits if_splits sum.splits prod.splits replay_error.splits)

text \<open>C34: An edge acts on nothing but its control plane's signed, current documents. Applying a document
  changes what the edge holds only if its issuer is the configured control plane, it is addressed to
  this edge, it was issued inside the freshness window and has not expired, the transport does not
  report another sender, its proof is an authentication proof under a key of that DID whose signature
  verified, and neither it nor another document of the same id was recorded before.\<close>

theorem edge_acts_on_control_plane:
  "snd (snd (dispatch_control_plane_op g sender doc now later (c, st))) = st
   \<or> (\<exists>who my. eg_control_did g = Some who \<and> eg_server_did g = Some my
        \<and> sender_bound (eg_verifier g) doc sender my now AuthenticationKey who
        \<and> fst (check_at who (d_id doc) (epoch_seconds later) c) = Inr ())"
proof -
  obtain r c' where v: "verify_control_plane g sender doc now later c = (r, c')" by force
  show ?thesis
  proof (cases r)
    case (Inl e)
    then show ?thesis using v by (cases e) (simp_all add: dispatch_control_plane_op_def)
  next
    case (Inr x)
    from v show ?thesis by (cases rule: verify_control_plane_cases) (auto simp: Inr is_ok_iff)
  qed
qed

section \<open>No document is accepted twice\<close>

lemma epoch_gap: "b \<le> a + int n * NANOS \<Longrightarrow> epoch_seconds b - epoch_seconds a \<le> n"
proof -
  assume "b \<le> a + int n * NANOS"
  then have "b div NANOS \<le> (a + int n * NANOS) div NANOS" by (simp add: zdiv_mono1 NANOS_def)
  also have "\<dots> = a div NANOS + int n" by (simp add: NANOS_def)
  finally show ?thesis by (simp add: epoch_seconds_def)
qed

text \<open>C35: A document is applied at most once. When an edge accepts a document it has accepted before, then -
  whatever else it was sent in between - the freshness window of the document has closed by the time
  its replay cache is asked. (The check of the window precedes the check of the proof, and the cache
  comes after both: only a document whose proof took the edge past the window can slip through.)\<close>

theorem control_plane_documents_once:
  assumes "verify_control_plane g s1 doc n1 l1 (fold (\<lambda>(d, s, n, l) c. snd (verify_control_plane g s d n l c)) before new_replay_cache) = (Inr x1, c1)"
    "n1 \<le> l1"
    "\<forall>(d, s, n, l) \<in> set between. l \<le> l2"
    "verify_control_plane g s2 doc n2 l2 (fold (\<lambda>(d, s, n, l) c. snd (verify_control_plane g s d n l c)) between c1) = (Inr x2, c2)"
  shows "\<exists>t. d_issued_at doc = Some t \<and> n2 \<le> t + int FRESHNESS_WINDOW_SECS * NANOS \<and> t + int FRESHNESS_WINDOW_SECS * NANOS < l2"
proof (rule ccontr)
  assume late: "\<not> ?thesis"
  let ?step = "\<lambda>(d, s, n, l) c. snd (verify_control_plane g s d n l c)"
  let ?c0 = "fold ?step before new_replay_cache"
  obtain who my where a: "sender_bound (eg_verifier g) doc s1 my n1 AuthenticationKey who" "eg_control_did g = Some who"
    "c1 = snd (check_at who (d_id doc) (epoch_seconds l1) ?c0)" "is_ok (fst (check_at who (d_id doc) (epoch_seconds l1) ?c0))"
    using assms(1) by (cases rule: verify_control_plane_cases) auto
  obtain who' my' where b: "sender_bound (eg_verifier g) doc s2 my' n2 AuthenticationKey who'" "eg_control_did g = Some who'"
    "is_ok (fst (check_at who' (d_id doc) (epoch_seconds l2) (fold ?step between c1)))"
    using assms(4) by (cases rule: verify_control_plane_cases) auto
  have w: "who' = who" using a(2) b(2) by simp
  obtain t where t: "d_issued_at doc = Some t" "t \<le> n1 + int FUTURE_SKEW_SECS * NANOS" "n2 - int FRESHNESS_WINDOW_SECS * NANOS \<le> t"
    using a(1) b(1) by (auto simp: sender_bound_def fresh_at_def)
  then have l2: "l2 \<le> t + int FRESHNESS_WINDOW_SECS * NANOS" using late by force
  then have gap: "epoch_seconds l - epoch_seconds l1 \<le> REPLAY_WINDOW_SECS" if "l \<le> l2" for l
    using t(2) assms(2) that
    by (intro epoch_gap) (simp add: REPLAY_WINDOW_SECS_def FRESHNESS_WINDOW_SECS_def FUTURE_SKEW_SECS_def NANOS_def)
  have ok: "replay_ok (fold ?step xs c)" if "replay_ok c" for xs c
    using that
  proof (induction xs arbitrary: c)
    case (Cons x xs)
    obtain d s n l where x: "x = (d, s, n, l)" by (metis prod.exhaust)
    obtain r c' where v: "verify_control_plane g s d n l c = (r, c')" by force
    then have "replay_ok c'" using Cons.prems check_ok by (cases rule: verify_control_plane_cases) auto
    then show ?case using Cons.IH by (simp add: x v)
  qed simp
  have steps: "replay.only_checks (epoch_seconds l1) ?step between"
    unfolding replay.only_checks_def
  proof (intro ballI allI)
    fix x c assume "x \<in> set between"
    then obtain d s n l where x: "x = (d, s, n, l)" "l \<le> l2" using assms(3) by (metis (no_types, lifting) case_prodD prod.exhaust)
    obtain r c' where v: "verify_control_plane g s d n l c = (r, c')" by force
    have e: "?step x c = c'" by (simp add: x(1) v)
    from v show "?step x c = c \<or> (\<exists>s i now. now - epoch_seconds l1 \<le> REPLAY_WINDOW_SECS \<and> ?step x c = snd (check_at s i now c))"
      unfolding e using gap[OF x(2)] by (cases rule: verify_control_plane_cases) blast+
  qed
  have "check_at who (d_id doc) (epoch_seconds l1) ?c0 = (Inr (), c1)"
    using a(3,4) by (cases "check_at who (d_id doc) (epoch_seconds l1) ?c0") (auto simp: is_ok_iff)
  from replay.accepted_once[OF ok[OF new_replay_ok] this steps gap[OF order_refl]] show False using b(3) w by simp
qed

section \<open>What the control plane's gate admits\<close>

lemma replay_gate_admitted:
  "fst (replay_gate rule signed who doc later s) = Admitted x \<Longrightarrow> x = who
    \<and> (signed \<and> uses_shared_replay_cache rule \<longrightarrow> fst (check_at who (d_id doc) (epoch_seconds later) (gs_replay s)) = Inr ())"
  by (auto simp: replay_gate_def split: if_splits prod.splits sum.splits replay_error.splits)

lemma principal_admitted:
  assumes "principal_of env rule sender doc now = Admitted who"
  shows "case rule of
      RuleBoundKey purposes \<Rightarrow> verify_bound_key (rt_key_verifier env) (rt_is_ed25519 env) doc purposes = Inr who
    | RuleAssertionMethod \<Rightarrow> sender_bound (rt_verifier env) doc (Some sender) (rt_my_did env) now AssertionMethodKey who
    | _ \<Rightarrow> sender_bound (rt_verifier env) doc (Some sender) (rt_my_did env) now AuthenticationKey who"
  using assms by (cases rule) (auto simp: principal_of_def verify_sender_bound_def verify_sender_bound_approval_def
      dest!: verify_bound_sound split: sum.splits)

lemma bound_key_sound:
  assumes "verify_bound_key v is_ed25519 doc purposes = Inr who"
  shows "d_issuer doc = Some who \<and> (\<exists>mk p. who = ''did:key:'' @ mk \<and> is_ed25519 mk \<and> d_proof doc = Some p
    \<and> pf_method p = who @ ''#'' @ mk \<and> pf_purpose p \<in> set purposes \<and> verify_declared v doc = Inr ())"
  using assms by (auto simp: verify_bound_key_def Let_def strip_prefix_Some split: option.splits if_splits sum.splits)

text \<open>C36: The control plane's gate. A document that is admitted for a task whose rule asks for a proof, or
  that carries one, is admitted as the DID its own proof establishes: for a request or a decision, the
  issuer, which the transport's sender agrees with, addressed here, current, with a signature of the
  purpose the rule asks for, and not recorded before; for the step of a bound-key exchange, the did:key
  that signed it. An operational request or a decision is admitted only from a sender in the access
  list, except a configured watcher's acknowledgement.\<close>

theorem route_gate_sound:
  assumes "fst (route_gate env a https sender doc charge now later s) = Admitted who"
    "rt_rule env (d_type doc) \<noteq> RuleOptional \<or> d_proof doc \<noteq> None"
  shows "(case rt_rule env (d_type doc) of
      RuleBoundKey purposes \<Rightarrow> https \<and> d_issuer doc = Some who \<and> (\<exists>mk p. who = ''did:key:'' @ mk \<and> rt_is_ed25519 env mk
        \<and> d_proof doc = Some p \<and> pf_method p = who @ ''#'' @ mk \<and> pf_purpose p \<in> set purposes
        \<and> verify_declared (rt_key_verifier env) doc = Inr ())
    | RuleAssertionMethod \<Rightarrow> sender_bound (rt_verifier env) doc (Some sender) (rt_my_did env) now AssertionMethodKey who
    | _ \<Rightarrow> sender_bound (rt_verifier env) doc (Some sender) (rt_my_did env) now AuthenticationKey who)
    \<and> (uses_shared_replay_cache (rt_rule env (d_type doc)) \<longrightarrow>
        fst (check_at who (d_id doc) (epoch_seconds later) (gs_replay s)) = Inr ())
    \<and> (rt_rule env (d_type doc) \<in> {RuleAuthentication, RuleAssertionMethod} \<longrightarrow> get_acl_entry a sender \<noteq> None
        \<or> d_type doc \<in> set (rt_ack_types env) \<and> is_configured_watcher (rt_push env) sender)"
proof -
  let ?rule = "rt_rule env (d_type doc)"
  obtain p where p: "principal_of env ?rule sender doc now = Admitted p"
    "fst (replay_gate ?rule True p doc later (s\<lparr>gs_budget := settle_large_document_charge charge (Some p) (gs_budget s)\<rparr>)) = Admitted who"
    and acl: "?rule \<in> {RuleAuthentication, RuleAssertionMethod} \<longrightarrow> get_acl_entry a sender \<noteq> None
        \<or> d_type doc \<in> set (rt_ack_types env) \<and> is_configured_watcher (rt_push env) sender"
    and bk: "(case ?rule of RuleBoundKey _ \<Rightarrow> https | _ \<Rightarrow> True)"
    using assms unfolding route_gate_def Let_def
    by (auto split: if_splits gate_verdict.splits proof_rule.splits)
  note r = replay_gate_admitted[OF p(2)]
  have w: "p = who" using r by simp
  show ?thesis
    using principal_admitted[OF p(1)] bk acl r bound_key_sound unfolding w by (cases ?rule) (auto dest!: bound_key_sound)
qed

section \<open>Examples\<close>

definition verifier_sample :: verifier where
  "verifier_sample = \<lparr>ve_attempt = (\<lambda>_ _ _. None), ve_show = (\<lambda>_. []), ve_parses = (\<lambda>_. True), ve_purpose = Some,
     ve_refresh = (\<lambda>_. False), ve_delegate = None\<rparr>"

definition gate_sample :: "(string, nat, string \<times> nat) edge_gate" where
  "gate_sample = \<lparr>eg_ops = op_sample, eg_verifier = verifier_sample, eg_control_did = Some ''did:c'', eg_server_did = Some ''did:e'',
     eg_metrics = (\<lambda>_ _. Inr JNull)\<rparr>"

text \<open>A delete, issued at second 1000 by a clock a minute ahead.\<close>

definition delete_doc :: document where
  "delete_doc = \<lparr>d_id = ''1'', d_type = MSG_SYNC_DELETE, d_thread = None, d_issuer = Some ''did:c'', d_recipient = Some ''did:e'',
     d_issued_at = Some (1000 * NANOS), d_expires_at = None, d_proof = Some \<lparr>pf_method = ''did:c#k'', pf_purpose = ''authentication''\<rparr>,
     d_payload = snd (delete_frame ''p'')\<rparr>"

text \<open>It is accepted at second 940, and a second time when a check that begins at second 1300 - the last at
  which it is fresh - takes until second 1301 to verify the proof, by when the first record has just expired.
  A cache asked at second 1300 refuses it.\<close>

definition accepted_first :: replay_cache where
  "accepted_first = snd (verify_control_plane gate_sample None delete_doc (940 * NANOS) (940 * NANOS) new_replay_cache)"

lemma slow_proof_replays:
  "is_ok (fst (verify_control_plane gate_sample None delete_doc (1300 * NANOS) (1301 * NANOS) accepted_first))
    \<and> fst (verify_control_plane gate_sample None delete_doc (1300 * NANOS) (1300 * NANOS) accepted_first) = Inl (Unverified IdConflict)"
  by code_simp

theorem control_plane_documents_once_witness:
  "\<exists>t. d_issued_at delete_doc = Some t \<and> 1300 * NANOS \<le> t + int FRESHNESS_WINDOW_SECS * NANOS \<and> t + int FRESHNESS_WINDOW_SECS * NANOS < 1301 * NANOS"
proof -
  have o: "is_ok (fst (verify_control_plane gate_sample None delete_doc (940 * NANOS) (940 * NANOS) new_replay_cache))"
    "is_ok (fst (verify_control_plane gate_sample None delete_doc (1300 * NANOS) (1301 * NANOS) accepted_first))" by code_simp+
  then obtain x1 x2 c2 where v: "verify_control_plane gate_sample None delete_doc (940 * NANOS) (940 * NANOS) new_replay_cache = (Inr x1, accepted_first)"
    "verify_control_plane gate_sample None delete_doc (1300 * NANOS) (1301 * NANOS) accepted_first = (Inr x2, c2)"
    unfolding accepted_first_def is_ok_iff by (metis prod.collapse)
  show ?thesis
    by (rule control_plane_documents_once[of gate_sample None delete_doc "940 * NANOS" "940 * NANOS" "[]" x1 accepted_first "[]" "1301 * NANOS" None "1300 * NANOS" x2 c2])
      (use v in simp_all)
qed

definition route_sample :: route_env where
  "route_sample = \<lparr>rt_rule = (\<lambda>_. RuleAuthentication), rt_error_prefix = ''error'', rt_ack_types = [], rt_my_did = ''did:e'',
     rt_verifier = verifier_sample, rt_key_verifier = verifier_sample, rt_is_ed25519 = (\<lambda>_. True), rt_admit_bound = (\<lambda>_. True),
     rt_push = push_sample\<rparr>"

theorem route_gate_sound_witness:
  "sender_bound verifier_sample delete_doc (Some ''did:c'') ''did:e'' (1000 * NANOS) AuthenticationKey ''did:c''
    \<and> get_acl_entry (service_acl ''did:c'') ''did:c'' \<noteq> None"
proof -
  let ?s = "\<lparr>gs_replay = new_replay_cache, gs_budget = new_budget, gs_push = push_idle\<rparr>"
  have "fst (route_gate route_sample (service_acl ''did:c'') False ''did:c'' delete_doc None (1000 * NANOS) (1000 * NANOS) ?s) = Admitted ''did:c''"
    by code_simp
  moreover have "rt_rule route_sample (d_type delete_doc) \<noteq> RuleOptional \<or> d_proof delete_doc \<noteq> None"
    by (simp add: route_sample_def)
  ultimately show ?thesis using route_gate_sound by (fastforce simp: route_sample_def)
qed

end
