(* ===== verification/OobStore.thy ===== *)
theory OobStore
  imports DidLog "HOL-Library.AList"
begin

text \<open>
  The store of wallet sign-in requests (did-hosting-control/src/oob/store.rs) with the request states
  and error codes of oob/types.rs. The hash maps are association lists, the hash sets lists without
  repetition, and a waiter is the request it wakes. Each call is one critical section. Times are epoch
  seconds, versions count changes; neither comes near 2^64.
\<close>

section \<open>Request states and error codes (types.rs)\<close>

datatype oob_state = Pending | Claimed | Identified | Approved | Consumed | Declined | Cancelled | Expired

definition oob_state_name :: "oob_state \<Rightarrow> string" where
  "oob_state_name s = (case s of
     Pending \<Rightarrow> ''pending'' | Claimed \<Rightarrow> ''claimed'' | Identified \<Rightarrow> ''identified'' | Approved \<Rightarrow> ''approved''
   | Consumed \<Rightarrow> ''consumed'' | Declined \<Rightarrow> ''declined'' | Cancelled \<Rightarrow> ''cancelled'' | Expired \<Rightarrow> ''expired'')"

definition is_final :: "oob_state \<Rightarrow> bool" where
  "is_final s = (case s of Consumed \<Rightarrow> True | Declined \<Rightarrow> True | Cancelled \<Rightarrow> True | Expired \<Rightarrow> True | _ \<Rightarrow> False)"

definition in_decision_window :: "oob_state \<Rightarrow> bool" where
  "in_decision_window s = (case s of Claimed \<Rightarrow> True | Identified \<Rightarrow> True | Approved \<Rightarrow> True | _ \<Rightarrow> False)"

lemma state_simps [simp]:
  "\<not> is_final Pending" "\<not> is_final Claimed" "\<not> is_final Identified" "\<not> is_final Approved"
  "is_final Consumed" "is_final Declined" "is_final Cancelled" "is_final Expired"
  "\<not> in_decision_window Pending" "in_decision_window Claimed" "in_decision_window Identified" "in_decision_window Approved"
  "\<not> in_decision_window Consumed" "\<not> in_decision_window Declined" "\<not> in_decision_window Cancelled" "\<not> in_decision_window Expired"
  by (simp_all add: is_final_def in_decision_window_def)

datatype oob_code =
    PurposeUnsupported | ModeUnsupported | KeyUnsupportedCode | RateLimitedCode | RequestNotFound | RequestExpired
  | AlreadyClaimed | NotClaimant | NumberMismatch | NotAuthorizedCode | AlreadyDecided | ContextMismatch | PendingCode
  | DeclinedCode | NotStarter | MalformedCode

definition oob_http_status :: "oob_code \<Rightarrow> nat" where
  "oob_http_status c = (case c of
     RateLimitedCode \<Rightarrow> 429 | RequestNotFound \<Rightarrow> 404
   | NotAuthorizedCode \<Rightarrow> 403 | NotClaimant \<Rightarrow> 403 | NotStarter \<Rightarrow> 403
   | MalformedCode \<Rightarrow> 400 | KeyUnsupportedCode \<Rightarrow> 400 | PurposeUnsupported \<Rightarrow> 400 | ModeUnsupported \<Rightarrow> 400
   | _ \<Rightarrow> 409)"

section \<open>Records\<close>

definition FINISHED_RETENTION_SECS :: nat where "FINISHED_RETENTION_SECS = 300"
definition MAX_OPEN_REQUESTS :: nat where "MAX_OPEN_REQUESTS = 10000"
definition MAX_SEEN_DOCUMENTS :: nat where "MAX_SEEN_DOCUMENTS = 50000"
definition MAX_OPEN_POLLS :: nat where "MAX_OPEN_POLLS = 1000"

record oob_record =
  or_request_id :: string
  or_state :: oob_state
  or_version :: nat
  or_purpose :: string
  or_origin :: string
  or_start_key :: string
  or_start_network :: "string option"
  or_location :: string
  or_browser :: string
  or_os :: string
  or_created_at :: nat
  or_approver_key :: "string option"
  or_match_number :: "string option"
  or_match_number_delivered :: bool
  or_identified_did :: "string option"
  or_step2_digest :: "string option"
  or_claim_deadline :: nat
  or_decision_deadline :: "nat option"
  or_grant :: "json option"
  or_grant_not_after :: "nat option"
  or_finished_at :: "nat option"

definition lapsed :: "oob_record \<Rightarrow> nat \<Rightarrow> bool" where
  "lapsed r now = (case or_state r of
     Pending \<Rightarrow> or_claim_deadline r < now
   | s \<Rightarrow> in_decision_window s \<and> (case or_decision_deadline r of Some d \<Rightarrow> d | None \<Rightarrow> 0) < now)"

definition next_record :: "oob_record \<Rightarrow> oob_state \<Rightarrow> nat \<Rightarrow> oob_record" where
  "next_record r s now = (let n = r\<lparr>or_state := s, or_version := or_version r + 1\<rparr>
     in if is_final s then n\<lparr>or_start_network := None, or_finished_at := Some now\<rparr> else n)"

section \<open>The store\<close>

record oob_store =
  os_records :: "(string \<times> oob_record) list"
  os_seen :: "((string \<times> string) \<times> nat) list"
  os_waiters :: "string list"
  os_open_polls :: "string list"
  os_polls_per_ip :: "(string \<times> nat) list"

definition new_oob_store :: oob_store where
  "new_oob_store = \<lparr>os_records = [], os_seen = [], os_waiters = [], os_open_polls = [], os_polls_per_ip = []\<rparr>"

datatype create_error = DuplicateRequest | StoreFull
datatype seen_error = Replayed | SeenFull
datatype poll_refused = AlreadyOpen | AddressCap | PollsFull

definition record_end :: "oob_record \<Rightarrow> nat" where
  "record_end r = (case or_finished_at r of Some t \<Rightarrow> t
     | None \<Rightarrow> (case or_decision_deadline r of Some d \<Rightarrow> d | None \<Rightarrow> or_claim_deadline r))"

definition sweep_requests :: "nat \<Rightarrow> oob_store \<Rightarrow> oob_store" where
  "sweep_requests now g =
    (let cutoff = now - FINISHED_RETENTION_SECS;
         stale = map (\<lambda>(_, r). or_request_id r) (filter (\<lambda>(_, r). record_end r < cutoff) (os_records g));
         records = fold AList.delete stale (os_records g)
     in g\<lparr>os_records := records,
          os_waiters := filter (\<lambda>i. map_of records i \<noteq> None \<or> i \<in> set (os_open_polls g)) (os_waiters g),
          os_seen := filter (\<lambda>(_, until). now \<le> until) (os_seen g)\<rparr>)"

definition create_request :: "oob_record \<Rightarrow> nat \<Rightarrow> oob_store \<Rightarrow> (create_error + unit) \<times> oob_store" where
  "create_request r now g0 = (let g = sweep_requests now g0 in
     if map_of (os_records g) (or_request_id r) \<noteq> None then (Inl DuplicateRequest, g)
     else if MAX_OPEN_REQUESTS \<le> length (os_records g) then (Inl StoreFull, g)
     else (Inr (), g\<lparr>os_records := AList.update (or_request_id r) r (os_records g)\<rparr>))"

definition get_request :: "oob_store \<Rightarrow> string \<Rightarrow> oob_record option" where
  "get_request g i = map_of (os_records g) i"

definition compare_and_set :: "nat \<Rightarrow> oob_record \<Rightarrow> oob_store \<Rightarrow> bool \<times> oob_store" where
  "compare_and_set expected r g =
    (if (case get_request g (or_request_id r) of Some cur \<Rightarrow> or_version cur = expected | None \<Rightarrow> False)
     then (True, g\<lparr>os_records := AList.update (or_request_id r) r (os_records g)\<rparr>)
     else (False, g))"

definition remember_document :: "string \<Rightarrow> string \<Rightarrow> nat \<Rightarrow> nat \<Rightarrow> oob_store \<Rightarrow> (seen_error + unit) \<times> oob_store" where
  "remember_document issuer i until now g0 =
    (let g = g0\<lparr>os_seen := filter (\<lambda>(_, until). now \<le> until) (os_seen g0)\<rparr> in
     if map_of (os_seen g) (issuer, i) \<noteq> None then (Inl Replayed, g)
     else if MAX_SEEN_DOCUMENTS \<le> length (os_seen g) then (Inl SeenFull, g)
     else (Inr (), g\<lparr>os_seen := AList.update (issuer, i) until (os_seen g)\<rparr>))"

definition add_waiter :: "string \<Rightarrow> oob_store \<Rightarrow> oob_store" where
  "add_waiter i g = (if i \<in> set (os_waiters g) then g else g\<lparr>os_waiters := i # os_waiters g\<rparr>)"

definition polls_of :: "oob_store \<Rightarrow> string \<Rightarrow> nat" where
  "polls_of g ip = (case map_of (os_polls_per_ip g) ip of Some n \<Rightarrow> n | None \<Rightarrow> 0)"

definition open_poll :: "string \<Rightarrow> string \<Rightarrow> nat \<Rightarrow> oob_store \<Rightarrow> (poll_refused + unit) \<times> oob_store" where
  "open_poll i ip max_per_ip g =
    (if i \<in> set (os_open_polls g) then (Inl AlreadyOpen, g)
     else let n = polls_of g ip in
       if max_per_ip \<le> n then (Inl AddressCap, g)
       else if MAX_OPEN_POLLS \<le> length (os_open_polls g) then (Inl PollsFull, g)
       else (Inr (), g\<lparr>os_open_polls := i # os_open_polls g, os_polls_per_ip := AList.update ip (n + 1) (os_polls_per_ip g)\<rparr>))"

text \<open>The guard of a poll, dropped.\<close>

definition close_poll :: "string \<Rightarrow> string \<Rightarrow> oob_store \<Rightarrow> oob_store" where
  "close_poll i ip g =
    g\<lparr>os_open_polls := filter (\<lambda>j. j \<noteq> i) (os_open_polls g),
      os_polls_per_ip := (case map_of (os_polls_per_ip g) ip of
         None \<Rightarrow> os_polls_per_ip g
       | Some n \<Rightarrow> if n - 1 = 0 then AList.delete ip (os_polls_per_ip g) else AList.update ip (n - 1) (os_polls_per_ip g))\<rparr>"

section \<open>What the calls do to a record\<close>

lemma records_simps [simp]:
  "get_request (g\<lparr>os_seen := s\<rparr>) i = get_request g i" "get_request (g\<lparr>os_waiters := w\<rparr>) i = get_request g i"
  "get_request (g\<lparr>os_open_polls := p, os_polls_per_ip := q\<rparr>) i = get_request g i"
  "get_request (g\<lparr>os_records := AList.update k r (os_records g)\<rparr>) i = (if i = k then Some r else get_request g i)"
  by (simp_all add: get_request_def update_conv')

lemma remember_frame [simp]:
  "get_request (snd (remember_document issuer i until now g)) j = get_request g j"
  by (simp add: remember_document_def Let_def)

lemma open_poll_frame [simp]: "get_request (snd (open_poll i ip n g)) j = get_request g j"
  by (simp add: open_poll_def Let_def)

lemma close_poll_frame [simp]: "get_request (close_poll i ip g) j = get_request g j"
  by (simp add: close_poll_def)

lemma add_waiter_frame [simp]: "get_request (add_waiter i g) j = get_request g j"
  by (simp add: add_waiter_def)

lemma next_simps [simp]:
  "or_request_id (next_record r s now) = or_request_id r" "or_state (next_record r s now) = s"
  "or_version (next_record r s now) = or_version r + 1" "or_origin (next_record r s now) = or_origin r"
  "or_start_key (next_record r s now) = or_start_key r" "or_approver_key (next_record r s now) = or_approver_key r"
  "or_match_number (next_record r s now) = or_match_number r" "or_match_number_delivered (next_record r s now) = or_match_number_delivered r"
  "or_identified_did (next_record r s now) = or_identified_did r" "or_step2_digest (next_record r s now) = or_step2_digest r"
  "or_claim_deadline (next_record r s now) = or_claim_deadline r" "or_decision_deadline (next_record r s now) = or_decision_deadline r"
  "or_grant (next_record r s now) = or_grant r" "or_grant_not_after (next_record r s now) = or_grant_not_after r"
  "or_created_at (next_record r s now) = or_created_at r" "or_location (next_record r s now) = or_location r"
  "or_browser (next_record r s now) = or_browser r" "or_os (next_record r s now) = or_os r" "or_purpose (next_record r s now) = or_purpose r"
  by (simp_all add: next_record_def Let_def)

lemma cas_get:
  "get_request (snd (compare_and_set v r g)) i =
     (if fst (compare_and_set v r g) \<and> i = or_request_id r then Some r else get_request g i)"
  by (simp add: compare_and_set_def)

lemma cas_hit:
  "fst (compare_and_set v r g) \<Longrightarrow> \<exists>cur. get_request g (or_request_id r) = Some cur \<and> or_version cur = v"
  by (auto simp: compare_and_set_def split: if_splits option.splits)

lemma fold_delete_get: "map_of (fold AList.delete ks xs) i = (if i \<in> set ks then None else map_of xs i)"
  by (induction ks arbitrary: xs) (auto simp: delete_conv')

text \<open>The key of a record is its request id.\<close>

definition keyed :: "oob_store \<Rightarrow> bool" where
  "keyed g \<longleftrightarrow> distinct (map fst (os_records g)) \<and> (\<forall>i r. get_request g i = Some r \<longrightarrow> or_request_id r = i)"

lemma sweep_get:
  "get_request (sweep_requests now g) i = get_request g i \<or> get_request (sweep_requests now g) i = None"
  by (simp add: sweep_requests_def Let_def get_request_def fold_delete_get)

lemma create_get:
  assumes "create_request r now g = (e, g')"
  shows "(e = Inr () \<and> get_request g' (or_request_id r) = Some r) \<or>
     get_request g' (or_request_id r) = get_request g (or_request_id r) \<or> get_request g' (or_request_id r) = None"
    and "i \<noteq> or_request_id r \<Longrightarrow> get_request g' i = get_request g i \<or> get_request g' i = None"
  using assms sweep_get[of now g i] sweep_get[of now g "or_request_id r"]
  by (auto simp: create_request_def Let_def split: if_splits)

section \<open>The bounds\<close>

definition store_bounded :: "nat \<Rightarrow> oob_store \<Rightarrow> bool" where
  "store_bounded per_ip g \<longleftrightarrow> length (os_records g) \<le> MAX_OPEN_REQUESTS \<and> length (os_seen g) \<le> MAX_SEEN_DOCUMENTS
     \<and> length (os_open_polls g) \<le> MAX_OPEN_POLLS \<and> (\<forall>ip. polls_of g ip \<le> per_ip)"

lemma new_store_bounded: "store_bounded n new_oob_store"
  by (simp add: store_bounded_def new_oob_store_def polls_of_def)

lemma length_update: "length (AList.update k v xs) \<le> length xs + 1"
  by (induction xs) auto

lemma length_update_present: "map_of xs k \<noteq> None \<Longrightarrow> length (AList.update k v xs) = length xs"
  by (induction xs) (auto split: if_splits)

lemma length_fold_delete: "length (fold AList.delete ks xs) \<le> length xs"
proof (induction ks arbitrary: xs)
  case (Cons k ks)
  show ?case using Cons.IH[of "AList.delete k xs"] length_delete_le[of k xs] by simp
qed simp

lemma sweep_bounded: "store_bounded n g \<Longrightarrow> store_bounded n (sweep_requests now g)"
  using length_fold_delete[of _ "os_records g"]
  by (auto simp: store_bounded_def sweep_requests_def Let_def polls_of_def intro: le_trans le_trans[OF length_filter_le])

lemma create_bounded:
  assumes "store_bounded n g"
  shows "store_bounded n (snd (create_request r now g))"
proof -
  let ?s = "sweep_requests now g"
  note l = length_update[of "or_request_id r" r "os_records ?s"]
  show ?thesis using sweep_bounded[OF assms, of now] l
    by (auto simp: create_request_def Let_def store_bounded_def polls_of_def)
qed

lemma cas_bounded: "store_bounded n g \<Longrightarrow> store_bounded n (snd (compare_and_set v r g))"
  using length_update_present[of "os_records g" "or_request_id r" r]
  by (auto simp: compare_and_set_def store_bounded_def polls_of_def get_request_def split: option.splits)

lemma remember_bounded:
  assumes "store_bounded n g"
  shows "store_bounded n (snd (remember_document issuer i until now g))"
proof -
  let ?s = "filter (\<lambda>(_, until). now \<le> until) (os_seen g)"
  have "length ?s \<le> MAX_SEEN_DOCUMENTS" using assms le_trans[OF length_filter_le] by (auto simp: store_bounded_def)
  then show ?thesis using assms length_update[of "(issuer, i)" until ?s]
    by (simp add: remember_document_def Let_def store_bounded_def polls_of_def)
qed

lemma open_poll_bounded: "store_bounded n g \<Longrightarrow> store_bounded n (snd (open_poll i ip n g))"
  by (auto simp: open_poll_def Let_def store_bounded_def polls_of_def update_conv')

lemma close_poll_bounded:
  assumes "store_bounded n g"
  shows "store_bounded n (close_poll i ip g)"
proof -
  have "length (filter (\<lambda>j. j \<noteq> i) (os_open_polls g)) \<le> MAX_OPEN_POLLS"
    using assms le_trans[OF length_filter_le] by (auto simp: store_bounded_def)
  moreover have "polls_of (close_poll i ip g) ip' \<le> polls_of g ip'" for ip'
    by (auto simp: close_poll_def polls_of_def update_conv' delete_conv' split: option.splits)
  ultimately show ?thesis using assms by (auto simp: close_poll_def store_bounded_def intro: le_trans)
qed

section \<open>A document is accepted once while it is remembered\<close>

lemma remember_held:
  assumes "remember_document issuer i until now g = (Inr (), g')" "now \<le> until"
  shows "map_of (os_seen g') (issuer, i) = Some until"
  using assms by (auto simp: remember_document_def Let_def update_conv' split: if_splits)

lemma held_filter: "map_of xs k = Some (u::nat) \<Longrightarrow> now \<le> u \<Longrightarrow> distinct (map fst xs) \<Longrightarrow>
  map_of (filter (\<lambda>(_, until). now \<le> until) xs) k = Some u"
  by (induction xs) (auto split: if_splits simp: rev_image_eqI)

lemma held_refused:
  assumes "map_of (os_seen g) (issuer, i) = Some until" "now \<le> until" "distinct (map fst (os_seen g))"
  shows "fst (remember_document issuer i u now g) = Inl Replayed"
  using held_filter[OF assms] by (simp add: remember_document_def Let_def)

end
