(* ===== verification/OobSignIn.thy ===== *)
theory OobSignIn
  imports Gate OobStore "HOL-Library.Word"
begin

text \<open>
  Wallet sign-in (did-hosting-control/src/oob/service.rs): the state machine of the auth/oob documents. A
  handler reads the record of its request, checks the document, often over the network, and then changes
  the record by compare-and-set, so other handlers may run between the reading and the rest; a handler is
  split there, into an arrival and a resumption. Between these points it runs at once. Parameters are the
  proofs and DID resolution, the generated payload and response types, the canonical form of JSON, SHA-256,
  multibase and the date format; the clock, request identifiers, uuids and the match number are inputs. The
  texts of errors, audit lines and the delay of a refusal are left out.
\<close>

unbundle bit_operations_syntax

section \<open>Settings and surroundings\<close>

definition MAX_WINDOW_SECS :: nat where "MAX_WINDOW_SECS = 180"
definition MAX_DOCUMENT_AGE_SECS :: nat where "MAX_DOCUMENT_AGE_SECS = 300"
definition CLOCK_SKEW_SECS :: nat where "CLOCK_SKEW_SECS = 60"
definition SEEN_ID_TTL_SECS :: nat where "SEEN_ID_TTL_SECS = 600"
definition MAX_DOCUMENT_ID_LEN :: nat where "MAX_DOCUMENT_ID_LEN = 128"
definition OOB_AMR :: "string list" where "OOB_AMR = [''did'', ''oob'', ''uv'']"
definition KEY_PURPOSES :: "string list" where "KEY_PURPOSES = [''authentication'', ''assertionMethod'']"
definition ATTESTATION :: string where "ATTESTATION = ''assertionMethod''"
definition OPERATIONAL :: string where "OPERATIONAL = ''authentication''"

record oob_config =
  oc_service_did :: string
  oc_service_name :: string
  oc_origin :: string
  oc_claim_window :: nat
  oc_decision_window :: nat
  oc_session_limit :: nat
  oc_max_polls_per_ip :: nat

definition new_oob_config :: "string \<Rightarrow> string \<Rightarrow> string \<Rightarrow> oob_config" where
  "new_oob_config did name origin = \<lparr>oc_service_did = did, oc_service_name = name, oc_origin = origin,
     oc_claim_window = 120, oc_decision_window = 120, oc_session_limit = 8 * 3600, oc_max_polls_per_ip = 8\<rparr>"

definition clamp_windows :: "oob_config \<Rightarrow> oob_config" where
  "clamp_windows c = c\<lparr>oc_claim_window := min (oc_claim_window c) MAX_WINDOW_SECS,
     oc_decision_window := min (oc_decision_window c) MAX_WINDOW_SECS\<rparr>"

datatype oob_task = TaskRequest | TaskClaim | TaskProve | TaskIdentify | TaskRespond | TaskGrant | TaskRedeem | TaskCancel

text \<open>A parsed document comes with its parent thread.\<close>

record oob_env =
  ov_config :: oob_config
  ov_type :: "oob_task \<Rightarrow> string"
  ov_parse :: "json \<Rightarrow> (document \<times> string option) option"
  ov_fits :: "oob_task \<Rightarrow> json \<Rightarrow> bool"
  ov_write :: "oob_task \<Rightarrow> json \<Rightarrow> json option"
  ov_key_verifier :: verifier
  ov_is_ed25519 :: "string \<Rightarrow> bool"
  ov_sign :: "json \<Rightarrow> string \<Rightarrow> json option"
  ov_date :: "nat \<Rightarrow> string"
  ov_canonical :: "json \<Rightarrow> 8 word list"
  ov_sha256 :: "8 word list \<Rightarrow> 8 word list"
  ov_base58 :: "8 word list \<Rightarrow> string"
  ov_multibase :: "string \<Rightarrow> 8 word list option"

record connection =
  cn_ip :: "string option"
  cn_location :: "string option"
  cn_browser :: "string option"
  cn_os :: "string option"

text \<open>What a step finds outside: the time before and after its checks, the access control list, the
  verifier of members, whether the hold of a poll is over, and its random values.\<close>

record world =
  wd_now :: nat
  wd_later :: nat
  wd_acl :: acl
  wd_member :: "verifier option"
  wd_over :: bool
  wd_request_id :: string
  wd_digits :: nat
  wd_uuid :: string

definition is_allowed :: "acl \<Rightarrow> string \<Rightarrow> bool" where
  "is_allowed a did \<longleftrightarrow> length did \<le> 512 \<and> get_acl_entry a did \<noteq> None"

definition display_name :: "acl \<Rightarrow> string \<Rightarrow> string option" where
  "display_name a did = (case Option.bind (get_acl_entry a did) acl_label of
     Some l \<Rightarrow> if trim l \<noteq> [] then Some l else None | None \<Rightarrow> None)"

type_synonym oob_error = "oob_code \<times> json option"

definition refused :: "oob_code \<Rightarrow> oob_error + 'a" where
  "refused c = Inl (c, None)"

definition oob_bind ::
  "(oob_error + 'a) \<times> oob_store \<Rightarrow> ('a \<Rightarrow> oob_store \<Rightarrow> (oob_error + 'b) \<times> oob_store) \<Rightarrow> (oob_error + 'b) \<times> oob_store" where
  "oob_bind x f = (case x of (Inl e, s) \<Rightarrow> (Inl e, s) | (Inr a, s) \<Rightarrow> f a s)"

section \<open>Digests and identifiers\<close>

definition context_digest :: "oob_env \<Rightarrow> json \<Rightarrow> string" where
  "context_digest env v = ov_base58 env ([0x12, 0x20] @ ov_sha256 env (ov_canonical env v))"

definition decode_digest :: "oob_env \<Rightarrow> string \<Rightarrow> 8 word list option" where
  "decode_digest env s =
    (if \<not> (prefix ''z'' s \<or> prefix ''u'' s) then None
     else case ov_multibase env s of
         None \<Rightarrow> None
       | Some bytes \<Rightarrow> if length bytes = 34 \<and> bytes ! 0 = 0x12 \<and> bytes ! 1 = 0x20 then Some (drop 2 bytes) else None)"

definition context_digests_equal :: "oob_env \<Rightarrow> string \<Rightarrow> string \<Rightarrow> bool" where
  "context_digests_equal env a b = (case (decode_digest env a, decode_digest env b) of
     (Some x, Some y) \<Rightarrow> length x = length y \<and> foldl (\<lambda>acc (p, q). acc OR (p XOR q)) 0 (zip x y) = 0
   | _ \<Rightarrow> False)"

definition is_request_id :: "string \<Rightarrow> bool" where
  "is_request_id s \<longleftrightarrow> 22 \<le> length s \<and> length s \<le> 43
     \<and> list_all (\<lambda>c. is_alnum c \<or> c = CHR ''-'' \<or> c = CHR ''_'') s"

definition carried_request_id :: "json \<Rightarrow> oob_error + string" where
  "carried_request_id v = (case Option.bind (json_get ''payload'' v) (get_str ''requestId'') of
     Some i \<Rightarrow> if is_request_id i then Inr i else refused MalformedCode
   | None \<Rightarrow> refused MalformedCode)"

definition two_digits :: "nat \<Rightarrow> string" where
  "two_digits n = (if n < 10 then ''0'' @ show_nat n else show_nat n)"

text \<open>str::chars on valid UTF-8: every byte but a continuation byte starts a character.\<close>

definition continues_char :: "char \<Rightarrow> bool" where
  "continues_char c \<longleftrightarrow> 0x80 \<le> (of_char c :: nat) \<and> (of_char c :: nat) < 0xC0"

definition char_count :: "string \<Rightarrow> nat" where
  "char_count s = length (filter (\<lambda>c. \<not> continues_char c) s)"

fun take_chars :: "nat \<Rightarrow> string \<Rightarrow> string" where
  "take_chars n [] = []"
| "take_chars n (c # s) = (if continues_char c then c # take_chars n s
     else case n of 0 \<Rightarrow> [] | Suc m \<Rightarrow> c # take_chars m s)"

definition display_name_or_did :: "string option \<Rightarrow> string \<Rightarrow> string" where
  "display_name_or_did label did =
    (let name = (case label of Some l \<Rightarrow> if trim l \<noteq> [] then l else did | None \<Rightarrow> did)
     in if char_count name \<le> 128 then name else take_chars 127 name @ [CHR 0xE2, CHR 0x80, CHR 0xA6])"

section \<open>What every document must pass\<close>

definition oob_envelope :: "oob_env \<Rightarrow> document \<Rightarrow> oob_task \<Rightarrow> nat \<Rightarrow> oob_error + unit" where
  "oob_envelope env doc task now =
    (if d_type doc \<noteq> ov_type env task then refused MalformedCode
     else if d_id doc = [] \<or> d_issuer doc = None \<or> d_issuer doc = Some [] then refused MalformedCode
     else if MAX_DOCUMENT_ID_LEN < length (d_id doc) then refused MalformedCode
     else if d_recipient doc \<noteq> Some (oc_service_did (ov_config env)) then refused NotAuthorizedCode
     else case d_issued_at doc of
         None \<Rightarrow> refused MalformedCode
       | Some t \<Rightarrow> let issued_at = t div NANOS in
           if int now + int CLOCK_SKEW_SECS < issued_at \<or> int MAX_DOCUMENT_AGE_SECS < int now - issued_at
           then refused NotAuthorizedCode
           else (case d_expires_at doc of
               Some x \<Rightarrow> if x div NANOS \<le> int now then refused NotAuthorizedCode else Inr ()
             | None \<Rightarrow> Inr ()))"

definition issuer_of :: "document \<Rightarrow> string" where
  "issuer_of doc = (case d_issuer doc of Some i \<Rightarrow> i | None \<Rightarrow> [])"

definition payload_as :: "oob_env \<Rightarrow> oob_task \<Rightarrow> document \<Rightarrow> oob_error + unit" where
  "payload_as env task doc = (if ov_fits env task (d_payload doc) then Inr () else refused MalformedCode)"

text \<open>Without the payload's type, which each handler adds.\<close>

definition key_doc :: "oob_env \<Rightarrow> json \<Rightarrow> oob_task \<Rightarrow> nat \<Rightarrow> oob_error + document \<times> string option" where
  "key_doc env raw task now = (case ov_parse env raw of
     None \<Rightarrow> refused MalformedCode
   | Some (doc, parent) \<Rightarrow> and_then (oob_envelope env doc task now) (\<lambda>_.
       case verify_bound_key (ov_key_verifier env) (ov_is_ed25519 env) doc KEY_PURPOSES of
         Inl KeyUnsupported \<Rightarrow> refused KeyUnsupportedCode
       | Inl _ \<Rightarrow> refused NotAuthorizedCode
       | Inr _ \<Rightarrow> Inr (doc, parent)))"

definition typed_key_doc :: "oob_env \<Rightarrow> json \<Rightarrow> oob_task \<Rightarrow> nat \<Rightarrow> oob_error + document \<times> string option" where
  "typed_key_doc env raw task now = and_then (key_doc env raw task now) (\<lambda>(doc, parent).
     and_then (payload_as env task doc) (\<lambda>_. Inr (doc, parent)))"

definition request_id_of :: "document \<Rightarrow> oob_error + string" where
  "request_id_of doc = (case get_str ''requestId'' (d_payload doc) of Some i \<Rightarrow> Inr i | None \<Rightarrow> refused MalformedCode)"

definition same_thread :: "string option \<Rightarrow> string \<Rightarrow> oob_error + unit" where
  "same_thread parent i = (if parent \<noteq> None \<and> parent \<noteq> Some i then refused MalformedCode else Inr ())"

definition fresh_document :: "document \<Rightarrow> nat \<Rightarrow> oob_store \<Rightarrow> (oob_error + unit) \<times> oob_store" where
  "fresh_document doc now s = (case remember_document (issuer_of doc) (d_id doc) (now + SEEN_ID_TTL_SECS) now s of
     (Inl Replayed, s') \<Rightarrow> (refused NotAuthorizedCode, s')
   | (Inl SeenFull, s') \<Rightarrow> (refused RateLimitedCode, s')
   | (Inr u, s') \<Rightarrow> (Inr u, s'))"

text \<open>The record, with an elapsed deadline applied. The retry after a lost race ends with the version it
  replaces, so the two calls are one step.\<close>

definition current_record :: "string \<Rightarrow> nat \<Rightarrow> oob_store \<Rightarrow> (oob_error + oob_record) \<times> oob_store" where
  "current_record i now s = (case get_request s i of
     None \<Rightarrow> (refused RequestNotFound, s)
   | Some r \<Rightarrow> if \<not> lapsed r now then (Inr r, s)
       else let n = next_record r Expired now in (Inr n, snd (compare_and_set (or_version r) n s)))"

definition lock_holder_record ::
  "string \<Rightarrow> string \<Rightarrow> oob_state \<Rightarrow> nat \<Rightarrow> oob_store \<Rightarrow> (oob_error + oob_record) \<times> oob_store" where
  "lock_holder_record i issuer expected now s = oob_bind (current_record i now s) (\<lambda>r s.
     (if or_approver_key r \<noteq> Some issuer then refused NotClaimant
      else if or_state r = Expired then refused RequestExpired
      else if or_state r \<noteq> expected then refused (if expected = Identified then AlreadyDecided else RequestExpired)
      else Inr r, s))"

section \<open>What the service answers\<close>

definition response :: "oob_env \<Rightarrow> oob_task \<Rightarrow> json \<Rightarrow> oob_error + json" where
  "response env task v = (case ov_write env task v of Some w \<Rightarrow> Inr w | None \<Rightarrow> refused MalformedCode)"

definition signed :: "oob_env \<Rightarrow> document \<Rightarrow> string \<Rightarrow> json \<Rightarrow> string \<Rightarrow> nat \<Rightarrow> string \<Rightarrow> oob_error + json" where
  "signed env request recipient payload purpose now uuid =
    (case ov_sign env (JObj [(''id'', JStr (''urn:uuid:'' @ uuid)), (''type'', JStr (d_type request @ ''#response'')),
         (''issuer'', JStr (oc_service_did (ov_config env))), (''recipient'', JStr recipient),
         (''issuedAt'', JStr (ov_date env now)), (''threadId'', JStr (d_id request)), (''payload'', payload)]) purpose of
       Some v \<Rightarrow> Inr v | None \<Rightarrow> refused MalformedCode)"

definition step1_members :: "oob_env \<Rightarrow> oob_record \<Rightarrow> (string \<times> json) list" where
  "step1_members env r =
    [(''requestId'', JStr (or_request_id r)),
     (''service'', JObj [(''did'', JStr (oc_service_did (ov_config env))), (''name'', JStr (oc_service_name (ov_config env)))]),
     (''origin'', JStr (or_origin r)), (''purpose'', JStr (or_purpose r)),
     (''decisionDeadline'', JInt (int (case or_decision_deadline r of Some d \<Rightarrow> d | None \<Rightarrow> 0)))]"

definition step2_members :: "oob_env \<Rightarrow> oob_record \<Rightarrow> connection \<Rightarrow> string \<Rightarrow> (string \<times> json) list" where
  "step2_members env r conn did =
    (let same_network = (case (or_start_network r, cn_ip conn) of (Some a, Some b) \<Rightarrow> JBool (a = b) | _ \<Rightarrow> JStr ''unknown'')
     in step1_members env r @
       [(''sessionKey'', JStr (or_start_key r)),
        (''requester'', JObj [(''location'', JStr (or_location r)), (''browser'', JStr (or_browser r)), (''os'', JStr (or_os r)),
           (''createdAt'', JStr (ov_date env (or_created_at r))), (''sameNetwork'', same_network)]),
        (''identifiedAs'', JStr did)])"

section \<open>The handlers\<close>

text \<open>What a handler holds between two of its points. A poll holds its request, the address it counts
  against and, once it has read it, the record.\<close>

datatype oob_thread =
    InClaim document oob_record
  | InProve document json connection oob_record
  | InRespond document json oob_record
  | InCancel document oob_record
  | InPoll document string string
  | InPass document string string oob_record

record approved_session =
  as_subject :: string
  as_session_key :: string
  as_not_after :: nat
  as_display_name :: "string option"
  as_grant :: json

text \<open>A handler answers, grants a session, or goes on later.\<close>

datatype oob_progress = Answered "oob_error + json" | Redeemed document approved_session | GoesOn oob_thread

definition answered :: "(oob_error + json) \<times> oob_store \<Rightarrow> oob_progress \<times> oob_store" where
  "answered x = (Answered (fst x), snd x)"

definition goes_on :: "(oob_error + oob_thread) \<times> oob_store \<Rightarrow> oob_progress \<times> oob_store" where
  "goes_on x = ((case fst x of Inl e \<Rightarrow> Answered (Inl e) | Inr t \<Rightarrow> GoesOn t), snd x)"

definition or_unknown :: "string option \<Rightarrow> string" where
  "or_unknown x = (case x of Some s \<Rightarrow> s | None \<Rightarrow> ''unknown'')"

subsection \<open>request\<close>

definition opened_record :: "oob_env \<Rightarrow> document \<Rightarrow> connection \<Rightarrow> string \<Rightarrow> nat \<Rightarrow> oob_record" where
  "opened_record env doc conn i now =
    \<lparr>or_request_id = i, or_state = Pending, or_version = 0, or_purpose = ''login'', or_origin = oc_origin (ov_config env),
     or_start_key = issuer_of doc, or_start_network = cn_ip conn, or_location = or_unknown (cn_location conn),
     or_browser = or_unknown (cn_browser conn), or_os = or_unknown (cn_os conn), or_created_at = now,
     or_approver_key = None, or_match_number = None, or_match_number_delivered = False, or_identified_did = None,
     or_step2_digest = None, or_claim_deadline = now + oc_claim_window (ov_config env), or_decision_deadline = None,
     or_grant = None, or_grant_not_after = None, or_finished_at = None\<rparr>"

definition oob_request :: "oob_env \<Rightarrow> world \<Rightarrow> json \<Rightarrow> connection \<Rightarrow> oob_store \<Rightarrow> (oob_error + json) \<times> oob_store" where
  "oob_request env w raw conn s0 = oob_bind (key_doc env raw TaskRequest (wd_now w), s0) (\<lambda>(doc, _) s0.
     if get_str ''purpose'' (d_payload doc) \<notin> {None, Some ''login''} then (refused PurposeUnsupported, s0)
     else if get_str ''mode'' (d_payload doc) \<notin> {None, Some ''scan''} then (refused ModeUnsupported, s0)
     else oob_bind (payload_as env TaskRequest doc, s0) (\<lambda>_ s0.
       oob_bind (fresh_document doc (wd_now w) s0) (\<lambda>_ s1.
         let r = opened_record env doc conn (wd_request_id w) (wd_later w)
         in case create_request r (wd_later w) s1 of
             (Inl StoreFull, s2) \<Rightarrow> (refused RateLimitedCode, s2)
           | (Inl DuplicateRequest, s2) \<Rightarrow> (refused MalformedCode, s2)
           | (Inr _, s2) \<Rightarrow> (and_then (response env TaskRequest (JObj [(''requestId'', JStr (or_request_id r)),
                 (''claimDeadline'', JInt (int (or_claim_deadline r)))]))
               (\<lambda>body. signed env doc (issuer_of doc) body OPERATIONAL (wd_later w) (wd_uuid w)), s2))))"

subsection \<open>claim\<close>

definition claim_read :: "oob_env \<Rightarrow> world \<Rightarrow> json \<Rightarrow> oob_store \<Rightarrow> (oob_error + oob_thread) \<times> oob_store" where
  "claim_read env w raw s = oob_bind (typed_key_doc env raw TaskClaim (wd_now w), s) (\<lambda>(doc, parent) s.
     oob_bind (request_id_of doc, s) (\<lambda>i s.
       if parent \<noteq> Some i then (refused MalformedCode, s)
       else oob_bind (current_record i (wd_later w) s) (\<lambda>r s. (Inr (InClaim doc r), s))))"

definition claimed_record :: "oob_env \<Rightarrow> document \<Rightarrow> oob_record \<Rightarrow> world \<Rightarrow> oob_record" where
  "claimed_record env doc r w = (next_record r Claimed (wd_later w))
     \<lparr>or_approver_key := Some (issuer_of doc), or_match_number := Some (two_digits (wd_digits w)),
      or_decision_deadline := Some (wd_later w + oc_decision_window (ov_config env))\<rparr>"

definition claim_write :: "oob_env \<Rightarrow> world \<Rightarrow> document \<Rightarrow> oob_record \<Rightarrow> oob_store \<Rightarrow> (oob_error + json) \<times> oob_store" where
  "claim_write env w doc r s =
    (if or_state r = Expired then (refused RequestExpired, s)
     else if or_state r \<noteq> Pending then (refused AlreadyClaimed, s)
     else oob_bind (fresh_document doc (wd_now w) s) (\<lambda>_ s1.
       let n = claimed_record env doc r w
       in case compare_and_set (or_version r) n s1 of
           (False, s2) \<Rightarrow> (refused AlreadyClaimed, s2)
         | (True, s2) \<Rightarrow> (and_then (response env TaskClaim (JObj (step1_members env n)))
             (\<lambda>body. signed env doc (issuer_of doc) body ATTESTATION (wd_later w) (wd_uuid w)), s2)))"

subsection \<open>prove\<close>

definition prove_read :: "oob_env \<Rightarrow> world \<Rightarrow> json \<Rightarrow> connection \<Rightarrow> oob_store \<Rightarrow> (oob_error + oob_thread) \<times> oob_store" where
  "prove_read env w raw conn s = oob_bind (typed_key_doc env raw TaskProve (wd_now w), s) (\<lambda>(doc, parent) s.
     case json_get ''identify'' (d_payload doc) of
       Some (JObj ms) \<Rightarrow>
         oob_bind (carried_request_id (JObj ms), s) (\<lambda>i s. oob_bind (same_thread parent i, s) (\<lambda>_ s.
           oob_bind (lock_holder_record i (issuer_of doc) Claimed (wd_now w) s) (\<lambda>r s1.
             oob_bind (fresh_document doc (wd_later w) s1) (\<lambda>_ s2. (Inr (InProve doc (JObj ms) conn r), s2)))))
     | _ \<Rightarrow> (refused MalformedCode, s))"

definition unless_not_authorized :: "bool \<Rightarrow> oob_error + unit" where
  "unless_not_authorized b = (if b then Inr () else refused NotAuthorizedCode)"

definition member_document ::
  "oob_env \<Rightarrow> world \<Rightarrow> oob_task \<Rightarrow> (verifier \<Rightarrow> document \<Rightarrow> verification_error + unit) \<Rightarrow> document \<Rightarrow> oob_error + unit" where
  "member_document env w task verify doc =
    and_then (unless_not_authorized (is_ok (oob_envelope env doc task (wd_now w)))) (\<lambda>_.
      case wd_member w of None \<Rightarrow> refused NotAuthorizedCode | Some v \<Rightarrow> unless_not_authorized (is_ok (verify v doc)))"

definition prove_checks ::
  "oob_env \<Rightarrow> world \<Rightarrow> oob_record \<Rightarrow> json \<Rightarrow> oob_store \<Rightarrow> (oob_error + string \<times> string) \<times> oob_store" where
  "prove_checks env w r identify_raw s = (case ov_parse env identify_raw of
     None \<Rightarrow> (refused NotAuthorizedCode, s)
   | Some (identify, _) \<Rightarrow>
       let did = issuer_of identify; p = d_payload identify
       in oob_bind (and_then (unless_not_authorized (get_str ''approverKey'' p = or_approver_key r)) (\<lambda>_.
            and_then (unless_not_authorized (did \<noteq> [] \<and> is_allowed (wd_acl w) did)) (\<lambda>_.
            and_then (member_document env w TaskIdentify verify_operational identify) (\<lambda>_.
            unless_not_authorized (ov_fits env TaskIdentify p \<and> get_str ''enteredNumber'' p \<noteq> None
              \<and> get_str ''requestId'' p = Some (or_request_id r))))), s) (\<lambda>_ s.
          case remember_document did (d_id identify) (wd_later w + SEEN_ID_TTL_SECS) (wd_later w) s of
            (Inl _, s1) \<Rightarrow> (refused NotAuthorizedCode, s1)
          | (Inr _, s1) \<Rightarrow> (Inr (did, or_default [] (get_str ''enteredNumber'' p)), s1)))"

text \<open>Best effort: after a lost race the record stays as it is.\<close>

definition decline :: "oob_record \<Rightarrow> nat \<Rightarrow> oob_store \<Rightarrow> oob_store" where
  "decline r now s = snd (compare_and_set (or_version r) (next_record r Declined now) s)"

definition identified_record :: "oob_env \<Rightarrow> oob_record \<Rightarrow> nat \<Rightarrow> string \<Rightarrow> json \<Rightarrow> oob_record" where
  "identified_record env r now did step2 = (next_record r Identified now)
     \<lparr>or_identified_did := Some did, or_step2_digest := Some (context_digest env step2)\<rparr>"

definition prove_write ::
  "oob_env \<Rightarrow> world \<Rightarrow> document \<Rightarrow> json \<Rightarrow> connection \<Rightarrow> oob_record \<Rightarrow> oob_store \<Rightarrow> (oob_error + json) \<times> oob_store" where
  "prove_write env w doc identify_raw conn r s = (case prove_checks env w r identify_raw s of
     (Inl e, s1) \<Rightarrow> (Inl e, decline r (wd_later w) s1)
   | (Inr (did, entered), s1) \<Rightarrow>
       if or_match_number r \<noteq> Some entered then (refused NumberMismatch, decline r (wd_later w) s1)
       else oob_bind (and_then (response env TaskProve (JObj (step2_members env r conn did))) (\<lambda>body.
           signed env doc (issuer_of doc) body ATTESTATION (wd_later w) (wd_uuid w)), s1) (\<lambda>step2 s1.
         case compare_and_set (or_version r) (identified_record env r (wd_later w) did step2) s1 of
           (False, s2) \<Rightarrow> (refused RequestExpired, s2)
         | (True, s2) \<Rightarrow> (Inr step2, s2)))"

subsection \<open>respond\<close>

definition respond_read :: "oob_env \<Rightarrow> world \<Rightarrow> json \<Rightarrow> oob_store \<Rightarrow> (oob_error + oob_thread) \<times> oob_store" where
  "respond_read env w raw s = oob_bind (typed_key_doc env raw TaskRespond (wd_now w), s) (\<lambda>(doc, parent) s.
     case json_get ''grant'' (d_payload doc) of
       Some (JObj ms) \<Rightarrow>
         oob_bind (carried_request_id (JObj ms), s) (\<lambda>i s. oob_bind (same_thread parent i, s) (\<lambda>_ s.
           oob_bind (lock_holder_record i (issuer_of doc) Identified (wd_now w) s) (\<lambda>r s1.
             oob_bind (fresh_document doc (wd_later w) s1) (\<lambda>_ s2. (Inr (InRespond doc (JObj ms) r), s2)))))
     | _ \<Rightarrow> (refused MalformedCode, s))"

definition grant_bindings :: "oob_env \<Rightarrow> world \<Rightarrow> oob_record \<Rightarrow> json \<Rightarrow> oob_error + bool \<times> nat" where
  "grant_bindings env w r p = (case (if ov_fits env TaskGrant p then Option.bind (json_get ''notAfter'' p) json_u64 else None) of
     None \<Rightarrow> refused NotAuthorizedCode
   | Some not_after \<Rightarrow>
       let approve = (get_str ''decision'' p = Some ''approve'')
       in if get_str ''requestId'' p \<noteq> Some (or_request_id r) \<or> or_approver_key r = None \<or> get_str ''approverKey'' p \<noteq> or_approver_key r
            \<or> get_str ''sessionKey'' p \<noteq> Some (or_start_key r) \<or> get_str ''origin'' p \<noteq> Some (or_origin r)
          then refused ContextMismatch
          else if \<not> context_digests_equal env (or_default [] (get_str ''contextDigest'' p)) (or_default [] (or_step2_digest r))
          then refused ContextMismatch
          else if approve \<and> not_after \<le> wd_later w then refused NotAuthorizedCode
          else if \<not> is_allowed (wd_acl w) (or_default [] (or_identified_did r)) then refused NotAuthorizedCode
          else Inr (approve, not_after))"

definition grant_checks ::
  "oob_env \<Rightarrow> world \<Rightarrow> oob_record \<Rightarrow> json \<Rightarrow> oob_store \<Rightarrow> (oob_error + bool \<times> nat) \<times> oob_store" where
  "grant_checks env w r grant_raw s = (case ov_parse env grant_raw of
     None \<Rightarrow> (refused NotAuthorizedCode, s)
   | Some (doc, _) \<Rightarrow>
       let did = or_default [] (or_identified_did r)
       in oob_bind (and_then (unless_not_authorized (d_issuer doc = Some did)) (\<lambda>_.
            member_document env w TaskGrant verify_approval doc), s) (\<lambda>_ s.
          case remember_document did (d_id doc) (wd_later w + SEEN_ID_TTL_SECS) (wd_later w) s of
            (Inl _, s1) \<Rightarrow> (refused NotAuthorizedCode, s1)
          | (Inr _, s1) \<Rightarrow> (grant_bindings env w r (d_payload doc), s1)))"

definition decided_record :: "oob_record \<Rightarrow> nat \<Rightarrow> bool \<Rightarrow> json \<Rightarrow> nat \<Rightarrow> oob_record" where
  "decided_record r now approve grant not_after = (next_record r (if approve then Approved else Declined) now)
     \<lparr>or_grant := Some grant, or_grant_not_after := Some not_after, or_start_network := None\<rparr>"

definition respond_write ::
  "oob_env \<Rightarrow> world \<Rightarrow> document \<Rightarrow> json \<Rightarrow> oob_record \<Rightarrow> oob_store \<Rightarrow> (oob_error + json) \<times> oob_store" where
  "respond_write env w doc grant_raw r s = (case grant_checks env w r grant_raw s of
     (Inl e, s1) \<Rightarrow> (Inl e, decline r (wd_later w) s1)
   | (Inr (approve, not_after), s1) \<Rightarrow>
       (case compare_and_set (or_version r) (decided_record r (wd_later w) approve grant_raw not_after) s1 of
           (False, s2) \<Rightarrow> (refused AlreadyDecided, s2)
         | (True, s2) \<Rightarrow> (and_then (response env TaskRespond (JObj [(''status'', JStr (if approve then ''approved'' else ''declined''))]))
             (\<lambda>body. signed env doc (issuer_of doc) body ATTESTATION (wd_later w) (wd_uuid w)), s2)))"

subsection \<open>redeem\<close>

definition redeem_open :: "oob_env \<Rightarrow> world \<Rightarrow> json \<Rightarrow> connection \<Rightarrow> oob_store \<Rightarrow> (oob_error + oob_thread) \<times> oob_store" where
  "redeem_open env w raw conn s = oob_bind (typed_key_doc env raw TaskRedeem (wd_now w), s) (\<lambda>(doc, _) s.
     oob_bind (request_id_of doc, s) (\<lambda>i s. oob_bind (current_record i (wd_now w) s) (\<lambda>r s1.
       if d_issuer doc \<noteq> Some (or_start_key r) then (refused NotStarter, s1)
       else oob_bind (fresh_document doc (wd_later w) s1) (\<lambda>_ s2.
         let ip = or_unknown (cn_ip conn)
         in case open_poll (or_request_id r) ip (oc_max_polls_per_ip (ov_config env)) s2 of
             (Inl e, s3) \<Rightarrow> (refused RateLimitedCode, s3)
           | (Inr _, s3) \<Rightarrow> (Inr (InPoll doc i ip), add_waiter (or_request_id r) s3)))))"

text \<open>One pass of the loop reads the record, then acts on it. The guard of the poll is dropped on every
  return.\<close>

definition consume ::
  "oob_env \<Rightarrow> world \<Rightarrow> document \<Rightarrow> oob_record \<Rightarrow> oob_store \<Rightarrow> (oob_error + approved_session) \<times> oob_store" where
  "consume env w doc r s = (case compare_and_set (or_version r) (next_record r Consumed (wd_now w)) s of
     (False, s1) \<Rightarrow> (refused RequestExpired, s1)
   | (True, s1) \<Rightarrow>
       let did = or_default [] (or_identified_did r); limit = wd_now w + oc_session_limit (ov_config env)
       in if \<not> is_allowed (wd_acl w) did then (refused NotAuthorizedCode, s1)
          else (Inr \<lparr>as_subject = did, as_session_key = or_start_key r,
                as_not_after = min (case or_grant_not_after r of Some t \<Rightarrow> t | None \<Rightarrow> limit) limit,
                as_display_name = display_name (wd_acl w) did,
                as_grant = (case or_grant r of Some g \<Rightarrow> g | None \<Rightarrow> JNull)\<rparr>, s1))"

text \<open>The answer to a redemption, once the binding has made the session; ext is what it adds.\<close>

definition redeem_response ::
  "oob_env \<Rightarrow> document \<Rightarrow> approved_session \<Rightarrow> json option \<Rightarrow> nat \<Rightarrow> string \<Rightarrow> oob_error + json" where
  "redeem_response env request session ext now uuid =
    and_then (response env TaskRedeem (JObj ([(''subject'', JStr (as_subject session)),
        (''displayName'', JStr (display_name_or_did (as_display_name session) (as_subject session))),
        (''notAfter'', JInt (int (as_not_after session))), (''amr'', JArr (map JStr OOB_AMR))]
        @ (case ext of Some e \<Rightarrow> [(''ext'', e)] | None \<Rightarrow> []))))
      (\<lambda>payload. signed env request (issuer_of request) payload OPERATIONAL now uuid)"

definition state_detail :: "oob_record \<Rightarrow> (string \<times> json)" where
  "state_detail r = (''state'', JStr (oob_state_name (or_state r)))"

definition pending_or_again ::
  "world \<Rightarrow> document \<Rightarrow> string \<Rightarrow> string \<Rightarrow> oob_record \<Rightarrow> oob_store \<Rightarrow> oob_progress \<times> oob_store" where
  "pending_or_again w doc i ip r s =
    (if wd_over w then (Answered (Inl (PendingCode, Some (JObj (state_detail r #
         (case or_match_number r of Some n \<Rightarrow> [(''matchNumber'', JStr n)] | None \<Rightarrow> []))))), close_poll (or_request_id r) ip s)
     else (GoesOn (InPoll doc i ip), s))"

definition redeem_pass ::
  "oob_env \<Rightarrow> world \<Rightarrow> document \<Rightarrow> string \<Rightarrow> string \<Rightarrow> oob_record \<Rightarrow> oob_store \<Rightarrow> oob_progress \<times> oob_store" where
  "redeem_pass env w doc i ip r s = (case or_state r of
     Approved \<Rightarrow> (case consume env w doc r s of
         (Inl e, s1) \<Rightarrow> (Answered (Inl e), close_poll (or_request_id r) ip s1)
       | (Inr session, s1) \<Rightarrow> (Redeemed doc session, close_poll (or_request_id r) ip s1))
   | Declined \<Rightarrow> (Answered (Inl (DeclinedCode, Some (JObj [state_detail r]))), close_poll (or_request_id r) ip s)
   | Cancelled \<Rightarrow> (Answered (Inl (DeclinedCode, Some (JObj [state_detail r]))), close_poll (or_request_id r) ip s)
   | Expired \<Rightarrow> (Answered (Inl (RequestExpired, Some (JObj [state_detail r]))), close_poll (or_request_id r) ip s)
   | Consumed \<Rightarrow> (Answered (Inl (RequestExpired, Some (JObj [state_detail r]))), close_poll (or_request_id r) ip s)
   | Claimed \<Rightarrow>
       if \<not> or_match_number_delivered r
       then (case or_match_number r of
           Some n \<Rightarrow> (case compare_and_set (or_version r) ((next_record r Claimed (wd_now w))\<lparr>or_match_number_delivered := True\<rparr>) s of
               (False, s1) \<Rightarrow> (GoesOn (InPoll doc i ip), s1)
             | (True, s1) \<Rightarrow> (Answered (Inl (PendingCode, Some (JObj [state_detail r, (''matchNumber'', JStr n)]))),
                 close_poll (or_request_id r) ip s1))
         | None \<Rightarrow> pending_or_again w doc i ip r s)
       else pending_or_again w doc i ip r s
   | _ \<Rightarrow> pending_or_again w doc i ip r s)"

subsection \<open>cancel\<close>

definition cancel_read :: "oob_env \<Rightarrow> world \<Rightarrow> json \<Rightarrow> oob_store \<Rightarrow> (oob_error + oob_thread) \<times> oob_store" where
  "cancel_read env w raw s = oob_bind (typed_key_doc env raw TaskCancel (wd_now w), s) (\<lambda>(doc, _) s.
     oob_bind (request_id_of doc, s) (\<lambda>i s.
       oob_bind (current_record i (wd_later w) s) (\<lambda>r s. (Inr (InCancel doc r), s))))"

definition cancel_write :: "oob_env \<Rightarrow> world \<Rightarrow> document \<Rightarrow> oob_record \<Rightarrow> oob_store \<Rightarrow> (oob_error + json) \<times> oob_store" where
  "cancel_write env w doc r s =
    (let issuer = issuer_of doc;
         purpose = (if Some issuer = or_approver_key r then ATTESTATION else OPERATIONAL);
         reply = (\<lambda>body. signed env doc issuer body purpose (wd_later w) (wd_uuid w))
     in if issuer \<noteq> or_start_key r \<and> Some issuer \<noteq> or_approver_key r then (refused NotAuthorizedCode, s)
        else oob_bind (fresh_document doc (wd_now w) s) (\<lambda>_ s.
          oob_bind (response env TaskCancel (JObj [(''status'', JStr ''cancelled'')]), s) (\<lambda>body s.
            if or_state r = Cancelled then (reply body, s)
            else if is_final (or_state r) \<or> or_state r = Approved then (refused AlreadyDecided, s)
            else case compare_and_set (or_version r) (next_record r Cancelled (wd_later w)) s of
                (False, s1) \<Rightarrow> (refused AlreadyDecided, s1)
              | (True, s1) \<Rightarrow> (reply body, s1))))"

section \<open>Handlers side by side\<close>

definition oob_arrive :: "oob_env \<Rightarrow> world \<Rightarrow> json \<Rightarrow> connection \<Rightarrow> oob_store \<Rightarrow> oob_progress \<times> oob_store" where
  "oob_arrive env w raw conn s = (let t = or_default [] (get_str ''type'' raw) in
     if t = ov_type env TaskRequest then answered (oob_request env w raw conn s)
     else if t = ov_type env TaskClaim then goes_on (claim_read env w raw s)
     else if t = ov_type env TaskProve then goes_on (prove_read env w raw conn s)
     else if t = ov_type env TaskRespond then goes_on (respond_read env w raw s)
     else if t = ov_type env TaskRedeem then goes_on (redeem_open env w raw conn s)
     else if t = ov_type env TaskCancel then goes_on (cancel_read env w raw s)
     else (Answered (refused MalformedCode), s))"

definition oob_resume :: "oob_env \<Rightarrow> world \<Rightarrow> oob_thread \<Rightarrow> oob_store \<Rightarrow> oob_progress \<times> oob_store" where
  "oob_resume env w t s = (case t of
     InClaim doc r \<Rightarrow> answered (claim_write env w doc r s)
   | InProve doc identify conn r \<Rightarrow> answered (prove_write env w doc identify conn r s)
   | InRespond doc grant r \<Rightarrow> answered (respond_write env w doc grant r s)
   | InCancel doc r \<Rightarrow> answered (cancel_write env w doc r s)
   | InPoll doc i ip \<Rightarrow> (case current_record i (wd_now w) s of
         (Inl e, s1) \<Rightarrow> (Answered (Inl e), close_poll i ip s1)
       | (Inr r, s1) \<Rightarrow> (GoesOn (InPass doc i ip r), s1))
   | InPass doc i ip r \<Rightarrow> redeem_pass env w doc i ip r s)"

text \<open>A client that goes away takes its handler with it, and the guard of its poll.\<close>

definition abandoned :: "oob_thread \<Rightarrow> oob_store \<Rightarrow> oob_store" where
  "abandoned t s = (case t of InPoll _ i ip \<Rightarrow> close_poll i ip s | InPass _ i ip _ \<Rightarrow> close_poll i ip s | _ \<Rightarrow> s)"

definition thread_request :: "oob_thread \<Rightarrow> string" where
  "thread_request t = (case t of InClaim _ r \<Rightarrow> or_request_id r | InProve _ _ _ r \<Rightarrow> or_request_id r
     | InRespond _ _ r \<Rightarrow> or_request_id r | InCancel _ r \<Rightarrow> or_request_id r | InPoll _ i _ \<Rightarrow> i | InPass _ _ _ r \<Rightarrow> or_request_id r)"

record oob_run =
  rn_store :: oob_store
  rn_threads :: "oob_thread list"
  rn_sessions :: "(string \<times> approved_session) list"

datatype oob_action = Arrives json connection world | Resumes nat world | Leaves nat

definition note_progress :: "string \<Rightarrow> oob_progress \<times> oob_store \<Rightarrow> oob_run \<Rightarrow> oob_run" where
  "note_progress i x st = (let st = st\<lparr>rn_store := snd x\<rparr> in case fst x of
     Answered _ \<Rightarrow> st
   | Redeemed _ session \<Rightarrow> st\<lparr>rn_sessions := (i, session) # rn_sessions st\<rparr>
   | GoesOn t \<Rightarrow> st\<lparr>rn_threads := rn_threads st @ [t]\<rparr>)"

definition drop_nth :: "nat \<Rightarrow> 'a list \<Rightarrow> 'a list" where
  "drop_nth k xs = take k xs @ drop (Suc k) xs"

definition oob_act :: "oob_env \<Rightarrow> oob_action \<Rightarrow> oob_run \<Rightarrow> oob_run" where
  "oob_act env a st = (case a of
     Arrives raw conn w \<Rightarrow> note_progress (wd_request_id w) (oob_arrive env w raw conn (rn_store st)) st
   | Resumes k w \<Rightarrow> if k < length (rn_threads st) then let t = rn_threads st ! k
       in note_progress (thread_request t) (oob_resume env w t (rn_store st)) (st\<lparr>rn_threads := drop_nth k (rn_threads st)\<rparr>)
       else st
   | Leaves k \<Rightarrow> if k < length (rn_threads st)
       then st\<lparr>rn_store := abandoned (rn_threads st ! k) (rn_store st), rn_threads := drop_nth k (rn_threads st)\<rparr> else st)"

definition new_oob_run :: oob_run where
  "new_oob_run = \<lparr>rn_store = new_oob_store, rn_threads = [], rn_sessions = []\<rparr>"

definition oob_runs :: "oob_env \<Rightarrow> oob_action list \<Rightarrow> oob_run" where
  "oob_runs env acts = fold (oob_act env) acts new_oob_run"

end
