(* ===== verification/OobRuns.thy ===== *)
theory OobRuns
  imports OobSignIn
begin

text \<open>
  What wallet sign-in guarantees, whatever documents arrive and however their handlers interleave: who stands
  behind a session, and the state machine the requests follow. Request identifiers are drawn without
  repetition, which the hypotheses state.
\<close>

section \<open>Who stands behind a record\<close>

text \<open>Over the actions A so far: the document that opened request i, signed by the starter's key; the one
  that claimed it, signed by the approver's key, and the number drawn then; the member's identify and grant,
  carried by documents of the approver's key and verified against the keys of the member.\<close>

definition drawn_ids :: "oob_action list \<Rightarrow> string list" where
  "drawn_ids acts = List.map_filter (\<lambda>a. case a of Arrives _ _ w \<Rightarrow> Some (wd_request_id w) | _ \<Rightarrow> None) acts"

definition opened_by :: "oob_env \<Rightarrow> oob_action set \<Rightarrow> string \<Rightarrow> string \<Rightarrow> bool" where
  "opened_by env A i starter \<longleftrightarrow> (\<exists>raw conn w doc parent. Arrives raw conn w \<in> A \<and> wd_request_id w = i
     \<and> key_doc env raw TaskRequest (wd_now w) = Inr (doc, parent) \<and> issuer_of doc = starter)"

definition sent :: "oob_env \<Rightarrow> oob_action set \<Rightarrow> oob_task \<Rightarrow> document \<Rightarrow> bool" where
  "sent env A task doc \<longleftrightarrow> (\<exists>raw conn w parent. Arrives raw conn w \<in> A \<and> typed_key_doc env raw task (wd_now w) = Inr (doc, parent))"

definition claimed_by :: "oob_env \<Rightarrow> oob_action set \<Rightarrow> string \<Rightarrow> string \<Rightarrow> string \<Rightarrow> bool" where
  "claimed_by env A i approver number \<longleftrightarrow> (\<exists>doc k w. sent env A TaskClaim doc \<and> Resumes k w \<in> A
     \<and> issuer_of doc = approver \<and> request_id_of doc = Inr i \<and> number = two_digits (wd_digits w))"

definition proved_by :: "oob_env \<Rightarrow> oob_action set \<Rightarrow> string \<Rightarrow> string \<Rightarrow> string \<Rightarrow> string \<Rightarrow> string \<Rightarrow> json \<Rightarrow> bool" where
  "proved_by env A i starter approver number did step2 \<longleftrightarrow> (\<exists>doc body identify parent k w v r conn payload.
     sent env A TaskProve doc \<and> issuer_of doc = approver \<and> json_get ''identify'' (d_payload doc) = Some body
     \<and> Resumes k w \<in> A \<and> ov_parse env body = Some (identify, parent) \<and> d_issuer identify = Some did
     \<and> is_allowed (wd_acl w) did \<and> wd_member w = Some v \<and> verify_operational v identify = Inr ()
     \<and> get_str ''approverKey'' (d_payload identify) = Some approver \<and> get_str ''requestId'' (d_payload identify) = Some i
     \<and> get_str ''enteredNumber'' (d_payload identify) = Some number
     \<and> or_request_id r = i \<and> or_start_key r = starter
     \<and> response env TaskProve (JObj (step2_members env r conn did)) = Inr payload
     \<and> signed env doc approver payload ATTESTATION (wd_later w) (wd_uuid w) = Inr step2)"

definition granted_by ::
  "oob_env \<Rightarrow> oob_action set \<Rightarrow> string \<Rightarrow> string \<Rightarrow> string \<Rightarrow> string \<Rightarrow> json \<Rightarrow> json \<Rightarrow> nat \<Rightarrow> bool" where
  "granted_by env A i starter approver did step2 body until \<longleftrightarrow> (\<exists>doc grant parent k w v p.
     sent env A TaskRespond doc \<and> issuer_of doc = approver \<and> json_get ''grant'' (d_payload doc) = Some body
     \<and> Resumes k w \<in> A \<and> ov_parse env body = Some (grant, parent) \<and> d_issuer grant = Some did
     \<and> is_allowed (wd_acl w) did \<and> wd_member w = Some v \<and> verify_approval v grant = Inr () \<and> p = d_payload grant
     \<and> get_str ''decision'' p = Some ''approve'' \<and> get_str ''requestId'' p = Some i \<and> get_str ''approverKey'' p = Some approver
     \<and> get_str ''sessionKey'' p = Some starter \<and> get_str ''origin'' p = Some (oc_origin (ov_config env))
     \<and> context_digests_equal env (or_default [] (get_str ''contextDigest'' p)) (context_digest env step2)
     \<and> Option.bind (json_get ''notAfter'' p) json_u64 = Some until)"

definition backed :: "oob_env \<Rightarrow> oob_action set \<Rightarrow> oob_record \<Rightarrow> bool" where
  "backed env A r \<longleftrightarrow> (let i = or_request_id r; starter = or_start_key r in
     opened_by env A i starter \<and> or_origin r = oc_origin (ov_config env)
     \<and> (in_decision_window (or_state r) \<longrightarrow> (\<exists>approver number. or_approver_key r = Some approver \<and> or_match_number r = Some number
          \<and> claimed_by env A i approver number
          \<and> (or_state r \<noteq> Claimed \<longrightarrow> (\<exists>did step2. or_identified_did r = Some did \<and> or_step2_digest r = Some (context_digest env step2)
              \<and> proved_by env A i starter approver number did step2
              \<and> (or_state r = Approved \<longrightarrow> (\<exists>body until. or_grant r = Some body \<and> or_grant_not_after r = Some until
                  \<and> granted_by env A i starter approver did step2 body until)))))))"

section \<open>How a step changes the records\<close>

text \<open>The abstract state machine.\<close>

definition follows :: "oob_state \<Rightarrow> oob_state \<Rightarrow> bool" where
  "follows s s' \<longleftrightarrow> (s, s') \<in> {(Pending, Claimed), (Claimed, Claimed), (Claimed, Identified), (Identified, Approved), (Approved, Consumed)}
     \<or> s' = Declined \<and> (s = Claimed \<or> s = Identified)
     \<or> s' = Cancelled \<and> (s = Pending \<or> s = Claimed \<or> s = Identified)
     \<or> s' = Expired \<and> \<not> is_final s"

definition succeeds :: "oob_env \<Rightarrow> oob_action set \<Rightarrow> oob_record \<Rightarrow> oob_record \<Rightarrow> bool" where
  "succeeds env A r n \<longleftrightarrow> or_request_id n = or_request_id r \<and> or_version n = Suc (or_version r)
     \<and> follows (or_state r) (or_state n) \<and> backed env A n
     \<and> (or_state r = Claimed \<and> or_state n = Claimed \<longrightarrow> \<not> or_match_number_delivered r \<and> or_match_number_delivered n)"

definition moves :: "oob_env \<Rightarrow> oob_action set \<Rightarrow> oob_store \<Rightarrow> oob_store \<Rightarrow> bool" where
  "moves env A s s' \<longleftrightarrow> (\<forall>i. get_request s' i = get_request s i \<or> get_request s' i = None
     \<or> (\<exists>r n. get_request s i = Some r \<and> get_request s' i = Some n \<and> succeeds env A r n))"

definition records_ok :: "oob_env \<Rightarrow> oob_action list \<Rightarrow> oob_store \<Rightarrow> bool" where
  "records_ok env acts s \<longleftrightarrow> (\<forall>i r. get_request s i = Some r \<longrightarrow>
     or_request_id r = i \<and> i \<in> set (drawn_ids acts) \<and> backed env (set acts) r)"

text \<open>A record read earlier: it is the one held, or the one held is newer; and a claimed request that is
  still claimed changed only in that its number was delivered.\<close>

definition snapshot :: "oob_store \<Rightarrow> oob_record \<Rightarrow> bool" where
  "snapshot s r \<longleftrightarrow> (\<forall>c. get_request s (or_request_id r) = Some c \<longrightarrow> c = r \<or>
     or_version r < or_version c \<and> (or_state c = Claimed \<longrightarrow> or_state r = Pending \<or>
       or_state r = Claimed \<and> \<not> or_match_number_delivered r \<and> or_match_number_delivered c)
     \<and> (or_state c = Identified \<longrightarrow> or_state r \<noteq> Identified) \<and> or_state c \<noteq> Pending)"

lemma moves_same: "(\<And>i. get_request s' i = get_request s i) \<Longrightarrow> moves env A s s'"
  by (simp add: moves_def)

lemma moves_frame: "moves env A s s1 \<Longrightarrow> (\<And>i. get_request s2 i = get_request s1 i) \<Longrightarrow> moves env A s s2"
  by (simp add: moves_def)

lemma moves_close: "moves env A s s1 \<Longrightarrow> moves env A s (close_poll i ip s1)"
  by (simp add: moves_def)

lemma frame_moves: "moves env A s1 s2 \<Longrightarrow> (\<And>i. get_request s1 i = get_request s i) \<Longrightarrow> moves env A s s2"
  by (simp add: moves_def)

lemma snapshot_frame: "snapshot s r \<Longrightarrow> (\<And>i. get_request s' i = get_request s i) \<Longrightarrow> snapshot s' r"
  by (simp add: snapshot_def)

lemma snapshot_held: "get_request s (or_request_id r) = Some r \<Longrightarrow> snapshot s r"
  by (simp add: snapshot_def)

lemma snapshot_moves: "snapshot s r \<Longrightarrow> moves env A s s' \<Longrightarrow> snapshot s' r"
proof -
  assume a: "snapshot s r" and m: "moves env A s s'"
  from m consider "get_request s' (or_request_id r) = get_request s (or_request_id r)" | "get_request s' (or_request_id r) = None"
    | c n where "get_request s (or_request_id r) = Some c" "get_request s' (or_request_id r) = Some n" "succeeds env A c n"
    unfolding moves_def by metis
  then show ?thesis
  proof cases
    case 3
    then show ?thesis using a by (auto simp: snapshot_def succeeds_def follows_def)
  qed (use a in \<open>auto simp: snapshot_def\<close>)
qed

lemma cas_on_snapshot:
  assumes "snapshot s r" "or_request_id n = or_request_id r" "fst (compare_and_set (or_version r) n s)"
  shows "get_request s (or_request_id r) = Some r"
  using assms cas_hit[OF assms(3)] by (auto simp: snapshot_def)

lemma cas_moves:
  assumes "snapshot s r" "succeeds env A r n"
  shows "moves env A s (snd (compare_and_set (or_version r) n s))"
proof (cases "fst (compare_and_set (or_version r) n s)")
  case True
  have i: "or_request_id n = or_request_id r" using assms(2) by (simp add: succeeds_def)
  show ?thesis using True cas_on_snapshot[OF assms(1) i True] assms(2) i by (auto simp: moves_def cas_get)
next
  case False
  then show ?thesis by (simp add: moves_def cas_get)
qed

lemma evidence_mono:
  assumes "A \<subseteq> B"
  shows "opened_by env A i s \<Longrightarrow> opened_by env B i s" "sent env A task doc \<Longrightarrow> sent env B task doc"
    "claimed_by env A i ap n \<Longrightarrow> claimed_by env B i ap n"
    "proved_by env A i s ap n did step2 \<Longrightarrow> proved_by env B i s ap n did step2"
    "granted_by env A i s ap did step2 body until \<Longrightarrow> granted_by env B i s ap did step2 body until"
proof -
  show o: "opened_by env A i s \<Longrightarrow> opened_by env B i s" unfolding opened_by_def using assms by blast
  show t: "sent env A task doc \<Longrightarrow> sent env B task doc" for task doc unfolding sent_def using assms by blast
  show "claimed_by env A i ap n \<Longrightarrow> claimed_by env B i ap n" unfolding claimed_by_def using t assms by blast
  show "proved_by env A i s ap n did step2 \<Longrightarrow> proved_by env B i s ap n did step2" unfolding proved_by_def using t assms by blast
  show "granted_by env A i s ap did step2 body until \<Longrightarrow> granted_by env B i s ap did step2 body until"
    unfolding granted_by_def using t assms by blast
qed

lemma backing_mono:
  assumes "A \<subseteq> B" "backed env A r"
  shows "backed env B r"
  using assms(2) unfolding backed_def Let_def by (blast intro: evidence_mono(1,3,4,5)[OF assms(1)])

lemma backing_ended:
  "backed env A r \<Longrightarrow> is_final s \<Longrightarrow> backed env A (next_record r s now)"
  by (cases s) (simp_all add: backed_def Let_def)

lemma ends_succeed:
  "backed env A r \<Longrightarrow> is_final s \<Longrightarrow> follows (or_state r) s \<Longrightarrow> succeeds env A r (next_record r s now)"
  by (auto simp: succeeds_def backing_ended)

lemma bind_moves:
  "moves env A s (snd x) \<Longrightarrow> (\<And>a s1. x = (Inr a, s1) \<Longrightarrow> moves env A s (snd (f a s1))) \<Longrightarrow> moves env A s (snd (oob_bind x f))"
  by (auto simp: oob_bind_def split: prod.splits sum.splits)

lemma bind_Inr: "oob_bind x f = (Inr b, s') \<Longrightarrow> \<exists>a s1. x = (Inr a, s1) \<and> f a s1 = (Inr b, s')"
  by (auto simp: oob_bind_def split: prod.splits sum.splits)

lemma fresh_frame [simp]: "get_request (snd (fresh_document doc now s)) i = get_request s i"
proof -
  have "snd (fresh_document doc now s) = snd (remember_document (issuer_of doc) (d_id doc) (now + SEEN_ID_TTL_SECS) now s)"
    by (simp add: fresh_document_def split: prod.splits sum.splits seen_error.splits)
  then show ?thesis by simp
qed

lemma fresh_same: "fresh_document doc now s = (x, s') \<Longrightarrow> get_request s' i = get_request s i"
  using fresh_frame[of doc now s i] by simp

lemma lapsed_follows: "lapsed r now \<Longrightarrow> follows (or_state r) Expired"
  by (cases "or_state r") (simp_all add: lapsed_def follows_def)

lemma current_cases:
  assumes "records_ok env acts s" "current_record i now s = (x, s')"
  shows "moves env (set acts) s s'"
    and "x = Inr r \<Longrightarrow> get_request s' i = Some r \<and> or_request_id r = i \<and> backed env (set acts) r"
proof -
  have *: "moves env (set acts) s s' \<and> (x = Inr r \<longrightarrow> get_request s' i = Some r \<and> or_request_id r = i \<and> backed env (set acts) r)"
  proof (cases "get_request s i")
    case None
    then show ?thesis using assms(2) by (auto simp: current_record_def refused_def moves_def)
  next
    case (Some c)
    have c: "or_request_id c = i" "backed env (set acts) c" using assms(1) Some by (auto simp: records_ok_def)
    show ?thesis
    proof (cases "lapsed c now")
      case True
      let ?n = "next_record c Expired now"
      have n: "succeeds env (set acts) c ?n" using ends_succeed[OF c(2)] lapsed_follows[OF True] by simp
      have s: "snapshot s c" using Some c(1) by (simp add: snapshot_held)
      have "fst (compare_and_set (or_version c) ?n s)" using Some c(1) by (simp add: compare_and_set_def)
      then show ?thesis using assms(2) Some True c(1) cas_moves[OF s n] n
        by (auto simp: current_record_def Let_def cas_get succeeds_def)
    next
      case False
      then show ?thesis using assms(2) Some c by (auto simp: current_record_def moves_def)
    qed
  qed
  then show "moves env (set acts) s s'"
    and "x = Inr r \<Longrightarrow> get_request s' i = Some r \<and> or_request_id r = i \<and> backed env (set acts) r" by blast+
qed

lemma refused_simps [simp]: "refused c \<noteq> Inr x" "Inr x \<noteq> refused c" "refused c = Inl e \<longleftrightarrow> e = (c, None)" "Inl e = refused c \<longleftrightarrow> e = (c, None)"
  by (auto simp: refused_def)

lemma remember_same: "remember_document issuer j until now s = (x, s') \<Longrightarrow> get_request s' i = get_request s i"
  using remember_frame[of issuer j until now s i] by simp

lemma unless_Inr [simp]: "unless_not_authorized b = Inr () \<longleftrightarrow> b"
  by (simp add: unless_not_authorized_def refused_def)

lemma prove_checks_frame [simp]: "get_request (snd (prove_checks env w r body s)) i = get_request s i"
  by (auto simp: prove_checks_def Let_def oob_bind_def remember_same split: option.splits prod.splits sum.splits)

lemma grant_checks_frame [simp]: "get_request (snd (grant_checks env w r body s)) i = get_request s i"
  by (auto simp: grant_checks_def Let_def oob_bind_def remember_same split: option.splits prod.splits sum.splits)

lemma member_documentD:
  "member_document env w task verify doc = Inr () \<Longrightarrow> \<exists>v. wd_member w = Some v \<and> verify v doc = Inr ()"
  by (auto simp: member_document_def res_simps is_ok_iff split: option.splits)

lemma prove_checksD:
  assumes "prove_checks env w r body s = (Inr (did, entered), s1)"
  obtains identify parent v where "ov_parse env body = Some (identify, parent)" "d_issuer identify = Some did"
    "is_allowed (wd_acl w) did" "wd_member w = Some v" "verify_operational v identify = Inr ()"
    "get_str ''approverKey'' (d_payload identify) = or_approver_key r" "get_str ''requestId'' (d_payload identify) = Some (or_request_id r)"
    "get_str ''enteredNumber'' (d_payload identify) = Some entered"
proof -
  obtain identify parent where p: "ov_parse env body = Some (identify, parent)"
    using assms by (auto simp: prove_checks_def refused_def split: option.splits)
  let ?did = "issuer_of identify" and ?p = "d_payload identify"
  from assms p have c: "get_str ''approverKey'' ?p = or_approver_key r" "?did \<noteq> []" "is_allowed (wd_acl w) ?did"
    "member_document env w TaskIdentify verify_operational identify = Inr ()" "get_str ''enteredNumber'' ?p \<noteq> None"
    "get_str ''requestId'' ?p = Some (or_request_id r)" "did = ?did" "entered = or_default [] (get_str ''enteredNumber'' ?p)"
    by (auto simp: prove_checks_def Let_def refused_def and_then_Inr dest!: bind_Inr split: prod.splits sum.splits)
  obtain v where v: "wd_member w = Some v" "verify_operational v identify = Inr ()" using member_documentD[OF c(4)] by blast
  have "d_issuer identify = Some did" using c(2,7) by (auto simp: issuer_of_def split: option.splits)
  moreover have "get_str ''enteredNumber'' ?p = Some entered" using c(5,8) by (auto simp: or_default_def)
  ultimately show thesis using that p c v by simp
qed

lemma grant_checksD:
  assumes "grant_checks env w r body s = (Inr (approve, until), s1)"
  obtains grant parent v p where "ov_parse env body = Some (grant, parent)" "d_issuer grant = Some (or_default [] (or_identified_did r))"
    "is_allowed (wd_acl w) (or_default [] (or_identified_did r))" "wd_member w = Some v" "verify_approval v grant = Inr ()" "p = d_payload grant"
    "approve \<longleftrightarrow> get_str ''decision'' p = Some ''approve''" "get_str ''requestId'' p = Some (or_request_id r)"
    "get_str ''approverKey'' p = or_approver_key r" "get_str ''sessionKey'' p = Some (or_start_key r)"
    "get_str ''origin'' p = Some (or_origin r)"
    "context_digests_equal env (or_default [] (get_str ''contextDigest'' p)) (or_default [] (or_step2_digest r))"
    "Option.bind (json_get ''notAfter'' p) json_u64 = Some until"
proof -
  obtain grant parent where p: "ov_parse env body = Some (grant, parent)"
    using assms by (auto simp: grant_checks_def refused_def split: option.splits)
  let ?did = "or_default [] (or_identified_did r)" and ?p = "d_payload grant"
  from assms p have a: "d_issuer grant = Some ?did" "member_document env w TaskGrant verify_approval grant = Inr ()"
    "grant_bindings env w r ?p = Inr (approve, until)"
    by (auto simp: grant_checks_def Let_def and_then_Inr dest!: bind_Inr split: prod.splits sum.splits)
  obtain v where "wd_member w = Some v" "verify_approval v grant = Inr ()" using member_documentD[OF a(2)] by blast
  moreover have "get_str ''requestId'' ?p = Some (or_request_id r)" "get_str ''approverKey'' ?p = or_approver_key r"
    "get_str ''sessionKey'' ?p = Some (or_start_key r)" "get_str ''origin'' ?p = Some (or_origin r)"
    "context_digests_equal env (or_default [] (get_str ''contextDigest'' ?p)) (or_default [] (or_step2_digest r))"
    "is_allowed (wd_acl w) ?did" "approve \<longleftrightarrow> get_str ''decision'' ?p = Some ''approve''"
    "Option.bind (json_get ''notAfter'' ?p) json_u64 = Some until"
    using a(3) by (auto simp: grant_bindings_def Let_def split: option.splits if_splits)
  ultimately show thesis using that p a by blast
qed

lemma claim_moves:
  assumes "sent env A TaskClaim doc" "request_id_of doc = Inr (or_request_id r)" "backed env A r" "snapshot s r" "Resumes k w \<in> A"
  shows "moves env A s (snd (claim_write env w doc r s))"
proof (cases "or_state r = Pending")
  case True
  let ?n = "claimed_record env doc r w"
  have "claimed_by env A (or_request_id r) (issuer_of doc) (two_digits (wd_digits w))"
    unfolding claimed_by_def using assms(1,2,5) by blast
  then have "succeeds env A r ?n"
    using assms(3) True by (simp add: succeeds_def claimed_record_def follows_def backed_def Let_def)
  moreover have "snapshot (snd (fresh_document doc now s)) r" for now using snapshot_frame[OF assms(4)] by simp
  ultimately have m: "moves env A (snd (fresh_document doc now s)) (snd (compare_and_set (or_version r) ?n (snd (fresh_document doc now s))))" for now
    using cas_moves by blast
  then have "moves env A s (snd (compare_and_set (or_version r) ?n (snd (fresh_document doc now s))))" for now
    using frame_moves by fastforce
  from this[of "wd_now w"] show ?thesis using True fresh_same
    by (auto simp: claim_write_def Let_def oob_bind_def moves_same split: prod.splits sum.splits bool.splits)
qed (simp add: claim_write_def moves_def)

lemma decline_moves:
  assumes "backed env A r" "snapshot s r" "or_state r = Claimed \<or> or_state r = Identified"
  shows "moves env A s (decline r now s)"
  unfolding decline_def by (rule cas_moves[OF assms(2) ends_succeed[OF assms(1)]]) (use assms(3) in \<open>auto simp: follows_def\<close>)

text \<open>The common shape of the last lemmas: checks that keep the records, then one compare-and-set.\<close>

lemma cas_after:
  assumes "snapshot s r" "succeeds env A r n" "\<And>i. get_request s1 i = get_request s i"
  shows "moves env A s (snd (compare_and_set (or_version r) n s1))"
  by (rule frame_moves[OF cas_moves[OF snapshot_frame[OF assms(1,3)] assms(2)] assms(3)])

lemma cas_after': "snapshot s r \<Longrightarrow> succeeds env A r n \<Longrightarrow> (\<And>i. get_request s1 i = get_request s i)
  \<Longrightarrow> compare_and_set (or_version r) n s1 = (b, s2) \<Longrightarrow> moves env A s s2"
  using cas_after[of s r env A n s1] by simp

lemma prove_checks_same: "prove_checks env w r body s = (x, s1) \<Longrightarrow> get_request s1 i = get_request s i"
  using prove_checks_frame[of env w r body s i] by simp

lemma grant_checks_same: "grant_checks env w r body s = (x, s1) \<Longrightarrow> get_request s1 i = get_request s i"
  using grant_checks_frame[of env w r body s i] by simp

lemma decline_after:
  assumes "backed env A r" "snapshot s r" "or_state r = Claimed \<or> or_state r = Identified" "\<And>i. get_request s1 i = get_request s i"
  shows "moves env A s (decline r now s1)"
  by (rule frame_moves[OF decline_moves[OF assms(1) snapshot_frame[OF assms(2,4)] assms(3)] assms(4)])

lemma prove_moves:
  assumes "sent env A TaskProve doc" "json_get ''identify'' (d_payload doc) = Some body" "or_approver_key r = Some (issuer_of doc)"
    "or_state r = Claimed" "backed env A r" "snapshot s r" "Resumes k w \<in> A"
  shows "moves env A s (snd (prove_write env w doc body conn r s))"
proof (cases "prove_checks env w r body s")
  case (Pair x s1)
  note same = prove_checks_same[OF Pair]
  note d = decline_after[OF assms(5,6) _ same]
  show ?thesis
  proof (cases x)
    case (Inl e)
    then show ?thesis using Pair d assms(4) by (simp add: prove_write_def)
  next
    case (Inr y)
    obtain did entered where y: "y = (did, entered)" by force
    show ?thesis
    proof (cases "or_match_number r = Some entered")
      case False
      then show ?thesis using Pair Inr y d assms(4) by (simp add: prove_write_def)
    next
      case True
      obtain identify parent v where f: "ov_parse env body = Some (identify, parent)" "d_issuer identify = Some did"
        "is_allowed (wd_acl w) did" "wd_member w = Some v" "verify_operational v identify = Inr ()"
        "get_str ''approverKey'' (d_payload identify) = or_approver_key r" "get_str ''requestId'' (d_payload identify) = Some (or_request_id r)"
        "get_str ''enteredNumber'' (d_payload identify) = Some entered"
        by (rule prove_checksD) (use Pair Inr y in simp)
      have m: "moves env A s s2"
        if p: "response env TaskProve (JObj (step2_members env r conn did)) = Inr payload"
          "signed env doc (issuer_of doc) payload ATTESTATION (wd_later w) (wd_uuid w) = Inr step2"
          "compare_and_set (or_version r) (identified_record env r (wd_later w) did step2) s1 = (b, s2)" for payload step2 b s2
      proof (rule cas_after'[OF assms(6) _ same p(3)])
        have "proved_by env A (or_request_id r) (or_start_key r) (issuer_of doc) entered did step2"
          unfolding proved_by_def using assms(1,2,3,7) f p(1,2) by fastforce
        then show "succeeds env A r (identified_record env r (wd_later w) did step2)"
          using assms(3,4,5) True by (auto simp: succeeds_def identified_record_def follows_def backed_def Let_def)
      qed
      show ?thesis using Pair Inr y True same
        by (auto simp: prove_write_def oob_bind_def and_then_Inr moves_same split: prod.splits sum.splits bool.splits intro: m)
    qed
  qed
qed

lemma respond_moves:
  assumes "sent env A TaskRespond doc" "json_get ''grant'' (d_payload doc) = Some body" "or_approver_key r = Some (issuer_of doc)"
    "or_state r = Identified" "backed env A r" "snapshot s r" "Resumes k w \<in> A"
  shows "moves env A s (snd (respond_write env w doc body r s))"
proof (cases "grant_checks env w r body s")
  case (Pair x s1)
  note same = grant_checks_same[OF Pair]
  show ?thesis
  proof (cases x)
    case (Inl e)
    then show ?thesis using Pair decline_after[OF assms(5,6) _ same] assms(4) by (simp add: respond_write_def)
  next
    case (Inr y)
    obtain approve until where y: "y = (approve, until)" by force
    obtain grant parent v p where f: "ov_parse env body = Some (grant, parent)" "d_issuer grant = Some (or_default [] (or_identified_did r))"
      "is_allowed (wd_acl w) (or_default [] (or_identified_did r))" "wd_member w = Some v" "verify_approval v grant = Inr ()" "p = d_payload grant"
      "approve \<longleftrightarrow> get_str ''decision'' p = Some ''approve''" "get_str ''requestId'' p = Some (or_request_id r)"
      "get_str ''approverKey'' p = or_approver_key r" "get_str ''sessionKey'' p = Some (or_start_key r)" "get_str ''origin'' p = Some (or_origin r)"
      "context_digests_equal env (or_default [] (get_str ''contextDigest'' p)) (or_default [] (or_step2_digest r))"
      "Option.bind (json_get ''notAfter'' p) json_u64 = Some until"
      by (rule grant_checksD) (use Pair Inr y in simp)
    let ?n = "decided_record r (wd_later w) approve body until"
    have "succeeds env A r ?n"
    proof (cases approve)
      case True
      obtain did step2 number where b: "or_identified_did r = Some did" "or_step2_digest r = Some (context_digest env step2)"
        "or_match_number r = Some number" "claimed_by env A (or_request_id r) (issuer_of doc) number"
        "proved_by env A (or_request_id r) (or_start_key r) (issuer_of doc) number did step2"
        "opened_by env A (or_request_id r) (or_start_key r)" "or_origin r = oc_origin (ov_config env)"
        using assms(3,4,5) by (auto simp: backed_def Let_def)
      have "granted_by env A (or_request_id r) (or_start_key r) (issuer_of doc) did step2 body until"
        unfolding granted_by_def using assms(1,2,3,7) f b True by (fastforce simp: or_default_def)
      then show ?thesis using assms(3,4) b True
        by (auto simp: succeeds_def decided_record_def follows_def backed_def Let_def)
    next
      case False
      then show ?thesis using assms(4,5) by (auto simp: succeeds_def decided_record_def follows_def backed_def Let_def)
    qed
    from cas_after[OF assms(6) this same] show ?thesis using Pair Inr y
      by (auto simp: respond_write_def split: prod.splits bool.splits)
  qed
qed

lemma cancel_moves:
  assumes "backed env A r" "snapshot s r"
  shows "moves env A s (snd (cancel_write env w doc r s))"
proof -
  have m: "moves env A s s2" if "\<not> is_final (or_state r)" "or_state r \<noteq> Approved" "fresh_document doc now s = (x, s1)"
    "compare_and_set (or_version r) (next_record r Cancelled (wd_later w)) s1 = (b, s2)" for x s1 b s2 now
  proof (rule cas_after'[OF assms(2) _ fresh_same[OF that(3)] that(4)])
    show "succeeds env A r (next_record r Cancelled (wd_later w))"
      by (rule ends_succeed[OF assms(1)]) (use that(1,2) in \<open>cases "or_state r"; simp add: follows_def\<close>)+
  qed
  obtain x s1 where f: "fresh_document doc (wd_now w) s = (x, s1)" by force
  obtain b s2 where c: "compare_and_set (or_version r) (next_record r Cancelled (wd_later w)) s1 = (b, s2)" by force
  have "snd (cancel_write env w doc r s) \<in> {s, s1} \<or> \<not> is_final (or_state r) \<and> or_state r \<noteq> Approved \<and> snd (cancel_write env w doc r s) = s2"
    using f c by (cases x; cases b; cases "response env TaskCancel (JObj [(''status'', JStr ''cancelled'')])")
      (simp_all add: cancel_write_def Let_def oob_bind_def)
  then show ?thesis using m[OF _ _ f c] moves_same[OF fresh_same[OF f]] by (auto simp: moves_same)
qed

lemma consume_moves:
  assumes "backed env A r" "snapshot s r" "or_state r = Approved"
  shows "moves env A s (snd (consume env w doc r s))"
proof -
  have "succeeds env A r (next_record r Consumed (wd_now w))"
    using ends_succeed[OF assms(1), of Consumed] assms(3) by (simp add: follows_def)
  from cas_moves[OF assms(2) this] show ?thesis
    by (auto simp: consume_def Let_def split: prod.splits bool.splits)
qed

lemma deliver_moves:
  assumes "backed env A r" "snapshot s r" "or_state r = Claimed" "\<not> or_match_number_delivered r"
  shows "moves env A s (snd (compare_and_set (or_version r) ((next_record r Claimed now)\<lparr>or_match_number_delivered := True\<rparr>) s))"
  by (rule cas_moves[OF assms(2)]) (use assms(1,3,4) in \<open>auto simp: succeeds_def follows_def backed_def Let_def\<close>)

lemma pass_moves:
  assumes "backed env A r" "snapshot s r"
  shows "moves env A s (snd (redeem_pass env w doc i ip r s))"
proof -
  have same: "moves env A s (snd (pending_or_again w doc i ip r s))" by (auto simp: pending_or_again_def moves_same)
  show ?thesis
  proof (cases "or_state r")
    case Approved
    have "moves env A s (snd (consume env w doc r s))" by (rule consume_moves[OF assms Approved])
    then show ?thesis using Approved by (auto simp: redeem_pass_def moves_def split: prod.splits sum.splits)
  next
    case Claimed
    have "moves env A s s1" if "\<not> or_match_number_delivered r"
      "compare_and_set (or_version r) ((next_record r Claimed (wd_now w))\<lparr>or_match_number_delivered := True\<rparr>) s = (b, s1)" for b s1
      using deliver_moves[OF assms Claimed that(1), of "wd_now w"] that(2) by simp
    then show ?thesis using Claimed same
      by (auto simp: redeem_pass_def intro!: moves_close split: option.splits prod.splits bool.splits)
  qed (use same in \<open>auto simp: redeem_pass_def moves_same\<close>)
qed

section \<open>What a handler holds\<close>

definition thread_ok :: "oob_env \<Rightarrow> oob_action list \<Rightarrow> oob_store \<Rightarrow> oob_thread \<Rightarrow> bool" where
  "thread_ok env acts s t = (let
       held = (\<lambda>r. or_request_id r \<in> set (drawn_ids acts) \<and> backed env (set acts) r \<and> snapshot s r);
       asked = (\<lambda>doc i. sent env (set acts) TaskRedeem doc \<and> request_id_of doc = Inr i \<and> opened_by env (set acts) i (issuer_of doc)) in
     case t of
       InClaim doc r \<Rightarrow> held r \<and> sent env (set acts) TaskClaim doc \<and> request_id_of doc = Inr (or_request_id r)
     | InProve doc body _ r \<Rightarrow> held r \<and> sent env (set acts) TaskProve doc \<and> json_get ''identify'' (d_payload doc) = Some body
         \<and> or_approver_key r = Some (issuer_of doc) \<and> or_state r = Claimed
     | InRespond doc body r \<Rightarrow> held r \<and> sent env (set acts) TaskRespond doc \<and> json_get ''grant'' (d_payload doc) = Some body
         \<and> or_approver_key r = Some (issuer_of doc) \<and> or_state r = Identified
     | InCancel doc r \<Rightarrow> held r
     | InPoll doc i ip \<Rightarrow> asked doc i
     | InPass doc i ip r \<Rightarrow> asked doc i \<and> held r \<and> or_request_id r = i)"

lemma drawn_snoc [simp]: "drawn_ids (acts @ acts') = drawn_ids acts @ drawn_ids acts'"
  by (induction acts) (simp_all add: drawn_ids_def List.map_filter_simps split: option.splits)

lemma drawn_one [simp]: "drawn_ids [Arrives raw conn w] = [wd_request_id w]" "drawn_ids [Resumes k w] = []" "drawn_ids [Leaves k] = []"
  by (simp_all add: drawn_ids_def List.map_filter_simps)

lemma records_okD: "records_ok env acts s \<Longrightarrow> get_request s i = Some r \<Longrightarrow> or_request_id r = i \<and> i \<in> set (drawn_ids acts) \<and> backed env (set acts) r"
  by (simp add: records_ok_def)

lemma records_later: "records_ok env acts s \<Longrightarrow> records_ok env (acts @ b) s"
  unfolding records_ok_def using backing_mono[of "set acts" "set (acts @ b)" env] by auto

lemma thread_later: "thread_ok env acts s t \<Longrightarrow> thread_ok env (acts @ b) s t"
  using backing_mono[of "set acts" "set (acts @ b)" env] evidence_mono(1,2)[of "set acts" "set (acts @ b)" env]
  by (cases t) (simp_all add: thread_ok_def)

lemma thread_moves:
  assumes "thread_ok env acts s t" "moves env A s s'"
  shows "thread_ok env acts s' t"
proof -
  have "snapshot s r \<Longrightarrow> snapshot s' r" for r using snapshot_moves[OF _ assms(2)] by blast
  then show ?thesis using assms(1) by (cases t) (auto simp: thread_ok_def)
qed

lemma records_moves:
  assumes "records_ok env acts s" "moves env (set acts) s s'"
  shows "records_ok env acts s'"
  unfolding records_ok_def
proof (intro allI impI)
  fix i n assume n: "get_request s' i = Some n"
  from assms(2) n consider "get_request s i = Some n"
    | r where "get_request s i = Some r" "succeeds env (set acts) r n" unfolding moves_def by (metis option.distinct(1) option.inject)
  then show "or_request_id n = i \<and> i \<in> set (drawn_ids acts) \<and> backed env (set acts) n"
    using records_okD[OF assms(1)] by cases (auto simp: succeeds_def)
qed

text \<open>The readings.\<close>

lemma typed_sent:
  "typed_key_doc env raw task (wd_now w) = Inr (doc, parent) \<Longrightarrow> Arrives raw conn w \<in> A \<Longrightarrow> sent env A task doc"
  by (auto simp: sent_def)

lemma bind_goes:
  assumes "moves env A s (snd x)" "\<And>a s1. x = (Inr a, s1) \<Longrightarrow> moves env A s (snd (f a s1)) \<and> (\<forall>t. fst (f a s1) = Inr t \<longrightarrow> P t (snd (f a s1)))"
  shows "moves env A s (snd (oob_bind x f)) \<and> (\<forall>t. fst (oob_bind x f) = Inr t \<longrightarrow> P t (snd (oob_bind x f)))"
  using assms by (auto simp: oob_bind_def split: prod.splits sum.splits)

lemma pure_moves [simp]: "moves env A s (snd (x, s))"
  by (simp add: moves_same)

lemma current_goes:
  assumes "records_ok env acts s"
    "\<And>r s1. get_request s1 i = Some r \<Longrightarrow> or_request_id r = i \<Longrightarrow> backed env (set acts) r \<Longrightarrow> moves env (set acts) s s1 \<Longrightarrow>
       moves env (set acts) s (snd (f r s1)) \<and> (\<forall>t. fst (f r s1) = Inr t \<longrightarrow> P t (snd (f r s1)))"
  shows "moves env (set acts) s (snd (oob_bind (current_record i now s) f))
     \<and> (\<forall>t. fst (oob_bind (current_record i now s) f) = Inr t \<longrightarrow> P t (snd (oob_bind (current_record i now s) f)))"
proof (rule bind_goes)
  show "moves env (set acts) s (snd (current_record i now s))"
    using current_cases(1)[OF assms(1)] by (metis prod.collapse)
next
  fix r s1 assume c: "current_record i now s = (Inr r, s1)"
  show "moves env (set acts) s (snd (f r s1)) \<and> (\<forall>t. fst (f r s1) = Inr t \<longrightarrow> P t (snd (f r s1)))"
    using assms(2) current_cases[OF assms(1) c] by blast
qed

lemma held_now:
  assumes "records_ok env acts s" "moves env (set acts) s s1" "get_request s1 i = Some r"
  shows "i \<in> set (drawn_ids acts)" "or_request_id r = i \<Longrightarrow> snapshot s1 r"
  using records_okD[OF records_moves[OF assms(1,2)] assms(3)] assms(3) by (auto simp: snapshot_held)

definition reading_ok :: "oob_env \<Rightarrow> oob_action list \<Rightarrow> oob_store \<Rightarrow> (oob_error + oob_thread) \<times> oob_store \<Rightarrow> bool" where
  "reading_ok env acts s x \<longleftrightarrow> moves env (set acts) s (snd x) \<and> (\<forall>t. fst x = Inr t \<longrightarrow> thread_ok env acts (snd x) t)"

lemma reading_refused [simp]: "reading_ok env acts s (refused c, s)" "moves env (set acts) s s1 \<Longrightarrow> reading_ok env acts s (refused c, s1)"
  by (simp_all add: reading_ok_def moves_same)

lemma reading_bind:
  assumes "\<And>a. x = Inr a \<Longrightarrow> reading_ok env acts s (f a s)"
  shows "reading_ok env acts s (oob_bind (x, s) f)"
  using assms by (auto simp: reading_ok_def oob_bind_def moves_same split: sum.splits)

lemma reading_current:
  assumes "records_ok env acts s"
    "\<And>r s1. get_request s1 i = Some r \<Longrightarrow> or_request_id r = i \<Longrightarrow> backed env (set acts) r \<Longrightarrow> moves env (set acts) s s1 \<Longrightarrow>
       or_request_id r \<in> set (drawn_ids acts) \<Longrightarrow> snapshot s1 r \<Longrightarrow> reading_ok env acts s (f r s1)"
  shows "reading_ok env acts s (oob_bind (current_record i now s) f)"
  unfolding reading_ok_def
proof (rule current_goes[OF assms(1)])
  fix r s1
  assume a: "get_request s1 i = Some r" "or_request_id r = i" "backed env (set acts) r" "moves env (set acts) s s1"
  have "or_request_id r \<in> set (drawn_ids acts)" "snapshot s1 r" using held_now[OF assms(1) a(4,1)] a(2) by simp_all
  from assms(2)[OF a this] show "moves env (set acts) s (snd (f r s1)) \<and> (\<forall>t. fst (f r s1) = Inr t \<longrightarrow> thread_ok env acts (snd (f r s1)) t)"
    by (simp add: reading_ok_def)
qed

lemma reading_fresh:
  assumes "moves env (set acts) s s1" "\<And>s2. (\<And>i. get_request s2 i = get_request s1 i) \<Longrightarrow> reading_ok env acts s (f () s2)"
  shows "reading_ok env acts s (oob_bind (fresh_document doc now s1) f)"
proof (cases "fresh_document doc now s1")
  case (Pair x s2)
  note same = fresh_same[OF Pair]
  show ?thesis
  proof (cases x)
    case (Inl e)
    then show ?thesis using Pair moves_frame[OF assms(1) same] by (simp add: oob_bind_def reading_ok_def)
  next
    case (Inr u)
    then show ?thesis using Pair assms(2)[OF same] by (simp add: oob_bind_def)
  qed
qed

lemma reading_lock:
  assumes "records_ok env acts s"
    "\<And>r s1. get_request s1 i = Some r \<Longrightarrow> or_request_id r = i \<Longrightarrow> backed env (set acts) r \<Longrightarrow> moves env (set acts) s s1 \<Longrightarrow>
       or_request_id r \<in> set (drawn_ids acts) \<Longrightarrow> snapshot s1 r \<Longrightarrow> or_approver_key r = Some issuer \<Longrightarrow> or_state r = expected \<Longrightarrow>
       reading_ok env acts s (f r s1)"
  shows "reading_ok env acts s (oob_bind (lock_holder_record i issuer expected now s) f)"
proof -
  have a: "oob_bind (oob_bind x g) f = oob_bind x (\<lambda>a s. oob_bind (g a s) f)"
    for x :: "(oob_error + oob_record) \<times> oob_store" and g :: "oob_record \<Rightarrow> oob_store \<Rightarrow> (oob_error + oob_record) \<times> oob_store"
    by (auto simp: oob_bind_def split: prod.splits sum.splits)
  show ?thesis
    unfolding lock_holder_record_def a
  proof (rule reading_current[OF assms(1)])
    fix r s1
    assume c: "get_request s1 i = Some r" "or_request_id r = i" "backed env (set acts) r" "moves env (set acts) s s1"
      "or_request_id r \<in> set (drawn_ids acts)" "snapshot s1 r"
    show "reading_ok env acts s (oob_bind (if or_approver_key r \<noteq> Some issuer then refused NotClaimant
        else if or_state r = Expired then refused RequestExpired
        else if or_state r \<noteq> expected then refused (if expected = Identified then AlreadyDecided else RequestExpired)
        else Inr r, s1) f)"
    proof (cases "or_approver_key r = Some issuer \<and> or_state r \<noteq> Expired \<and> or_state r = expected")
      case True
      then show ?thesis using assms(2)[OF c] by (auto simp: oob_bind_def)
    qed (use c(4) in \<open>auto simp: oob_bind_def refused_def reading_ok_def\<close>)
  qed
qed

lemma reading_done:
  "moves env (set acts) s s2 \<Longrightarrow> thread_ok env acts s2 t \<Longrightarrow> reading_ok env acts s (Inr t, s2)"
  by (simp add: reading_ok_def)

lemma claim_reading:
  assumes "records_ok env acts s" "Arrives raw conn w \<in> set acts"
  shows "reading_ok env acts s (claim_read env w raw s)"
  unfolding claim_read_def
proof (rule reading_bind, clarify)
  fix doc parent assume "typed_key_doc env raw TaskClaim (wd_now w) = Inr (doc, parent)"
  from typed_sent[OF this assms(2)] show "reading_ok env acts s (oob_bind (request_id_of doc, s) (\<lambda>i s.
      if parent \<noteq> Some i then (refused MalformedCode, s)
      else oob_bind (current_record i (wd_later w) s) (\<lambda>r s. (Inr (InClaim doc r), s))))"
    by (auto intro!: reading_bind reading_current[OF assms(1)] reading_done simp: thread_ok_def)
qed

lemma cancel_reading: "records_ok env acts s \<Longrightarrow> reading_ok env acts s (cancel_read env w raw s)"
  unfolding cancel_read_def
  by (auto intro!: reading_bind reading_current reading_done simp: thread_ok_def)

lemma prove_reading:
  assumes "records_ok env acts s" "Arrives raw conn w \<in> set acts"
  shows "reading_ok env acts s (prove_read env w raw conn s)"
  unfolding prove_read_def
proof (rule reading_bind, clarify)
  fix doc parent assume d: "typed_key_doc env raw TaskProve (wd_now w) = Inr (doc, parent)"
  note sent = typed_sent[OF d assms(2)]
  show "reading_ok env acts s (case json_get ''identify'' (d_payload doc) of
      Some (JObj ms) \<Rightarrow> oob_bind (carried_request_id (JObj ms), s) (\<lambda>i s. oob_bind (same_thread parent i, s) (\<lambda>_ s.
        oob_bind (lock_holder_record i (issuer_of doc) Claimed (wd_now w) s) (\<lambda>r s1.
          oob_bind (fresh_document doc (wd_later w) s1) (\<lambda>_ s2. (Inr (InProve doc (JObj ms) conn r), s2)))))
    | _ \<Rightarrow> (refused MalformedCode, s))"
  proof (cases "\<exists>ms. json_get ''identify'' (d_payload doc) = Some (JObj ms)")
    case True
    then obtain ms where ms: "json_get ''identify'' (d_payload doc) = Some (JObj ms)" by blast
    have "reading_ok env acts s (oob_bind (fresh_document doc (wd_later w) s1) (\<lambda>_ s2. (Inr (InProve doc (JObj ms) conn r), s2)))"
      if "backed env (set acts) r" "moves env (set acts) s s1" "or_request_id r \<in> set (drawn_ids acts)" "snapshot s1 r"
        "or_approver_key r = Some (issuer_of doc)" "or_state r = Claimed" for r s1
      by (rule reading_fresh[OF that(2)], rule reading_done)
        (use that sent ms snapshot_frame[OF that(4)] moves_frame[OF that(2)] in \<open>simp_all add: thread_ok_def\<close>)
    then show ?thesis using ms by (auto intro!: reading_bind reading_lock[OF assms(1)])
  qed (auto split: option.splits json.splits)
qed

lemma respond_reading:
  assumes "records_ok env acts s" "Arrives raw conn w \<in> set acts"
  shows "reading_ok env acts s (respond_read env w raw s)"
  unfolding respond_read_def
proof (rule reading_bind, clarify)
  fix doc parent assume d: "typed_key_doc env raw TaskRespond (wd_now w) = Inr (doc, parent)"
  note sent = typed_sent[OF d assms(2)]
  show "reading_ok env acts s (case json_get ''grant'' (d_payload doc) of
      Some (JObj ms) \<Rightarrow> oob_bind (carried_request_id (JObj ms), s) (\<lambda>i s. oob_bind (same_thread parent i, s) (\<lambda>_ s.
        oob_bind (lock_holder_record i (issuer_of doc) Identified (wd_now w) s) (\<lambda>r s1.
          oob_bind (fresh_document doc (wd_later w) s1) (\<lambda>_ s2. (Inr (InRespond doc (JObj ms) r), s2)))))
    | _ \<Rightarrow> (refused MalformedCode, s))"
  proof (cases "\<exists>ms. json_get ''grant'' (d_payload doc) = Some (JObj ms)")
    case True
    then obtain ms where ms: "json_get ''grant'' (d_payload doc) = Some (JObj ms)" by blast
    have "reading_ok env acts s (oob_bind (fresh_document doc (wd_later w) s1) (\<lambda>_ s2. (Inr (InRespond doc (JObj ms) r), s2)))"
      if "backed env (set acts) r" "moves env (set acts) s s1" "or_request_id r \<in> set (drawn_ids acts)" "snapshot s1 r"
        "or_approver_key r = Some (issuer_of doc)" "or_state r = Identified" for r s1
      by (rule reading_fresh[OF that(2)], rule reading_done)
        (use that sent ms snapshot_frame[OF that(4)] moves_frame[OF that(2)] in \<open>simp_all add: thread_ok_def\<close>)
    then show ?thesis using ms by (auto intro!: reading_bind reading_lock[OF assms(1)])
  qed (auto split: option.splits json.splits)
qed

lemma redeem_reading:
  assumes "records_ok env acts s" "Arrives raw conn w \<in> set acts"
  shows "reading_ok env acts s (redeem_open env w raw conn s)"
  unfolding redeem_open_def
proof (rule reading_bind, clarify, rule reading_bind)
  fix doc parent i assume d: "typed_key_doc env raw TaskRedeem (wd_now w) = Inr (doc, parent)" "request_id_of doc = Inr i"
  note sent = typed_sent[OF d(1) assms(2)]
  show "reading_ok env acts s (oob_bind (current_record i (wd_now w) s) (\<lambda>r s1.
       if d_issuer doc \<noteq> Some (or_start_key r) then (refused NotStarter, s1)
       else oob_bind (fresh_document doc (wd_later w) s1) (\<lambda>_ s2.
         let ip = or_unknown (cn_ip conn)
         in case open_poll (or_request_id r) ip (oc_max_polls_per_ip (ov_config env)) s2 of
             (Inl e, s3) \<Rightarrow> (refused RateLimitedCode, s3)
           | (Inr _, s3) \<Rightarrow> (Inr (InPoll doc i ip), add_waiter (or_request_id r) s3))))"
  proof (rule reading_current[OF assms(1)])
    fix r s1 assume m: "moves env (set acts) s s1" and r: "or_request_id r = i" "backed env (set acts) r"
    have "reading_ok env acts s (case open_poll (or_request_id r) ip n s2 of
             (Inl e, s3) \<Rightarrow> (refused RateLimitedCode, s3)
           | (Inr _, s3) \<Rightarrow> (Inr (InPoll doc i ip), add_waiter (or_request_id r) s3))"
      if "\<And>i. get_request s2 i = get_request s1 i" "d_issuer doc = Some (or_start_key r)" for s2 ip n
    proof (cases "open_poll (or_request_id r) ip n s2")
      case (Pair x s3)
      have "get_request s3 j = get_request s1 j" for j using open_poll_frame[of "or_request_id r" ip n s2 j] Pair that(1) by simp
      then have "moves env (set acts) s s3" "moves env (set acts) s (add_waiter (or_request_id r) s3)"
        by (auto intro: moves_frame[OF m])
      moreover have "opened_by env (set acts) i (issuer_of doc)" using r that(2) by (simp add: backed_def Let_def issuer_of_def)
      ultimately show ?thesis using Pair sent d(2) by (cases x) (auto simp: reading_ok_def refused_def thread_ok_def)
    qed
    then show "reading_ok env acts s (if d_issuer doc \<noteq> Some (or_start_key r) then (refused NotStarter, s1)
       else oob_bind (fresh_document doc (wd_later w) s1) (\<lambda>_ s2.
         let ip = or_unknown (cn_ip conn)
         in case open_poll (or_request_id r) ip (oc_max_polls_per_ip (ov_config env)) s2 of
             (Inl e, s3) \<Rightarrow> (refused RateLimitedCode, s3)
           | (Inr _, s3) \<Rightarrow> (Inr (InPoll doc i ip), add_waiter (or_request_id r) s3)))"
      using m by (auto simp: Let_def intro!: reading_fresh)
  qed
qed

lemma request_opens:
  assumes "records_ok env acts s" "wd_request_id w \<notin> set (drawn_ids acts)"
  shows "records_ok env (acts @ [Arrives raw conn w]) (snd (oob_request env w raw conn s))"
    and "i \<noteq> wd_request_id w \<Longrightarrow> get_request (snd (oob_request env w raw conn s)) i \<in> {None, get_request s i}"
proof -
  let ?acts = "acts @ [Arrives raw conn w]" and ?x = "oob_request env w raw conn s"
  have later: "records_ok env ?acts s" by (rule records_later[OF assms(1)])
  have new: "get_request s (wd_request_id w) = None" using records_okD[OF assms(1)] assms(2) by (cases "get_request s (wd_request_id w)") auto
  have ok: "records_ok env ?acts s' \<and> (\<forall>i. i \<noteq> wd_request_id w \<longrightarrow> get_request s' i \<in> {None, get_request s i})"
    if "\<And>i. get_request s' i = get_request s i" for s' using later that by (simp add: records_ok_def)
  have "records_ok env ?acts (snd ?x) \<and> (\<forall>i. i \<noteq> wd_request_id w \<longrightarrow> get_request (snd ?x) i \<in> {None, get_request s i})"
  proof (cases "key_doc env raw TaskRequest (wd_now w)")
    case (Inr dp)
    obtain doc parent where dp: "dp = (doc, parent)" by force
    obtain x s1 where f: "fresh_document doc (wd_now w) s = (x, s1)" by force
    note same = fresh_same[OF f]
    let ?r = "opened_record env doc conn (wd_request_id w) (wd_later w)"
    have i: "or_request_id ?r = wd_request_id w" by (simp add: opened_record_def)
    have "opened_by env (set ?acts) (wd_request_id w) (issuer_of doc)"
      unfolding opened_by_def using Inr dp by fastforce
    then have b: "backed env (set ?acts) ?r" by (simp add: backed_def Let_def opened_record_def)
    obtain y s2 where c: "create_request ?r (wd_later w) s1 = (y, s2)" by force
    have g: "get_request s2 j = Some ?r \<and> j = wd_request_id w \<or> get_request s2 j = None \<or> get_request s2 j = get_request s j" for j
      using create_get[OF c] i same new by (cases "j = wd_request_id w") auto
    have "records_ok env ?acts s2" unfolding records_ok_def
    proof (intro allI impI)
      fix j r assume r: "get_request s2 j = Some r"
      from g[of j] r consider "r = ?r" "j = wd_request_id w" | "get_request s j = Some r" by auto
      then show "or_request_id r = j \<and> j \<in> set (drawn_ids ?acts) \<and> backed env (set ?acts) r"
        using b i records_okD[OF later] by cases simp_all
    qed
    moreover have "\<forall>i. i \<noteq> wd_request_id w \<longrightarrow> get_request s2 i \<in> {None, get_request s i}" using g by blast
    ultimately have c2: "records_ok env ?acts s2" "\<forall>i. i \<noteq> wd_request_id w \<longrightarrow> get_request s2 i \<in> {None, get_request s i}" by blast+
    have "snd ?x = s \<or> snd ?x = s1 \<or> snd ?x = s2" using Inr dp f c
      by (simp add: oob_request_def oob_bind_def Let_def split: sum.splits create_error.splits)
    then show ?thesis using ok[of s] ok[OF same] c2 by (elim disjE) simp_all
  qed (use ok[of s] in \<open>simp add: oob_request_def oob_bind_def\<close>)
  then show "records_ok env ?acts (snd ?x)" and "i \<noteq> wd_request_id w \<Longrightarrow> get_request (snd ?x) i \<in> {None, get_request s i}"
    by blast+
qed

section \<open>Runs\<close>

definition authorised :: "oob_env \<Rightarrow> oob_action set \<Rightarrow> string \<Rightarrow> approved_session \<Rightarrow> bool" where
  "authorised env A i x \<longleftrightarrow> (\<exists>approver number step2 until doc k w.
     opened_by env A i (as_session_key x) \<and> claimed_by env A i approver number
     \<and> proved_by env A i (as_session_key x) approver number (as_subject x) step2
     \<and> granted_by env A i (as_session_key x) approver (as_subject x) step2 (as_grant x) until
     \<and> sent env A TaskRedeem doc \<and> request_id_of doc = Inr i \<and> issuer_of doc = as_session_key x
     \<and> Resumes k w \<in> A \<and> is_allowed (wd_acl w) (as_subject x)
     \<and> as_not_after x \<le> until \<and> as_not_after x \<le> wd_now w + oc_session_limit (ov_config env))"

definition run_ok :: "oob_env \<Rightarrow> oob_action list \<Rightarrow> oob_run \<Rightarrow> bool" where
  "run_ok env acts st \<longleftrightarrow> records_ok env acts (rn_store st)
     \<and> (\<forall>t \<in> set (rn_threads st). thread_ok env acts (rn_store st) t)
     \<and> distinct (map fst (rn_sessions st))
     \<and> (\<forall>(i, x) \<in> set (rn_sessions st). i \<in> set (drawn_ids acts) \<and> authorised env (set acts) i x
          \<and> (\<forall>r. get_request (rn_store st) i = Some r \<longrightarrow> or_state r = Consumed))"

lemma authorised_mono:
  assumes "A \<subseteq> B" "authorised env A i x"
  shows "authorised env B i x"
  using assms(2) unfolding authorised_def
  by (blast intro: evidence_mono[OF assms(1)] subsetD[OF assms(1)])

lemma drawn_mem: "Arrives raw conn w \<in> set acts \<Longrightarrow> wd_request_id w \<in> set (drawn_ids acts)"
  by (force simp: drawn_ids_def set_map_filter)

lemma drawn_once:
  "distinct (drawn_ids acts) \<Longrightarrow> Arrives raw conn w \<in> set acts \<Longrightarrow> Arrives raw' conn' w' \<in> set acts \<Longrightarrow>
   wd_request_id w = wd_request_id w' \<Longrightarrow> raw = raw' \<and> w = w'"
proof (induction acts)
  case (Cons a acts)
  have c: "drawn_ids (a # acts) = drawn_ids [a] @ drawn_ids acts" using drawn_snoc[of "[a]" acts] by simp
  have "Arrives raw conn w \<in> set acts \<Longrightarrow> wd_request_id w' \<in> set (drawn_ids acts)"
    "Arrives raw' conn' w' \<in> set acts \<Longrightarrow> wd_request_id w \<in> set (drawn_ids acts)"
    using drawn_mem[of raw conn w acts] drawn_mem[of raw' conn' w' acts] Cons.prems(4) by simp_all
  then show ?case using Cons unfolding c by (cases a) auto
qed simp

lemma opened_once:
  "distinct (drawn_ids acts) \<Longrightarrow> opened_by env (set acts) i k \<Longrightarrow> opened_by env (set acts) i k' \<Longrightarrow> k = k'"
  unfolding opened_by_def using drawn_once by fastforce

text \<open>The redeeming pass, the only one that grants.\<close>

lemma pass_grants:
  assumes "distinct (drawn_ids acts)" "thread_ok env acts s (InPass doc i ip r)" "Resumes k w \<in> set acts"
    "redeem_pass env w doc i ip r s = (Redeemed doc' x, s')"
  shows "authorised env (set acts) i x" "get_request s i = Some r" "or_state r = Approved"
    "\<exists>n. get_request s' i = Some n \<and> or_state n = Consumed"
proof -
  have t: "or_request_id r = i" "backed env (set acts) r" "snapshot s r" "sent env (set acts) TaskRedeem doc" "request_id_of doc = Inr i"
    "opened_by env (set acts) i (issuer_of doc)" using assms(2) by (auto simp: thread_ok_def)
  show st: "or_state r = Approved" using assms(4)
    by (auto simp: redeem_pass_def pending_or_again_def split: oob_state.splits if_splits option.splits prod.splits bool.splits)
  then obtain s1 where c: "consume env w doc r s = (Inr x, s1)" "s' = close_poll (or_request_id r) ip s1"
    using assms(4) by (auto simp: redeem_pass_def split: prod.splits sum.splits)
  let ?n = "next_record r Consumed (wd_now w)"
  from c(1) have h: "fst (compare_and_set (or_version r) ?n s)" "s1 = snd (compare_and_set (or_version r) ?n s)"
    by (auto simp: consume_def Let_def split: prod.splits bool.splits if_splits)
  show g: "get_request s i = Some r" using cas_on_snapshot[OF t(3) _ h(1)] t(1) by simp
  show "\<exists>n. get_request s' i = Some n \<and> or_state n = Consumed" using h t(1) c(2) by (simp add: cas_get)
  obtain approver number did step2 body until where b: "or_identified_did r = Some did" "or_grant r = Some body" "or_grant_not_after r = Some until"
    "opened_by env (set acts) i (or_start_key r)" "claimed_by env (set acts) i approver number"
    "proved_by env (set acts) i (or_start_key r) approver number did step2"
    "granted_by env (set acts) i (or_start_key r) approver did step2 body until"
    using t(1,2) st by (auto simp: backed_def Let_def)
  have x: "as_subject x = did" "as_session_key x = or_start_key r" "as_grant x = body" "is_allowed (wd_acl w) did"
    "as_not_after x \<le> until" "as_not_after x \<le> wd_now w + oc_session_limit (ov_config env)"
    using c(1) b(1,2,3) by (auto simp: consume_def Let_def or_default_def split: prod.splits bool.splits if_splits)
  have "issuer_of doc = or_start_key r" using opened_once[OF assms(1) t(6) b(4)] .
  then show "authorised env (set acts) i x" unfolding authorised_def using b x t assms(3) by metis
qed

lemma thread_opened:
  assumes "thread_ok env acts s t" "i \<notin> set (drawn_ids acts)" "\<And>j. j \<noteq> i \<Longrightarrow> get_request s' j \<in> {None, get_request s j}"
  shows "thread_ok env acts s' t"
proof -
  have "snapshot s' r" if "or_request_id r \<in> set (drawn_ids acts)" "snapshot s r" for r
  proof -
    from that(1) assms(2) have "or_request_id r \<noteq> i" by blast
    from assms(3)[OF this] that(2) show ?thesis by (cases "get_request s' (or_request_id r)") (auto simp: snapshot_def)
  qed
  then show ?thesis using assms(1) by (cases t) (auto simp: thread_ok_def)
qed

text \<open>What holds of a run whose store has moved on.\<close>

lemma run_moves:
  assumes "run_ok env acts st" "moves env (set acts) (rn_store st) s'"
  shows "run_ok env acts (st\<lparr>rn_store := s'\<rparr>)"
proof -
  have o: "records_ok env acts (rn_store st)" and ts: "\<And>t. t \<in> set (rn_threads st) \<Longrightarrow> thread_ok env acts (rn_store st) t"
    and d: "distinct (map fst (rn_sessions st))"
    and ss: "\<And>i x. (i, x) \<in> set (rn_sessions st) \<Longrightarrow> i \<in> set (drawn_ids acts) \<and> authorised env (set acts) i x
       \<and> (\<forall>r. get_request (rn_store st) i = Some r \<longrightarrow> or_state r = Consumed)"
    using assms(1) by (auto simp: run_ok_def)
  have "or_state n = Consumed" if "get_request s' i = Some n" "(i, x) \<in> set (rn_sessions st)" for i x n
  proof -
    from assms(2) that(1) consider "get_request (rn_store st) i = Some n" | r where "get_request (rn_store st) i = Some r" "succeeds env (set acts) r n"
      unfolding moves_def by (metis option.distinct(1) option.inject)
    then show ?thesis
    proof cases
      case 2
      then have "or_state r = Consumed" using ss[OF that(2)] by blast
      with 2(2) show ?thesis by (simp add: succeeds_def follows_def)
    qed (use ss[OF that(2)] in blast)
  qed
  then show ?thesis using records_moves[OF o assms(2)] thread_moves[OF ts assms(2)] d ss
    by (auto simp: run_ok_def)
qed

lemma run_later: "run_ok env acts st \<Longrightarrow> run_ok env (acts @ b) st"
  using records_later[of env acts "rn_store st" b] thread_later[of env acts "rn_store st"] authorised_mono[of "set acts" "set (acts @ b)" env]
  by (fastforce simp: run_ok_def)

lemma run_thread: "run_ok env acts st \<Longrightarrow> thread_ok env acts (rn_store st) t \<Longrightarrow> run_ok env acts (st\<lparr>rn_threads := rn_threads st @ [t]\<rparr>)"
  by (auto simp: run_ok_def)

lemma run_fewer: "run_ok env acts st \<Longrightarrow> run_ok env acts (st\<lparr>rn_threads := drop_nth k (rn_threads st)\<rparr>)"
  by (auto simp: run_ok_def drop_nth_def dest: in_set_takeD in_set_dropD)

lemma run_answered:
  assumes "run_ok env acts st" "moves env (set acts) (rn_store st) (snd x)"
  shows "run_ok env acts (note_progress i (answered x) st)"
  using run_moves[OF assms] by (simp add: note_progress_def answered_def)

lemma run_reading:
  assumes "run_ok env acts st" "reading_ok env acts (rn_store st) x"
  shows "run_ok env acts (note_progress i (goes_on x) st)"
proof -
  have m: "run_ok env acts (st\<lparr>rn_store := snd x\<rparr>)" using run_moves[OF assms(1)] assms(2) by (simp add: reading_ok_def)
  show ?thesis
  proof (cases "fst x")
    case (Inr t)
    then show ?thesis using run_thread[OF m, of t] assms(2) by (simp add: note_progress_def goes_on_def reading_ok_def)
  qed (use m in \<open>simp add: note_progress_def goes_on_def\<close>)
qed

lemma request_run:
  assumes "run_ok env acts st" "wd_request_id w \<notin> set (drawn_ids acts)"
  shows "run_ok env (acts @ [Arrives raw conn w]) (note_progress i (answered (oob_request env w raw conn (rn_store st))) st)"
proof -
  let ?acts = "acts @ [Arrives raw conn w]" and ?s = "snd (oob_request env w raw conn (rn_store st))"
  have ok: "records_ok env acts (rn_store st)" using assms(1) by (simp add: run_ok_def)
  note r = request_opens[OF ok assms(2), where raw = raw and conn = conn]
  have ts: "thread_ok env acts ?s t" if "t \<in> set (rn_threads st)" for t
    by (rule thread_opened[OF _ assms(2)]) (use assms(1) that r(2) in \<open>auto simp: run_ok_def\<close>)
  have ss: "or_state n = Consumed" if "(j, x) \<in> set (rn_sessions st)" "get_request ?s j = Some n" for j x n
  proof -
    have "j \<in> set (drawn_ids acts)" using assms(1) that(1) by (auto simp: run_ok_def)
    then have "j \<noteq> wd_request_id w" using assms(2) by blast
    from r(2)[OF this] that(2) have "get_request (rn_store st) j = Some n" by auto
    then show ?thesis using assms(1) that(1) by (auto simp: run_ok_def)
  qed
  have "authorised env (set ?acts) j x" if "(j, x) \<in> set (rn_sessions st)" for j x
    by (rule authorised_mono[of "set acts"]) (use assms(1) that in \<open>auto simp: run_ok_def\<close>)
  then show ?thesis using r(1) ts thread_later ss assms(1)
    by (auto simp: run_ok_def note_progress_def answered_def)
qed

lemma resume_moves:
  assumes "records_ok env acts s" "thread_ok env acts s t" "Resumes k w \<in> set acts"
  shows "moves env (set acts) s (snd (oob_resume env w t s))"
proof (cases t)
  case (InClaim doc r)
  have "moves env (set acts) s (snd (claim_write env w doc r s))"
    by (rule claim_moves[OF _ _ _ _ assms(3)]) (use assms(2) InClaim in \<open>auto simp: thread_ok_def\<close>)
  then show ?thesis using InClaim by (simp add: oob_resume_def answered_def)
next
  case (InProve doc body conn r)
  have "moves env (set acts) s (snd (prove_write env w doc body conn r s))"
    by (rule prove_moves[OF _ _ _ _ _ _ assms(3)]) (use assms(2) InProve in \<open>auto simp: thread_ok_def\<close>)
  then show ?thesis using InProve by (simp add: oob_resume_def answered_def)
next
  case (InRespond doc body r)
  have "moves env (set acts) s (snd (respond_write env w doc body r s))"
    by (rule respond_moves[OF _ _ _ _ _ _ assms(3)]) (use assms(2) InRespond in \<open>auto simp: thread_ok_def\<close>)
  then show ?thesis using InRespond by (simp add: oob_resume_def answered_def)
next
  case (InCancel doc r)
  then show ?thesis using cancel_moves assms(2) by (simp add: oob_resume_def answered_def thread_ok_def)
next
  case (InPoll doc i ip)
  obtain x s1 where c: "current_record i (wd_now w) s = (x, s1)" by force
  from current_cases(1)[OF assms(1) c] show ?thesis using InPoll c
    by (cases x) (auto simp: oob_resume_def intro: moves_frame)
next
  case (InPass doc i ip r)
  then show ?thesis using pass_moves assms(2) by (simp add: oob_resume_def thread_ok_def)
qed

lemma resume_goes:
  assumes "records_ok env acts s" "thread_ok env acts s t" "oob_resume env w t s = (GoesOn t', s')"
  shows "thread_ok env acts s' t'"
proof (cases t)
  case (InPoll doc i ip)
  then obtain r where c: "current_record i (wd_now w) s = (Inr r, s')" and t': "t' = InPass doc i ip r"
    using assms(3) by (auto simp: oob_resume_def split: prod.splits sum.splits)
  note h = current_cases[OF assms(1) c]
  show ?thesis using assms(2) InPoll t' h(2) held_now[OF assms(1) h(1), of i r] by (auto simp: thread_ok_def)
next
  case (InPass doc i ip r)
  then have "t' = InPoll doc i ip" using assms(3)
    by (auto simp: oob_resume_def redeem_pass_def pending_or_again_def split: oob_state.splits if_splits option.splits prod.splits bool.splits sum.splits)
  then show ?thesis using assms(2) InPass by (simp add: thread_ok_def)
qed (use assms(3) in \<open>auto simp: oob_resume_def answered_def\<close>)

lemma resume_grants:
  assumes "oob_resume env w t s = (Redeemed doc' x, s')"
  obtains doc i ip r where "t = InPass doc i ip r" "redeem_pass env w doc i ip r s = (Redeemed doc' x, s')"
  using that assms by (cases t) (auto simp: oob_resume_def answered_def split: prod.splits sum.splits)

lemma act_ok:
  assumes "run_ok env acts st" "distinct (drawn_ids (acts @ [a]))"
  shows "run_ok env (acts @ [a]) (oob_act env a st)"
proof (cases a)
  case (Arrives raw conn w)
  let ?acts = "acts @ [Arrives raw conn w]"
  have later: "run_ok env ?acts st" by (rule run_later[OF assms(1)])
  then have ok: "records_ok env ?acts (rn_store st)" by (simp add: run_ok_def)
  have mem: "Arrives raw conn w \<in> set ?acts" by simp
  have "run_ok env ?acts (note_progress (wd_request_id w) (answered (oob_request env w raw conn (rn_store st))) st)"
    using request_run[OF assms(1)] assms(2) Arrives by simp
  moreover note run_reading[OF later claim_reading[OF ok mem]] run_reading[OF later prove_reading[OF ok mem]]
    run_reading[OF later respond_reading[OF ok mem]] run_reading[OF later redeem_reading[OF ok mem]] run_reading[OF later cancel_reading[OF ok]]
  moreover have "run_ok env ?acts (note_progress i (Answered x, rn_store st) st)" for i x
    using later by (simp add: note_progress_def)
  ultimately show ?thesis using Arrives by (simp add: oob_act_def oob_arrive_def Let_def)
next
  case (Leaves k)
  have later: "run_ok env (acts @ [a]) st" by (rule run_later[OF assms(1)])
  have "moves env A s (abandoned t s)" for A s t by (cases t) (simp_all add: abandoned_def moves_same)
  from run_fewer[OF run_moves[OF later this]] later show ?thesis using Leaves by (simp add: oob_act_def)
next
  case (Resumes k w)
  let ?acts = "acts @ [Resumes k w]" and ?st = "st\<lparr>rn_threads := drop_nth k (rn_threads st)\<rparr>" and ?t = "rn_threads st ! k"
  have later: "run_ok env ?acts st" by (rule run_later[OF assms(1)])
  have mem: "Resumes k w \<in> set ?acts" by simp
  show ?thesis
  proof (cases "k < length (rn_threads st)")
    case False
    then show ?thesis using later Resumes by (simp add: oob_act_def)
  next
    case True
    have t: "thread_ok env ?acts (rn_store st) ?t" using later True by (simp add: run_ok_def)
    have ok: "records_ok env ?acts (rn_store st)" using later by (simp add: run_ok_def)
    obtain p s1 where c: "oob_resume env w ?t (rn_store st) = (p, s1)" by force
    have m: "moves env (set ?acts) (rn_store st) s1" using resume_moves[OF ok t mem] c by simp
    have ok1: "run_ok env ?acts (?st\<lparr>rn_store := s1\<rparr>)" using run_moves[OF run_fewer[OF later]] m by simp
    have "run_ok env ?acts (note_progress (thread_request ?t) (p, s1) ?st)"
    proof (cases p)
      case (GoesOn t')
      then show ?thesis using run_thread[OF ok1] resume_goes[OF ok t] c by (simp add: note_progress_def)
    next
      case (Redeemed doc' x)
      obtain doc i ip r where i: "?t = InPass doc i ip r" "redeem_pass env w doc i ip r (rn_store st) = (Redeemed doc' x, s1)"
        by (rule resume_grants) (use c Redeemed in simp)
      note g = pass_grants[OF assms(2)[unfolded Resumes] t[unfolded i(1)] mem i(2)]
      have "or_request_id r = i" using t i(1) by (simp add: thread_ok_def)
      moreover have "i \<notin> fst ` set (rn_sessions st)" using later g(2,3) by (auto simp: run_ok_def)
      moreover have "i \<in> set (drawn_ids ?acts)" using records_okD[OF ok g(2)] by blast
      moreover have "\<And>n. get_request s1 i = Some n \<Longrightarrow> or_state n = Consumed" using g(4) by auto
      ultimately show ?thesis using ok1 g(1) i(1) Redeemed
        by (auto simp: run_ok_def note_progress_def thread_request_def)
    qed (use ok1 in \<open>simp add: note_progress_def\<close>)
    then show ?thesis using True Resumes c by (simp add: oob_act_def Let_def)
  qed
qed

lemma runs_snoc: "oob_runs env (acts @ [a]) = oob_act env a (oob_runs env acts)"
  by (simp add: oob_runs_def)

lemma runs_ok: "distinct (drawn_ids acts) \<Longrightarrow> run_ok env acts (oob_runs env acts)"
proof (induction acts rule: rev_induct)
  case Nil
  then show ?case by (simp add: oob_runs_def run_ok_def new_oob_run_def records_ok_def get_request_def new_oob_store_def)
next
  case (snoc a acts)
  have "distinct (drawn_ids acts)" using snoc.prems by simp
  from act_ok[OF snoc.IH[OF this] snoc.prems] show ?case by (simp add: runs_snoc)
qed

lemma act_records:
  assumes "run_ok env acts st" "distinct (drawn_ids (acts @ [a]))" "i \<in> set (drawn_ids acts)"
  shows "get_request (rn_store (oob_act env a st)) i = get_request (rn_store st) i \<or> get_request (rn_store (oob_act env a st)) i = None
    \<or> (\<exists>r n. get_request (rn_store st) i = Some r \<and> get_request (rn_store (oob_act env a st)) i = Some n \<and> follows (or_state r) (or_state n))"
proof -
  let ?acts = "acts @ [a]" and ?s = "rn_store st"
  have later: "run_ok env ?acts st" by (rule run_later[OF assms(1)])
  then have ok: "records_ok env ?acts ?s" by (simp add: run_ok_def)
  have noted [simp]: "rn_store (note_progress j x st') = snd x" for j x st'
    by (simp add: note_progress_def Let_def split: oob_progress.splits)
  have red [simp]: "snd (answered x) = snd x" "snd (goes_on y) = snd y" for x y by (simp_all add: answered_def goes_on_def)
  have moved: ?thesis if "moves env (set ?acts) ?s (rn_store (oob_act env a st))"
    using that unfolding moves_def succeeds_def by blast
  show ?thesis
  proof (cases a)
    case (Arrives raw conn w)
    have mem: "Arrives raw conn w \<in> set ?acts" using Arrives by simp
    have r: "moves env (set ?acts) ?s (snd (claim_read env w raw ?s))" "moves env (set ?acts) ?s (snd (prove_read env w raw conn ?s))"
      "moves env (set ?acts) ?s (snd (respond_read env w raw ?s))" "moves env (set ?acts) ?s (snd (redeem_open env w raw conn ?s))"
      "moves env (set ?acts) ?s (snd (cancel_read env w raw ?s))"
      using claim_reading[OF ok mem] prove_reading[OF ok mem] respond_reading[OF ok mem] redeem_reading[OF ok mem] cancel_reading[OF ok]
      by (simp_all add: reading_ok_def)
    have ok0: "records_ok env acts ?s" using assms(1) by (simp add: run_ok_def)
    have "get_request (snd (oob_request env w raw conn ?s)) i \<in> {None, get_request ?s i}"
      by (rule request_opens(2)[OF ok0]) (use assms(2,3) Arrives in auto)
    then show ?thesis using Arrives r moved
      by (cases "or_default [] (get_str ''type'' raw) = ov_type env TaskRequest")
        (auto simp: oob_act_def oob_arrive_def Let_def moves_same split: if_splits)
  next
    case (Leaves k)
    have "moves env A s (abandoned t s)" for A s t by (cases t) (simp_all add: abandoned_def moves_same)
    then show ?thesis using Leaves moved by (auto simp: oob_act_def moves_same)
  next
    case (Resumes k w)
    show ?thesis
    proof (cases "k < length (rn_threads st)")
      case True
      then have "thread_ok env ?acts ?s (rn_threads st ! k)" using later by (simp add: run_ok_def)
      from resume_moves[OF ok this, of k w] Resumes True show ?thesis by (intro moved) (simp add: oob_act_def Let_def)
    qed (use Resumes in \<open>simp add: oob_act_def\<close>)
  qed
qed

section \<open>The guarantees\<close>

text \<open>C38: Whoever holds a session of wallet sign-in was let in by a full exchange on one request: the starter's key
  opened it and redeemed it; some approver's key claimed it; a document of that key carried an identify that
  names this key, this request and the number drawn at the claim, verified against the authentication keys
  of the session's subject, an allowed member then; a later one carried the subject's approving grant,
  verified against its assertion keys, for this request, both keys, this origin and the very step 2 the
  service signed; at the redemption the subject was still allowed, and the session ends no later than the
  grant says and the limit allows.\<close>

theorem oob_session_authorised:
  assumes "distinct (drawn_ids acts)" "(i, x) \<in> set (rn_sessions (oob_runs env acts))"
  shows "\<exists>approver number step2 until doc k w.
     opened_by env (set acts) i (as_session_key x)
   \<and> claimed_by env (set acts) i approver number
   \<and> proved_by env (set acts) i (as_session_key x) approver number (as_subject x) step2
   \<and> granted_by env (set acts) i (as_session_key x) approver (as_subject x) step2 (as_grant x) until
   \<and> sent env (set acts) TaskRedeem doc \<and> request_id_of doc = Inr i \<and> issuer_of doc = as_session_key x
   \<and> Resumes k w \<in> set acts \<and> is_allowed (wd_acl w) (as_subject x)
   \<and> as_not_after x \<le> until \<and> as_not_after x \<le> wd_now w + oc_session_limit (ov_config env)"
  using runs_ok[OF assms(1), of env] assms(2) by (fastforce simp: run_ok_def authorised_def)

lemma reached_records:
  assumes "distinct (drawn_ids (acts @ acts'))" "get_request (rn_store (oob_runs env acts)) i = Some r"
    "get_request (rn_store (oob_runs env (acts @ acts'))) i = Some n"
  shows "follows\<^sup>*\<^sup>* (or_state r) (or_state n) \<and> (is_final (or_state r) \<longrightarrow> n = r)"
  using assms(1,3)
proof (induction acts' arbitrary: n rule: rev_induct)
  case (snoc a acts')
  let ?st = "oob_runs env (acts @ acts')"
  have d: "distinct (drawn_ids (acts @ acts'))" using snoc.prems(1) by auto
  have ok: "run_ok env (acts @ acts') ?st" by (rule runs_ok[OF d])
  have "run_ok env acts (oob_runs env acts)" by (rule runs_ok) (use d in simp)
  then have i: "i \<in> set (drawn_ids (acts @ acts'))" using records_okD assms(2) by (fastforce simp: run_ok_def)
  have n: "get_request (rn_store (oob_act env a ?st)) i = Some n" using snoc.prems(2) runs_snoc[of env "acts @ acts'" a] by simp
  from act_records[OF ok _ i, of a] snoc.prems(1) n
  consider "get_request (rn_store ?st) i = Some n" | c where "get_request (rn_store ?st) i = Some c" "follows (or_state c) (or_state n)"
    by (auto simp: append_assoc)
  then show ?case
  proof cases
    case 1
    then show ?thesis using snoc.IH d by blast
  next
    case 2
    then have "\<not> is_final (or_state c)" by (auto simp: follows_def)
    moreover have "follows\<^sup>*\<^sup>* (or_state r) (or_state c) \<and> (is_final (or_state r) \<longrightarrow> c = r)" using snoc.IH d 2(1) by blast
    ultimately show ?thesis using 2(2) by auto
  qed
qed (use assms(2) in simp)

text \<open>C39: Whatever happens later, a request that is still held has moved along its state machine only, and not
  at all once it ended; a request gives one session at most, and none unless it ended as consumed.\<close>

theorem oob_lifecycle:
  assumes "distinct (drawn_ids (acts @ acts'))"
  shows "(\<forall>i r n. get_request (rn_store (oob_runs env acts)) i = Some r \<and> get_request (rn_store (oob_runs env (acts @ acts'))) i = Some n
        \<longrightarrow> follows\<^sup>*\<^sup>* (or_state r) (or_state n) \<and> (is_final (or_state r) \<longrightarrow> n = r))
    \<and> distinct (map fst (rn_sessions (oob_runs env (acts @ acts'))))
    \<and> (\<forall>i x n. (i, x) \<in> set (rn_sessions (oob_runs env (acts @ acts')))
        \<and> get_request (rn_store (oob_runs env (acts @ acts'))) i = Some n \<longrightarrow> or_state n = Consumed)"
  using reached_records[OF assms] runs_ok[OF assms, of env] by (auto simp: run_ok_def)

text \<open>What a failed attempt leaves.\<close>

lemma lost_decline:
  assumes "snapshot s r" "or_state r = Claimed \<or> or_state r = Identified" "get_request (decline r now s) (or_request_id r) = Some c"
    "or_state c = or_state r"
  shows "or_state r = Claimed \<and> \<not> or_match_number_delivered r \<and> or_match_number_delivered c"
proof -
  let ?n = "next_record r Declined now"
  have c: "get_request s (or_request_id r) = Some c" "\<not> fst (compare_and_set (or_version r) ?n s)"
    using assms(2,3,4) by (auto simp: decline_def cas_get split: if_splits)
  then have "c \<noteq> r" by (auto simp: compare_and_set_def)
  then show ?thesis using assms(1,2,4) c(1) by (auto simp: snapshot_def)
qed

lemma failed_prove:
  assumes "prove_write env w doc body conn r s = (Inl (code, d), s')" "code \<in> {NumberMismatch, ContextMismatch, NotAuthorizedCode}"
  obtains s1 where "\<And>i. get_request s1 i = get_request s i" "s' = decline r (wd_later w) s1"
proof (cases "prove_checks env w r body s")
  case (Pair x s1)
  note same = prove_checks_same[OF Pair]
  have "s' = decline r (wd_later w) s1"
  proof (cases x)
    case (Inr y)
    then show ?thesis using assms Pair
      by (auto simp: prove_write_def oob_bind_def and_then_def response_def signed_def
          split: prod.splits sum.splits if_splits bool.splits option.splits)
  qed (use assms Pair in \<open>auto simp: prove_write_def\<close>)
  with that same show thesis by blast
qed

lemma failed_respond:
  assumes "respond_write env w doc body r s = (Inl (code, d), s')" "code \<in> {NumberMismatch, ContextMismatch, NotAuthorizedCode}"
  obtains s1 where "\<And>i. get_request s1 i = get_request s i" "s' = decline r (wd_later w) s1"
proof (cases "grant_checks env w r body s")
  case (Pair x s1)
  note same = grant_checks_same[OF Pair]
  have "s' = decline r (wd_later w) s1"
  proof (cases x)
    case (Inr y)
    then show ?thesis using assms Pair
      by (auto simp: respond_write_def oob_bind_def and_then_def response_def signed_def
          split: prod.splits sum.splits if_splits bool.splits option.splits)
  qed (use assms Pair in \<open>auto simp: respond_write_def\<close>)
  with that same show thesis by blast
qed


section \<open>A sign-in, run\<close>

definition oob_doc :: "string \<Rightarrow> string \<Rightarrow> string \<Rightarrow> string \<Rightarrow> string \<Rightarrow> (string \<times> json) list \<Rightarrow> json" where
  "oob_doc i t issuer vm purpose payload = JObj [(''id'', JStr i), (''type'', JStr t), (''issuer'', JStr issuer), (''vm'', JStr vm),
     (''purpose'', JStr purpose), (''payload'', JObj payload)]"

definition parse_sample :: "json \<Rightarrow> (document \<times> string option) option" where
  "parse_sample v = (case (get_str ''id'' v, get_str ''type'' v, get_str ''vm'' v, get_str ''purpose'' v, json_get ''payload'' v) of
     (Some i, Some t, Some vm, Some purpose, Some p) \<Rightarrow> Some (\<lparr>d_id = i, d_type = t, d_thread = None, d_issuer = get_str ''issuer'' v,
        d_recipient = Some ''did:s'', d_issued_at = Some (1000 * NANOS), d_expires_at = None,
        d_proof = Some \<lparr>pf_method = vm, pf_purpose = purpose\<rparr>, d_payload = p\<rparr>, get_str ''requestId'' p)
   | _ \<Rightarrow> None)"

definition task_name :: "oob_task \<Rightarrow> string" where
  "task_name t = (case t of TaskRequest \<Rightarrow> ''request'' | TaskClaim \<Rightarrow> ''claim'' | TaskProve \<Rightarrow> ''prove'' | TaskIdentify \<Rightarrow> ''identify''
     | TaskRespond \<Rightarrow> ''respond'' | TaskGrant \<Rightarrow> ''grant'' | TaskRedeem \<Rightarrow> ''redeem'' | TaskCancel \<Rightarrow> ''cancel'')"

definition oob_sample :: oob_env where
  "oob_sample = \<lparr>ov_config = new_oob_config ''did:s'' ''host'' ''https://s'', ov_type = task_name, ov_parse = parse_sample,
     ov_fits = (\<lambda>_ _. True), ov_write = (\<lambda>_. Some), ov_key_verifier = verifier_sample, ov_is_ed25519 = (\<lambda>_. True),
     ov_sign = (\<lambda>v _. Some v), ov_date = (\<lambda>_. ''now''), ov_canonical = (\<lambda>_. []), ov_sha256 = (\<lambda>_. replicate 32 0),
     ov_base58 = (\<lambda>_. ''z''), ov_multibase = (\<lambda>_. Some ([0x12, 0x20] @ replicate 32 0))\<rparr>"

definition conn_sample :: connection where
  "conn_sample = \<lparr>cn_ip = Some ''1.2.3.4'', cn_location = None, cn_browser = None, cn_os = None\<rparr>"

definition rid_sample :: string where "rid_sample = replicate 22 (CHR ''r'')"

definition world_sample :: "string \<Rightarrow> world" where
  "world_sample i = \<lparr>wd_now = 1000, wd_later = 1001, wd_acl = service_acl ''did:m'', wd_member = Some verifier_sample, wd_over = False,
     wd_request_id = i, wd_digits = 7, wd_uuid = ''u''\<rparr>"

definition starter_doc :: "string \<Rightarrow> string \<Rightarrow> json" where
  "starter_doc i t = oob_doc i t ''did:key:zb'' ''did:key:zb#zb'' ''authentication'' [(''requestId'', JStr rid_sample)]"

definition wallet_doc :: "string \<Rightarrow> string \<Rightarrow> (string \<times> json) list \<Rightarrow> json" where
  "wallet_doc i t p = oob_doc i t ''did:key:za'' ''did:key:za#za'' ''authentication'' p"

definition identify_doc :: "string \<Rightarrow> string \<Rightarrow> json" where
  "identify_doc i number = oob_doc i ''identify'' ''did:m'' ''did:m#1'' ''authentication'' [(''requestId'', JStr rid_sample),
     (''approverKey'', JStr ''did:key:za''), (''enteredNumber'', JStr number)]"

definition grant_doc :: json where
  "grant_doc = oob_doc ''g'' ''grant'' ''did:m'' ''did:m#1'' ''assertionMethod'' [(''requestId'', JStr rid_sample),
     (''approverKey'', JStr ''did:key:za''), (''sessionKey'', JStr ''did:key:zb''), (''origin'', JStr ''https://s''),
     (''contextDigest'', JStr ''z''), (''decision'', JStr ''approve''), (''notAfter'', JInt 5000)]"

text \<open>request, claim, prove, respond, redeem.\<close>

definition sign_in :: "oob_action list" where
  "sign_in = [Arrives (starter_doc ''1'' ''request'') conn_sample (world_sample rid_sample),
     Arrives (wallet_doc ''2'' ''claim'' [(''requestId'', JStr rid_sample)]) conn_sample (world_sample ''2''), Resumes 0 (world_sample []),
     Arrives (wallet_doc ''3'' ''prove'' [(''requestId'', JStr rid_sample), (''identify'', identify_doc ''i'' ''07'')]) conn_sample (world_sample ''3''),
     Resumes 0 (world_sample []),
     Arrives (wallet_doc ''4'' ''respond'' [(''requestId'', JStr rid_sample), (''grant'', grant_doc)]) conn_sample (world_sample ''4''),
     Resumes 0 (world_sample []),
     Arrives (starter_doc ''5'' ''redeem'') conn_sample (world_sample ''5''), Resumes 0 (world_sample []), Resumes 0 (world_sample [])]"

lemma sign_in_runs:
  "distinct (drawn_ids sign_in)"
  "map (\<lambda>(i, x). (i, as_subject x)) (rn_sessions (oob_runs oob_sample sign_in)) = [(rid_sample, ''did:m'')]"
  by code_simp+

theorem oob_session_authorised_witness:
  "\<exists>x. (rid_sample, x) \<in> set (rn_sessions (oob_runs oob_sample sign_in)) \<and> (\<exists>approver number step2 until doc k w.
     opened_by oob_sample (set sign_in) rid_sample (as_session_key x)
   \<and> claimed_by oob_sample (set sign_in) rid_sample approver number
   \<and> proved_by oob_sample (set sign_in) rid_sample (as_session_key x) approver number (as_subject x) step2
   \<and> granted_by oob_sample (set sign_in) rid_sample (as_session_key x) approver (as_subject x) step2 (as_grant x) until
   \<and> sent oob_sample (set sign_in) TaskRedeem doc \<and> request_id_of doc = Inr rid_sample \<and> issuer_of doc = as_session_key x
   \<and> Resumes k w \<in> set sign_in \<and> is_allowed (wd_acl w) (as_subject x)
   \<and> as_not_after x \<le> until \<and> as_not_after x \<le> wd_now w + oc_session_limit (ov_config oob_sample))"
proof -
  obtain x where x: "(rid_sample, x) \<in> set (rn_sessions (oob_runs oob_sample sign_in))"
    using sign_in_runs(2) by (cases "rn_sessions (oob_runs oob_sample sign_in)") auto
  from oob_session_authorised[OF sign_in_runs(1) x] x show ?thesis by blast
qed

text \<open>The record of a sample's only request.\<close>

definition only_record :: "oob_action list \<Rightarrow> oob_record option" where
  "only_record acts = get_request (rn_store (oob_runs oob_sample acts)) rid_sample"

theorem oob_lifecycle_witness:
  "\<exists>r n. only_record (take 1 sign_in) = Some r \<and> only_record (take 3 sign_in) = Some n \<and> or_state r = Pending
     \<and> follows\<^sup>*\<^sup>* (or_state r) (or_state n) \<and> or_state n = Claimed"
proof -
  have "map_option or_state (only_record (take 1 sign_in)) = Some Pending" "map_option or_state (only_record (take 3 sign_in)) = Some Claimed"
    by code_simp+
  then obtain r n where r: "only_record (take 1 sign_in) = Some r" "or_state r = Pending" "only_record (take 3 sign_in) = Some n" "or_state n = Claimed"
    by auto
  have t: "take 3 sign_in = take 1 sign_in @ drop 1 (take 3 sign_in)" by (simp add: sign_in_def)
  have "distinct (drawn_ids (take 3 sign_in))" by code_simp
  then have d: "distinct (drawn_ids (take 1 sign_in @ drop 1 (take 3 sign_in)))" using t by simp
  from oob_lifecycle[OF d, of oob_sample, THEN conjunct1, rule_format, of rid_sample r n] r t
  have "follows\<^sup>*\<^sup>* (or_state r) (or_state n)" by (simp add: only_record_def)
  then show ?thesis using r by blast
qed

section \<open>A second attempt\<close>

text \<open>The number is handed over while a prove with the wrong number is being checked: the failed attempt does not
  decline the request, and a second one succeeds.\<close>

definition second_try :: "oob_action list" where
  "second_try = take 3 sign_in @
    [Arrives (starter_doc ''5'' ''redeem'') conn_sample (world_sample ''5''),
     Arrives (wallet_doc ''6'' ''prove'' [(''requestId'', JStr rid_sample), (''identify'', identify_doc ''j'' ''99'')]) conn_sample (world_sample ''6''),
     Resumes 0 (world_sample []), Resumes 1 (world_sample [])]"

definition third_doc :: oob_action where
  "third_doc = Arrives (wallet_doc ''3'' ''prove'' [(''requestId'', JStr rid_sample), (''identify'', identify_doc ''i'' ''07'')]) conn_sample (world_sample ''3'')"

lemma second_try_runs:
  "distinct (drawn_ids second_try)"
  "map (\<lambda>t. case t of InProve _ _ _ r \<Rightarrow> or_request_id r = rid_sample \<and> or_state r = Claimed | _ \<Rightarrow> False)
     (rn_threads (oob_runs oob_sample second_try)) = [True]"
  "(case oob_resume oob_sample (world_sample []) (hd (rn_threads (oob_runs oob_sample second_try))) (rn_store (oob_runs oob_sample second_try)) of
     (Answered (Inl (code, d)), s') \<Rightarrow> code = NumberMismatch \<and> map_option or_state (get_request s' rid_sample) = Some Claimed | _ \<Rightarrow> False)"
  by code_simp+


theorem delivery_gives_second_attempt:
  "map_option or_state (only_record (second_try @ [Resumes 0 (world_sample [])])) = Some Claimed
   \<and> map_option or_state (only_record (second_try @ [Resumes 0 (world_sample []), third_doc, Resumes 0 (world_sample [])])) = Some Identified"
  by code_simp

end
